(* ===== verification/Prelude.thy ===== *)
theory Prelude
  imports Main "HOL-Library.Word" "HOL-Library.Char_ord" "HOL-Library.List_Lexorder"
begin

text \<open>
  Shared vocabulary of the development: the machine types of the C code, its error codes
  (\<open>libisofs/libisofs.h\<close>), the few functions of \<open>string.h\<close> and \<open>ctype.h\<close> the sources call,
  writing into a byte buffer, and the theorem collections the component theories fill.
  A C string is the \<open>string\<close> of its characters before the terminating NUL; a region of
  memory is a \<open>byte list\<close>.
\<close>

unbundle bit_operations_syntax

named_theorems buffer_simps "reading and writing regions of a byte buffer"
named_theorems shape_intros "well-formedness of a component is kept by its operations"

type_synonym byte = "8 word"
type_synonym u16 = "16 word"
type_synonym u32 = "32 word"
type_synonym u64 = "64 word"

text \<open>The size of a block of the image, in bytes.\<close>

definition BLOCK_SIZE :: nat where
  "BLOCK_SIZE = 2048"

text \<open>The file types of \<open>sys/stat.h\<close>.\<close>

definition S_IFMT :: u32 where "S_IFMT = 0xf000"
definition S_IFDIR :: u32 where "S_IFDIR = 0x4000"
definition S_IFREG :: u32 where "S_IFREG = 0x8000"
definition S_IFLNK :: u32 where "S_IFLNK = 0xa000"

section \<open>Error codes\<close>

text \<open>
  The negative return codes of the modelled functions; \<open>iso_code\<close> is the 32 bit pattern
  that the header gives to each name. The C functions return it as \<open>int\<close>.
\<close>

datatype iso_error =
    ISO_CANCELED
  | ISO_ERROR
  | ISO_ASSERT_FAILURE
  | ISO_NULL_POINTER
  | ISO_OUT_OF_MEM
  | ISO_WRONG_ARG_VALUE
  | ISO_MANGLE_TOO_MUCH_FILES
  | ISO_WRONG_RR
  | ISO_UNSUPPORTED_RR
  | ISO_UNSUPPORTED_SUSP
  | ISO_SUSP_WRONG_CE_SIZE
  | ISO_NAME_NEEDS_TRANSL
  | ISO_RR_NAME_TOO_LONG
  | ISO_RR_NAME_TRUNCATED
  | ISO_MD5_AREA_CORRUPTED
  | ISO_MD5_TAG_MISMATCH
  | ISO_MD5_TAG_UNEXPECTED
  | ISO_MD5_TAG_MISPLACED
  | ISO_MD5_TAG_COPIED
  | ISO_NODE_ALREADY_ADDED
  | ISO_NODE_NAME_NOT_UNIQUE
  | ISO_NODE_NOT_ADDED_TO_DIR
  | ISO_NODE_DOESNT_EXIST
  | ISO_IMAGE_ALREADY_BOOTABLE
  | ISO_BOOT_IMAGE_NOT_VALID
  | ISO_BOOT_NO_CATALOG
  | ISO_RR_NAME_RESERVED
  | ISO_RR_PATH_TOO_LONG
  | ISO_PART_OFFST_TOO_SMALL
  | ISO_LIBJTE_NOT_ENABLED
  | ISO_BAD_PARTITION_NO
  | ISO_BOOT_HFSP_BAD_BSIZE
  | ISO_BAD_GPT_GUID_MODE
  | ISO_XINFO_NO_CLONE
  | ISO_ZISOFS_TOO_LARGE
  | ISO_AAIP_BAD_AASTRING
  | ISO_WRONG_RR_WARN
  | ISO_WRONG_ECMA119
  | ISO_UNSUPPORTED_ECMA119
  | ISO_NO_ROOT_DIR
  | ISO_FILENAME_WRONG_CHARSET
  | ISO_WRONG_PVD
  | ISO_FILE_IS_NOT_DIR
  | ISO_FILE_ALREADY_OPENED
  | ISO_FILE_BAD_PATH
  | ISO_FILE_ERROR
  | ISO_FILE_NOT_OPENED
  | ISO_FILE_IS_DIR
  | ISO_FILE_IS_NOT_SYMLINK
  | ISO_WRONG_EL_TORITO
  | ISO_UNSUPPORTED_EL_TORITO

fun iso_code :: "iso_error \<Rightarrow> u32" where
  "iso_code ISO_CANCELED = 0xE830FFFF"
| "iso_code ISO_ERROR = 0xE830FFFD"
| "iso_code ISO_ASSERT_FAILURE = 0xF030FFFC"
| "iso_code ISO_NULL_POINTER = 0xE830FFFB"
| "iso_code ISO_OUT_OF_MEM = 0xF030FFFA"
| "iso_code ISO_WRONG_ARG_VALUE = 0xE830FFF8"
| "iso_code ISO_MANGLE_TOO_MUCH_FILES = 0xE830FEFF"
| "iso_code ISO_WRONG_RR = 0xE030FEBF"
| "iso_code ISO_UNSUPPORTED_RR = 0xE030FEBE"
| "iso_code ISO_UNSUPPORTED_SUSP = 0xE030FEB8"
| "iso_code ISO_SUSP_WRONG_CE_SIZE = 0xE830FE5D"
| "iso_code ISO_NAME_NEEDS_TRANSL = 0xE830FE8B"
| "iso_code ISO_RR_NAME_TOO_LONG = 0xE830FE87"
| "iso_code ISO_RR_NAME_TRUNCATED = 0xD030FE64"
| "iso_code ISO_MD5_AREA_CORRUPTED = 0xD030FEA0"
| "iso_code ISO_MD5_TAG_MISMATCH = 0xE830FE9F"
| "iso_code ISO_MD5_TAG_UNEXPECTED = 0xD030FE9D"
| "iso_code ISO_MD5_TAG_MISPLACED = 0xD030FE9C"
| "iso_code ISO_MD5_TAG_COPIED = 0xD030FE88"
| "iso_code ISO_NODE_ALREADY_ADDED = 0xE830FFC0"
| "iso_code ISO_NODE_NAME_NOT_UNIQUE = 0xE830FFBF"
| "iso_code ISO_NODE_NOT_ADDED_TO_DIR = 0xE830FFBE"
| "iso_code ISO_NODE_DOESNT_EXIST = 0xE830FFBD"
| "iso_code ISO_IMAGE_ALREADY_BOOTABLE = 0xE830FFBC"
| "iso_code ISO_BOOT_IMAGE_NOT_VALID = 0xE830FFBB"
| "iso_code ISO_BOOT_NO_CATALOG = 0xE830FFB9"
| "iso_code ISO_RR_NAME_RESERVED = 0xE830FE86"
| "iso_code ISO_RR_PATH_TOO_LONG = 0xE830FE85"
| "iso_code ISO_PART_OFFST_TOO_SMALL = 0xE830FE97"
| "iso_code ISO_LIBJTE_NOT_ENABLED = 0xE830FE95"
| "iso_code ISO_BAD_PARTITION_NO = 0xE830FE8F"
| "iso_code ISO_BOOT_HFSP_BAD_BSIZE = 0xE830FE79"
| "iso_code ISO_BAD_GPT_GUID_MODE = 0xE830FE5F"
| "iso_code ISO_XINFO_NO_CLONE = 0xE830FE89"
| "iso_code ISO_ZISOFS_TOO_LARGE = 0xE830FEA6"
| "iso_code ISO_AAIP_BAD_AASTRING = 0xE830FEAC"
| "iso_code ISO_WRONG_RR_WARN = 0xD030FEB7"
| "iso_code ISO_WRONG_ECMA119 = 0xE830FEBD"
| "iso_code ISO_UNSUPPORTED_ECMA119 = 0xE830FEBC"
| "iso_code ISO_NO_ROOT_DIR = 0xF030FE5E"
| "iso_code ISO_FILENAME_WRONG_CHARSET = 0xD020FF72"
| "iso_code ISO_WRONG_PVD = 0xE830FEC0"
| "iso_code ISO_FILE_IS_NOT_DIR = 0xE830FF78"
| "iso_code ISO_FILE_ALREADY_OPENED = 0xE830FF7F"
| "iso_code ISO_FILE_BAD_PATH = 0xE830FF7D"

section \<open>Characters and strings\<close>

definition char_byte :: "char \<Rightarrow> byte" where
  "char_byte c = of_char c"

definition bytes_of :: "string \<Rightarrow> byte list" where
  "bytes_of s = map char_byte s"

lemma length_bytes_of: "length (bytes_of s) = length s"
  by (simp add: bytes_of_def)

lemma unat_char_byte: "unat (char_byte c) = of_char c"
proof -
  have "(of_char c :: nat) < 2 ^ 8" by (cases c) (simp add: of_char_def horner_sum_simps)
  moreover have "char_byte c = of_nat (of_char c)" by (simp only: char_byte_def of_nat_of_char)
  ultimately show ?thesis by (simp add: unsigned_of_nat take_bit_nat_eq_self)
qed

text \<open>\<open>toupper\<close> of the POSIX locale: only the ASCII lower case letters change.\<close>

definition toupper :: "char \<Rightarrow> char" where
  "toupper c = (if CHR ''a'' \<le> c \<and> c \<le> CHR ''z'' then char_of ((of_char c :: nat) - 32) else c)"

text \<open>\<open>strrchr\<close>: the index of the last occurrence.\<close>

definition strrchr :: "string \<Rightarrow> char \<Rightarrow> nat option" where
  "strrchr s c = (if c \<in> set s then Some (length s - 1 - length (takeWhile (\<lambda>x. x \<noteq> c) (rev s)))
                  else None)"

text \<open>\<open>strcmp\<close> is the order of the \<open>unsigned char\<close> sequences, which is the order of
  \<open>List_Lexorder\<close> over \<open>Char_ord\<close>; \<open>strncmp (s, p, length p) == 0\<close> says that \<open>s\<close> starts
  with \<open>p\<close>.\<close>

definition strcmp :: "string \<Rightarrow> string \<Rightarrow> int" where
  "strcmp s t = (if s < t then -1 else if s = t then 0 else 1)"

definition starts_with :: "'a list \<Rightarrow> 'a list \<Rightarrow> bool" where
  "starts_with s p = (take (length p) s = p)"

lemma strcmp_zero [simp]: "strcmp s t = 0 \<longleftrightarrow> s = t"
  by (auto simp: strcmp_def)

lemma strrchr_None [simp]: "strrchr s c = None \<longleftrightarrow> c \<notin> set s"
  by (auto simp: strrchr_def)

lemma strrchr_split:
  assumes "strrchr s c = Some k"
  shows "k < length s \<and> s ! k = c \<and> c \<notin> set (drop (Suc k) s)"
proof -
  from assms have c: "c \<in> set s"
    and k: "k = length s - 1 - length (takeWhile (\<lambda>x. x \<noteq> c) (rev s))"
    by (auto simp: strrchr_def split: if_splits)
  from split_list_last [OF c] obtain ys zs where s: "s = ys @ c # zs" and z: "c \<notin> set zs"
    by blast
  have "takeWhile (\<lambda>x. x \<noteq> c) (rev s) = rev zs"
    unfolding s using z by (subst rev_append) (auto simp: takeWhile_append intro!: takeWhile_eq_all_conv [THEN iffD2])
  with k s have "k = length ys" by simp
  with s z show ?thesis by (simp add: nth_append)
qed

lemma starts_with_simps [simp]:
  "starts_with bs []" "starts_with [] (c # cs) = False"
  "starts_with (b # bs) (c # cs) \<longleftrightarrow> b = c \<and> starts_with bs cs"
  by (simp_all add: starts_with_def)

lemma starts_with_append [simp]: "starts_with (bs @ cs) bs"
  by (simp add: starts_with_def)

section \<open>Decimal numbers\<close>

definition digit_char :: "nat \<Rightarrow> char" where
  "digit_char d = char_of (48 + d)"

fun dec_digits :: "nat \<Rightarrow> string" where
  "dec_digits n = (if n < 10 then [digit_char n] else dec_digits (n div 10) @ [digit_char (n mod 10)])"

declare dec_digits.simps [simp del]

text \<open>The conversion \<open>%0<width>d\<close> of \<open>sprintf\<close>.\<close>

definition zero_pad :: "nat \<Rightarrow> nat \<Rightarrow> string" where
  "zero_pad width n = (let ds = dec_digits n in replicate (width - length ds) CHR ''0'' @ ds)"

lemma length_dec_digits: "0 < w \<Longrightarrow> n < 10 ^ w \<Longrightarrow> length (dec_digits n) \<le> w"
proof (induction n arbitrary: w rule: dec_digits.induct)
  case (1 n)
  show ?case
  proof (cases "n < 10")
    case True
    with 1(2) show ?thesis by (simp add: dec_digits.simps [of n] Suc_le_eq)
  next
    case False
    obtain v where v: "w = Suc v" using 1(2) by (cases w) auto
    have "v \<noteq> 0" using False 1(3) v by (cases v) auto
    moreover have "n div 10 < 10 ^ v" using 1(3) v by auto
    ultimately have "length (dec_digits (n div 10)) \<le> v" using False by (intro 1(1)) auto
    with False v show ?thesis by (simp add: dec_digits.simps [of n])
  qed
qed

lemma length_zero_pad: "0 < w \<Longrightarrow> n < 10 ^ w \<Longrightarrow> length (zero_pad w n) = w"
  using length_dec_digits [of w n] by (simp add: zero_pad_def Let_def)

text \<open>Reading the digits back shows that different numbers give different names.\<close>

definition digits_value :: "string \<Rightarrow> nat" where
  "digits_value s = foldl (\<lambda>v c. 10 * v + (of_char c - 48)) 0 s"

lemma digits_value_snoc: "digits_value (s @ [c]) = 10 * digits_value s + (of_char c - 48)"
  by (simp add: digits_value_def)

lemma of_char_digit: "d < 10 \<Longrightarrow> of_char (digit_char d) = (48 + d :: nat)"
  by (simp add: digit_char_def of_char_of take_bit_eq_mod)

lemma digits_value_dec: "digits_value (dec_digits n) = n"
proof (induction n rule: dec_digits.induct)
  case (1 n)
  then show ?case
    by (cases "n < 10") (simp_all add: of_char_digit dec_digits.simps [of n] digits_value_snoc digits_value_def [of "[_]"])
qed

lemma digits_value_zeros: "digits_value (replicate k CHR ''0'' @ s) = digits_value s"
  by (induction k) (simp_all add: digits_value_def)

lemma zero_pad_inject: "zero_pad w m = zero_pad w n \<Longrightarrow> m = n"
  by (metis digits_value_zeros digits_value_dec zero_pad_def)

lemma digit_char_not_dot: "n < 10 \<Longrightarrow> digit_char n \<noteq> CHR ''.''"
proof
  assume "n < 10" and dot: "digit_char n = CHR ''.''"
  then have "of_char (CHR ''.'') = (48 + n :: nat)" using of_char_digit by metis
  then show False by simp
qed

lemma dec_digits_not_dot: "CHR ''.'' \<notin> set (dec_digits n)"
proof (induction n rule: dec_digits.induct)
  case (1 n)
  show ?case
  proof (cases "n < 10")
    case True
    with digit_char_not_dot [of n] show ?thesis by (subst dec_digits.simps) auto
  next
    case False
    with 1 digit_char_not_dot [of "n mod 10"] show ?thesis by (subst dec_digits.simps) auto
  qed
qed

lemma set_dec_digits: "c \<in> set (dec_digits n) \<Longrightarrow> \<exists>d < 10. c = digit_char d"
proof (induction n rule: dec_digits.induct)
  case (1 n)
  show ?case
  proof (cases "n < 10")
    case True
    with 1(2) show ?thesis by (subst (asm) dec_digits.simps) auto
  next
    case False
    with 1(2) have "c \<in> set (dec_digits (n div 10)) \<or> c = digit_char (n mod 10)"
      by (subst (asm) dec_digits.simps) auto
    with 1(1) [OF False] show ?thesis by (metis mod_less_divisor zero_less_numeral)
  qed
qed

lemma set_zero_pad: "c \<in> set (zero_pad w n) \<Longrightarrow> \<exists>d < 10. c = digit_char d"
proof -
  assume "c \<in> set (zero_pad w n)"
  then have "c = CHR ''0'' \<or> c \<in> set (dec_digits n)" by (auto simp: zero_pad_def Let_def)
  moreover have "CHR ''0'' = digit_char 0" by code_simp
  ultimately show ?thesis using set_dec_digits by (metis zero_less_numeral)
qed

lemma uint_digit: "d < 10 \<Longrightarrow> uint (char_byte (digit_char d)) = 48 + int d"
proof -
  assume d: "d < 10"
  have "(of_char (digit_char d) :: byte) = of_nat (of_char (digit_char d))" by (simp only: of_nat_of_char)
  also have "\<dots> = of_nat (48 + d)" using of_char_digit [OF d] by simp
  finally have c: "char_byte (digit_char d) = of_nat (48 + d)" by (simp only: char_byte_def)
  have "uint (of_nat n :: byte) = int n" if "n < 256" for n
    using that by (simp add: unsigned_of_nat take_bit_nat_eq_self)
  from this [of "48 + d"] d show ?thesis unfolding c by simp
qed

section \<open>Writing into a buffer\<close>

definition buf_put :: "'a list \<Rightarrow> nat \<Rightarrow> 'a list \<Rightarrow> 'a list" where
  "buf_put buf p bs = take p buf @ bs @ drop (p + length bs) buf"

lemma length_buf_put [simp]:
  "p + length bs \<le> length buf \<Longrightarrow> length (buf_put buf p bs) = length buf"
  by (simp add: buf_put_def)

lemma buf_put_Nil [simp]: "buf_put buf p [] = buf"
  by (simp add: buf_put_def)

lemma buf_put_inside [buffer_simps]:
  "p + length bs \<le> length buf \<Longrightarrow> take (length bs) (drop p (buf_put buf p bs)) = bs"
  by (simp add: buf_put_def)

lemma nth_buf_put:
  "p + length bs \<le> length buf \<Longrightarrow> k < length buf \<Longrightarrow>
     buf_put buf p bs ! k = (if p \<le> k \<and> k < p + length bs then bs ! (k - p) else buf ! k)"
  by (auto simp: buf_put_def nth_append min_def)

lemma buf_put_before [buffer_simps]:
  "p + length bs \<le> length buf \<Longrightarrow> n \<le> p \<Longrightarrow> take n (buf_put buf p bs) = take n buf"
  by (simp add: buf_put_def)

lemma buf_put_after [buffer_simps]:
  "p + length bs \<le> length buf \<Longrightarrow> p + length bs \<le> n \<Longrightarrow> drop n (buf_put buf p bs) = drop n buf"
  by (simp add: buf_put_def)

lemma buf_put_snoc:
  "p + length bs < length buf \<Longrightarrow>
     (buf_put buf p bs)[p + length bs := b] = buf_put buf p (bs @ [b])"
  by (rule nth_equalityI) (auto simp: nth_buf_put nth_list_update nth_append)

lemma buf_put_cons:
  "0 < p \<Longrightarrow> p + length bs \<le> length buf \<Longrightarrow>
     (buf_put buf p bs)[p - 1 := b] = buf_put buf (p - 1) (b # bs)"
  by (rule nth_equalityI) (auto simp: nth_buf_put nth_list_update nth_Cons')

end
