(* ===== verification/Bytes.thy ===== *)
theory Bytes
  imports Prelude
begin

text \<open>
  The integer fields of ISO 9660 structures (\<open>libisofs/util.c\<close>): little endian, big endian
  and both-endian numbers written into and read from a byte buffer. The loops of the C code
  are folds over their index; the buffer pointer is the buffer and an offset.
\<close>

section \<open>The code\<close>

definition iso_lsb :: "byte list \<Rightarrow> nat \<Rightarrow> u32 \<Rightarrow> nat \<Rightarrow> byte list" where
  "iso_lsb buf p num bytes =
     foldl (\<lambda>b i. b[p + i := ucast (drop_bit (8 * i) num AND 0xff)]) buf [0..<bytes]"

definition iso_lsb64 :: "byte list \<Rightarrow> nat \<Rightarrow> u64 \<Rightarrow> byte list" where
  "iso_lsb64 buf p num =
     foldl (\<lambda>b i. b[p + i := ucast (drop_bit (8 * i) num AND 0xff)]) buf [0..<8]"

definition iso_msb :: "byte list \<Rightarrow> nat \<Rightarrow> u32 \<Rightarrow> nat \<Rightarrow> byte list" where
  "iso_msb buf p num bytes =
     foldl (\<lambda>b i. b[p + (bytes - 1 - i) := ucast (drop_bit (8 * i) num AND 0xff)]) buf [0..<bytes]"

definition iso_bb :: "byte list \<Rightarrow> nat \<Rightarrow> u32 \<Rightarrow> nat \<Rightarrow> byte list" where
  "iso_bb buf p num bytes = iso_msb (iso_lsb buf p num bytes) (p + bytes) num bytes"

text \<open>The variant that advances its write pointer returns the buffer and the new offset.\<close>

definition iso_lsb_to_buf :: "byte list \<Rightarrow> nat \<Rightarrow> u32 \<Rightarrow> nat \<Rightarrow> byte list \<times> nat" where
  "iso_lsb_to_buf buf wpt value bytes =
     foldl (\<lambda>(b, w) i. (b[w := ucast (drop_bit (8 * i) value AND 0xff)], w + 1)) (buf, wpt) [0..<bytes]"

definition iso_read_lsb :: "byte list \<Rightarrow> nat \<Rightarrow> nat \<Rightarrow> u32" where
  "iso_read_lsb buf p bytes =
     foldl (\<lambda>ret i. ret + push_bit (i * 8) (ucast (buf ! (p + i)))) 0 [0..<bytes]"

definition iso_read_msb :: "byte list \<Rightarrow> nat \<Rightarrow> nat \<Rightarrow> u32" where
  "iso_read_msb buf p bytes =
     foldl (\<lambda>ret i. ret + push_bit (i * 8) (ucast (buf ! (p + (bytes - i - 1))))) 0 [0..<bytes]"

definition iso_read_bb :: "byte list \<Rightarrow> nat \<Rightarrow> nat \<Rightarrow> u32 \<times> bool" where
  "iso_read_bb buf p bytes =
     (let v1 = iso_read_lsb buf p bytes; v2 = iso_read_msb buf (p + bytes) bytes
      in (v1, v1 \<noteq> v2))"

definition iso_read_lsb64 :: "byte list \<Rightarrow> nat \<Rightarrow> u64" where
  "iso_read_lsb64 buf p =
     foldl (\<lambda>ret i. ret + push_bit (i * 8) (ucast (buf ! (p + i)))) 0 [0..<8]"

definition iso_read_msb64 :: "byte list \<Rightarrow> nat \<Rightarrow> u64" where
  "iso_read_msb64 buf p =
     foldl (\<lambda>ret i. ret + push_bit (i * 8) (ucast (buf ! (p + (7 - i))))) 0 [0..<8]"

section \<open>Bytes of a word, least significant first\<close>

definition le_bytes :: "'a::len word \<Rightarrow> nat \<Rightarrow> byte list" where
  "le_bytes num n = map (\<lambda>i. ucast (drop_bit (8 * i) num)) [0..<n]"

definition le_val :: "byte list \<Rightarrow> nat \<Rightarrow> 'a::len word" where
  "le_val bs n = foldl (\<lambda>ret i. ret + push_bit (i * 8) (ucast (bs ! i))) 0 [0..<n]"

lemma length_le_bytes [simp]: "length (le_bytes num n) = n"
  by (simp add: le_bytes_def)

lemma le_bytes_Suc: "le_bytes num (Suc n) = le_bytes num n @ [ucast (drop_bit (8 * n) num)]"
  by (simp add: le_bytes_def)

lemma ucast_and_ff: "(ucast (x AND 0xff) :: byte) = ucast (x :: 'a::len word)"
proof -
  have "x AND 0xff = take_bit 8 x" by (simp add: take_bit_eq_mask mask_eq_exp_minus_1)
  moreover have "(ucast (take_bit 8 x) :: byte) = ucast x"
    by (rule bit_word_eqI) (auto simp: bit_simps dest: bit_imp_le_length)
  ultimately show ?thesis by simp
qed

lemma le_val_Suc:
  "le_val bs (Suc n) = le_val bs n + push_bit (n * 8) (ucast (bs ! n))"
  by (simp add: le_val_def)

lemma bit_le_val:
  "bit (le_val bs n :: 'a::len word) k \<longleftrightarrow>
     k < LENGTH('a) \<and> k < 8 * n \<and> bit (bs ! (k div 8)) (k mod 8)"
proof (induction n arbitrary: k)
  case 0
  then show ?case by (simp add: le_val_def)
next
  case (Suc n)
  let ?hi = "push_bit (n * 8) (ucast (bs ! n)) :: 'a word"
  have hi: "bit ?hi j \<longleftrightarrow> j < LENGTH('a) \<and> 8 * n \<le> j \<and> j < 8 * n + 8 \<and> bit (bs ! n) (j - 8 * n)" for j
    by (auto simp: bit_simps mult.commute dest: bit_imp_le_length)
  have lo_or_hi: "le_val bs n + ?hi = le_val bs n OR ?hi"
    by (rule disjunctive_add) (auto simp: Suc.IH hi)
  have "bit (le_val bs (Suc n) :: 'a word) k \<longleftrightarrow> bit (le_val bs n OR ?hi) k"
    by (simp only: le_val_Suc lo_or_hi)
  also have "\<dots> \<longleftrightarrow> bit (le_val bs n :: 'a word) k \<or> bit ?hi k"
    by (simp add: bit_or_iff)
  also have "\<dots> \<longleftrightarrow> k < LENGTH('a) \<and> k < 8 * Suc n \<and> bit (bs ! (k div 8)) (k mod 8)"
  proof -
    consider (low) "k < 8 * n" | (here) "8 * n \<le> k" "k < 8 * n + 8" | (high) "8 * n + 8 \<le> k"
      by linarith
    then show ?thesis
    proof cases
      case low
      then have "k < 8 * Suc n" by simp
      moreover from low have "\<not> 8 * n \<le> k" by simp
      ultimately show ?thesis using low unfolding Suc.IH hi by blast
    next
      case here
      define r where "r = k - 8 * n"
      have k: "k = 8 * n + r" and r: "r < 8" using here by (simp_all add: r_def)
      have d: "k div 8 = n" and m: "k mod 8 = k - 8 * n" unfolding k using r by simp_all
      from here have "\<not> k < 8 * n" and "k < 8 * Suc n" by simp_all
      with here show ?thesis unfolding Suc.IH hi d m by blast
    next
      case high
      then have "\<not> k < 8 * n" and "\<not> k < 8 * n + 8" and "\<not> k < 8 * Suc n" by simp_all
      then show ?thesis unfolding Suc.IH hi by blast
    qed
  qed
  finally show ?case .
qed

lemma nth_le_bytes [simp]: "i < n \<Longrightarrow> le_bytes num n ! i = ucast (drop_bit (8 * i) num)"
  by (simp add: le_bytes_def)

text \<open>Decoding the bytes of a word gives its low bytes back, and encoding what was read
  gives the bytes back.\<close>

lemma le_val_le_bytes: "le_val (le_bytes num n) n = take_bit (8 * n) (num :: 'a::len word)"
proof (rule bit_word_eqI)
  fix k assume "k < LENGTH('a)"
  moreover have "k < 8 * n \<Longrightarrow> le_bytes num n ! (k div 8) = ucast (drop_bit (8 * (k div 8)) num)"
    by (rule nth_le_bytes) (simp add: less_mult_imp_div_less mult.commute)
  moreover have "8 * (k div 8) + k mod 8 = k" by simp
  ultimately show "bit (le_val (le_bytes num n) n :: 'a word) k \<longleftrightarrow> bit (take_bit (8 * n) num) k"
    by (auto simp: bit_le_val bit_simps)
qed

lemma le_bytes_le_val:
  assumes "length bs = n" and "8 * n \<le> LENGTH('a)"
  shows "le_bytes (le_val bs n :: 'a::len word) n = bs"
proof (rule nth_equalityI)
  show "length (le_bytes (le_val bs n :: 'a word) n) = length bs" using assms by simp
next
  fix i assume "i < length (le_bytes (le_val bs n :: 'a word) n)"
  then have i: "i < n" by simp
  show "le_bytes (le_val bs n :: 'a word) n ! i = bs ! i"
  proof (rule bit_word_eqI)
    fix k assume k: "k < LENGTH(8)"
    have "(8 * i + k) div 8 = i" and "(8 * i + k) mod 8 = k" using k by simp_all
    then show "bit (le_bytes (le_val bs n :: 'a word) n ! i) k \<longleftrightarrow> bit (bs ! i) k"
      using i k assms(2) by (auto simp: bit_le_val bit_simps)
  qed
qed

lemma le_val_cong: "(\<And>i. i < n \<Longrightarrow> bs ! i = cs ! i) \<Longrightarrow> le_val bs n = le_val cs n"
  unfolding le_val_def by (rule foldl_cong) auto

section \<open>The loops write and read these bytes\<close>

lemma put_loop:
  "p + n \<le> length buf \<Longrightarrow>
     foldl (\<lambda>b i. b[p + i := ucast (drop_bit (8 * i) num AND 0xff)]) buf [0..<n] =
     buf_put buf p (le_bytes (num :: 'a::len word) n)"
  by (induction n) (simp_all add: le_bytes_def ucast_and_ff buf_put_snoc
    [where bs = "map _ [0..<_]", simplified])

lemma iso_lsb_put:
  "p + n \<le> length buf \<Longrightarrow> iso_lsb buf p num n = buf_put buf p (le_bytes num n)"
  by (simp add: iso_lsb_def put_loop)

lemma iso_lsb64_put:
  "p + 8 \<le> length buf \<Longrightarrow> iso_lsb64 buf p num = buf_put buf p (le_bytes num 8)"
  unfolding iso_lsb64_def by (rule put_loop)

lemma put_loop_back:
  "p + n \<le> length buf \<Longrightarrow> m \<le> n \<Longrightarrow>
     foldl (\<lambda>b i. b[p + (n - 1 - i) := ucast (drop_bit (8 * i) num AND 0xff)]) buf [0..<m] =
     buf_put buf (p + (n - m)) (rev (le_bytes (num :: 'a::len word) m))"
proof (induction m)
  case 0
  then show ?case by (simp add: le_bytes_def)
next
  case (Suc m)
  have "(buf_put buf (p + (n - m)) (rev (le_bytes num m)))[p + (n - m) - 1 := b] =
      buf_put buf (p + (n - m) - 1) (b # rev (le_bytes num m))" for b
    using Suc.prems by (intro buf_put_cons) simp_all
  moreover have "p + (n - 1 - m) = p + (n - m) - 1" and "p + (n - Suc m) = p + (n - m) - 1"
    using Suc.prems by simp_all
  ultimately show ?case using Suc by (simp only: upt_Suc foldl_append foldl.simps) 
    (simp add: le_bytes_Suc ucast_and_ff)
qed

lemma iso_msb_put:
  "p + n \<le> length buf \<Longrightarrow> iso_msb buf p num n = buf_put buf p (rev (le_bytes num n))"
  using put_loop_back [of p n buf n num] by (simp add: iso_msb_def)

lemma iso_lsb_to_buf_put:
  "p + n \<le> length buf \<Longrightarrow> iso_lsb_to_buf buf p num n = (iso_lsb buf p num n, p + n)"
  by (induction n) (simp_all add: iso_lsb_to_buf_def iso_lsb_def)

lemma iso_read_lsb_val:
  "iso_read_lsb buf p n = le_val (drop p buf) n" if "p + n \<le> length buf"
  unfolding iso_read_lsb_def le_val_def using that by (intro foldl_cong) auto

lemma iso_read_lsb64_val:
  "iso_read_lsb64 buf p = le_val (drop p buf) 8" if "p + 8 \<le> length buf"
  unfolding iso_read_lsb64_def le_val_def using that by (intro foldl_cong) auto

lemma iso_read_msb_val:
  "iso_read_msb buf p n = le_val (rev (take n (drop p buf))) n" if "p + n \<le> length buf"
  unfolding iso_read_msb_def le_val_def using that by (intro foldl_cong) (auto simp: rev_nth)

lemma iso_read_msb64_val:
  "iso_read_msb64 buf p = le_val (rev (take 8 (drop p buf))) 8" if "p + 8 \<le> length buf"
  unfolding iso_read_msb64_def le_val_def using that by (intro foldl_cong) (auto simp: rev_nth)

lemma le_val_take: "le_val (take n bs) n = le_val bs n"
  by (rule le_val_cong) simp

section \<open>The interface of a number field\<close>

text \<open>
  What the readers and writers of ISO structures rely on: a writer replaces the \<open>n\<close> bytes of
  its field and nothing else, a reader looks at these bytes only, reading after writing gives
  the value cut to the width, and writing back what was read changes nothing.
\<close>

locale field_codec =
  fixes put :: "byte list \<Rightarrow> nat \<Rightarrow> u32 \<Rightarrow> nat \<Rightarrow> byte list"
    and get :: "byte list \<Rightarrow> nat \<Rightarrow> nat \<Rightarrow> u32"
    and code :: "u32 \<Rightarrow> nat \<Rightarrow> byte list"
  assumes code_len: "length (code v n) = n"
    and put_code: "p + n \<le> length buf \<Longrightarrow> put buf p v n = buf_put buf p (code v n)"
    and get_code: "p + n \<le> length buf \<Longrightarrow> take n (drop p buf) = code v n \<Longrightarrow>
                     get buf p n = take_bit (8 * n) v"
    and code_get: "p + n \<le> length buf \<Longrightarrow> n \<le> 4 \<Longrightarrow> code (get buf p n) n = take n (drop p buf)"
begin

lemma put_length: "p + n \<le> length buf \<Longrightarrow> length (put buf p v n) = length buf"
  by (simp add: put_code code_len)

lemma get_put: "p + n \<le> length buf \<Longrightarrow> get (put buf p v n) p n = take_bit (8 * n) v"
  by (rule get_code) (simp_all add: put_code code_len buf_put_inside [where bs = "code v n", simplified code_len])

lemma put_get: "p + n \<le> length buf \<Longrightarrow> n \<le> 4 \<Longrightarrow> put buf p (get buf p n) n = buf"
  by (simp add: put_code code_get buf_put_def)
     (metis append_take_drop_id drop_drop add.commute length_take min.absorb2 le_diff_conv2
        length_drop le_add1 order_trans)

lemma put_outside:
  "p + n \<le> length buf \<Longrightarrow> k < length buf \<Longrightarrow> k < p \<or> p + n \<le> k \<Longrightarrow> put buf p v n ! k = buf ! k"
  by (auto simp: put_code code_len nth_buf_put)

lemma get_inj:
  "p + n \<le> length a \<Longrightarrow> p + n \<le> length b \<Longrightarrow> n \<le> 4 \<Longrightarrow>
     get a p n = get b p n \<longleftrightarrow> take n (drop p a) = take n (drop p b)"
  by (metis code_get get_code)

end

interpretation lsb: field_codec iso_lsb iso_read_lsb le_bytes
proof
  fix p n and buf :: "byte list" and v :: u32
  assume len: "p + n \<le> length buf"
  show "iso_lsb buf p v n = buf_put buf p (le_bytes v n)" using len by (rule iso_lsb_put)
  show "iso_read_lsb buf p n = take_bit (8 * n) v" if "take n (drop p buf) = le_bytes v n"
  proof -
    have "le_val (drop p buf) n = (le_val (le_bytes v n) n :: u32)"
      unfolding that [symmetric] by (rule le_val_take [symmetric])
    then show ?thesis by (simp add: iso_read_lsb_val [OF len] le_val_le_bytes)
  qed
  show "le_bytes (iso_read_lsb buf p n) n = take n (drop p buf)" if "n \<le> 4"
    using len that le_bytes_le_val [where 'a = 32, of "take n (drop p buf)" n]
    by (simp add: iso_read_lsb_val le_val_take)
qed simp

interpretation msb: field_codec iso_msb iso_read_msb "\<lambda>v n. rev (le_bytes v n)"
proof
  fix p n and buf :: "byte list" and v :: u32
  assume len: "p + n \<le> length buf"
  show "iso_msb buf p v n = buf_put buf p (rev (le_bytes v n))" using len by (rule iso_msb_put)
  show "iso_read_msb buf p n = take_bit (8 * n) v" if "take n (drop p buf) = rev (le_bytes v n)"
    using that by (simp add: iso_read_msb_val [OF len] le_val_le_bytes)
  show "rev (le_bytes (iso_read_msb buf p n) n) = take n (drop p buf)" if "n \<le> 4"
    using len that le_bytes_le_val [where 'a = 32, of "rev (take n (drop p buf))" n]
    by (simp add: iso_read_msb_val)
qed simp

text \<open>
  A both-endian field is a little endian field followed by a big endian one. The laws of the
  two codecs give its own, whatever the codecs are.
\<close>

locale both_endian =
  lo: field_codec put_lo get_lo code_lo + hi: field_codec put_hi get_hi code_hi
  for put_lo get_lo code_lo put_hi get_hi code_hi
begin

abbreviation put_both :: "byte list \<Rightarrow> nat \<Rightarrow> u32 \<Rightarrow> nat \<Rightarrow> byte list" where
  "put_both buf p v n \<equiv> put_hi (put_lo buf p v n) (p + n) v n"

lemma both_length: "p + 2 * n \<le> length buf \<Longrightarrow> length (put_both buf p v n) = length buf"
  by (simp add: hi.put_length lo.put_length)

lemma both_code:
  assumes "p + 2 * n \<le> length buf"
  shows "put_both buf p v n = buf_put buf p (code_lo v n @ code_hi v n)"
  using assms by (simp add: hi.put_code lo.put_code lo.code_len hi.code_len buf_put_def)
    (simp add: add.left_commute add.commute)

lemma both_get_lo: "p + 2 * n \<le> length buf \<Longrightarrow> get_lo (put_both buf p v n) p n = take_bit (8 * n) v"
  by (rule lo.get_code) (simp_all add: both_length both_code buf_put_def lo.code_len)

lemma both_get_hi:
  "p + 2 * n \<le> length buf \<Longrightarrow> get_hi (put_both buf p v n) (p + n) n = take_bit (8 * n) v"
  by (rule hi.get_put) (simp add: lo.put_length)

lemma both_outside:
  "p + 2 * n \<le> length buf \<Longrightarrow> k < length buf \<Longrightarrow> k < p \<or> p + 2 * n \<le> k \<Longrightarrow>
     put_both buf p v n ! k = buf ! k"
  by (auto simp: hi.put_outside lo.put_outside lo.put_length)

end

interpretation bb: both_endian iso_lsb iso_read_lsb le_bytes iso_msb iso_read_msb "\<lambda>v n. rev (le_bytes v n)"
  by unfold_locales

section \<open>Host byte order and length-prefixed numbers\<close>

text \<open>\<open>iso_ntohs\<close> and \<open>iso_htons\<close> read and write the memory of a \<open>uint16_t\<close>; the host is little
  endian.\<close>

definition iso_ntohs :: "u16 \<Rightarrow> u16" where
  "iso_ntohs v = ucast (iso_read_msb (le_bytes v 2) 0 2)"

definition iso_htons :: "u16 \<Rightarrow> u16" where
  "iso_htons v = le_val (iso_msb [0, 0] 0 (ucast v) 2) 2"

text \<open>The loop that counts the significant bytes of a number, at most four.\<close>

fun sig_bytes :: "nat \<Rightarrow> u32 \<Rightarrow> nat" where
  "sig_bytes 0 x = 0"
| "sig_bytes (Suc i) x = (if x = 0 then 0 else Suc (sig_bytes i (drop_bit 8 x)))"

text \<open>The bytes that \<open>iso_util_encode_len_bytes\<close> writes from \<open>buffer\<close> on; their number is
  \<open>result_len\<close>.\<close>

definition iso_util_encode_len_bytes :: "u32 \<Rightarrow> int \<Rightarrow> byte list" where
  "iso_util_encode_len_bytes data data_len =
     (let l = (if data_len \<le> 0 then (let i = sig_bytes 4 data in if i = 0 then 1 else i)
               else nat data_len)
      in word_of_nat l # map (\<lambda>i. ucast (drop_bit (8 * (l - i - 1)) data)) [0..<l])"

text \<open>The decoded number and \<open>data_len\<close>.\<close>

definition iso_util_decode_len_bytes :: "byte list \<Rightarrow> nat \<Rightarrow> u32 \<times> nat" where
  "iso_util_decode_len_bytes buffer buffer_len =
     (let n0 = unat (buffer ! 0);
          n = (if n0 > buffer_len - 1 then buffer_len - 1 else n0)
      in (foldl (\<lambda>d i. push_bit 8 d OR ucast (buffer ! i)) 0 [1..<n + 1], n))"

lemma sig_bytes_le: "sig_bytes i x \<le> i"
  by (induction i x rule: sig_bytes.induct) auto

lemma sig_bytes_all: "drop_bit (8 * i) x = 0 \<Longrightarrow> drop_bit (8 * sig_bytes i x) x = 0"
proof (induction i x rule: sig_bytes.induct)
  case (2 i x)
  then show ?case by (simp add: drop_bit_drop_bit add.commute)
qed simp

lemma be_fold_val:
  "foldl (\<lambda>d b. push_bit 8 d OR ucast b) 0 bs = (le_val (rev bs) (length bs) :: 'a::len word)"
proof (induction bs rule: rev_induct)
  case Nil
  then show ?case by (simp add: le_val_def)
next
  case (snoc b bs)
  have "bit (push_bit 8 (le_val (rev bs) (length bs)) OR ucast b :: 'a word) k \<longleftrightarrow>
        bit (le_val (b # rev bs) (Suc (length bs)) :: 'a word) k" if k: "k < LENGTH('a)" for k
  proof (cases "k < 8")
    case True
    with k show ?thesis by (simp add: bit_le_val bit_simps)
  next
    case False
    then obtain j where j: "k = j + 8" by (metis add.commute le_Suc_ex not_less)
    have "\<not> bit b k" using False by (auto dest: bit_imp_le_length)
    moreover have "k div 8 = Suc (j div 8)" and "k mod 8 = j mod 8" and "k - 8 = j" using j by simp_all
    ultimately show ?thesis using k False by (auto simp: bit_le_val bit_simps)
  qed
  then show ?case by (simp add: snoc.IH bit_word_eqI)
qed

lemma encode_len_bytes_eq:
  "iso_util_encode_len_bytes data 0 =
     (let l = max 1 (sig_bytes 4 data) in word_of_nat l # rev (le_bytes data l))"
proof -
  have "map (\<lambda>i. ucast (drop_bit (8 * (l - i - 1)) data)) [0..<l] = rev (le_bytes data l)" for l
    by (rule nth_equalityI) (simp_all add: rev_nth)
  moreover have "(if sig_bytes 4 data = 0 then 1 else sig_bytes 4 data) = max 1 (sig_bytes 4 data)"
    by simp
  ultimately show ?thesis by (simp add: iso_util_encode_len_bytes_def Let_def del: One_nat_def)
qed

lemma iso_ntohs_htons: "iso_ntohs (iso_htons v) = v"
proof -
  have len: "0 + 2 \<le> length [0, 0 :: byte]" by simp
  define b where "b = iso_msb [0, 0] 0 (ucast v) 2"
  have "length b = 2" using msb.put_length [OF len] by (simp add: b_def)
  then have "le_bytes (iso_htons v) 2 = b"
    unfolding iso_htons_def b_def [symmetric] by (intro le_bytes_le_val) simp_all
  moreover have "iso_read_msb b 0 2 = take_bit 16 (ucast v)"
    using msb.get_put [OF len, of "ucast v"] by (simp add: b_def)
  ultimately have "iso_ntohs (iso_htons v) = ucast (take_bit 16 (ucast v) :: u32)"
    by (simp add: iso_ntohs_def)
  also have "\<dots> = v" by (rule bit_word_eqI) (simp add: bit_simps)
  finally show ?thesis .
qed

lemma fold_nth_map: "foldl (\<lambda>d i. f d (xs ! i)) a [m..<n] = foldl f a (map ((!) xs) [m..<n])"
  by (simp add: foldl_map)

section \<open>Properties\<close>

text \<open>C1: a number of at most 4 bytes written as a both-endian field is read back from it
  by \<open>iso_read_bb\<close>, cut to the width of the field, with no mismatch reported.\<close>

theorem iso_bb_roundtrip:
  "p + 2 * n \<le> length buf \<Longrightarrow> n \<le> 4 \<Longrightarrow>
     iso_read_bb (iso_bb buf p v n) p n = (take_bit (8 * n) v, False)"
  by (simp add: iso_read_bb_def iso_bb_def bb.both_get_lo bb.both_get_hi)

theorem iso_bb_roundtrip_witness:
  "iso_read_bb (iso_bb (replicate 10 0xAA) 1 0x12345678 4) 1 4 = (0x12345678, False)"
proof -
  have "(1::nat) + 2 * 4 \<le> length (replicate 10 (0xAA :: byte))" and "(4::nat) \<le> 4" by simp_all
  from iso_bb_roundtrip [OF this, of "0x12345678"] show ?thesis
    by (simp add: take_bit_eq_mask mask_eq_exp_minus_1)
qed

text \<open>C2: \<open>iso_read_bb\<close> reports a damaged field exactly when the big endian half is not the
  mirror image of the little endian half.\<close>

theorem iso_read_bb_detects:
  assumes "p + 2 * n \<le> length buf" and "n \<le> 4"
  shows "snd (iso_read_bb buf p n) \<longleftrightarrow> take n (drop (p + n) buf) \<noteq> rev (take n (drop p buf))"
proof -
  let ?lo = "take n (drop p buf)" and ?hi = "take n (drop (p + n) buf)"
  have lo: "le_bytes (iso_read_lsb buf p n) n = ?lo" and
    hi: "rev (le_bytes (iso_read_msb buf (p + n) n) n) = ?hi"
    using assms by (simp_all add: lsb.code_get msb.code_get)
  have "iso_read_msb buf (p + n) n = take_bit (8 * n) (iso_read_lsb buf p n)" if "?hi = rev ?lo"
    using assms that by (intro msb.get_code) (simp_all add: lo)
  moreover have "iso_read_lsb buf p n = take_bit (8 * n) (iso_read_lsb buf p n)"
    using assms by (intro lsb.get_code) (simp_all add: lo)
  moreover have "?hi = rev ?lo" if "iso_read_lsb buf p n = iso_read_msb buf (p + n) n"
    using that lo hi by metis
  ultimately show ?thesis by (auto simp: iso_read_bb_def Let_def)
qed

theorem iso_read_bb_detects_witness:
  "snd (iso_read_bb [1, 2, 2, 1] 0 2) = False \<and> snd (iso_read_bb [1, 2, 2, 9] 0 2) = True"
  using iso_read_bb_detects [of 0 2 "[1, 2, 2, 1]"] iso_read_bb_detects [of 0 2 "[1, 2, 2, 9]"]
  by simp

text \<open>C3: the length-prefixed form of any 32 bit number (used for AAIP and checksum attributes)
  decodes to that number, from any buffer that holds all its bytes.\<close>

theorem len_bytes_roundtrip:
  assumes "length (iso_util_encode_len_bytes data 0) \<le> buffer_len"
  shows "iso_util_decode_len_bytes (iso_util_encode_len_bytes data 0 @ rest) buffer_len =
     (data, length (iso_util_encode_len_bytes data 0) - 1)"
proof -
  define l where "l = max 1 (sig_bytes 4 data)"
  have l4: "l \<le> 4" using sig_bytes_le [of 4 data] by (simp add: l_def)
  have enc: "iso_util_encode_len_bytes data 0 = word_of_nat l # rev (le_bytes data l)"
    by (simp add: encode_len_bytes_eq l_def Let_def)
  have l8: "unat (word_of_nat l :: byte) = l" using l4 by (simp add: unat_of_nat)
  have all: "take_bit (8 * l) data = data"
  proof -
    have "drop_bit (8 * sig_bytes 4 data) data = 0"
      by (rule sig_bytes_all) (simp add: drop_bit_eq_zero_iff_not_bit_last bit_eq_iff bit_simps bit_imp_le_length)
    then have "drop_bit (8 * l) data = 0"
      by (cases "sig_bytes 4 data = 0") (simp_all add: l_def max_def)
    then show ?thesis by (metis bits_ident add_0 push_bit_of_0)
  qed
  have body: "map ((!) (word_of_nat l # rev (le_bytes data l) @ rest)) [1..<l + 1] = rev (le_bytes data l)"
    by (rule nth_equalityI) (simp_all add: nth_append del: upt_Suc)
  have "iso_util_decode_len_bytes (iso_util_encode_len_bytes data 0 @ rest) buffer_len =
      (foldl (\<lambda>d b. push_bit 8 d OR ucast b) 0 (rev (le_bytes data l)), l)"
    using assms unfolding iso_util_decode_len_bytes_def enc Let_def
    by (simp only: fold_nth_map [where f = "\<lambda>d b. push_bit 8 d OR ucast b"] append_Cons nth_Cons_0 l8)
       (simp add: body [simplified])
  then show ?thesis by (simp add: be_fold_val le_val_le_bytes all enc)
qed

theorem len_bytes_roundtrip_witness:
  "iso_util_decode_len_bytes (iso_util_encode_len_bytes 0x1234 0 @ [7]) 10 = (0x1234, 2)"
proof -
  have e: "iso_util_encode_len_bytes 0x1234 0 = [2, 0x12, 0x34]" by code_simp
  have "length (iso_util_encode_len_bytes 0x1234 0) \<le> 10" by (simp add: e)
  from len_bytes_roundtrip [OF this, of "[7]"] show ?thesis by (simp add: e)
qed

section \<open>Both-endian fields inside of a list of bytes\<close>

definition bb_bytes :: "u32 \<Rightarrow> nat \<Rightarrow> byte list" where
  "bb_bytes v n = le_bytes v n @ rev (le_bytes v n)"

lemma length_bb_bytes [simp]: "length (bb_bytes v n) = 2 * n"
  by (simp add: bb_bytes_def)

lemma buf_put_twice:
  "p + length xs + length ys \<le> length buf \<Longrightarrow> buf_put (buf_put buf p xs) (p + length xs) ys = buf_put buf p (xs @ ys)"
  by (simp add: buf_put_def add.assoc add.commute add.left_commute)

lemma iso_bb_put: "p + 2 * n \<le> length buf \<Longrightarrow> iso_bb buf p v n = buf_put buf p (bb_bytes v n)"
  using buf_put_twice [of p "le_bytes v n" "rev (le_bytes v n)" buf]
  by (simp add: iso_bb_def iso_lsb_put iso_msb_put bb_bytes_def)

lemma buf_put_app: "length ys = length bs \<Longrightarrow> buf_put (xs @ ys @ zs) (length xs) bs = xs @ bs @ zs"
  by (simp add: buf_put_def)

lemma iso_bb_app: "length ys = 2 * n \<Longrightarrow> iso_bb (xs @ ys @ zs) (length xs) v n = xs @ bb_bytes v n @ zs"
  by (simp add: iso_bb_put buf_put_app)

lemma iso_bb_at: "buf = xs @ ys @ zs \<Longrightarrow> p = length xs \<Longrightarrow> length ys = 2 * n \<Longrightarrow> iso_bb buf p v n = xs @ bb_bytes v n @ zs"
  by (simp add: iso_bb_app)

lemma iso_read_bb_app: "iso_read_bb (xs @ bb_bytes v 4 @ zs) (length xs) 4 = (v, False)"
proof -
  have full: "le_val (le_bytes v 4) 4 = v" by (simp add: le_val_le_bytes take_bit_word_eq_self)
  have "le_val (le_bytes v 4 @ ys) 4 = v" for ys
  proof -
    have "le_val (le_bytes v 4 @ ys) 4 = (le_val (take 4 (le_bytes v 4 @ ys)) 4 :: u32)" by (rule le_val_take [symmetric])
    then show ?thesis using full by simp
  qed
  then show ?thesis using full
    by (simp add: iso_read_bb_def Let_def iso_read_lsb_val iso_read_msb_val bb_bytes_def)
qed

lemma iso_read_bb_at:
  assumes "buf = xs @ bb_bytes v 4 @ zs" and "p = length xs"
  shows "iso_read_bb buf p 4 = (v, False)"
  using assms iso_read_bb_app by simp

end
