(* ===== verification/HTable.thy ===== *)
theory HTable
  imports Prelude "HOL-Library.Multiset"
begin

text \<open>
  The hash table of \<open>libisofs/util_htable.c\<close>: an array of chains, each a list of key and data
  pointers with the newest node first. A key is a value of type \<open>'k\<close> that stands for the key
  pointer: \<open>compare\<close> looks at what it points to, equality of keys is equality of pointers.
  \<open>None\<close> is a NULL table or key; \<open>alloc\<close> says whether \<open>malloc\<close> succeeds.
\<close>

section \<open>The code\<close>

record ('k, 'd) htable =
  ht_table :: "('k \<times> 'd) list list"
  ht_size :: nat
  ht_cap :: nat

type_synonym ('k, 'd) ht_result = "(iso_error + nat) \<times> ('k, 'd) htable option"

fun iso_htable_create :: "nat \<Rightarrow> bool \<Rightarrow> bool \<Rightarrow> ('k, 'd) ht_result" where
  "iso_htable_create slots alloc alloc_slots =
     (if slots \<le> 0 then (Inl ISO_WRONG_ARG_VALUE, None)
      else if \<not> alloc then (Inl ISO_OUT_OF_MEM, None)
      else if \<not> alloc_slots then (Inl ISO_OUT_OF_MEM, None)
      else (Inr 1, Some \<lparr>ht_table = replicate slots [], ht_size = 0, ht_cap = slots\<rparr>))"

fun iso_htable_add :: "('k \<Rightarrow> nat) \<Rightarrow> bool \<Rightarrow> ('k, 'd) htable option \<Rightarrow> 'k option \<Rightarrow> 'd \<Rightarrow> ('k, 'd) ht_result" where
  "iso_htable_add hash_fn alloc (Some t) (Some key) data =
     (if \<not> alloc then (Inl ISO_OUT_OF_MEM, Some t)
      else let h = hash_fn key mod ht_cap t; node = ht_table t ! h
           in (Inr 1, Some (t\<lparr>ht_table := (ht_table t)[h := (key, data) # node],
                              ht_size := ht_size t + 1\<rparr>)))"
| "iso_htable_add hash_fn alloc table key data = (Inl ISO_NULL_POINTER, table)"

text \<open>The search loop: the first node of the chain that a test accepts.\<close>

fun chain_find :: "('k \<Rightarrow> bool) \<Rightarrow> ('k \<times> 'd) list \<Rightarrow> ('k \<times> 'd) option" where
  "chain_find test [] = None"
| "chain_find test (node # nodes) = (if test (fst node) then Some node else chain_find test nodes)"

text \<open>Unlinking it: \<open>prev->next = node->next\<close>, or the slot if there is no predecessor.\<close>

fun chain_unlink :: "('k \<Rightarrow> bool) \<Rightarrow> ('k \<times> 'd) list \<Rightarrow> ('k \<times> 'd) list" where
  "chain_unlink test [] = []"
| "chain_unlink test (node # nodes) = (if test (fst node) then nodes else node # chain_unlink test nodes)"

fun iso_htable_put ::
  "('k \<Rightarrow> nat) \<Rightarrow> ('k \<Rightarrow> 'k \<Rightarrow> int) \<Rightarrow> bool \<Rightarrow> ('k, 'd) htable option \<Rightarrow> 'k option \<Rightarrow> 'd \<Rightarrow> ('k, 'd) ht_result" where
  "iso_htable_put hash_fn compare alloc (Some t) (Some key) data =
     (let h = hash_fn key mod ht_cap t; node = ht_table t ! h
      in case chain_find (\<lambda>k. compare key k = 0) node of
           Some _ \<Rightarrow> (Inr 0, Some t)
         | None \<Rightarrow>
             if \<not> alloc then (Inl ISO_OUT_OF_MEM, Some t)
             else (Inr 1, Some (t\<lparr>ht_table := (ht_table t)[h := (key, data) # (ht_table t ! h)],
                                  ht_size := ht_size t + 1\<rparr>)))"
| "iso_htable_put hash_fn compare alloc table key data = (Inl ISO_NULL_POINTER, table)"

text \<open>The second component is what is stored through \<open>data\<close>.\<close>

fun iso_htable_get ::
  "('k \<Rightarrow> nat) \<Rightarrow> ('k \<Rightarrow> 'k \<Rightarrow> int) \<Rightarrow> ('k, 'd) htable option \<Rightarrow> 'k option \<Rightarrow> (iso_error + nat) \<times> 'd option" where
  "iso_htable_get hash_fn compare (Some t) (Some key) =
     (case chain_find (\<lambda>k. compare key k = 0) (ht_table t ! (hash_fn key mod ht_cap t)) of
        Some node \<Rightarrow> (Inr 1, Some (snd node))
      | None \<Rightarrow> (Inr 0, None))"
| "iso_htable_get hash_fn compare table key = (Inl ISO_NULL_POINTER, None)"

text \<open>Removal by a test on the key pointer; the removed node is what \<open>free_data\<close> is called on.\<close>

definition ht_remove_by ::
  "('k \<Rightarrow> nat) \<Rightarrow> ('k \<Rightarrow> bool) \<Rightarrow> ('k, 'd) htable \<Rightarrow> 'k \<Rightarrow> ('k, 'd) ht_result \<times> ('k \<times> 'd) option" where
  "ht_remove_by hash_fn test t key =
     (let h = hash_fn key mod ht_cap t; node = ht_table t ! h
      in case chain_find test node of
           Some n \<Rightarrow> ((Inr 1, Some (t\<lparr>ht_table := (ht_table t)[h := chain_unlink test node],
                                      ht_size := ht_size t - 1\<rparr>)), Some n)
         | None \<Rightarrow> ((Inr 0, Some t), None))"

fun iso_htable_remove ::
  "('k \<Rightarrow> nat) \<Rightarrow> ('k \<Rightarrow> 'k \<Rightarrow> int) \<Rightarrow> ('k, 'd) htable option \<Rightarrow> 'k option \<Rightarrow>
     ('k, 'd) ht_result \<times> ('k \<times> 'd) option" where
  "iso_htable_remove hash_fn compare (Some t) (Some key) =
     ht_remove_by hash_fn (\<lambda>k. compare key k = 0) t key"
| "iso_htable_remove hash_fn compare table key = ((Inl ISO_NULL_POINTER, table), None)"

fun iso_htable_remove_ptr ::
  "('k \<Rightarrow> nat) \<Rightarrow> ('k, 'd) htable option \<Rightarrow> 'k option \<Rightarrow> ('k, 'd) ht_result \<times> ('k \<times> 'd) option" where
  "iso_htable_remove_ptr hash_fn (Some t) (Some key) = ht_remove_by hash_fn (\<lambda>k. key = k) t key"
| "iso_htable_remove_ptr hash_fn table key = ((Inl ISO_NULL_POINTER, table), None)"

text \<open>Destruction calls \<open>free_data\<close> on every node, slot by slot.\<close>

fun iso_htable_destroy :: "('k, 'd) htable option \<Rightarrow> ('k \<times> 'd) list" where
  "iso_htable_destroy None = []"
| "iso_htable_destroy (Some t) = concat (map (\<lambda>i. ht_table t ! i) [0..<ht_cap t])"

text \<open>The hash of a C string; \<open>char\<close> is signed, so its value is sign extended.\<close>

definition iso_str_hash :: "string \<Rightarrow> u32" where
  "iso_str_hash p = foldl (\<lambda>h c. (h * 16777619) XOR scast (char_byte c)) 2166136261 p"

section \<open>Well-formed tables and their contents\<close>

text \<open>Every key is in the chain of its hash value, and the counter counts the nodes.\<close>

definition ht_wf :: "('k \<Rightarrow> nat) \<Rightarrow> ('k, 'd) htable \<Rightarrow> bool" where
  "ht_wf hash_fn t \<longleftrightarrow>
     0 < ht_cap t \<and> length (ht_table t) = ht_cap t \<and> ht_size t = length (concat (ht_table t)) \<and>
     (\<forall>i < ht_cap t. \<forall>kd \<in> set (ht_table t ! i). hash_fn (fst kd) mod ht_cap t = i)"

definition ht_entries :: "('k, 'd) htable \<Rightarrow> ('k \<times> 'd) multiset" where
  "ht_entries t = mset (concat (ht_table t))"

lemma mset_concat_update:
  "i < length xss \<Longrightarrow> mset (concat (xss[i := ys])) + mset (xss ! i) = mset (concat xss) + mset ys"
proof (induction xss arbitrary: i)
  case (Cons xs xss)
  then show ?case by (cases i) auto
qed simp

lemma length_concat_update:
  "i < length xss \<Longrightarrow> length (concat (xss[i := ys])) + length (xss ! i) = length (concat xss) + length ys"
  using mset_concat_update [of i xss ys] by (metis size_mset size_union)

lemma chain_find_Some:
  "chain_find P ns = Some n \<Longrightarrow> n \<in> set ns \<and> P (fst n)"
  by (induction ns) (auto split: if_splits)

lemma chain_find_None: "chain_find P ns = None \<longleftrightarrow> (\<forall>n \<in> set ns. \<not> P (fst n))"
  by (induction ns) auto

lemma chain_unlink_mset:
  "chain_find P ns = Some n \<Longrightarrow> add_mset n (mset (chain_unlink P ns)) = mset ns"
  by (induction ns) (auto split: if_splits)

lemma set_chain_unlink: "set (chain_unlink P ns) \<subseteq> set ns"
  by (induction ns) auto

lemma slot_less [simp]: "ht_wf h t \<Longrightarrow> h k mod ht_cap t < length (ht_table t)"
  by (simp add: ht_wf_def)

lemma slot_hash:
  "ht_wf h t \<Longrightarrow> kd \<in> set (ht_table t ! (h k mod ht_cap t)) \<Longrightarrow> h (fst kd) mod ht_cap t = h k mod ht_cap t"
  by (auto simp: ht_wf_def)

lemma ht_size_entries: "ht_wf h t \<Longrightarrow> ht_size t = size (ht_entries t)"
  by (simp add: ht_wf_def ht_entries_def)

lemma in_slot_iff:
  assumes "ht_wf h t"
  shows "kd \<in> set (ht_table t ! (h (fst kd) mod ht_cap t)) \<longleftrightarrow> kd \<in># ht_entries t"
proof
  assume "kd \<in># ht_entries t"
  then obtain ns where "ns \<in> set (ht_table t)" and "kd \<in> set ns"
    by (auto simp: ht_entries_def)
  then obtain i where "i < length (ht_table t)" and i: "kd \<in> set (ht_table t ! i)"
    by (metis in_set_conv_nth)
  then have "h (fst kd) mod ht_cap t = i" using assms by (auto simp: ht_wf_def)
  with i show "kd \<in> set (ht_table t ! (h (fst kd) mod ht_cap t))" by simp
qed (use slot_less [OF assms, of "fst kd"] in \<open>auto simp: ht_entries_def\<close>)

lemma ht_update_wf:
  assumes "ht_wf h t" and "\<And>kd. kd \<in> set ns \<Longrightarrow> h (fst kd) mod ht_cap t = i"
    and "n + length (ht_table t ! i) = ht_size t + length ns" and "i < ht_cap t"
  shows "ht_wf h (t\<lparr>ht_table := (ht_table t)[i := ns], ht_size := n\<rparr>)"
  using assms length_concat_update [of i "ht_table t" ns]
  by (auto simp: ht_wf_def nth_list_update split: if_splits)

section \<open>What the operations do to the contents\<close>

lemma create_wf: "iso_htable_create n True True = (Inr 1, Some t) \<Longrightarrow> ht_wf h t \<and> ht_entries t = {#}"
  by (auto simp: ht_wf_def ht_entries_def concat_replicate_trivial split: if_splits)

definition ht_added :: "('k \<Rightarrow> nat) \<Rightarrow> ('k, 'd) htable \<Rightarrow> 'k \<Rightarrow> 'd \<Rightarrow> ('k, 'd) htable" where
  "ht_added h t key data = t\<lparr>
     ht_table := (ht_table t)[h key mod ht_cap t := (key, data) # ht_table t ! (h key mod ht_cap t)],
     ht_size := ht_size t + 1\<rparr>"

lemma ht_added_wf:
  assumes "ht_wf h t"
  shows "ht_wf h (ht_added h t k d) \<and> ht_entries (ht_added h t k d) = add_mset (k, d) (ht_entries t)"
proof -
  let ?i = "h k mod ht_cap t"
  have "ht_wf h (t\<lparr>ht_table := (ht_table t)[?i := (k, d) # ht_table t ! ?i], ht_size := ht_size t + 1\<rparr>)"
  proof (rule ht_update_wf [OF assms])
    show "h (fst kd) mod ht_cap t = ?i" if "kd \<in> set ((k, d) # ht_table t ! ?i)" for kd
      using that slot_hash [OF assms] by (metis fst_conv set_ConsD)
    show "?i < ht_cap t" using assms by (simp add: ht_wf_def)
  qed simp
  moreover have "mset (concat ((ht_table t)[?i := (k, d) # ht_table t ! ?i])) + mset (ht_table t ! ?i) =
      mset (concat (ht_table t)) + mset ((k, d) # ht_table t ! ?i)"
    using assms by (intro mset_concat_update) simp
  ultimately show ?thesis by (simp add: ht_added_def ht_entries_def)
qed

lemma ht_remove_by_found:
  assumes wf: "ht_wf h t" and found: "chain_find P (ht_table t ! (h k mod ht_cap t)) = Some n"
  obtains t' where "ht_remove_by h P t k = ((Inr 1, Some t'), Some n)" and "ht_wf h t'"
    and "add_mset n (ht_entries t') = ht_entries t"
proof
  let ?i = "h k mod ht_cap t"
  let ?ns = "chain_unlink P (ht_table t ! ?i)"
  let ?t = "t\<lparr>ht_table := (ht_table t)[?i := ?ns], ht_size := ht_size t - 1\<rparr>"
  have unl: "add_mset n (mset ?ns) = mset (ht_table t ! ?i)" using found by (rule chain_unlink_mset)
  have upd: "mset (concat ((ht_table t)[?i := ?ns])) + mset (ht_table t ! ?i) =
      mset (concat (ht_table t)) + mset ?ns"
    using wf by (intro mset_concat_update) simp
  show "ht_remove_by h P t k = ((Inr 1, Some ?t), Some n)"
    using found by (simp add: ht_remove_by_def Let_def)
  show "add_mset n (ht_entries ?t) = ht_entries t"
    using upd by (simp add: ht_entries_def unl [symmetric])
  have "n \<in> set (ht_table t ! ?i)" using chain_find_Some [OF found] by simp
  then have "n \<in># ht_entries t"
    using in_slot_iff [OF wf, of n] slot_hash [OF wf] by metis
  then have pos: "0 < ht_size t"
    unfolding ht_size_entries [OF wf] by (metis gr0I size_eq_0_iff_empty empty_not_add_mset multi_member_split)
  have len: "Suc (length ?ns) = length (ht_table t ! ?i)" using unl by (metis size_add_mset size_mset)
  show "ht_wf h ?t"
  proof (rule ht_update_wf [OF wf])
    show "h (fst kd) mod ht_cap t = ?i" if "kd \<in> set ?ns" for kd
      using that set_chain_unlink slot_hash [OF wf] by blast
    show "?i < ht_cap t" using wf by (simp add: ht_wf_def)
  qed (use pos len in simp)
qed

lemma ht_remove_by_absent:
  "chain_find P (ht_table t ! (h k mod ht_cap t)) = None \<Longrightarrow>
     ht_remove_by h P t k = ((Inr 0, Some t), None)"
  by (simp add: ht_remove_by_def Let_def)

section \<open>The interface of a table of keys\<close>

text \<open>
  The contract that the users of the table rely on, with the multiset of its keys as the
  abstract state: \<open>add\<close> adds one key, \<open>has\<close> looks for a key of the same content, \<open>drop\<close>
  takes out exactly the given key.
\<close>

locale key_table =
  fixes wf :: "'t \<Rightarrow> bool"
    and keys :: "'t \<Rightarrow> 'k multiset"
    and add :: "'t \<Rightarrow> 'k \<Rightarrow> 't"
    and has :: "'t \<Rightarrow> 'k \<Rightarrow> bool"
    and drop :: "'t \<Rightarrow> 'k \<Rightarrow> 't"
    and content :: "'k \<Rightarrow> 'c"
  assumes add_keys: "wf t \<Longrightarrow> wf (add t k) \<and> keys (add t k) = add_mset k (keys t)"
    and has_iff: "wf t \<Longrightarrow> has t k \<longleftrightarrow> content k \<in> content ` set_mset (keys t)"
    and drop_keys: "wf t \<Longrightarrow> k \<in># keys t \<Longrightarrow> wf (drop t k) \<and> keys (drop t k) = keys t - {#k#}"
begin

lemma fold_add: "wf t \<Longrightarrow> wf (foldl add t ks) \<and> keys (foldl add t ks) = keys t + mset ks"
  by (induction ks arbitrary: t) (simp_all add: add_keys)

lemma replace_keys:
  "wf t \<Longrightarrow> k \<in># keys t \<Longrightarrow>
     wf (add (drop t k) k') \<and> keys (add (drop t k) k') = add_mset k' (keys t - {#k#})"
  by (simp add: add_keys drop_keys)

lemma replace_fresh:
  assumes "wf t" and "k \<in># keys t" and "\<not> has t k'" and "inj_on content (set_mset (keys t))"
  shows "inj_on content (set_mset (keys (add (drop t k) k')))"
proof (rule inj_onI)
  fix x y
  assume x: "x \<in># keys (add (drop t k) k')" and y: "y \<in># keys (add (drop t k) k')" and e: "content x = content y"
  have new: "content z \<noteq> content k'" if "z \<in># keys t" for z
    using that assms(1,3) by (metis has_iff imageI)
  have "x = k' \<or> x \<in># keys t" and "y = k' \<or> y \<in># keys t"
    using x y assms(1,2) by (auto simp: replace_keys dest: in_diffD)
  with e new assms(4) show "x = y" by (metis inj_onD)
qed

end

section \<open>Tables without duplicates are maps\<close>

text \<open>
  A client that only uses \<open>iso_htable_put\<close> and \<open>iso_htable_remove\<close> sees a finite map from
  the contents of keys to data. \<open>ht_is_map\<close> relates a table to such a map: it holds one entry per
  key content.
\<close>

datatype ('k, 'd) ht_op = HtPut 'k 'd | HtRemove 'k

fun ht_step ::
  "('k \<Rightarrow> nat) \<Rightarrow> ('k \<Rightarrow> 'k \<Rightarrow> int) \<Rightarrow> ('k, 'd) htable option \<Rightarrow> ('k, 'd) ht_op \<Rightarrow> ('k, 'd) htable option" where
  "ht_step h cmp t (HtPut k d) = snd (iso_htable_put h cmp True t (Some k) d)"
| "ht_step h cmp t (HtRemove k) = snd (fst (iso_htable_remove h cmp t (Some k)))"

fun map_step :: "('k \<Rightarrow> 'c) \<Rightarrow> ('c \<rightharpoonup> 'd) \<Rightarrow> ('k, 'd) ht_op \<Rightarrow> ('c \<rightharpoonup> 'd)" where
  "map_step content m (HtPut k d) = (if m (content k) = None then m(content k \<mapsto> d) else m)"
| "map_step content m (HtRemove k) = m(content k := None)"

definition ht_is_map :: "('k \<Rightarrow> nat) \<Rightarrow> ('k \<Rightarrow> 'c) \<Rightarrow> ('k, 'd) htable \<Rightarrow> ('c \<rightharpoonup> 'd) \<Rightarrow> bool" where
  "ht_is_map h content t m \<longleftrightarrow> ht_wf h t \<and>
     (\<forall>k d. (k, d) \<in># ht_entries t \<longrightarrow> m (content k) = Some d) \<and>
     (\<forall>c d. m c = Some d \<longrightarrow> (\<exists>k. content k = c \<and> (k, d) \<in># ht_entries t)) \<and>
     (\<forall>c. count (image_mset (\<lambda>kd. content (fst kd)) (ht_entries t)) c \<le> 1)"

locale content_keys =
  fixes hash_fn :: "'k \<Rightarrow> nat" and cmp :: "'k \<Rightarrow> 'k \<Rightarrow> int" and content :: "'k \<Rightarrow> 'c"
  assumes cmp_iff: "cmp k k' = 0 \<longleftrightarrow> content k = content k'"
    and hash_cong: "content k = content k' \<Longrightarrow> hash_fn k = hash_fn k'"
begin

abbreviation slot :: "('k, 'd) htable \<Rightarrow> 'k \<Rightarrow> ('k \<times> 'd) list" where
  "slot t k \<equiv> ht_table t ! (hash_fn k mod ht_cap t)"

lemma find_None:
  assumes "ht_is_map hash_fn content t m"
  shows "chain_find (\<lambda>k'. cmp k k' = 0) (slot t k) = None \<longleftrightarrow> m (content k) = None"
proof -
  have wf: "ht_wf hash_fn t" using assms by (simp add: ht_is_map_def)
  have "kd \<in> set (slot t k) \<longleftrightarrow> kd \<in># ht_entries t" if "content (fst kd) = content k" for kd
    using in_slot_iff [OF wf, of kd] hash_cong [OF that] by simp
  then have "chain_find (\<lambda>k'. cmp k k' = 0) (slot t k) = None \<longleftrightarrow>
      (\<forall>kd \<in># ht_entries t. content (fst kd) \<noteq> content k)"
    by (auto simp: chain_find_None cmp_iff) (metis fst_conv)+
  also have "\<dots> \<longleftrightarrow> m (content k) = None"
    using assms by (auto simp: ht_is_map_def) (metis fst_conv not_Some_eq)+
  finally show ?thesis .
qed

lemma find_Some:
  assumes "ht_is_map hash_fn content t m" and "chain_find (\<lambda>k'. cmp k k' = 0) (slot t k) = Some n"
  shows "n \<in># ht_entries t" and "content (fst n) = content k" and "m (content k) = Some (snd n)"
proof -
  have wf: "ht_wf hash_fn t" using assms(1) by (simp add: ht_is_map_def)
  have f: "n \<in> set (slot t k)" "cmp k (fst n) = 0" using chain_find_Some [OF assms(2)] by simp_all
  from f(2) show c: "content (fst n) = content k" unfolding cmp_iff by simp
  show n: "n \<in># ht_entries t"
    using f(1) in_slot_iff [OF wf, of n] unfolding hash_cong [OF c] by (rule iffD1 [rotated])
  obtain k' d where kd: "n = (k', d)" by (cases n)
  from assms(1) n have "m (content k') = Some d" by (simp add: ht_is_map_def kd)
  with c show "m (content k) = Some (snd n)" by (simp add: kd)
qed

lemma put_map:
  assumes t: "ht_is_map hash_fn content t m"
  shows "\<exists>t'. ht_step hash_fn cmp (Some t) (HtPut k d) = Some t' \<and>
     ht_is_map hash_fn content t' (map_step content m (HtPut k d))"
proof (cases "chain_find (\<lambda>k'. cmp k k' = 0) (slot t k)")
  case (Some n)
  then show ?thesis using t find_Some [OF t Some] by auto
next
  case None
  then have m: "m (content k) = None" using find_None [OF t] by simp
  have step: "ht_step hash_fn cmp (Some t) (HtPut k d) = Some (ht_added hash_fn t k d)"
    using None by (simp add: ht_added_def Let_def)
  have wf: "ht_wf hash_fn t" using t by (simp add: ht_is_map_def)
  have absent: "content k \<notin># image_mset (\<lambda>kd. content (fst kd)) (ht_entries t)"
    using t m by (auto simp: ht_is_map_def)
  have "ht_is_map hash_fn content (ht_added hash_fn t k d) (m(content k \<mapsto> d))"
    unfolding ht_is_map_def
  proof (intro conjI allI impI)
    fix k' d' assume "(k', d') \<in># ht_entries (ht_added hash_fn t k d)"
    then consider "k' = k" "d' = d" | "(k', d') \<in># ht_entries t"
      using ht_added_wf [OF wf, of k d] by auto
    then show "(m(content k \<mapsto> d)) (content k') = Some d'"
      using t absent by cases (auto simp: ht_is_map_def image_iff)
  next
    fix c d' assume "(m(content k \<mapsto> d)) c = Some d'"
    then show "\<exists>k'. content k' = c \<and> (k', d') \<in># ht_entries (ht_added hash_fn t k d)"
      using t ht_added_wf [OF wf, of k d] by (fastforce simp: ht_is_map_def split: if_splits)
  next
    fix c
    have "count (image_mset (\<lambda>kd. content (fst kd)) (ht_entries t)) c \<le> 1"
      using t by (simp add: ht_is_map_def)
    moreover have "count (image_mset (\<lambda>kd. content (fst kd)) (ht_entries t)) (content k) = 0"
      using absent by (simp only: not_in_iff)
    ultimately show "count (image_mset (\<lambda>kd. content (fst kd)) (ht_entries (ht_added hash_fn t k d))) c \<le> 1"
      using ht_added_wf [OF wf, of k d] by (cases "c = content k") simp_all
  qed (use ht_added_wf [OF wf, of k d] in simp)
  with step m show ?thesis by simp
qed

lemma remove_map:
  assumes t: "ht_is_map hash_fn content t m"
  shows "\<exists>t'. ht_step hash_fn cmp (Some t) (HtRemove k) = Some t' \<and>
     ht_is_map hash_fn content t' (map_step content m (HtRemove k))"
proof (cases "chain_find (\<lambda>k'. cmp k k' = 0) (slot t k)")
  case None
  then have "m(content k := None) = m" using find_None [OF t] by auto
  with None t show ?thesis by (simp add: ht_remove_by_absent)
next
  case (Some n)
  note n = find_Some [OF t Some]
  have wf: "ht_wf hash_fn t" using t by (simp add: ht_is_map_def)
  from ht_remove_by_found [OF wf Some] obtain t' where
    t': "ht_remove_by hash_fn (\<lambda>k'. cmp k k' = 0) t k = ((Inr 1, Some t'), Some n)" "ht_wf hash_fn t'"
      "ht_entries t = add_mset n (ht_entries t')" by metis
  have "count (image_mset (\<lambda>kd. content (fst kd)) (ht_entries t)) (content k) \<le> 1"
    using t by (simp add: ht_is_map_def)
  then have "count (image_mset (\<lambda>kd. content (fst kd)) (ht_entries t')) (content k) = 0"
    using n(2) t'(3) by simp
  then have gone: "content k \<notin># image_mset (\<lambda>kd. content (fst kd)) (ht_entries t')"
    by (simp only: not_in_iff)
  have "ht_is_map hash_fn content t' (m(content k := None))"
    unfolding ht_is_map_def
  proof (intro conjI allI impI)
    fix k' d' assume "(k', d') \<in># ht_entries t'"
    then show "(m(content k := None)) (content k') = Some d'"
      using t t'(3) gone by (auto simp: ht_is_map_def image_iff)
  next
    fix c d' assume "(m(content k := None)) c = Some d'"
    then have "c \<noteq> content k" and "m c = Some d'" by (auto split: if_splits)
    then show "\<exists>k'. content k' = c \<and> (k', d') \<in># ht_entries t'"
      using t t'(3) n(2) by (fastforce simp: ht_is_map_def)
  next
    fix c
    have "count (image_mset (\<lambda>kd. content (fst kd)) (ht_entries t)) c \<le> 1"
      using t by (simp add: ht_is_map_def)
    then show "count (image_mset (\<lambda>kd. content (fst kd)) (ht_entries t')) c \<le> 1"
      unfolding t'(3) by (simp split: if_splits)
  qed (rule t'(2))
  with t' show ?thesis by auto
qed

lemma run_map:
  "ht_is_map hash_fn content t m \<Longrightarrow>
     \<exists>t'. foldl (ht_step hash_fn cmp) (Some t) ops = Some t' \<and>
        ht_is_map hash_fn content t' (foldl (map_step content) m ops)"
proof (induction ops arbitrary: t m)
  case (Cons op ops)
  obtain t' where "ht_step hash_fn cmp (Some t) op = Some t'"
    and "ht_is_map hash_fn content t' (map_step content m op)"
    using put_map [OF Cons.prems] remove_map [OF Cons.prems] by (cases op) metis+
  with Cons.IH show ?case by simp
qed simp

lemma get_map:
  assumes "ht_is_map hash_fn content t m"
  shows "iso_htable_get hash_fn cmp (Some t) (Some k) = (Inr (of_bool (m (content k) \<noteq> None)), m (content k))"
  using find_None [OF assms, of k] find_Some [OF assms, of k]
  by (cases "chain_find (\<lambda>k'. cmp k k' = 0) (slot t k)") auto

end

section \<open>Tables of C strings\<close>

text \<open>
  The tables that \<open>ecma119_tree.c\<close> builds use \<open>iso_str_hash\<close> and \<open>strcmp\<close>. A key pointer is
  the string together with a number for its owner, so two equal names of different nodes are
  different pointers.
\<close>

type_synonym name_key = "nat \<times> string"
type_synonym name_table = "(name_key, string) htable"

definition str_hash_fn :: "name_key \<Rightarrow> nat" where
  "str_hash_fn key = unat (iso_str_hash (snd key))"

definition str_compare :: "name_key \<Rightarrow> name_key \<Rightarrow> int" where
  "str_compare k k' = strcmp (snd k) (snd k')"

definition nt_new :: "nat \<Rightarrow> name_table option" where
  "nt_new slots = snd (iso_htable_create slots True True)"

definition nt_add :: "name_table \<Rightarrow> name_key \<Rightarrow> name_table" where
  "nt_add t key = the (snd (iso_htable_add str_hash_fn True (Some t) (Some key) (snd key)))"

definition nt_has :: "name_table \<Rightarrow> name_key \<Rightarrow> bool" where
  "nt_has t key = (fst (iso_htable_get str_hash_fn str_compare (Some t) (Some key)) \<noteq> Inr 0)"

definition nt_remove_ptr :: "name_table \<Rightarrow> name_key \<Rightarrow> name_table" where
  "nt_remove_ptr t key = the (snd (fst (iso_htable_remove_ptr str_hash_fn (Some t) (Some key))))"

abbreviation nt_wf :: "name_table \<Rightarrow> bool" where
  "nt_wf \<equiv> ht_wf str_hash_fn"

definition nt_keys :: "name_table \<Rightarrow> name_key multiset" where
  "nt_keys t = image_mset fst (ht_entries t)"

lemma nt_new_wf: "0 < n \<Longrightarrow> \<exists>t. nt_new n = Some t \<and> nt_wf t \<and> nt_keys t = {#}"
  using create_wf [of n "\<lparr>ht_table = replicate n [], ht_size = 0, ht_cap = n\<rparr>"]
  by (simp add: nt_new_def nt_keys_def)

interpretation names: content_keys str_hash_fn str_compare snd
  by unfold_locales (simp_all add: str_compare_def str_hash_fn_def)

interpretation nt: key_table nt_wf nt_keys nt_add nt_has nt_remove_ptr snd
proof
  fix t :: name_table and k :: name_key
  assume wf: "nt_wf t"
  have "nt_add t k = ht_added str_hash_fn t k (snd k)" by (simp add: nt_add_def ht_added_def Let_def)
  then show "nt_wf (nt_add t k) \<and> nt_keys (nt_add t k) = add_mset k (nt_keys t)"
    using ht_added_wf [OF wf] by (simp add: nt_keys_def)
  have slot: "kd \<in> set (ht_table t ! (str_hash_fn k mod ht_cap t)) \<longleftrightarrow> kd \<in># ht_entries t"
    if "snd (fst kd) = snd k" for kd
    using in_slot_iff [OF wf, of kd] names.hash_cong [OF that] by simp
  have "nt_has t k \<longleftrightarrow> chain_find (\<lambda>k'. str_compare k k' = 0) (names.slot t k) \<noteq> None"
    by (simp add: nt_has_def split: option.splits)
  also have "\<dots> \<longleftrightarrow> (\<exists>kd \<in># ht_entries t. snd (fst kd) = snd k)"
    unfolding not_None_eq [symmetric] chain_find_None names.cmp_iff using slot by (metis (no_types, lifting))
  also have "\<dots> \<longleftrightarrow> snd k \<in> (\<lambda>kd. snd (fst kd)) ` set_mset (ht_entries t)"
    by (auto simp: image_iff eq_commute [of "snd k"])
  finally show "nt_has t k \<longleftrightarrow> snd k \<in> snd ` set_mset (nt_keys t)"
    by (simp add: nt_keys_def image_image)
  assume "k \<in># nt_keys t"
  then obtain d where "(k, d) \<in># ht_entries t" by (auto simp: nt_keys_def)
  then have "(k, d) \<in> set (ht_table t ! (str_hash_fn k mod ht_cap t))" using slot [of "(k, d)"] by simp
  then obtain n where n: "chain_find (\<lambda>k'. k = k') (names.slot t k) = Some n"
    by (cases "chain_find (\<lambda>k'. k = k') (names.slot t k)") (auto simp: chain_find_None)
  from ht_remove_by_found [OF wf n] obtain t' where
    t': "ht_remove_by str_hash_fn (\<lambda>k'. k = k') t k = ((Inr 1, Some t'), Some n)" "nt_wf t'"
      "add_mset n (ht_entries t') = ht_entries t" .
  have "fst n = k" using chain_find_Some [OF n] by simp
  with t' show "nt_wf (nt_remove_ptr t k) \<and> nt_keys (nt_remove_ptr t k) = nt_keys t - {#k#}"
    by (simp add: nt_remove_ptr_def nt_keys_def flip: t'(3))
qed

section \<open>Properties\<close>

text \<open>C5: a lookup returns 1 with the data of a stored entry whose key compares equal, and 0 only
  if no stored key compares equal, whatever operations built the table.\<close>

theorem iso_htable_get_correct:
  assumes wf: "ht_wf h t" and cong: "\<And>k k'. cmp k k' = 0 \<Longrightarrow> h k = h k'"
  shows "let (ret, data) = iso_htable_get h cmp (Some t) (Some key) in
     (ret = Inr 1 \<and> (\<exists>k d. data = Some d \<and> (k, d) \<in># ht_entries t \<and> cmp key k = 0)) \<or>
     (ret = Inr 0 \<and> data = None \<and> (\<forall>kd \<in># ht_entries t. cmp key (fst kd) \<noteq> 0))"
proof (cases "chain_find (\<lambda>k. cmp key k = 0) (ht_table t ! (h key mod ht_cap t))")
  case None
  have "cmp key (fst kd) \<noteq> 0" if "kd \<in># ht_entries t" for kd
  proof
    assume eq: "cmp key (fst kd) = 0"
    then have "kd \<in> set (ht_table t ! (h key mod ht_cap t))"
      using that in_slot_iff [OF wf, of kd] cong [OF eq] by simp
    with None eq show False by (auto simp: chain_find_None)
  qed
  with None show ?thesis by simp
next
  case (Some n)
  then have n: "n \<in> set (ht_table t ! (h key mod ht_cap t))" "cmp key (fst n) = 0"
    by (auto dest: chain_find_Some)
  then have "n \<in># ht_entries t"
    using in_slot_iff [OF wf, of n] cong [OF n(2)] by simp
  with Some n(2) show ?thesis by (cases n) auto
qed

text \<open>C6: \<open>iso_htable_remove_ptr\<close> on a stored key takes out exactly that entry, tells
  \<open>free_data\<close> about it, decrements the size, and leaves the table well formed.\<close>

theorem iso_htable_remove_ptr_correct:
  assumes wf: "ht_wf h t" and key: "(key, d) \<in># ht_entries t"
  shows "\<exists>t' d'. iso_htable_remove_ptr h (Some t) (Some key) = ((Inr 1, Some t'), Some (key, d')) \<and>
     ht_wf h t' \<and> ht_entries t = add_mset (key, d') (ht_entries t') \<and> ht_size t = ht_size t' + 1"
proof -
  have "(key, d) \<in> set (ht_table t ! (h key mod ht_cap t))"
    using in_slot_iff [OF wf, of "(key, d)"] key by simp
  then obtain n where n: "chain_find (\<lambda>k. key = k) (ht_table t ! (h key mod ht_cap t)) = Some n"
    by (cases "chain_find (\<lambda>k. key = k) (ht_table t ! (h key mod ht_cap t))") (auto simp: chain_find_None)
  then obtain d' where d': "n = (key, d')" using chain_find_Some [OF n] by (cases n) auto
  from ht_remove_by_found [OF wf n] obtain t' where
    t': "ht_remove_by h (\<lambda>k. key = k) t key = ((Inr 1, Some t'), Some n)" "ht_wf h t'"
      "add_mset n (ht_entries t') = ht_entries t" .
  moreover have "ht_size t = ht_size t' + 1"
    using t' wf by (simp add: ht_size_entries flip: t'(3))
  ultimately show ?thesis using d' by auto
qed


text \<open>Witnesses, on a table of three slots with two names in it.\<close>

definition sample_table :: name_table where
  "sample_table = nt_add (nt_add \<lparr>ht_table = [[], [], []], ht_size = 0, ht_cap = 3\<rparr> (1, ''A'')) (2, ''B'')"

lemma sample_table_wf:
  shows "nt_wf sample_table" and "ht_entries sample_table = {#((1, ''A''), ''A''), ((2, ''B''), ''B'')#}"
proof -
  define t0 where "t0 = (\<lparr>ht_table = [[], [], []], ht_size = 0, ht_cap = 3\<rparr> :: name_table)"
  have t0: "nt_wf t0" "ht_entries t0 = {#}"
    by (auto simp: t0_def ht_wf_def ht_entries_def nth_Cons')
  have add: "nt_add t k = ht_added str_hash_fn t k (snd k)" for t k
    by (simp add: nt_add_def ht_added_def Let_def)
  define t1 where "t1 = nt_add t0 (1, ''A'')"
  have t1: "nt_wf t1" "ht_entries t1 = {#((1, ''A''), ''A'')#}"
    using ht_added_wf [OF t0(1)] t0(2) by (simp_all add: t1_def add)
  have "sample_table = nt_add t1 (2, ''B'')" by (simp add: sample_table_def t1_def t0_def)
  then show "nt_wf sample_table" and "ht_entries sample_table = {#((1, ''A''), ''A''), ((2, ''B''), ''B'')#}"
    using ht_added_wf [OF t1(1), of "(2, ''B'')" "''B''"] unfolding t1(2)
    by (simp_all add: add add_mset_commute)
qed

theorem iso_htable_get_correct_witness:
  "snd (iso_htable_get str_hash_fn str_compare (Some sample_table) (Some (7, ''B''))) = Some ''B''"
proof -
  have cong: "\<And>k k'. str_compare k k' = 0 \<Longrightarrow> str_hash_fn k = str_hash_fn k'"
    by (simp add: str_compare_def str_hash_fn_def)
  note found = iso_htable_get_correct [of str_hash_fn sample_table str_compare "(7, ''B'')",
      OF sample_table_wf(1) cong]
  then show ?thesis
    unfolding sample_table_wf(2) by (auto simp: str_compare_def simp del: iso_htable_get.simps)
qed

theorem iso_htable_remove_ptr_correct_witness:
  "\<exists>t' d'. iso_htable_remove_ptr str_hash_fn (Some sample_table) (Some (1, ''A'')) =
      ((Inr 1, Some t'), Some ((1, ''A''), d')) \<and> ht_size t' = 1"
proof -
  have "((1, ''A''), ''A'') \<in># ht_entries sample_table"
    unfolding sample_table_wf(2) by simp
  moreover have "ht_size sample_table = 2"
    by (simp add: ht_size_entries [OF sample_table_wf(1)] sample_table_wf(2))
  ultimately show ?thesis
    using iso_htable_remove_ptr_correct [OF sample_table_wf(1)] by fastforce
qed


end
