(* ===== verification/Mangle.thy ===== *)
theory Mangle
  imports HTable
begin

text \<open>
  Unique names for the directory records of one directory
  (\<open>mangle_single_dir\<close>, \<open>mangle_dir\<close>, \<open>mangle_tree\<close> of \<open>libisofs/ecma119_tree.c\<close>). The
  children of a directory are a list of nodes; a node keeps its identity when it is renamed.
  The code keeps the names in a hash table keyed by the name pointers; here a name pointer is
  the pair of the owning node and the name. \<open>strdup\<close> is taken to succeed.
\<close>

section \<open>The low level tree\<close>

datatype node_type =
  ECMA119_FILE | ECMA119_DIR | ECMA119_SYMLINK | ECMA119_SPECIAL | ECMA119_PLACEHOLDER

datatype ecma119_node =
  Ecma119Node (ec_id: nat) (iso_name: string) (ec_type: node_type) (ec_children: "ecma119_node list")

definition set_iso_name :: "ecma119_node \<Rightarrow> string \<Rightarrow> ecma119_node" where
  "set_iso_name n s = Ecma119Node (ec_id n) s (ec_type n) (ec_children n)"

definition name_key :: "ecma119_node \<Rightarrow> name_key" where
  "name_key n = (ec_id n, iso_name n)"

text \<open>The write options that the mangling reads.\<close>

record mangle_opts =
  untranslated_name_len :: nat
  max_37_char_filenames :: bool
  iso_level :: nat
  allow_dir_id_ext :: bool

definition cmp_node_name :: "ecma119_node \<Rightarrow> ecma119_node \<Rightarrow> int" where
  "cmp_node_name f g = strcmp (iso_name f) (iso_name g)"

text \<open>\<open>qsort\<close> with \<open>cmp_node_name\<close>.\<close>

definition qsort_children :: "ecma119_node list \<Rightarrow> ecma119_node list" where
  "qsort_children cs = sort_key iso_name cs"

section \<open>Renaming a run of equal names\<close>

definition mangled_name :: "nat \<Rightarrow> string \<Rightarrow> string \<Rightarrow> bool \<Rightarrow> nat \<Rightarrow> string" where
  "mangled_name digits name ext has_dot change =
     (if has_dot then name @ zero_pad digits change @ ''.'' @ ext
      else name @ zero_pad digits change @ ext)"

text \<open>The name and the extension that stay, for a given number of digits: the body of the digits
  loop up to \<open>ok = 1\<close>. The flag says whether \<open>dot\<close> is not \<open>NULL\<close>.\<close>

definition mangle_parts ::
  "mangle_opts \<Rightarrow> ecma119_node \<Rightarrow> int \<Rightarrow> int \<Rightarrow> nat \<Rightarrow> iso_error + (string \<times> string \<times> bool)" where
  "mangle_parts opts child max_file_len max_dir_len digits =
     (let full_name = take 39 (iso_name child)
      in case (if ec_type child \<noteq> ECMA119_DIR \<or> allow_dir_id_ext opts
               then strrchr full_name CHR ''.'' else None) of
           Some dot \<Rightarrow>
             (let name = take dot full_name;
                  ext = drop (dot + 1) full_name;
                  extlen = (if max_file_len = 12 then 3 else int (length ext));
                  mx = max_file_len - extlen - 1 - int digits
              in if mx \<le> 0
                 then if extlen + mx > 3
                      then let extlen' = extlen + mx - 1;
                               ext' = take (nat extlen') ext;
                               mx' = max_file_len - extlen' - 1 - int digits
                           in Inr (if mx' < int dot then take (nat mx') name else name, ext', True)
                      else Inl ISO_ERROR
                 else Inr (if mx < int dot then take (nat mx) name else name, ext, True))
         | None \<Rightarrow>
             (let mx = (if ec_type child = ECMA119_DIR then max_dir_len - int digits
                        else max_file_len - int digits)
              in Inr (if 0 \<le> mx \<and> nat mx < length full_name then take (nat mx) full_name
                      else full_name, '''', False)))"

text \<open>The search for a number whose name is not in the table; \<open>None\<close> is \<open>ok = 0\<close>.\<close>

function find_free ::
  "name_table \<Rightarrow> nat \<Rightarrow> string \<Rightarrow> string \<Rightarrow> bool \<Rightarrow> nat \<Rightarrow> (string \<times> nat) option" where
  "find_free table digits name ext has_dot change =
     (let tmp = mangled_name digits name ext has_dot change; change' = change + 1
      in if change' > 10 ^ digits then None
         else if \<not> nt_has table (0, tmp) then Some (tmp, change')
         else find_free table digits name ext has_dot change')"
  by pat_completeness auto
termination
  by (relation "measure (\<lambda>(table, digits, name, ext, has_dot, change). 10 ^ digits - change)") auto

declare find_free.simps [simp del]

text \<open>The loop over the nodes of the run; the first component of the result is \<open>ok\<close>.\<close>

fun rename_run ::
  "nat \<Rightarrow> string \<Rightarrow> string \<Rightarrow> bool \<Rightarrow> nat list \<Rightarrow> nat \<Rightarrow> ecma119_node list \<Rightarrow> name_table \<Rightarrow>
     bool \<times> ecma119_node list \<times> name_table" where
  "rename_run digits name ext has_dot [] change cs table = (True, cs, table)"
| "rename_run digits name ext has_dot (k # ks) change cs table =
     (case find_free table digits name ext has_dot change of
        None \<Rightarrow> (False, cs, table)
      | Some (tmp, change') \<Rightarrow>
          let table1 = nt_remove_ptr table (name_key (cs ! k));
              cs1 = cs[k := set_iso_name (cs ! k) tmp];
              table2 = nt_add table1 (name_key (cs1 ! k))
          in rename_run digits name ext has_dot ks change' cs1 table2)"

text \<open>The loop over the number of digits.\<close>

function mangle_group ::
  "mangle_opts \<Rightarrow> int \<Rightarrow> int \<Rightarrow> nat \<Rightarrow> nat \<Rightarrow> nat \<Rightarrow> ecma119_node list \<Rightarrow> name_table \<Rightarrow>
     (iso_error + nat) \<times> ecma119_node list \<times> name_table" where
  "mangle_group opts max_file_len max_dir_len i j digits cs table =
     (if digits < 8
      then case mangle_parts opts (cs ! i) max_file_len max_dir_len digits of
             Inl e \<Rightarrow> (Inl e, cs, table)
           | Inr (name, ext, has_dot) \<Rightarrow>
               (case rename_run digits name ext has_dot [i..<j + 1] 0 cs table of
                  (True, cs', table') \<Rightarrow> (Inr 1, cs', table')
                | (False, cs', table') \<Rightarrow>
                    mangle_group opts max_file_len max_dir_len i j (digits + 1) cs' table')
      else (Inl ISO_MANGLE_TOO_MUCH_FILES, cs, table))"
  by pat_completeness auto
termination
  by (relation "measure (\<lambda>(opts, mf, md, i, j, digits, cs, table). 8 - digits)") auto

declare mangle_group.simps [simp del]

text \<open>The last index of the run of names equal to the one at \<open>i\<close>.\<close>

function run_end :: "ecma119_node list \<Rightarrow> nat \<Rightarrow> nat \<Rightarrow> nat" where
  "run_end cs i j =
     (if j + 1 < length cs \<and> cmp_node_name (cs ! i) (cs ! (j + 1)) = 0 then run_end cs i (j + 1) else j)"
  by pat_completeness auto
termination
  by (relation "measure (\<lambda>(cs, i, j). length cs - j)") auto

declare run_end.simps [simp del]

text \<open>The loop over the runs; the last component is \<open>need_sort\<close>.\<close>

function mangle_runs ::
  "mangle_opts \<Rightarrow> int \<Rightarrow> int \<Rightarrow> nat \<Rightarrow> nat \<Rightarrow> ecma119_node list \<Rightarrow> name_table \<Rightarrow> bool \<Rightarrow>
     (iso_error + nat) \<times> ecma119_node list \<times> bool" where
  "mangle_runs opts max_file_len max_dir_len nchildren i cs table need_sort =
     (if i < nchildren
      then let j = run_end cs i i
           in if j = i
              then mangle_runs opts max_file_len max_dir_len nchildren (i + 1) cs table need_sort
              else if untranslated_name_len opts \<noteq> 0 then (Inl ISO_NAME_NEEDS_TRANSL, cs, need_sort)
              else case mangle_group opts max_file_len max_dir_len i j 1 cs table of
                     (Inl e, cs', table') \<Rightarrow> (Inl e, cs', need_sort)
                   | (Inr _, cs', table') \<Rightarrow>
                       mangle_runs opts max_file_len max_dir_len nchildren (max i j + 1) cs' table' True
      else (Inr 1, cs, need_sort))"
  by pat_completeness auto
termination
  by (relation "measure (\<lambda>(opts, mf, md, n, i, cs, table, ns). n - i)") auto

declare mangle_runs.simps [simp del]

definition mangle_single_dir ::
  "mangle_opts \<Rightarrow> ecma119_node list \<Rightarrow> int \<Rightarrow> int \<Rightarrow> (iso_error + nat) \<times> ecma119_node list" where
  "mangle_single_dir opts children max_file_len max_dir_len =
     (let nchildren = length children
      in if nchildren \<le> 0 then (Inr 1, children)
         else case nt_new ((nchildren * 100) div 80) of
                None \<Rightarrow> (Inl ISO_OUT_OF_MEM, children)
              | Some table0 \<Rightarrow>
                  let table = foldl nt_add table0 (map name_key children)
                  in case mangle_runs opts max_file_len max_dir_len nchildren 0 children table False of
                       (Inl e, cs, _) \<Rightarrow> (Inl e, cs)
                     | (Inr ret, cs, need_sort) \<Rightarrow>
                         (Inr ret, if need_sort then qsort_children cs else cs))"

section \<open>Renaming keeps the table and what is settled\<close>

text \<open>Node \<open>a\<close> of the list is settled if no other node has its name; the table is in step with
  the list if its keys are the names of the nodes.\<close>

definition settled :: "ecma119_node list \<Rightarrow> nat \<Rightarrow> bool" where
  "settled cs a \<longleftrightarrow> a < length cs \<and> (\<forall>b < length cs. b \<noteq> a \<longrightarrow> iso_name (cs ! b) \<noteq> iso_name (cs ! a))"

definition in_step :: "ecma119_node list \<Rightarrow> name_table \<Rightarrow> bool" where
  "in_step cs table \<longleftrightarrow> nt_wf table \<and> nt_keys table = mset (map name_key cs)"

text \<open>What never changes about a node, and what a step of the renaming guarantees.\<close>

definition node_rest :: "ecma119_node \<Rightarrow> nat \<times> node_type \<times> ecma119_node list" where
  "node_rest n = (ec_id n, ec_type n, ec_children n)"

definition renames :: "nat set \<Rightarrow> ecma119_node list \<Rightarrow> ecma119_node list \<Rightarrow> bool" where
  "renames ks cs cs' \<longleftrightarrow> map node_rest cs' = map node_rest cs \<and>
     (\<forall>k < length cs. k \<notin> ks \<longrightarrow> cs' ! k = cs ! k) \<and> (\<forall>a. settled cs a \<longrightarrow> settled cs' a)"

lemma node_rest_set_iso_name [simp]: "node_rest (set_iso_name n s) = node_rest n"
  by (simp add: node_rest_def set_iso_name_def)

lemma iso_name_set_iso_name [simp]: "iso_name (set_iso_name n s) = s"
  by (simp add: set_iso_name_def)

lemma renames_length: "renames ks cs cs' \<Longrightarrow> length cs' = length cs"
  unfolding renames_def by (metis length_map)

lemma renames_refl [shape_intros]: "renames ks cs cs"
  by (simp add: renames_def)

lemma renames_trans: "renames ks cs cs' \<Longrightarrow> renames ks cs' cs'' \<Longrightarrow> renames ks cs cs''"
  using renames_length [of ks cs cs'] by (simp add: renames_def)

lemma renames_mono: "renames ks cs cs' \<Longrightarrow> ks \<subseteq> ks' \<Longrightarrow> renames ks' cs cs'"
  by (auto simp: renames_def)

lemma in_step_has:
  "in_step cs table \<Longrightarrow> nt_has table (x, s) \<longleftrightarrow> s \<in> iso_name ` set cs"
  by (auto simp: in_step_def nt.has_iff name_key_def image_image)

lemma find_free_Some:
  "find_free table digits name ext has_dot change = Some (tmp, change') \<Longrightarrow> \<not> nt_has table (0, tmp)"
proof (induction table digits name ext has_dot change rule: find_free.induct)
  case (1 table digits name ext has_dot change)
  show ?case
  proof (rule ccontr)
    assume "\<not> \<not> nt_has table (0, tmp)"
    with 1(2) have "find_free table digits name ext has_dot (change + 1) = Some (tmp, change')"
      and "\<not> 10 ^ digits < change + 1" and "nt_has table (0, mangled_name digits name ext has_dot change)"
      by (auto simp: find_free.simps [of _ _ _ _ _ change] Let_def split: if_splits)
    with 1(1) have "\<not> nt_has table (0, tmp)" by simp
    with \<open>\<not> \<not> nt_has table (0, tmp)\<close> show False by simp
  qed
qed

lemma rename_one:
  assumes k: "k < length cs" and step: "in_step cs table" and new: "\<not> nt_has table (0, tmp)"
  defines "cs1 \<equiv> cs[k := set_iso_name (cs ! k) tmp]"
  shows "renames {k} cs cs1" and "settled cs1 k"
    and "in_step cs1 (nt_add (nt_remove_ptr table (name_key (cs ! k))) (name_key (cs1 ! k)))"
proof -
  have fresh: "iso_name (cs ! b) \<noteq> tmp" if "b < length cs" for b
    using new in_step_has [OF step] that by auto
  show "settled cs1 k"
    using k fresh by (auto simp: settled_def cs1_def)
  show "renames {k} cs cs1"
    unfolding renames_def
  proof (intro conjI allI impI)
    show "map node_rest cs1 = map node_rest cs"
      using k by (simp add: cs1_def map_update) (metis length_map list_update_id nth_map)
    show "settled cs1 a" if "settled cs a" for a
      using that fresh k fresh [of a] by (auto simp: settled_def cs1_def nth_list_update)
  qed (simp add: cs1_def)
  have "nt_wf table" and keys: "nt_keys table = mset (map name_key cs)"
    using step by (auto simp: in_step_def)
  moreover have "name_key (cs ! k) \<in># nt_keys table"
    unfolding keys using k by simp
  moreover have "mset (map name_key cs1) =
      add_mset (name_key (cs1 ! k)) (mset (map name_key cs) - {#name_key (cs ! k)#})"
    using k by (simp only: cs1_def map_update mset_update length_map nth_map nth_list_update_eq)
  ultimately show "in_step cs1 (nt_add (nt_remove_ptr table (name_key (cs ! k))) (name_key (cs1 ! k)))"
    unfolding in_step_def keys [symmetric] by (simp only: nt.replace_keys simp_thms)
qed

lemma rename_run_renames:
  "rename_run digits name ext has_dot ks change cs table = (ok, cs', table') \<Longrightarrow>
     in_step cs table \<Longrightarrow> (\<forall>k \<in> set ks. k < length cs) \<Longrightarrow>
     in_step cs' table' \<and> renames (set ks) cs cs' \<and> (ok \<longrightarrow> (\<forall>k \<in> set ks. settled cs' k))"
proof (induction ks arbitrary: change cs table)
  case (Cons k ks)
  show ?case
  proof (cases "find_free table digits name ext has_dot change")
    case None
    with Cons.prems show ?thesis by (auto intro: shape_intros)
  next
    case (Some p)
    obtain tmp change' where p: "p = (tmp, change')" by (cases p)
    let ?cs1 = "cs[k := set_iso_name (cs ! k) tmp]"
    have k: "k < length cs" using Cons.prems(3) by simp
    note one = rename_one [OF k Cons.prems(2) find_free_Some [OF Some [unfolded p]]]
    have "in_step cs' table' \<and> renames (set ks) ?cs1 cs' \<and> (ok \<longrightarrow> (\<forall>k \<in> set ks. settled cs' k))"
      using Cons.prems(1,3) Some p by (intro Cons.IH [OF _ one(3)]) (auto simp: Let_def)
    moreover from this one(1) have "renames (set (k # ks)) cs cs'"
      by (intro renames_trans [of _ cs ?cs1 cs']) (auto intro: renames_mono)
    ultimately show ?thesis using one(2) by (auto simp: renames_def)
  qed
qed (auto intro: shape_intros)

lemma mangle_group_renames:
  "mangle_group opts mf md i j digits cs table = (ret, cs', table') \<Longrightarrow>
     in_step cs table \<Longrightarrow> j < length cs \<Longrightarrow>
     in_step cs' table' \<and> renames {i..j} cs cs' \<and> ((\<exists>n. ret = Inr n) \<longrightarrow> (\<forall>k \<in> {i..j}. settled cs' k))"
proof (induction opts mf md i j digits cs table rule: mangle_group.induct)
  case (1 opts mf md i j digits cs table)
  show ?case
  proof (cases "digits < 8")
    case False
    with 1(2,3) show ?thesis by (auto simp: mangle_group.simps intro: shape_intros)
  next
    case digits: True
    show ?thesis
    proof (cases "mangle_parts opts (cs ! i) mf md digits")
      case (Inl e)
      with digits 1(2,3) show ?thesis by (auto simp: mangle_group.simps intro: shape_intros)
    next
      case (Inr p)
      obtain name ext has_dot where p: "p = (name, ext, has_dot)" by (cases p)
      obtain ok cs1 table1 where
        run: "rename_run digits name ext has_dot [i..<j + 1] 0 cs table = (ok, cs1, table1)"
        by (cases "rename_run digits name ext has_dot [i..<j + 1] 0 cs table")
      have run_set: "set [i..<j + 1] = {i..j}" by auto
      have "\<forall>k \<in> {i..j}. k < length cs" using 1(4) by auto
      then have r: "in_step cs1 table1" "renames {i..j} cs cs1" "ok \<Longrightarrow> \<forall>k \<in> {i..j}. settled cs1 k"
        using rename_run_renames [OF run 1(3), unfolded run_set] by simp_all
      show ?thesis
      proof (cases ok)
        case True
        with digits 1(2) Inr p run r show ?thesis by (auto simp: mangle_group.simps)
      next
        case False
        then have "mangle_group opts mf md i j (digits + 1) cs1 table1 = (ret, cs', table')"
          using digits 1(2) Inr p run by (simp add: mangle_group.simps [of _ _ _ _ _ digits])
        with False digits Inr p run r 1(4) have
          "in_step cs' table' \<and> renames {i..j} cs1 cs' \<and> ((\<exists>n. ret = Inr n) \<longrightarrow> (\<forall>k \<in> {i..j}. settled cs' k))"
          by (intro 1(1) [OF digits Inr p [symmetric] refl run [symmetric] _ refl]) (simp_all add: renames_length)
        with r(2) show ?thesis by (blast intro: renames_trans)
      qed
    qed
  qed
qed

section \<open>The loop over the runs\<close>

lemma run_end_grows:
  "i \<le> j \<Longrightarrow> j < length cs \<Longrightarrow> \<forall>k \<in> {i..j}. iso_name (cs ! k) = iso_name (cs ! i) \<Longrightarrow>
     j \<le> run_end cs i j \<and> run_end cs i j < length cs \<and>
     (\<forall>k \<in> {i..run_end cs i j}. iso_name (cs ! k) = iso_name (cs ! i)) \<and>
     (run_end cs i j + 1 < length cs \<longrightarrow> iso_name (cs ! (run_end cs i j + 1)) \<noteq> iso_name (cs ! i))"
proof (induction cs i j rule: run_end.induct)
  case (1 cs i j)
  show ?case
  proof (cases "j + 1 < length cs \<and> cmp_node_name (cs ! i) (cs ! (j + 1)) = 0")
    case True
    then have "iso_name (cs ! (j + 1)) = iso_name (cs ! i)" by (simp add: cmp_node_name_def)
    have "iso_name (cs ! k) = iso_name (cs ! i)" if "k \<in> {i..j + 1}" for k
    proof (cases "k = j + 1")
      case True
      with \<open>j + 1 < length cs \<and> _\<close> show ?thesis by (simp add: cmp_node_name_def)
    next
      case False
      with that have "k \<in> {i..j}" by simp
      then show ?thesis by (rule bspec [OF 1(4)])
    qed
    then have names: "\<forall>k \<in> {i..j + 1}. iso_name (cs ! k) = iso_name (cs ! i)" ..
    have e: "run_end cs i j = run_end cs i (j + 1)" using True by (subst run_end.simps) simp
    have "i \<le> j + 1" and "j + 1 < length cs" using True 1(2) by simp_all
    note ih = 1(1) [OF True this names]
    from conjunct1 [OF ih] have "j \<le> run_end cs i (j + 1)" by (rule add_leD1)
    with conjunct2 [OF ih] show ?thesis unfolding e by (rule conjI [rotated])
  next
    case False
    then have e: "run_end cs i j = j" by (subst run_end.simps) (simp only: if_False)
    from False have "j + 1 < length cs \<longrightarrow> iso_name (cs ! (j + 1)) \<noteq> iso_name (cs ! i)"
      by (auto simp: cmp_node_name_def)
    with 1(3,4) show ?thesis unfolding e by (intro conjI order_refl)
  qed
qed

lemma run_end_props:
  assumes "i < length cs"
  shows "i \<le> run_end cs i i" and "run_end cs i i < length cs"
    and "k \<in> {i..run_end cs i i} \<Longrightarrow> iso_name (cs ! k) = iso_name (cs ! i)"
    and "run_end cs i i + 1 < length cs \<Longrightarrow> iso_name (cs ! (run_end cs i i + 1)) \<noteq> iso_name (cs ! i)"
proof -
  have "\<forall>k \<in> {i..i}. iso_name (cs ! k) = iso_name (cs ! i)" by simp
  note g = run_end_grows [OF order_refl assms this]
  from g show "i \<le> run_end cs i i" and "run_end cs i i < length cs" by (rule conjunct1, iprover)
  show "iso_name (cs ! k) = iso_name (cs ! i)" if "k \<in> {i..run_end cs i i}"
    using g that by (elim conjE) (rule bspec)
  from g show "run_end cs i i + 1 < length cs \<Longrightarrow> iso_name (cs ! (run_end cs i i + 1)) \<noteq> iso_name (cs ! i)"
    by iprover
qed

text \<open>The loop invariant at index \<open>i\<close>: what is before \<open>i\<close> is settled, the rest is sorted.\<close>

definition runs_inv :: "nat \<Rightarrow> ecma119_node list \<Rightarrow> name_table \<Rightarrow> bool" where
  "runs_inv i cs table \<longleftrightarrow> in_step cs table \<and> (\<forall>a < min i (length cs). settled cs a) \<and>
     sorted (map iso_name (drop i cs))"

lemma sorted_dropD:
  "sorted (map f (drop i xs)) \<Longrightarrow> i \<le> a \<Longrightarrow> a \<le> b \<Longrightarrow> b < length xs \<Longrightarrow> f (xs ! a) \<le> f (xs ! b)"
  using sorted_nth_mono [of "map f (drop i xs)" "a - i" "b - i"] by simp

lemma runs_inv_unique:
  assumes inv: "runs_inv i cs table" and i: "i < length cs" and j: "run_end cs i i = i"
  shows "runs_inv (i + 1) cs table"
proof -
  have next_name: "iso_name (cs ! (i + 1)) \<noteq> iso_name (cs ! i)" if "i + 1 < length cs"
    using run_end_props(4) [OF i] that unfolding j by blast
  have "settled cs i"
    unfolding settled_def
  proof (intro conjI allI impI)
    fix b assume b: "b < length cs" "b \<noteq> i"
    show "iso_name (cs ! b) \<noteq> iso_name (cs ! i)"
    proof (cases "b < i")
      case True
      with inv i b(1) have "settled cs b" by (simp add: runs_inv_def)
      with i b show ?thesis unfolding settled_def by metis
    next
      case False
      have s: "sorted (map iso_name (drop i cs))" using inv by (simp add: runs_inv_def)
      have "iso_name (cs ! i) < iso_name (cs ! (i + 1))" and "iso_name (cs ! (i + 1)) \<le> iso_name (cs ! b)"
        using sorted_dropD [OF s, of i "i + 1"] sorted_dropD [OF s, of "i + 1" b] next_name False b i
        by auto
      then show ?thesis by auto
    qed
  qed (rule i)
  moreover have "sorted (map iso_name (drop (i + 1) cs))"
    using inv i by (simp add: runs_inv_def flip: Cons_nth_drop_Suc)
  ultimately show ?thesis using inv by (auto simp: runs_inv_def less_Suc_eq)
qed

lemma runs_inv_group:
  assumes inv: "runs_inv i cs table" and j: "i \<le> j" "j < length cs"
    and r: "in_step cs' table'" "renames {i..j} cs cs'" "\<forall>k \<in> {i..j}. settled cs' k"
  shows "runs_inv (j + 1) cs' table'"
proof -
  have len: "length cs' = length cs" using r(2) by (rule renames_length)
  have "settled cs' a" if "a < j + 1" for a
  proof (cases "i \<le> a")
    case True
    with that r(3) show ?thesis by simp
  next
    case False
    with j inv have "settled cs a" by (simp add: runs_inv_def)
    with r(2) show ?thesis by (simp add: renames_def)
  qed
  moreover have "drop (j + 1) cs' = drop (j + 1) cs"
    using r(2) len by (intro nth_equalityI) (auto simp: renames_def)
  moreover have "sorted (map iso_name (drop (j + 1) cs))"
  proof -
    have "drop (j + 1) cs = drop (j + 1 - i) (drop i cs)" using j by simp
    then show ?thesis using inv by (simp only: runs_inv_def drop_map [symmetric] sorted_wrt_drop)
  qed
  ultimately show ?thesis using r(1) by (simp add: runs_inv_def)
qed

text \<open>What the loop guarantees when it succeeds: every node is settled, nothing but names has
  changed, and the names that were unique before are the same.\<close>

lemma mangle_runs_settled:
  "mangle_runs opts mf md n i cs table ns = (Inr r, cs', ns') \<Longrightarrow>
     n = length cs \<Longrightarrow> runs_inv i cs table \<Longrightarrow>
     r = 1 \<and> map node_rest cs' = map node_rest cs \<and> (\<forall>a < length cs. settled cs' a) \<and>
     (\<forall>a. settled cs a \<longrightarrow> cs' ! a = cs ! a) \<and> (ns \<longrightarrow> ns') \<and> (\<not> ns' \<longrightarrow> cs' = cs)"
proof (induction opts mf md n i cs table ns rule: mangle_runs.induct)
  case (1 opts mf md n i cs table ns)
  let ?j = "run_end cs i i"
  show ?case
  proof (cases "i < n")
    case False
    with 1(3-5) show ?thesis by (auto simp: mangle_runs.simps [of _ _ _ _ i] runs_inv_def)
  next
    case i: True
    show ?thesis
    proof (cases "?j = i")
      case True
      with i 1(3) have "mangle_runs opts mf md n (i + 1) cs table ns = (Inr r, cs', ns')"
        by (simp add: mangle_runs.simps [of _ _ _ _ i])
      from 1(1) [OF i refl True this 1(4)] runs_inv_unique [OF 1(5) _ True] i 1(4)
      show ?thesis by simp
    next
      case False
      obtain ret cs1 table1 where
        g: "mangle_group opts mf md i ?j 1 cs table = (ret, cs1, table1)"
        by (cases "mangle_group opts mf md i ?j 1 cs table")
      have un: "\<not> untranslated_name_len opts \<noteq> 0"
        using False i 1(3) by (auto simp: mangle_runs.simps [of _ _ _ _ i] Let_def split: if_splits)
      have "ret \<noteq> Inl e" for e
        using False i 1(3) g un by (auto simp: mangle_runs.simps [of _ _ _ _ i])
      then obtain q where q: "ret = Inr q" by (cases ret) auto
      have more: "mangle_runs opts mf md n (max i ?j + 1) cs1 table1 True = (Inr r, cs', ns')"
        using False i 1(3) g q un by (simp add: mangle_runs.simps [of _ _ _ _ i])
      have "i < length cs" using i 1(4) by simp
      note j = run_end_props [OF this]
      have "in_step cs table" using 1(5) by (simp add: runs_inv_def)
      from mangle_group_renames [OF g this j(2)] q have
        r: "in_step cs1 table1" "renames {i..?j} cs cs1" "\<forall>k \<in> {i..?j}. settled cs1 k" by auto
      note len = renames_length [OF r(2)]
      have "runs_inv (max i ?j + 1) cs1 table1"
        using runs_inv_group [OF 1(5) j(1,2) r] j(1) by (simp add: max_def)
      with 1(2) [OF i refl False un g [symmetric] q refl more] 1(4) len have
        all: "r = 1" "map node_rest cs' = map node_rest cs1" "\<forall>a < length cs. settled cs' a"
          "\<forall>a. settled cs1 a \<longrightarrow> cs' ! a = cs1 ! a" "ns'" by auto
      have "cs' ! a = cs ! a" if a: "settled cs a" for a
      proof -
        have "a \<notin> {i..?j}"
        proof
          assume m: "a \<in> {i..?j}"
          define b where "b = (if a = i then ?j else i)"
          have "b \<noteq> a" "b < length cs" "b \<in> {i..?j}" using False j(1,2) m i 1(4) by (auto simp: b_def)
          then have "iso_name (cs ! b) = iso_name (cs ! a)" using j(3) [of a] j(3) [of b] m by simp
          with a \<open>b \<noteq> a\<close> \<open>b < length cs\<close> show False by (simp add: settled_def)
        qed
        with r(2) a have "cs1 ! a = cs ! a" and "settled cs1 a"
          by (auto simp: renames_def settled_def)
        with all(4) show ?thesis by simp
      qed
      with all r(2) show ?thesis by (simp add: renames_def)
    qed
  qed
qed

section \<open>One directory\<close>

lemma nt_new_table: "0 < n \<Longrightarrow> \<exists>t. nt_new ((n * 100) div 80) = Some t \<and> nt_wf t \<and> nt_keys t = {#}"
  using nt_new_wf by simp

lemma settled_distinct: "\<forall>a < length cs. settled cs a \<Longrightarrow> distinct (map iso_name cs)"
  by (auto simp: distinct_conv_nth settled_def)

lemma unique_settled:
  assumes "n \<in> set cs" and "count (mset (map iso_name cs)) (iso_name n) = 1"
  shows "\<exists>a. a < length cs \<and> cs ! a = n \<and> settled cs a"
proof -
  from assms(1) obtain a where a: "a < length cs" "cs ! a = n" by (metis in_set_conv_nth)
  have "iso_name (cs ! b) \<noteq> iso_name n" if b: "b < length cs" "b \<noteq> a" for b
  proof
    assume eq: "iso_name (cs ! b) = iso_name n"
    have "card {k. k < length (map iso_name cs) \<and> map iso_name cs ! k = iso_name n} = 1"
      using assms(2) by (simp only: count_mset length_filter_conv_card[symmetric] count_list_eq_length_filter eq_commute)
    moreover have "{a, b} \<subseteq> {k. k < length (map iso_name cs) \<and> map iso_name cs ! k = iso_name n}"
      using a b eq by auto
    ultimately have "card {a, b} \<le> 1" by (metis (no_types, lifting) card_mono card_ge_0_finite zero_less_one)
    with b(2) show False by simp
  qed
  with a show ?thesis by (auto simp: settled_def)
qed

lemma sorted_names_strict:
  "sorted (map iso_name cs) \<Longrightarrow> distinct (map iso_name cs) \<Longrightarrow> sorted_wrt (<) (map iso_name cs)"
  by (simp add: strict_sorted_iff)

lemma mangle_single_dir_names:
  assumes run: "mangle_single_dir opts cs mf md = (Inr r, cs')" and sorted: "sorted (map iso_name cs)"
  shows "r = 1" and "sorted_wrt (<) (map iso_name cs')"
    and "\<And>n. n \<in> set cs \<Longrightarrow> count (mset (map iso_name cs)) (iso_name n) = 1 \<Longrightarrow> n \<in> set cs'"
proof -
  have "r = 1 \<and> sorted_wrt (<) (map iso_name cs') \<and>
    (\<forall>n \<in> set cs. count (mset (map iso_name cs)) (iso_name n) = 1 \<longrightarrow> n \<in> set cs')"
  proof (cases "cs = []")
    case True
    with run show ?thesis by (simp add: mangle_single_dir_def)
  next
    case False
    then obtain t where t: "nt_new ((length cs * 100) div 80) = Some t" "nt_wf t" "nt_keys t = {#}"
      using nt_new_table [of "length cs"] by auto
    define table where "table = foldl nt_add t (map name_key cs)"
    have "in_step cs table"
      using nt.fold_add [OF t(2), of "map name_key cs"] t(3) by (simp add: in_step_def table_def)
    then have inv: "runs_inv 0 cs table" using sorted by (simp add: runs_inv_def)
    obtain q cs1 ns where m: "mangle_runs opts mf md (length cs) 0 cs table False = (q, cs1, ns)"
      by (cases "mangle_runs opts mf md (length cs) 0 cs table False")
    from run False t(1) m have q: "q = Inr r" "cs' = (if ns then qsort_children cs1 else cs1)"
      by (auto simp: mangle_single_dir_def Let_def table_def split: sum.splits)
    note s = mangle_runs_settled [OF m [unfolded q(1)] refl inv]
    then have len: "length cs1 = length cs" by (metis length_map)
    have "distinct (map iso_name cs1)" using s len by (intro settled_distinct) simp
    then have "distinct (map iso_name cs')"
      using q(2) by (simp add: qsort_children_def distinct_map)
    moreover have "sorted (map iso_name cs')"
      using q(2) s sorted by (auto simp: qsort_children_def)
    moreover have "n \<in> set cs'" if n: "n \<in> set cs" "count (mset (map iso_name cs)) (iso_name n) = 1" for n
    proof -
      from unique_settled [OF n] obtain a where "a < length cs" "cs ! a = n" "settled cs a" by blast
      with s len have "n \<in> set cs1" by (metis nth_mem)
      with q(2) show ?thesis by (simp add: qsort_children_def)
    qed
    ultimately show ?thesis using s by (auto intro: sorted_names_strict)
  qed
  then show "r = 1" and "sorted_wrt (<) (map iso_name cs')"
    and "\<And>n. n \<in> set cs \<Longrightarrow> count (mset (map iso_name cs)) (iso_name n) = 1 \<Longrightarrow> n \<in> set cs'" by blast+
qed

lemma rename_run_rest:
  "rename_run digits name ext has_dot ks change cs table = (ok, cs', table') \<Longrightarrow>
     map node_rest cs' = map node_rest cs"
proof (induction ks arbitrary: change cs table)
  case (Cons k ks)
  have "map node_rest (cs[k := set_iso_name (cs ! k) s]) = map node_rest cs" for s
    by (cases "k < length cs") (simp_all add: map_update list_update_same_conv list_update_beyond)
  with Cons show ?case by (auto simp: Let_def split: option.splits prod.splits)
qed simp

lemma mangle_group_rest:
  "mangle_group opts mf md i j digits cs table = (ret, cs', table') \<Longrightarrow>
     map node_rest cs' = map node_rest cs"
proof (induction opts mf md i j digits cs table rule: mangle_group.induct)
  case (1 opts mf md i j digits cs table)
  note ih = 1(1) [OF _ _ refl refl sym refl refl, unfolded Suc_eq_plus1 [symmetric]]
  from 1(2) show ?case
    by (subst (asm) mangle_group.simps)
      (auto split: if_splits sum.splits prod.splits bool.splits simp del: upt_Suc; metis ih rename_run_rest)
qed

lemma mangle_runs_rest:
  "mangle_runs opts mf md n i cs table ns = (ret, cs', ns') \<Longrightarrow> map node_rest cs' = map node_rest cs"
proof (induction opts mf md n i cs table ns rule: mangle_runs.induct)
  case (1 opts mf md n i cs table ns)
  obtain g cs1 table1 where g: "mangle_group opts mf md i (run_end cs i i) 1 cs table = (g, cs1, table1)"
    by (cases "mangle_group opts mf md i (run_end cs i i) 1 cs table")
  note ih = 1(1) [OF _ refl] 1(2) [OF _ refl _ _ g [symmetric] _ refl]
  from 1(3) mangle_group_rest [OF g] show ?case
    by (subst (asm) mangle_runs.simps) (auto simp: Let_def g [simplified] split: if_splits sum.splits dest: ih [simplified])
qed

lemma mangle_single_dir_rest:
  "mset (map node_rest (snd (mangle_single_dir opts cs mf md))) = mset (map node_rest cs)"
  by (auto simp: mangle_single_dir_def Let_def qsort_children_def dest!: mangle_runs_rest
      split: option.splits prod.splits sum.splits) (metis mset_map mset_sort)+

section \<open>The whole tree\<close>

fun node_weight :: "ecma119_node \<Rightarrow> nat" where
  "node_weight (Ecma119Node i s t cs) = Suc (sum_list (map node_weight cs))"

definition set_children :: "ecma119_node \<Rightarrow> ecma119_node list \<Rightarrow> ecma119_node" where
  "set_children n cs = Ecma119Node (ec_id n) (iso_name n) (ec_type n) cs"

lemma set_children_simps [simp]:
  "ec_id (set_children n cs) = ec_id n" "iso_name (set_children n cs) = iso_name n"
  "ec_type (set_children n cs) = ec_type n" "ec_children (set_children n cs) = cs"
  by (simp_all add: set_children_def)

lemma node_weight_children: "node_weight n = Suc (sum_list (map node_weight (ec_children n)))"
  by (cases n) simp

text \<open>Any quantity of a node that does not depend on its name is the same, summed up over the
  children, after the names of a directory have been mangled.\<close>

lemma mangled_sum:
  fixes f :: "ecma119_node \<Rightarrow> 'a::comm_monoid_add"
  assumes "mangle_single_dir opts cs mf md = (ret, cs')" and "\<And>n. f n = g (node_rest n)"
  shows "sum_list (map f cs') = sum_list (map f cs)"
proof -
  have f: "f = g \<circ> node_rest" using assms(2) by auto
  have "mset (map node_rest cs') = mset (map node_rest cs)"
    using mangle_single_dir_rest [of opts cs mf md] assms(1) by simp
  then have "mset (map g (map node_rest cs')) = mset (map g (map node_rest cs))"
    by (simp only: mset_map [of g])
  then show ?thesis unfolding f sum_mset_sum_list [symmetric] by simp
qed

lemma mangled_weight:
  "mangle_single_dir opts cs mf md = (ret, cs') \<Longrightarrow>
     sum_list (map node_weight cs') = sum_list (map node_weight cs)"
  by (rule mangled_sum [where g = "\<lambda>(i, t, cs). Suc (sum_list (map node_weight cs))"])
    (simp_all add: node_rest_def node_weight_children)

text \<open>\<open>mangle_dir\<close> and its loop over the subdirectories.\<close>

function mangle_dir ::
    "mangle_opts \<Rightarrow> int \<Rightarrow> int \<Rightarrow> ecma119_node \<Rightarrow> (iso_error + nat) \<times> ecma119_node"
  and mangle_subdirs ::
    "mangle_opts \<Rightarrow> int \<Rightarrow> int \<Rightarrow> ecma119_node list \<Rightarrow> (iso_error + nat) \<times> ecma119_node list"
where
  "mangle_dir opts max_file_len max_dir_len dir =
     (case mangle_single_dir opts (ec_children dir) max_file_len max_dir_len of
        (Inl e, cs) \<Rightarrow> (Inl e, set_children dir cs)
      | (Inr _, cs) \<Rightarrow>
          (case mangle_subdirs opts max_file_len max_dir_len cs of
             (ret, cs') \<Rightarrow> (ret, set_children dir cs')))"
| "mangle_subdirs opts max_file_len max_dir_len [] = (Inr 1, [])"
| "mangle_subdirs opts max_file_len max_dir_len (child # cs) =
     (if ec_type child = ECMA119_DIR
      then case mangle_dir opts max_file_len max_dir_len child of
             (Inl e, child') \<Rightarrow> (Inl e, child' # cs)
           | (Inr _, child') \<Rightarrow>
               (case mangle_subdirs opts max_file_len max_dir_len cs of
                  (ret, cs') \<Rightarrow> (ret, child' # cs'))
      else case mangle_subdirs opts max_file_len max_dir_len cs of (ret, cs') \<Rightarrow> (ret, child # cs'))"
  by pat_completeness auto
termination
proof (relation "measure (case_sum (\<lambda>(opts, mf, md, dir). 2 * node_weight dir)
    (\<lambda>(opts, mf, md, cs). 2 * sum_list (map node_weight cs) + 1))")
qed (auto simp: node_weight_children dest: mangled_weight [OF sym])

declare mangle_dir.simps [simp del]

text \<open>The limits on the length of names.\<close>

definition name_limits :: "mangle_opts \<Rightarrow> int \<times> int" where
  "name_limits opts =
     (if 0 < untranslated_name_len opts
      then (int (untranslated_name_len opts), int (untranslated_name_len opts))
      else if max_37_char_filenames opts then (37, 37)
      else if iso_level opts = 1 then (12, 8)
      else (31, 31))"

text \<open>\<open>mangle_tree\<close>; \<open>recurse\<close> chooses between all of the tree and its top directory.\<close>

definition mangle_tree ::
  "mangle_opts \<Rightarrow> ecma119_node \<Rightarrow> bool \<Rightarrow> (iso_error + nat) \<times> ecma119_node" where
  "mangle_tree opts root recurse =
     (case name_limits opts of (max_file, max_dir) \<Rightarrow>
        if recurse then mangle_dir opts max_file max_dir root
        else case mangle_single_dir opts (ec_children root) max_file max_dir of
               (ret, cs) \<Rightarrow> (ret, set_children root cs))"

function sort_tree :: "ecma119_node \<Rightarrow> ecma119_node" where
  "sort_tree root =
     set_children root
       (map (\<lambda>child. if ec_type child = ECMA119_DIR then sort_tree child else child)
          (qsort_children (ec_children root)))"
  by pat_completeness auto
termination
proof (relation "measure node_weight")
  fix root child assume "child \<in> set (qsort_children (ec_children root))"
  then have "child \<in> set (ec_children root)" by (simp add: qsort_children_def)
  then have "node_weight child \<le> sum_list (map node_weight (ec_children root))"
    by (intro member_le_sum_list) auto
  then show "(child, root) \<in> measure node_weight" by (simp add: node_weight_children [of root])
qed simp

declare sort_tree.simps [simp del]

text \<open>A tree in which the names of every directory are ordered by a relation.\<close>

fun tree_ordered :: "(string \<Rightarrow> string \<Rightarrow> bool) \<Rightarrow> ecma119_node \<Rightarrow> bool" where
  "tree_ordered le (Ecma119Node i s t cs) \<longleftrightarrow>
     sorted_wrt le (map iso_name cs) \<and> (\<forall>c \<in> set cs. ec_type c = ECMA119_DIR \<longrightarrow> tree_ordered le c)"

text \<open>Which node is the child of which directory, and its type.\<close>

definition child_edges :: "nat \<Rightarrow> ecma119_node list \<Rightarrow> (nat \<times> nat \<times> node_type) multiset" where
  "child_edges i cs = mset (map (\<lambda>c. (i, ec_id c, ec_type c)) cs)"

fun node_edges :: "ecma119_node \<Rightarrow> (nat \<times> nat \<times> node_type) multiset" where
  "node_edges (Ecma119Node i s t cs) =
     child_edges i cs + sum_list (map node_edges cs)"

lemma tree_ordered_children:
  "tree_ordered le n \<longleftrightarrow> sorted_wrt le (map iso_name (ec_children n)) \<and>
     (\<forall>c \<in> set (ec_children n). ec_type c = ECMA119_DIR \<longrightarrow> tree_ordered le c)"
  by (cases n) simp

lemma node_edges_children:
  "node_edges n = child_edges (ec_id n) (ec_children n) + sum_list (map node_edges (ec_children n))"
  by (cases n) simp

definition same_outside :: "ecma119_node list \<Rightarrow> ecma119_node list \<Rightarrow> bool" where
  "same_outside cs cs' \<longleftrightarrow> map (\<lambda>c. (ec_id c, iso_name c, ec_type c)) cs' = map (\<lambda>c. (ec_id c, iso_name c, ec_type c)) cs"

lemma same_outside_simps [simp]:
  "same_outside [] cs' \<longleftrightarrow> cs' = []"
  "same_outside (c # cs) (c' # cs') \<longleftrightarrow>
     ec_id c' = ec_id c \<and> iso_name c' = iso_name c \<and> ec_type c' = ec_type c \<and> same_outside cs cs'"
  "same_outside cs cs"
  by (auto simp: same_outside_def)

lemma same_outside_map:
  assumes "same_outside cs cs'" and "\<And>c. f c = g (ec_id c, iso_name c, ec_type c)"
  shows "map f cs' = map f cs"
proof -
  have f: "f = (\<lambda>c. g (ec_id c, iso_name c, ec_type c))" by (rule ext) (rule assms(2))
  have "map g (map (\<lambda>c. (ec_id c, iso_name c, ec_type c)) cs') = map g (map (\<lambda>c. (ec_id c, iso_name c, ec_type c)) cs)"
    using assms(1) by (simp only: same_outside_def)
  then show ?thesis by (simp add: f comp_def)
qed

lemma mangled_edges:
  assumes "mangle_single_dir opts cs mf md = (ret, cs')"
  shows "child_edges i cs' = child_edges i cs"
    and "sum_list (map node_edges cs') = sum_list (map node_edges cs)"
proof -
  have "(\<Sum>c\<leftarrow>cs'. {#(i, ec_id c, ec_type c)#}) = (\<Sum>c\<leftarrow>cs. {#(i, ec_id c, ec_type c)#})"
    by (rule mangled_sum [OF assms, where g = "\<lambda>(j, t, _). {#(i, j, t)#}"]) (simp add: node_rest_def)
  moreover have "(\<Sum>c\<leftarrow>ds. {#(i, ec_id c, ec_type c)#}) = child_edges i ds" for ds
    by (induction ds) (auto simp: child_edges_def)
  ultimately show "child_edges i cs' = child_edges i cs" by simp
  show "sum_list (map node_edges cs') = sum_list (map node_edges cs)"
    by (rule mangled_sum [OF assms, where g =
      "\<lambda>(i, t, cs). child_edges i cs + sum_list (map node_edges cs)"])
      (simp add: node_rest_def node_edges_children)
qed

lemma mangle_dir_spec:
  shows "\<And>ret dir'. mangle_dir opts mf md dir = (ret, dir') \<Longrightarrow>
      ec_id dir' = ec_id dir \<and> iso_name dir' = iso_name dir \<and> ec_type dir' = ec_type dir \<and>
      node_edges dir' = node_edges dir \<and>
      (tree_ordered (\<le>) dir \<longrightarrow> (\<forall>r. ret = Inr r \<longrightarrow> r = 1 \<and> tree_ordered (<) dir'))"
    and "\<And>ret cs'. mangle_subdirs opts mf md cs = (ret, cs') \<Longrightarrow>
      same_outside cs cs' \<and> sum_list (map node_edges cs') = sum_list (map node_edges cs) \<and>
      ((\<forall>c \<in> set cs. ec_type c = ECMA119_DIR \<longrightarrow> tree_ordered (\<le>) c) \<longrightarrow>
        (\<forall>r. ret = Inr r \<longrightarrow> r = 1 \<and> (\<forall>c \<in> set cs'. ec_type c = ECMA119_DIR \<longrightarrow> tree_ordered (<) c)))"
proof (induction opts mf md dir and opts mf md cs rule: mangle_dir_mangle_subdirs.induct)
  case (1 opts mf md dir)
  obtain q cs where m: "mangle_single_dir opts (ec_children dir) mf md = (q, cs)"
    by (cases "mangle_single_dir opts (ec_children dir) mf md")
  show ?case
  proof (cases q)
    case (Inl e)
    with m 1(2) show ?thesis
      by (auto simp: mangle_dir.simps node_edges_children mangled_edges [OF m])
  next
    case (Inr x)
    obtain ret1 cs1 where s: "mangle_subdirs opts mf md cs = (ret1, cs1)"
      by (cases "mangle_subdirs opts mf md cs")
    with Inr m 1(2) have d: "ret = ret1" "dir' = set_children dir cs1"
      by (auto simp: mangle_dir.simps)
    note ih = 1(1) [OF m [symmetric] Inr s]
    then have "same_outside cs cs1" by simp
    note same = same_outside_map [OF this]
    have "map (\<lambda>c. (ec_id dir, ec_id c, ec_type c)) cs1 = map (\<lambda>c. (ec_id dir, ec_id c, ec_type c)) cs"
      by (rule same [where g = "\<lambda>(i, _, t). (ec_id dir, i, t)"]) simp
    then have "child_edges (ec_id dir) cs1 = child_edges (ec_id dir) cs" by (simp only: child_edges_def)
    then have edges: "node_edges dir' = node_edges dir"
      using ih by (simp add: d node_edges_children [of dir] node_edges_children [of "set_children dir cs1"] mangled_edges [OF m])
    have "r = 1 \<and> tree_ordered (<) dir'" if le: "tree_ordered (\<le>) dir" and r: "ret = Inr r" for r
    proof -
      have sorted: "sorted (map iso_name (ec_children dir))"
        and sub: "\<forall>c \<in> set (ec_children dir). ec_type c = ECMA119_DIR \<longrightarrow> tree_ordered (\<le>) c"
        using le tree_ordered_children [of "(\<le>)" dir] by auto
      have "map iso_name cs1 = map iso_name cs"
        by (rule same [where g = "\<lambda>(_, s, _). s"]) simp
      then have "sorted_wrt (<) (map iso_name cs1)"
        using mangle_single_dir_names(2) [OF m [unfolded Inr] sorted] by simp
      moreover have "\<forall>c \<in> set cs. ec_type c = ECMA119_DIR \<longrightarrow> tree_ordered (\<le>) c"
      proof (intro ballI impI)
        fix c assume c: "c \<in> set cs" "ec_type c = ECMA119_DIR"
        have "node_rest c \<in># mset (map node_rest cs)" using c(1) by simp
        then have "node_rest c \<in># mset (map node_rest (ec_children dir))"
          using mangle_single_dir_rest [of opts "ec_children dir" mf md] m by (metis snd_conv)
        then obtain b where b: "b \<in> set (ec_children dir)" "node_rest b = node_rest c" by auto
        with sub c(2) have "tree_ordered (\<le>) b" by (simp add: node_rest_def)
        with b(2) show "tree_ordered (\<le>) c"
          unfolding tree_ordered_children [of _ b] tree_ordered_children [of _ c] by (simp add: node_rest_def)
      qed
      ultimately show ?thesis
        using ih r d by (simp add: tree_ordered_children [of _ "set_children dir cs1"])
    qed
    with d edges show ?thesis by simp
  qed
next
  case (2 opts mf md)
  then show ?case by auto
next
  case (3 opts mf md child cs)
  show ?case
  proof (cases "ec_type child = ECMA119_DIR")
    case False
    with 3 show ?thesis by (auto split: prod.splits)
  next
    case dir: True
    obtain q child' where m: "mangle_dir opts mf md child = (q, child')"
      by (cases "mangle_dir opts mf md child")
    note ih = 3(1) [OF dir m]
    obtain q2 cs2 where s: "mangle_subdirs opts mf md cs = (q2, cs2)"
      by (cases "mangle_subdirs opts mf md cs")
    show ?thesis
    proof (cases q)
      case (Inl e)
      with ih dir m 3(4) show ?thesis by auto
    next
      case (Inr x)
      with ih 3(2) [OF dir m [symmetric] Inr s] dir m s 3(4) show ?thesis by auto
    qed
  qed
qed

lemma sort_tree_spec:
  "ec_id (sort_tree n) = ec_id n \<and> iso_name (sort_tree n) = iso_name n \<and> ec_type (sort_tree n) = ec_type n \<and>
     tree_ordered (\<le>) (sort_tree n) \<and> node_edges (sort_tree n) = node_edges n"
proof (induction n rule: sort_tree.induct)
  case (1 n)
  let ?cs = "qsort_children (ec_children n)"
  let ?f = "\<lambda>c. if ec_type c = ECMA119_DIR then sort_tree c else c"
  have f: "ec_id (?f c) = ec_id c \<and> iso_name (?f c) = iso_name c \<and> ec_type (?f c) = ec_type c \<and>
      node_edges (?f c) = node_edges c" if "c \<in> set ?cs" for c
    using 1 [OF that] by simp
  have sort: "sort_tree n = set_children n (map ?f ?cs)" by (subst sort_tree.simps) simp
  have names: "map iso_name (map ?f ?cs) = map iso_name ?cs"
    and edges: "map node_edges (map ?f ?cs) = map node_edges ?cs"
    and ids: "map (\<lambda>c. (ec_id n, ec_id c, ec_type c)) (map ?f ?cs) = map (\<lambda>c. (ec_id n, ec_id c, ec_type c)) ?cs"
    using f by (simp_all only: map_map comp_def map_eq_conv) blast+
  have perm: "mset ?cs = mset (ec_children n)" by (simp add: qsort_children_def)
  then have sum: "sum_list (map node_edges ?cs) = sum_list (map node_edges (ec_children n))"
    and child: "child_edges (ec_id n) ?cs = child_edges (ec_id n) (ec_children n)"
    by (simp_all only: mset_map child_edges_def flip: sum_mset_sum_list)
  have "child_edges (ec_id n) (map ?f ?cs) = child_edges (ec_id n) ?cs" by (simp only: child_edges_def ids)
  then have "node_edges (sort_tree n) = node_edges n"
    unfolding sort node_edges_children [of n] node_edges_children [of "set_children n _"] set_children_simps
      edges sum child by simp
  moreover have "tree_ordered (\<le>) (sort_tree n)"
  proof -
    have "sorted (map iso_name ?cs)" by (simp add: qsort_children_def)
    moreover have "tree_ordered (\<le>) (sort_tree c)" if "c \<in> set ?cs" "ec_type c = ECMA119_DIR" for c
      using 1 [OF that] by simp
    ultimately show ?thesis
      unfolding sort tree_ordered_children [of _ "set_children n _"] set_children_simps names by auto
  qed
  ultimately show ?case unfolding sort set_children_simps by simp
qed

section \<open>Success, and the length of names\<close>

lemma mangled_name_inject:
  "0 < w \<Longrightarrow> m < 10 ^ w \<Longrightarrow> n < 10 ^ w \<Longrightarrow> mangled_name w name ext has_dot m = mangled_name w name ext has_dot n \<Longrightarrow> m = n"
  using zero_pad_inject [of w m n] by (auto simp: mangled_name_def length_zero_pad split: if_splits)

text \<open>The numbers from \<open>change\<close> on whose names are still free.\<close>

definition free_from :: "ecma119_node list \<Rightarrow> nat \<Rightarrow> string \<Rightarrow> string \<Rightarrow> bool \<Rightarrow> nat \<Rightarrow> nat set" where
  "free_from cs digits name ext has_dot change =
     {c. change \<le> c \<and> c < 10 ^ digits \<and> mangled_name digits name ext has_dot c \<notin> iso_name ` set cs}"

lemma finite_free_from [simp]: "finite (free_from cs digits name ext has_dot change)"
  by (rule finite_subset [of _ "{..<10 ^ digits}"]) (auto simp: free_from_def)

lemma find_free_spec:
  "in_step cs table \<Longrightarrow>
     (case find_free table digits name ext has_dot change of
        None \<Rightarrow> free_from cs digits name ext has_dot change = {}
      | Some (tmp, change') \<Rightarrow> 0 < change' \<and> change' - 1 < 10 ^ digits \<and>
          tmp = mangled_name digits name ext has_dot (change' - 1) \<and>
          free_from cs digits name ext has_dot change =
            insert (change' - 1) (free_from cs digits name ext has_dot change'))"
proof (induction table digits name ext has_dot change rule: find_free.induct)
  case (1 table digits name ext has_dot change)
  let ?tmp = "mangled_name digits name ext has_dot change"
  have step: "free_from cs digits name ext has_dot change =
      (if change < 10 ^ digits \<and> ?tmp \<notin> iso_name ` set cs
       then insert change (free_from cs digits name ext has_dot (change + 1))
       else free_from cs digits name ext has_dot (change + 1))"
    by (auto simp: free_from_def Suc_le_eq order_le_less)
  show ?case
  proof (cases "change + 1 > 10 ^ digits")
    case True
    then have "find_free table digits name ext has_dot change = None"
      by (subst find_free.simps) (simp add: Let_def)
    with True show ?thesis by (auto simp: free_from_def)
  next
    case False
    show ?thesis
    proof (cases "nt_has table (0, ?tmp)")
      case True
      then have "find_free table digits name ext has_dot change = find_free table digits name ext has_dot (change + 1)"
        using False by (subst find_free.simps) (simp add: Let_def)
      moreover have "\<not> \<not> nt_has table (0, ?tmp)" and "?tmp \<in> iso_name ` set cs"
        using True in_step_has [OF 1(2)] by simp_all
      ultimately show ?thesis using 1(1) [OF refl refl False _ 1(2)] step by (simp only: simp_thms if_False)
    next
      case free: False
      then have "find_free table digits name ext has_dot change = Some (?tmp, change + 1)"
        using False by (subst find_free.simps) (simp add: Let_def)
      with False free in_step_has [OF 1(2)] step show ?thesis by simp
    qed
  qed
qed

lemma rename_run_succeeds:
  "in_step cs table \<Longrightarrow> \<forall>k \<in> set ks. k < length cs \<Longrightarrow> 0 < digits \<Longrightarrow>
     length ks \<le> card (free_from cs digits name ext has_dot change) \<Longrightarrow>
     fst (rename_run digits name ext has_dot ks change cs table)"
proof (induction ks arbitrary: change cs table)
  case (Cons k ks)
  note spec = find_free_spec [OF Cons.prems(1), of digits name ext has_dot change]
  show ?case
  proof (cases "find_free table digits name ext has_dot change")
    case None
    with spec Cons.prems(4) show ?thesis by simp
  next
    case (Some p)
    obtain tmp change' where p: "p = (tmp, change')" by (cases p)
    let ?cs1 = "cs[k := set_iso_name (cs ! k) tmp]"
    have k: "k < length cs" using Cons.prems(2) by simp
    note one = rename_one [OF k Cons.prems(1) find_free_Some [OF Some [unfolded p]]]
    have tmp: "0 < change'" "change' - 1 < 10 ^ digits" "tmp = mangled_name digits name ext has_dot (change' - 1)"
      and new: "free_from cs digits name ext has_dot change =
          insert (change' - 1) (free_from cs digits name ext has_dot change')"
      using spec by (simp_all add: Some p)
    have "free_from cs digits name ext has_dot change' \<subseteq> free_from ?cs1 digits name ext has_dot change'"
    proof
      fix c assume c: "c \<in> free_from cs digits name ext has_dot change'"
      then have "c \<noteq> change' - 1" and "c < 10 ^ digits" using tmp(1) by (auto simp: free_from_def)
      then have "mangled_name digits name ext has_dot c \<noteq> tmp"
        unfolding tmp(3) using mangled_name_inject [OF Cons.prems(3) _ tmp(2)] by metis
      moreover have "iso_name ` set ?cs1 \<subseteq> insert tmp (iso_name ` set cs)"
        using set_update_subset_insert [of cs k "set_iso_name (cs ! k) tmp"] by auto
      ultimately show "c \<in> free_from ?cs1 digits name ext has_dot change'"
        using c unfolding free_from_def by blast
    qed
    then have "card (free_from cs digits name ext has_dot change') \<le> card (free_from ?cs1 digits name ext has_dot change')"
      by (rule card_mono [OF finite_free_from])
    moreover have "card (free_from cs digits name ext has_dot change) \<le> Suc (card (free_from cs digits name ext has_dot change'))"
      unfolding new by (rule card_insert_le_m1) simp_all
    ultimately have "length ks \<le> card (free_from ?cs1 digits name ext has_dot change')"
      using Cons.prems(4) by simp
    with Cons.IH [OF one(3)] Cons.prems(2,3) show ?thesis by (simp add: Some p Let_def)
  qed
qed simp

lemma card_free_from:
  assumes "0 < digits"
  shows "10 ^ digits \<le> card (free_from cs digits name ext has_dot 0) + length cs"
proof -
  let ?m = "mangled_name digits name ext has_dot"
  let ?taken = "{c. c < 10 ^ digits \<and> ?m c \<in> iso_name ` set cs}"
  have "inj_on ?m ?taken"
  proof (rule inj_onI)
    fix c d assume "c \<in> ?taken" and "d \<in> ?taken" and "?m c = ?m d"
    then show "c = d" using mangled_name_inject [OF assms, of c d] by simp
  qed
  moreover have "?m ` ?taken \<subseteq> iso_name ` set cs" by auto
  ultimately have "card ?taken \<le> card (iso_name ` set cs)" by (rule card_inj_on_le) simp
  also have "\<dots> \<le> length cs" by (metis card_image_le card_length finite_set order_trans)
  finally have "card ?taken \<le> length cs" .
  moreover have "{..<10 ^ digits} = ?taken \<union> free_from cs digits name ext has_dot 0"
    by (auto simp: free_from_def)
  then have "10 ^ digits \<le> card ?taken + card (free_from cs digits name ext has_dot 0)"
    using card_Un_le [of ?taken "free_from cs digits name ext has_dot 0"] by (metis card_lessThan)
  ultimately show ?thesis by simp
qed

lemma mangle_parts_ok:
  "12 \<le> mf \<Longrightarrow> digits < 8 \<Longrightarrow> \<exists>p. mangle_parts opts n mf md digits = Inr p"
  by (auto simp: mangle_parts_def Let_def split: option.splits)

lemma mangle_group_succeeds:
  assumes "12 \<le> mf" and "in_step cs table" and "j < length cs" and "2 * length cs \<le> 10 ^ 7"
    and "0 < digits" and "digits < 8"
  shows "\<exists>cs' table'. mangle_group opts mf md i j digits cs table = (Inr 1, cs', table')"
  using assms
proof (induction "8 - digits" arbitrary: digits cs table)
  case (Suc d)
  obtain name ext has_dot where parts: "mangle_parts opts (cs ! i) mf md digits = Inr (name, ext, has_dot)"
    using mangle_parts_ok [OF Suc.prems(1,6)] by (metis prod_cases3)
  obtain ok cs1 table1 where run: "rename_run digits name ext has_dot [i..<j + 1] 0 cs table = (ok, cs1, table1)"
    by (cases "rename_run digits name ext has_dot [i..<j + 1] 0 cs table")
  have ks: "\<forall>k \<in> set [i..<j + 1]. k < length cs" using Suc.prems(3) by auto
  note r = rename_run_renames [OF run Suc.prems(2) ks]
  then have len: "length cs1 = length cs" using renames_length by blast
  show ?case
  proof (cases ok)
    case True
    with parts run Suc.prems(6) show ?thesis by (subst mangle_group.simps) simp
  next
    case False
    have "digits \<noteq> 7"
    proof
      assume d: "digits = 7"
      have "length [i..<j + 1] \<le> length cs" using Suc.prems(3) by (simp del: upt_Suc)
      then have "length [i..<j + 1] \<le> card (free_from cs digits name ext has_dot 0)"
        using card_free_from [of 7 cs name ext has_dot] Suc.prems(4) by (simp add: d del: upt_Suc length_upt)
      from rename_run_succeeds [OF Suc.prems(2) ks Suc.prems(5) this] run False show False by simp
    qed
    with Suc.prems have "digits + 1 < 8" by simp
    have "mangle_group opts mf md i j digits cs table = mangle_group opts mf md i j (digits + 1) cs1 table1"
      using False parts run Suc.prems(6) by (subst mangle_group.simps) simp
    moreover have "\<exists>cs' table'. mangle_group opts mf md i j (digits + 1) cs1 table1 = (Inr 1, cs', table')"
      using Suc.hyps(2) Suc.prems r \<open>digits + 1 < 8\<close> by (intro Suc.hyps(1)) (simp_all add: len)
    ultimately show ?thesis by simp
  qed
qed simp

lemma mangle_runs_succeeds:
  "12 \<le> mf \<Longrightarrow> in_step cs table \<Longrightarrow> n = length cs \<Longrightarrow> 2 * n \<le> 10 ^ 7 \<Longrightarrow> untranslated_name_len opts = 0 \<Longrightarrow>
     \<exists>cs' ns'. mangle_runs opts mf md n i cs table ns = (Inr 1, cs', ns')"
proof (induction opts mf md n i cs table ns rule: mangle_runs.induct)
  case (1 opts mf md n i cs table ns)
  show ?case
  proof (cases "i < n \<and> run_end cs i i \<noteq> i")
    case False
    then show ?thesis using 1(1) [OF _ refl] 1(3-) by (subst mangle_runs.simps) auto
  next
    case True
    then have i: "i < length cs" using 1(5) by simp
    have "2 * length cs \<le> 10 ^ 7" using 1(5,6) by simp
    from mangle_group_succeeds [OF 1(3,4) run_end_props(2) [OF i] this zero_less_one] obtain cs1 table1 where
      g: "mangle_group opts mf md i (run_end cs i i) 1 cs table = (Inr 1, cs1, table1)" by force
    note r = mangle_group_renames [OF g 1(4) run_end_props(2) [OF i]]
    then have len: "length cs1 = length cs" using renames_length by blast
    have un: "\<not> untranslated_name_len opts \<noteq> 0" using 1(7) by simp
    have "\<exists>cs' ns'. mangle_runs opts mf md n (max i (run_end cs i i) + 1) cs1 table1 True = (Inr 1, cs', ns')"
      using True 1(3,5-7) r by (intro 1(2) [OF _ refl _ un g [symmetric] refl refl]) (simp_all add: len)
    moreover have "mangle_runs opts mf md n i cs table ns =
        mangle_runs opts mf md n (max i (run_end cs i i) + 1) cs1 table1 True"
      using True un g by (subst mangle_runs.simps) simp
    ultimately show ?thesis by simp
  qed
qed

lemma mangle_single_dir_succeeds:
  assumes "12 \<le> mf" and "2 * length cs \<le> 10 ^ 7" and "untranslated_name_len opts = 0"
  shows "\<exists>cs'. mangle_single_dir opts cs mf md = (Inr 1, cs')"
proof (cases "cs = []")
  case False
  then obtain t where t: "nt_new ((length cs * 100) div 80) = Some t" "nt_wf t" "nt_keys t = {#}"
    using nt_new_table [of "length cs"] by auto
  have "in_step cs (foldl nt_add t (map name_key cs))"
    using nt.fold_add [OF t(2), of "map name_key cs"] t(3) by (simp add: in_step_def)
  from mangle_runs_succeeds [OF assms(1) this refl assms(2,3)] obtain cs' ns' where
    "mangle_runs opts mf md (length cs) 0 cs (foldl nt_add t (map name_key cs)) False = (Inr 1, cs', ns')"
    by blast
  with False t(1) show ?thesis by (simp add: mangle_single_dir_def Let_def)
qed (simp add: mangle_single_dir_def)

text \<open>The limit of a name: directories may have \<open>md\<close> characters; other nodes \<open>mf\<close>, and an
  extension of three if \<open>mf\<close> is the limit of level 1.\<close>

definition name_fits :: "int \<Rightarrow> int \<Rightarrow> node_type \<Rightarrow> string \<Rightarrow> bool" where
  "name_fits mf md t s \<longleftrightarrow>
     (if t = ECMA119_DIR then int (length s) \<le> md
      else int (length s) \<le> mf \<and>
        (mf = 12 \<longrightarrow> (case strrchr s CHR ''.'' of None \<Rightarrow> True | Some d \<Rightarrow> length s \<le> d + 4)))"

definition fits :: "int \<Rightarrow> int \<Rightarrow> ecma119_node \<Rightarrow> bool" where
  "fits mf md n \<longleftrightarrow> name_fits mf md (ec_type n) (iso_name n)"

lemma strrchr_last: "c \<notin> set t \<Longrightarrow> strrchr (s @ c # t) c = Some (length s)"
proof -
  assume "c \<notin> set t"
  then have "takeWhile (\<lambda>x. x \<noteq> c) (rev t @ c # rev s) = rev t"
    by (subst takeWhile_append2) auto
  then show ?thesis by (simp add: strrchr_def)
qed

lemma mangle_parts_fits:
  assumes parts: "mangle_parts opts n mf md digits = Inr (name, ext, has_dot)" and n: "fits mf md n"
    and c: "c < 10 ^ digits" and bounds: "0 < digits" "digits < 8" "12 \<le> mf" "8 \<le> md" "mf \<le> 39" "md \<le> 39"
    and noext: "\<not> allow_dir_id_ext opts"
  shows "name_fits mf md (ec_type n) (mangled_name digits name ext has_dot c)"
proof -
  let ?d = "zero_pad digits c"
  have ld: "length ?d = digits" using bounds(1) c by (rule length_zero_pad)
  have "CHR ''.'' \<notin> set ?d" using dec_digits_not_dot by (simp add: zero_pad_def Let_def)
  have full: "take 39 (iso_name n) = iso_name n"
    using n bounds(5,6) by (auto simp: fits_def name_fits_def split: if_splits)
  show ?thesis
  proof (cases "if ec_type n \<noteq> ECMA119_DIR then strrchr (iso_name n) CHR ''.'' else None")
    case None
    then have nodot: "ec_type n \<noteq> ECMA119_DIR \<Longrightarrow> CHR ''.'' \<notin> set (iso_name n)" by simp
    define mx where "mx = (if ec_type n = ECMA119_DIR then md - int digits else mf - int digits)"
    have mx: "0 \<le> mx" using bounds by (simp add: mx_def)
    have "name = (if nat mx < length (iso_name n) then take (nat mx) (iso_name n) else iso_name n)"
      and e: "ext = '''' \<and> \<not> has_dot"
      using parts None mx noext by (auto simp: mangle_parts_def full mx_def [symmetric] Let_def)
    then have "int (length name) \<le> mx" and "set name \<subseteq> set (iso_name n)"
      using mx by (auto dest: in_set_takeD)
    moreover have "ec_type n \<noteq> ECMA119_DIR \<Longrightarrow> strrchr (name @ ?d) CHR ''.'' = None"
      using nodot calculation(2) \<open>CHR ''.'' \<notin> set ?d\<close> by auto
    ultimately show ?thesis
      using e ld by (auto simp: name_fits_def mangled_name_def mx_def strrchr_None [THEN iffD2] split: if_splits)
  next
    case (Some d)
    then have nondir: "ec_type n \<noteq> ECMA119_DIR" and dot: "strrchr (iso_name n) CHR ''.'' = Some d"
      by (auto split: if_splits)
    note dot_at = strrchr_split [OF dot]
    have len: "int (length (iso_name n)) \<le> mf" "mf = 12 \<Longrightarrow> length (iso_name n) \<le> d + 4"
      using n nondir by (simp_all add: fits_def name_fits_def dot)
    have "has_dot \<and> CHR ''.'' \<notin> set ext \<and> int (length name + length ext + 1 + digits) \<le> mf \<and>
      (mf = 12 \<longrightarrow> length ext \<le> 3)"
      using parts nondir dot_at len bounds
      by (auto simp: mangle_parts_def full dot Let_def min_def split: if_splits dest: in_set_takeD)
    with nondir ld show ?thesis
      using strrchr_last [of "CHR ''.''" ext "name @ ?d"] by (simp add: name_fits_def mangled_name_def)
  qed
qed

definition same_kind :: "ecma119_node \<Rightarrow> ecma119_node \<Rightarrow> bool" where
  "same_kind m n \<longleftrightarrow> (ec_type m = ECMA119_DIR \<longleftrightarrow> ec_type n = ECMA119_DIR)"

lemma ec_type_set_iso_name [simp]: "ec_type (set_iso_name n s) = ec_type n"
  by (simp add: set_iso_name_def)

lemma rename_run_fits:
  "rename_run digits name ext has_dot ks change cs table = (ok, cs', table') \<Longrightarrow>
     in_step cs table \<Longrightarrow> \<forall>k \<in> set ks. k < length cs \<Longrightarrow>
     \<forall>c k. c < 10 ^ digits \<longrightarrow> k \<in> set ks \<longrightarrow>
       name_fits mf md (ec_type (cs ! k)) (mangled_name digits name ext has_dot c) \<Longrightarrow>
     \<forall>n \<in> set cs. fits mf md n \<Longrightarrow> \<forall>n \<in> set cs'. fits mf md n"
proof (induction ks arbitrary: change cs table)
  case (Cons k ks)
  note spec = find_free_spec [OF Cons.prems(2), of digits name ext has_dot change]
  show ?case
  proof (cases "find_free table digits name ext has_dot change")
    case None
    with Cons.prems(1,5) show ?thesis by simp
  next
    case (Some p)
    obtain tmp change' where p: "p = (tmp, change')" by (cases p)
    let ?cs1 = "cs[k := set_iso_name (cs ! k) tmp]"
    have k: "k < length cs" using Cons.prems(3) by simp
    note one = rename_one [OF k Cons.prems(2) find_free_Some [OF Some [unfolded p]]]
    have "change' - 1 < 10 ^ digits" "tmp = mangled_name digits name ext has_dot (change' - 1)"
      using spec by (simp_all add: Some p)
    then have new: "fits mf md (set_iso_name (cs ! k) tmp)"
      using Cons.prems(4) by (simp add: fits_def)
    have types: "ec_type (?cs1 ! b) = ec_type (cs ! b)" if "b < length cs" for b
      using that k by (simp add: nth_list_update)
    have "\<forall>n \<in> set ?cs1. fits mf md n"
      using new Cons.prems(5) set_update_subset_insert [of cs k] by fastforce
    moreover have "rename_run digits name ext has_dot ks change' ?cs1
        (nt_add (nt_remove_ptr table (name_key (cs ! k))) (name_key (?cs1 ! k))) = (ok, cs', table')"
      using Cons.prems(1) by (simp add: Some p Let_def)
    ultimately show ?thesis
      using Cons.IH [OF _ one(3)] Cons.prems(3,4) types by simp
  qed
qed simp

lemma mangle_group_fits:
  assumes "12 \<le> mf" "8 \<le> md" "mf \<le> 39" "md \<le> 39" and "\<not> allow_dir_id_ext opts"
  shows "mangle_group opts mf md i j digits cs table = (ret, cs', table') \<Longrightarrow>
     in_step cs table \<Longrightarrow> i \<le> j \<Longrightarrow> j < length cs \<Longrightarrow> 0 < digits \<Longrightarrow>
     \<forall>k \<in> {i..j}. same_kind (cs ! i) (cs ! k) \<Longrightarrow>
     \<forall>n \<in> set cs. fits mf md n \<Longrightarrow> \<forall>n \<in> set cs'. fits mf md n"
  using assms
proof (induction opts mf md i j digits cs table rule: mangle_group.induct)
  case (1 opts mf md i j digits cs table)
  show ?case
  proof (cases "digits < 8")
    case False
    with 1(2,8) show ?thesis by (auto simp: mangle_group.simps)
  next
    case digits: True
    obtain name ext has_dot where parts: "mangle_parts opts (cs ! i) mf md digits = Inr (name, ext, has_dot)"
      using mangle_parts_ok [OF 1(9) digits] by (metis prod_cases3)
    obtain ok cs1 table1 where run: "rename_run digits name ext has_dot [i..<j + 1] 0 cs table = (ok, cs1, table1)"
      by (cases "rename_run digits name ext has_dot [i..<j + 1] 0 cs table")
    have ks: "\<forall>k \<in> set [i..<j + 1]. k < length cs" using 1(5) by auto
    note r = rename_run_renames [OF run 1(3) ks]
    then have len: "length cs1 = length cs" using renames_length by blast
    have "map node_rest cs1 = map node_rest cs" using r by (simp add: renames_def)
    then have type1: "ec_type (cs1 ! k) = ec_type (cs ! k)" if "k < length cs" for k
      using that len by (metis fst_conv length_map node_rest_def nth_map snd_conv)
    have "name_fits mf md (ec_type (cs ! k)) (mangled_name digits name ext has_dot c)"
      if c: "c < 10 ^ digits" and k: "k \<in> set [i..<j + 1]" for c k
    proof -
      have "fits mf md (cs ! i)" using 1(4,5,8) by simp
      note fit = mangle_parts_fits [OF parts this c 1(6) digits 1(9-13)]
      have "same_kind (cs ! i) (cs ! k)" using 1(7) k by auto
      with fit show ?thesis by (simp add: name_fits_def same_kind_def)
    qed
    then have fit1: "\<forall>n \<in> set cs1. fits mf md n"
      using rename_run_fits [OF run 1(3) ks _ 1(8)] by blast
    show ?thesis
    proof (cases ok)
      case True
      with 1(2) digits parts run fit1 show ?thesis by (subst (asm) mangle_group.simps) simp
    next
      case False
      then have "mangle_group opts mf md i j (digits + 1) cs1 table1 = (ret, cs', table')"
        using 1(2) digits parts run by (subst (asm) mangle_group.simps) simp
      moreover have "\<forall>k \<in> {i..j}. same_kind (cs1 ! i) (cs1 ! k)"
        using 1(4,5,7) type1 by (auto simp: same_kind_def)
      ultimately show ?thesis
        using False 1(3-) r len fit1
        by (intro 1(1) [OF digits parts refl refl run [symmetric] _ refl]) simp_all
    qed
  qed
qed

lemma mangle_runs_fits:
  assumes "12 \<le> mf" "8 \<le> md" "mf \<le> 39" "md \<le> 39" and "\<not> allow_dir_id_ext opts"
  shows "mangle_runs opts mf md n i cs table ns = (ret, cs', ns') \<Longrightarrow>
     in_step cs table \<Longrightarrow> n = length cs \<Longrightarrow>
     \<forall>a b. i \<le> a \<longrightarrow> i \<le> b \<longrightarrow> a < length cs \<longrightarrow> b < length cs \<longrightarrow>
        iso_name (cs ! a) = iso_name (cs ! b) \<longrightarrow> same_kind (cs ! a) (cs ! b) \<Longrightarrow>
     \<forall>n \<in> set cs. fits mf md n \<Longrightarrow> \<forall>n \<in> set cs'. fits mf md n"
  using assms
proof (induction opts mf md n i cs table ns rule: mangle_runs.induct)
  case (1 opts mf md n i cs table ns)
  show ?case
  proof (cases "i < n")
    case False
    with 1(3,7) show ?thesis by (subst (asm) mangle_runs.simps) simp
  next
    case i: True
    then have il: "i < length cs" using 1(5) by simp
    show ?thesis
    proof (cases "run_end cs i i = i")
      case True
      with i 1(3) have "mangle_runs opts mf md n (i + 1) cs table ns = (ret, cs', ns')"
        by (subst (asm) mangle_runs.simps) simp
      with 1(1) [OF i refl True _ 1(4,5) _ 1(7)] 1(6,8-) show ?thesis by simp
    next
      case False
      note j = run_end_props [OF il]
      obtain q cs1 table1 where g: "mangle_group opts mf md i (run_end cs i i) 1 cs table = (q, cs1, table1)"
        by (cases "mangle_group opts mf md i (run_end cs i i) 1 cs table")
      note r = mangle_group_renames [OF g 1(4) j(2)]
      then have len: "length cs1 = length cs" using renames_length by blast
      have "same_kind (cs ! i) (cs ! k)" if "k \<in> {i..run_end cs i i}" for k
        using 1(6) j(2) j(3) [OF that] that il by auto
      then have fit1: "\<forall>n \<in> set cs1. fits mf md n"
        using mangle_group_fits [OF 1(8-12) g 1(4) j(1,2) zero_less_one _ 1(7)] by blast
      show ?thesis
      proof (cases "untranslated_name_len opts \<noteq> 0")
        case True
        with False i 1(3,7) show ?thesis by (subst (asm) mangle_runs.simps) simp
      next
        case un: False
        show ?thesis
        proof (cases q)
          case (Inl e)
          with False i un g 1(3) fit1 show ?thesis by (subst (asm) mangle_runs.simps) simp
        next
          case (Inr x)
          let ?i = "max i (run_end cs i i) + 1"
          have more: "mangle_runs opts mf md n ?i cs1 table1 True = (ret, cs', ns')"
            using Inr False i un g 1(3) by (subst (asm) mangle_runs.simps) simp
          have same: "cs1 ! a = cs ! a" if "?i \<le> a" "a < length cs" for a
          proof -
            have "a \<notin> {i..run_end cs i i}" using that(1) by (auto simp: max_def split: if_splits)
            with r that(2) show ?thesis unfolding renames_def by blast
          qed
          have "same_kind (cs1 ! a) (cs1 ! b)"
            if "?i \<le> a" "?i \<le> b" "a < length cs1" "b < length cs1" "iso_name (cs1 ! a) = iso_name (cs1 ! b)" for a b
            using that 1(6) same len by simp
          then show ?thesis
            using r len fit1 1(5,8-) more Inr
            by (intro 1(2) [OF i refl False un g [symmetric] _ refl more]) auto
        qed
      qed
    qed
  qed
qed

text \<open>A tree whose directories are small enough for seven digits.\<close>

fun small_dirs :: "ecma119_node \<Rightarrow> bool" where
  "small_dirs (Ecma119Node i s t cs) \<longleftrightarrow>
     length cs \<le> 5000000 \<and> (\<forall>c \<in> set cs. ec_type c = ECMA119_DIR \<longrightarrow> small_dirs c)"

lemma small_dirs_children:
  "small_dirs n \<longleftrightarrow> length (ec_children n) \<le> 5000000 \<and>
     (\<forall>c \<in> set (ec_children n). ec_type c = ECMA119_DIR \<longrightarrow> small_dirs c)"
  by (cases n) simp

lemma mangled_child:
  assumes "mangle_single_dir opts cs mf md = (ret, cs')" and "c \<in> set cs'"
  shows "\<exists>b \<in> set cs. node_rest b = node_rest c"
proof -
  have "node_rest c \<in># mset (map node_rest cs')" using assms(2) by simp
  then have "node_rest c \<in># mset (map node_rest cs)"
    using mangle_single_dir_rest [of opts cs mf md] assms(1) by (metis snd_conv)
  then show ?thesis by (auto simp: image_iff)
qed

lemma mangle_dir_succeeds:
  assumes "12 \<le> mf" and "untranslated_name_len opts = 0"
  shows "small_dirs dir \<Longrightarrow> \<exists>dir'. mangle_dir opts mf md dir = (Inr 1, dir')"
    and "\<forall>c \<in> set cs. ec_type c = ECMA119_DIR \<longrightarrow> small_dirs c \<Longrightarrow>
      \<exists>cs'. mangle_subdirs opts mf md cs = (Inr 1, cs')"
  using assms
proof (induction opts mf md dir and opts mf md cs rule: mangle_dir_mangle_subdirs.induct)
  case (1 opts mf md dir)
  have "2 * length (ec_children dir) \<le> 10 ^ 7" using 1(2) by (simp add: small_dirs_children [of dir])
  from mangle_single_dir_succeeds [OF 1(3) this 1(4)] obtain cs where
    m: "mangle_single_dir opts (ec_children dir) mf md = (Inr 1, cs)" by blast
  have "\<forall>c \<in> set cs. ec_type c = ECMA119_DIR \<longrightarrow> small_dirs c"
  proof (intro ballI impI)
    fix c assume c: "c \<in> set cs" "ec_type c = ECMA119_DIR"
    from mangled_child [OF m c(1)] obtain b where "b \<in> set (ec_children dir)" "node_rest b = node_rest c" ..
    with c(2) 1(2) show "small_dirs c"
      unfolding small_dirs_children [of dir] using small_dirs_children [of b] small_dirs_children [of c]
      by (simp add: node_rest_def)
  qed
  with 1(1) [OF m [symmetric] refl _ 1(3,4)] obtain cs' where
    "mangle_subdirs opts mf md cs = (Inr 1, cs')" by blast
  with m show ?case by (simp add: mangle_dir.simps)
next
  case (3 opts mf md child cs)
  show ?case
  proof (cases "ec_type child = ECMA119_DIR")
    case False
    with 3 show ?thesis by auto
  next
    case True
    with 3 obtain child' where c: "mangle_dir opts mf md child = (Inr 1, child')" by auto
    with 3(2) [OF True c [symmetric] refl] 3(4-) obtain cs' where
      "mangle_subdirs opts mf md cs = (Inr 1, cs')" by auto
    with True c show ?thesis by simp
  qed
qed simp

section \<open>Properties\<close>

text \<open>C8: when \<open>mangle_tree\<close> succeeds on the sorted low level tree, the children of every directory
  are in strictly ascending order of their names, so no two records of a directory have the same
  name, and every node is still the child of the same directory, with the same type.\<close>

theorem mangle_tree_unique:
  assumes "mangle_tree opts (sort_tree root) True = (Inr r, root')"
  shows "r = 1 \<and> tree_ordered (<) root' \<and> node_edges root' = node_edges root"
proof -
  obtain mf md where "name_limits opts = (mf, md)" by (cases "name_limits opts")
  with assms have "mangle_dir opts mf md (sort_tree root) = (Inr r, root')"
    by (simp add: mangle_tree_def)
  from mangle_dir_spec(1) [OF this] sort_tree_spec [of root] show ?thesis by simp
qed

text \<open>C9: a node whose name is unique in its sorted directory keeps that name.\<close>

theorem mangle_keeps_unique_names:
  assumes "mangle_single_dir opts cs mf md = (Inr r, cs')" and "sorted (map iso_name cs)"
    and "n \<in> set cs" and "count (mset (map iso_name cs)) (iso_name n) = 1"
  shows "n \<in> set cs'"
  using mangle_single_dir_names(3) [OF assms] .

text \<open>C10: mangling a whole tree succeeds if no directory has more than five million entries, unless
  names may not be changed at all: the seven digits cannot run out.\<close>

theorem mangle_tree_total:
  assumes "small_dirs root" and "untranslated_name_len opts = 0"
  shows "\<exists>root'. mangle_tree opts root recurse = (Inr 1, root')"
proof -
  obtain mf md where l: "name_limits opts = (mf, md)" by (cases "name_limits opts")
  have "12 \<le> mf" using l assms(2) by (auto simp: name_limits_def split: if_splits)
  moreover have "2 * length (ec_children root) \<le> 10 ^ 7" using assms(1) by (cases root) simp
  ultimately show ?thesis
    using mangle_single_dir_succeeds [of mf "ec_children root" opts md] assms
      mangle_dir_succeeds(1) [of mf opts root md] by (auto simp: mangle_tree_def l)
qed


text \<open>C12: equal names are only found next to each other: a list without equal neighbours is
  returned unchanged, in its order, even if it is unsorted or has equal names further apart.\<close>

theorem mangle_single_dir_neighbours:
  assumes "\<forall>k. k + 1 < length cs \<longrightarrow> iso_name (cs ! k) \<noteq> iso_name (cs ! (k + 1))"
  shows "mangle_single_dir opts cs mf md = (Inr 1, cs)"
proof -
  have "mangle_runs opts mf md (length cs) i cs table ns = (Inr 1, cs, ns)" for i table ns
  proof (induction "length cs - i" arbitrary: i)
    case (Suc d)
    then have i: "i < length cs" by simp
    have "run_end cs i i = i"
      using assms i by (subst run_end.simps) (auto simp: cmp_node_name_def)
    moreover have "mangle_runs opts mf md (length cs) (i + 1) cs table ns = (Inr 1, cs, ns)"
      using Suc.hyps by simp
    ultimately show ?case using i by (subst mangle_runs.simps) simp
  qed (subst mangle_runs.simps, simp)
  then show ?thesis
    using nt_new_table [of "length cs"] by (auto simp: mangle_single_dir_def Let_def)
qed

text \<open>Witnesses: at level 1, a directory with a subdirectory and two files of the same name.\<close>

definition level_one :: mangle_opts where
  "level_one = \<lparr>untranslated_name_len = 0, max_37_char_filenames = False, iso_level = 1, allow_dir_id_ext = False\<rparr>"

definition sample_children :: "ecma119_node list" where
  "sample_children = [Ecma119Node 2 ''AB.C'' ECMA119_FILE [], Ecma119Node 3 ''AB.C'' ECMA119_FILE [],
     Ecma119Node 4 ''SUB'' ECMA119_DIR []]"

lemma sample_mangled: "\<exists>cs'. mangle_single_dir level_one sample_children 12 8 = (Inr 1, cs')"
  by (rule mangle_single_dir_succeeds) (simp_all add: sample_children_def level_one_def)

lemma sample_sorted: "sorted (map iso_name sample_children)"
  by code_simp

theorem mangle_tree_unique_witness:
  "tree_ordered (<) (snd (mangle_tree level_one (sort_tree (Ecma119Node 1 '''' ECMA119_DIR sample_children)) True))"
proof -
  let ?root = "Ecma119Node 1 '''' ECMA119_DIR sample_children"
  have "small_dirs (sort_tree ?root)"
    by (simp add: sort_tree.simps set_children_def sample_children_def qsort_children_def)
  with mangle_dir_succeeds(1) [of 12 level_one "sort_tree ?root" 8] obtain root' where
    "mangle_tree level_one (sort_tree ?root) True = (Inr 1, root')"
    by (auto simp: mangle_tree_def name_limits_def level_one_def)
  from mangle_tree_unique [OF this] this show ?thesis by simp
qed

theorem mangle_keeps_unique_names_witness:
  "Ecma119Node 4 ''SUB'' ECMA119_DIR [] \<in> set (snd (mangle_single_dir level_one sample_children 12 8))"
proof -
  obtain cs' where "mangle_single_dir level_one sample_children 12 8 = (Inr 1, cs')"
    using sample_mangled by blast
  from mangle_keeps_unique_names [OF this sample_sorted, of "Ecma119Node 4 ''SUB'' ECMA119_DIR []"] this
  show ?thesis by (simp add: sample_children_def)
qed

theorem mangle_tree_total_witness:
  "\<exists>root'. mangle_tree level_one (Ecma119Node 1 '''' ECMA119_DIR sample_children) False = (Inr 1, root')"
  by (rule mangle_tree_total) (simp_all add: sample_children_def level_one_def)


theorem mangle_single_dir_neighbours_witness:
  "mangle_single_dir level_one (map (\<lambda>(i, s). Ecma119Node i s ECMA119_DIR []) [(1, ''A''), (2, ''B''), (3, ''A'')]) 12 8 =
     (Inr 1, map (\<lambda>(i, s). Ecma119Node i s ECMA119_DIR []) [(1, ''A''), (2, ''B''), (3, ''A'')])"
  by (rule mangle_single_dir_neighbours) (auto simp: less_Suc_eq)

end
