(* ===== verification/Names.thy ===== *)
theory Names
  imports Mangle
begin

text \<open>
  The file and directory identifiers of ECMA-119 (\<open>libisofs/util.c\<close>: \<open>iso_dirid\<close>,
  \<open>iso_1_fileid\<close>, \<open>iso_2_fileid\<close>, \<open>iso_r_dirid\<close>, \<open>iso_r_fileid\<close>) and the choice between them
  (\<open>iso_get_ecma119_name\<close> of \<open>libisofs/ecma119_tree.c\<close>), as compiled without
  \<open>Libisofs_old_ecma119_nameS\<close>. \<open>None\<close> is \<open>NULL\<close>; \<open>strdup\<close> and \<open>malloc\<close> are taken to succeed.
\<close>

section \<open>Characters\<close>

definition valid_d_char :: "char \<Rightarrow> bool" where
  "valid_d_char c \<longleftrightarrow> (CHR ''0'' \<le> c \<and> c \<le> CHR ''9'') \<or> (CHR ''A'' \<le> c \<and> c \<le> CHR ''Z'') \<or> c = CHR ''_''"

definition valid_a_char :: "char \<Rightarrow> bool" where
  "valid_a_char c \<longleftrightarrow> (CHR '' '' \<le> c \<and> c \<le> CHR 0x22) \<or> (CHR ''%'' \<le> c \<and> c \<le> CHR ''?'') \<or>
     (CHR ''A'' \<le> c \<and> c \<le> CHR ''Z'') \<or> c = CHR ''_''"

definition map_fileid_char :: "char \<Rightarrow> nat \<Rightarrow> char" where
  "map_fileid_char c relaxed =
     (if c = CHR ''/'' then CHR ''_''
      else if relaxed AND 3 = 2 then c
      else if valid_d_char c then c
      else if relaxed AND 4 \<noteq> 0 \<and> of_char c < (128::nat) \<and> (c < CHR ''a'' \<or> CHR ''z'' < c) then c
      else let upper = toupper c
           in if valid_d_char upper
              then if relaxed AND 3 \<noteq> 0 then c else upper
              else CHR ''_'')"

section \<open>Identifiers\<close>

definition iso_dirid :: "string \<Rightarrow> nat \<Rightarrow> nat \<Rightarrow> string" where
  "iso_dirid src sz relaxed =
     (let len = (if length src > sz then sz else length src)
      in map (\<lambda>c. map_fileid_char c relaxed) (take len src))"

definition iso_1_dirid :: "string \<Rightarrow> nat \<Rightarrow> string" where
  "iso_1_dirid src relaxed = iso_dirid src 8 relaxed"

definition iso_2_dirid :: "string \<Rightarrow> string" where
  "iso_2_dirid src = iso_dirid src 31 0"

text \<open>The dot that counts and the lengths \<open>lname\<close> and \<open>lext\<close> of \<open>iso_1_fileid\<close>.\<close>

definition split_1 :: "string \<Rightarrow> nat option \<times> nat \<times> nat" where
  "split_1 src =
     (let dot0 = strrchr src CHR ''.'';
          dot = (if dot0 = Some 0 \<and> length src > 4 then None else dot0);
          lext = (case dot of Some d \<Rightarrow> length src - (d + 1) | None \<Rightarrow> 0);
          lname = length src - lext - (if dot \<noteq> None then 1 else 0)
      in (dot, lname, lext))"

fun iso_1_fileid :: "string option \<Rightarrow> nat \<Rightarrow> bool \<Rightarrow> string option" where
  "iso_1_fileid None relaxed force_dots = None"
| "iso_1_fileid (Some src) relaxed force_dots =
     (case split_1 src of (dot, lname, lext) \<Rightarrow>
        if lname = 0 \<and> lext = 0 then None
        else Some (map (\<lambda>c. if dot = None \<and> c = CHR ''.'' then CHR ''_'' else map_fileid_char c relaxed)
                      (take (min lname 8) src) @
                    (if force_dots \<or> lext > 0 then ''.'' else '''') @
                    map (\<lambda>c. map_fileid_char c relaxed) (take (min lext 3) (drop (lname + 1) src))))"

text \<open>The name is empty or ends at its last dot: then there is no extension.\<close>

definition no_extension :: "string \<Rightarrow> nat option \<Rightarrow> bool" where
  "no_extension src dot = (case dot of None \<Rightarrow> True | Some d \<Rightarrow> d + 1 = length src)"

text \<open>The lengths \<open>lname\<close>, \<open>lnname\<close> and \<open>lnext\<close> of \<open>iso_2_fileid\<close> (with 30) and
  \<open>iso_r_fileid\<close>.\<close>

definition split_lengths :: "nat \<Rightarrow> string \<Rightarrow> nat \<times> nat \<times> nat" where
  "split_lengths len src =
     (let dot = strrchr src CHR ''.''
      in if no_extension src dot
         then (length src, if length src > len then len else length src, 0)
         else let lext = length src - (the dot + 1);
                  lname = length src - lext - 1;
                  lnext = (if length src > len + 1 \<and> lext > 3
                           then if int lname < int len - 3 then len - lname else 3
                           else lext);
                  lnname = (if length src > len + 1 then len - lnext else lname)
              in (lname, lnname, lnext))"

definition upper_or_underscore :: "char \<Rightarrow> char" where
  "upper_or_underscore s = (let c = toupper s in if valid_d_char c then c else CHR ''_'')"

fun iso_2_fileid :: "string option \<Rightarrow> string option" where
  "iso_2_fileid None = None"
| "iso_2_fileid (Some src) =
     (case split_lengths 30 src of (lname, lnname, lnext) \<Rightarrow>
        if lnname = 0 \<and> lnext = 0 then None
        else Some (map upper_or_underscore (take lnname src) @ ''.'' @
                   map upper_or_underscore (take lnext (drop (lname + 1) src))))"

definition iso_r_dirid :: "string \<Rightarrow> nat \<Rightarrow> nat \<Rightarrow> string" where
  "iso_r_dirid src sz relaxed =
     (let len = (if length src > sz then sz else length src)
      in map (\<lambda>c. map_fileid_char c relaxed) (take len src))"

fun iso_r_fileid :: "string option \<Rightarrow> nat \<Rightarrow> nat \<Rightarrow> bool \<Rightarrow> string option" where
  "iso_r_fileid None len relaxed forcedot = None"
| "iso_r_fileid (Some src) len relaxed forcedot =
     (case split_lengths len src of (lname, lnname, lnext) \<Rightarrow>
        if lnname = 0 \<and> lnext = 0 then None
        else Some (map (\<lambda>c. map_fileid_char c relaxed) (take lnname src) @
                   (if lnext > 0 \<or> forcedot then ''.'' else '''') @
                   map (\<lambda>c. map_fileid_char c relaxed) (take lnext (drop (lname + 1) src))))"

section \<open>The choice of the identifier\<close>

datatype iso_node_type = LIBISO_DIR | LIBISO_FILE | LIBISO_SYMLINK | LIBISO_SPECIAL | LIBISO_BOOT

record name_opts = mangle_opts +
  allow_full_ascii :: bool
  allow_lowercase :: bool
  allow_7bit_ascii :: bool
  no_force_dots :: nat

definition relaxed_of :: "name_opts \<Rightarrow> nat" where
  "relaxed_of opts =
     (if allow_full_ascii opts then 2 else of_bool (allow_lowercase opts)) OR
     (if allow_7bit_ascii opts then 4 else 0)"

definition file_identifier :: "name_opts \<Rightarrow> string \<Rightarrow> nat \<Rightarrow> bool \<Rightarrow> string option" where
  "file_identifier opts ascii_name relaxed force_dots =
     (if max_37_char_filenames opts then iso_r_fileid (Some ascii_name) 36 relaxed force_dots
      else if iso_level opts = 1 then iso_1_fileid (Some ascii_name) relaxed force_dots
      else if relaxed \<noteq> 0 \<or> \<not> force_dots then iso_r_fileid (Some ascii_name) 30 relaxed force_dots
      else iso_2_fileid (Some ascii_name))"

text \<open>\<open>str2ascii\<close> is the conversion of a name from the input character set; the second component is
  what is stored through \<open>name\<close>.\<close>

definition iso_get_ecma119_name ::
  "(string \<Rightarrow> iso_error + string) \<Rightarrow> name_opts \<Rightarrow> string option \<Rightarrow> iso_node_type \<Rightarrow>
     (iso_error + nat) \<times> string option" where
  "iso_get_ecma119_name str2ascii opts node_name node_type =
     (case node_name of
        None \<Rightarrow> (Inr 1, None)
      | Some s \<Rightarrow>
          (case (if untranslated_name_len opts > 0 then Inr s else str2ascii s) of
             Inl e \<Rightarrow> (Inl e, None)
           | Inr ascii_name \<Rightarrow>
               let relaxed = relaxed_of opts;
                   too_long = (length ascii_name > untranslated_name_len opts);
                   isoname =
                     (if node_type = LIBISO_DIR \<and> \<not> allow_dir_id_ext opts
                      then if untranslated_name_len opts > 0 then Some ascii_name
                           else if max_37_char_filenames opts then Some (iso_r_dirid ascii_name 37 relaxed)
                           else if iso_level opts = 1 then Some (iso_1_dirid ascii_name relaxed)
                           else if relaxed \<noteq> 0 then Some (iso_r_dirid ascii_name 31 relaxed)
                           else Some (iso_2_dirid ascii_name)
                      else let force_dots = (\<not> (no_force_dots opts AND 1 \<noteq> 0 \<or> node_type = LIBISO_DIR))
                           in if untranslated_name_len opts > 0 then Some ascii_name
                              else file_identifier opts ascii_name relaxed force_dots)
               in if untranslated_name_len opts > 0 \<and> too_long then (Inl ISO_NAME_NEEDS_TRANSL, None)
                  else (case isoname of Some nm \<Rightarrow> (Inr 1, Some nm) | None \<Rightarrow> (Inl ISO_OUT_OF_MEM, None))))"

section \<open>Characters of identifiers\<close>

lemma valid_d_char_simps [simp]:
  "valid_d_char CHR ''_''" "\<not> valid_d_char CHR ''.''" "\<not> valid_d_char CHR ''/''"
  by (simp_all add: valid_d_char_def less_eq_char_def)

lemma upper_or_underscore_valid [simp]: "valid_d_char (upper_or_underscore c)"
  by (simp add: upper_or_underscore_def Let_def)

lemma map_fileid_char_strict: "valid_d_char (map_fileid_char c 0)"
  by (simp add: map_fileid_char_def Let_def)

lemma map_fileid_char_no_slash: "map_fileid_char c relaxed \<noteq> CHR ''/''"
  by (auto simp: map_fileid_char_def Let_def)

lemma map_fileid_char_dot: "map_fileid_char c relaxed = CHR ''.'' \<Longrightarrow> c = CHR ''.''"
  by (auto simp: map_fileid_char_def Let_def split: if_splits)

text \<open>If dots are not allowed through, the mapping never produces one.\<close>

lemma map_fileid_char_dotless:
  assumes "relaxed AND 3 \<noteq> 2" and "relaxed AND 4 = 0"
  shows "map_fileid_char c relaxed \<noteq> CHR ''.''"
proof
  assume dot: "map_fileid_char c relaxed = CHR ''.''"
  then have "c = CHR ''.''" by (rule map_fileid_char_dot)
  with dot assms show False
    by (simp add: map_fileid_char_def Let_def toupper_def less_eq_char_def valid_d_char_def split: if_splits)
qed

lemma map_fileid_char_fix: "valid_d_char c \<Longrightarrow> map_fileid_char c relaxed = c"
  by (auto simp: map_fileid_char_def)

section \<open>The shape of identifiers\<close>

lemma split_lengths_bounds:
  assumes "split_lengths len src = (lname, lnname, lnext)" and "3 \<le> len"
  shows "lnname + lnext \<le> len" and "lnname \<le> lname" and "lname \<le> length src"
    and "0 < lnext \<Longrightarrow> lname + 1 + lnext \<le> length src \<and> src ! lname = CHR ''.'' \<and>
      CHR ''.'' \<notin> set (drop (Suc lname) src)"
    and "lnname = 0 \<Longrightarrow> lnext = 0 \<Longrightarrow> src = ''''"
proof -
  show "lnname + lnext \<le> len" and "lnname \<le> lname" and "lname \<le> length src"
    and "0 < lnext \<Longrightarrow> lname + 1 + lnext \<le> length src \<and> src ! lname = CHR ''.'' \<and>
      CHR ''.'' \<notin> set (drop (Suc lname) src)"
    and "lnname = 0 \<Longrightarrow> lnext = 0 \<Longrightarrow> src = ''''"
    using assms
    by (auto simp: split_lengths_def no_extension_def Let_def split: option.splits if_splits
        dest!: strrchr_split)
qed

text \<open>The form of an 8.3 name: without a dot up to eight d-characters, with a dot up to eight before
  it and up to three after it.\<close>

definition conforms_8_3 :: "string \<Rightarrow> bool" where
  "conforms_8_3 s \<longleftrightarrow>
     (case strrchr s CHR ''.'' of
        None \<Rightarrow> s \<noteq> '''' \<and> length s \<le> 8 \<and> list_all valid_d_char s
      | Some k \<Rightarrow> s \<noteq> ''.'' \<and> k \<le> 8 \<and> length s \<le> k + 4 \<and>
          list_all valid_d_char (take k s) \<and> list_all valid_d_char (drop (k + 1) s))"

lemma no_dot_valid: "list_all valid_d_char s \<Longrightarrow> CHR ''.'' \<notin> set s"
  using valid_d_char_simps(2) unfolding list_all_iff by metis

lemma strrchr_absent: "c \<notin> set s \<Longrightarrow> strrchr s c = None"
  by simp

lemma conforms_parts:
  assumes "list_all valid_d_char n" "list_all valid_d_char e" "length n \<le> 8" "length e \<le> 3"
    and "n \<noteq> '''' \<or> e \<noteq> ''''" and "e \<noteq> '''' \<longrightarrow> b"
  shows "conforms_8_3 (n @ (if b then ''.'' else '''') @ e)"
proof (cases b)
  case True
  have "strrchr (n @ CHR ''.'' # e) CHR ''.'' = Some (length n)"
    using no_dot_valid [OF assms(2)] by (rule strrchr_last)
  with True assms show ?thesis by (simp add: conforms_8_3_def append_eq_Cons_conv)
next
  case False
  with assms no_dot_valid [OF assms(1)] show ?thesis by (simp add: conforms_8_3_def strrchr_absent)
qed

lemma split_1_lengths:
  "split_1 src = (dot, lname, lext) \<Longrightarrow> lname \<le> length src \<and> (lext = 0 \<or> lname + 1 + lext = length src) \<and>
     (0 < lext \<longrightarrow> CHR ''.'' \<notin> set (drop (lname + 1) src)) \<and> (lname = 0 \<and> lext = 0 \<longrightarrow> src = '''' \<or> src = ''.'')"
  by (cases src) (auto simp: split_1_def Let_def split: option.splits if_splits dest!: strrchr_split)

lemma iso_1_fileid_strict:
  assumes "iso_1_fileid (Some src) 0 force_dots = Some d"
  shows "conforms_8_3 d" and "force_dots \<longrightarrow> CHR ''.'' \<in> set d"
proof -
  obtain dot lname lext where s: "split_1 src = (dot, lname, lext)" by (cases "split_1 src")
  define n where "n = map (\<lambda>c. if dot = None \<and> c = CHR ''.'' then CHR ''_'' else map_fileid_char c 0) (take (min lname 8) src)"
  define e where "e = map (\<lambda>c. map_fileid_char c 0) (take (min lext 3) (drop (lname + 1) src))"
  have ne: "\<not> (lname = 0 \<and> lext = 0)"
    and d: "d = n @ (if force_dots \<or> lext > 0 then ''.'' else '''') @ e"
    using assms s by (auto simp: n_def e_def split: if_splits)
  note len = split_1_lengths [OF s]
  have "list_all valid_d_char n" "list_all valid_d_char e"
    by (auto simp: n_def e_def list_all_iff map_fileid_char_strict)
  moreover have "length n \<le> 8" "length e \<le> 3" by (simp_all add: n_def e_def)
  moreover have "n \<noteq> '''' \<or> e \<noteq> ''''" using ne len by (auto simp: n_def e_def)
  moreover have "e \<noteq> '''' \<longrightarrow> force_dots \<or> lext > 0" by (auto simp: e_def)
  ultimately show "conforms_8_3 d" unfolding d by (rule conforms_parts)
  show "force_dots \<longrightarrow> CHR ''.'' \<in> set d" by (simp add: d)
qed

lemma map_fix: "list_all valid_d_char s \<Longrightarrow> map (\<lambda>c. map_fileid_char c relaxed) s = s"
  by (rule map_idI) (simp add: list_all_iff map_fileid_char_fix)

lemma iso_1_fileid_fix:
  assumes "conforms_8_3 s" and "force_dots \<longrightarrow> CHR ''.'' \<in> set s"
    and "strrchr s CHR ''.'' = Some (length s - 1) \<longrightarrow> force_dots"
  shows "iso_1_fileid (Some s) relaxed force_dots = Some s"
proof (cases "strrchr s CHR ''.''")
  case None
  then have c: "s \<noteq> ''''" "length s \<le> 8" "list_all valid_d_char s" "CHR ''.'' \<notin> set s" "\<not> force_dots"
    using assms(1,2) unfolding conforms_8_3_def None by (auto simp: strrchr_None [THEN iffD1, OF None])
  have "split_1 s = (None, length s, 0)" by (simp add: split_1_def strrchr_absent [OF c(4)])
  moreover have "map (\<lambda>c. if c = CHR ''.'' then CHR ''_'' else map_fileid_char c relaxed) s = s"
    using c(3,4) by (intro map_idI) (auto simp: list_all_iff map_fileid_char_fix)
  ultimately show ?thesis using c by simp
next
  case (Some k)
  have k: "k < length s" "s ! k = CHR ''.''" using strrchr_split [OF Some] by simp_all
  have c: "s \<noteq> ''.''" "k \<le> 8" "length s \<le> k + 4" "list_all valid_d_char (take k s)"
      "list_all valid_d_char (drop (k + 1) s)"
    using assms(1) Some by (simp_all add: conforms_8_3_def)
  have "split_1 s = (Some k, k, length s - (k + 1))" using Some k(1) c(3) by (auto simp: split_1_def Let_def)
  moreover have "s = take k s @ ''.'' @ drop (k + 1) s" using k id_take_nth_drop [of k s] by simp
  moreover have "\<not> (k = 0 \<and> length s - (k + 1) = 0)" using c(1) k by (cases s) auto
  moreover have "force_dots \<or> length s - (k + 1) > 0" using assms(3) Some k(1) by auto
  moreover have "min k 8 = k" "take (min (length s - (k + 1)) 3) (drop (k + 1) s) = drop (k + 1) s"
    using c(2,3) by simp_all
  moreover have "map (\<lambda>c. map_fileid_char c relaxed) (take k s) = take k s"
      "map (\<lambda>c. map_fileid_char c relaxed) (drop (k + 1) s) = drop (k + 1) s"
    using map_fix c(4,5) by auto
  ultimately show ?thesis by (simp only: iso_1_fileid.simps prod.case simp_thms if_False if_True option.distinct)
qed

lemma iso_2_fileid_form:
  assumes "iso_2_fileid (Some src) = Some d"
  obtains n e where "d = n @ CHR ''.'' # e" and "list_all valid_d_char n" and "list_all valid_d_char e"
    and "length n + length e \<le> 30"
proof -
  obtain lname lnname lnext where s: "split_lengths 30 src = (lname, lnname, lnext)" by (cases "split_lengths 30 src")
  note b = split_lengths_bounds [OF s]
  define n e where "n = map upper_or_underscore (take lnname src)"
    and "e = map upper_or_underscore (take lnext (drop (lname + 1) src))"
  have "d = n @ CHR ''.'' # e" using assms s by (auto simp: n_def e_def split: if_splits)
  moreover have "list_all valid_d_char n" "list_all valid_d_char e" by (auto simp: n_def e_def list_all_iff)
  moreover have "length n + length e \<le> 30" using b(1) by (simp add: n_def e_def)
  ultimately show thesis by (rule that)
qed

lemma iso_r_fileid_form:
  assumes "iso_r_fileid (Some src) len relaxed forcedot = Some d" and "3 \<le> len"
  obtains n e where "d = n @ (if e \<noteq> '''' \<or> forcedot then ''.'' else '''') @ e"
    and "set n \<subseteq> range (\<lambda>c. map_fileid_char c relaxed)" and "set e \<subseteq> range (\<lambda>c. map_fileid_char c relaxed)"
    and "length n + length e \<le> len"
proof -
  obtain lname lnname lnext where s: "split_lengths len src = (lname, lnname, lnext)" by (cases "split_lengths len src")
  note b = split_lengths_bounds [OF s assms(2)]
  define n e where "n = map (\<lambda>c. map_fileid_char c relaxed) (take lnname src)"
    and "e = map (\<lambda>c. map_fileid_char c relaxed) (take lnext (drop (lname + 1) src))"
  have "0 < lnext \<longleftrightarrow> e \<noteq> ''''" using b(4) by (auto simp: e_def)
  then have "d = n @ (if e \<noteq> '''' \<or> forcedot then ''.'' else '''') @ e"
    using assms(1) s by (auto simp: n_def e_def split: if_splits)
  moreover have "length n + length e \<le> len" using b(1) by (simp add: n_def e_def)
  ultimately show thesis by (intro that) (auto simp: n_def e_def)
qed

lemma iso_1_fileid_form:
  assumes "iso_1_fileid (Some src) relaxed force_dots = Some d"
  obtains n e where "d = n @ (if e \<noteq> '''' \<or> force_dots then ''.'' else '''') @ e"
    and "set n \<subseteq> insert CHR ''_'' (range (\<lambda>c. map_fileid_char c relaxed))"
    and "set e \<subseteq> range (\<lambda>c. map_fileid_char c relaxed)" and "CHR ''.'' \<notin> set e"
    and "length n \<le> 8" and "length e \<le> 3"
proof -
  obtain dot lname lext where s: "split_1 src = (dot, lname, lext)" by (cases "split_1 src")
  note b = split_1_lengths [OF s]
  define n e where "n = map (\<lambda>c. if dot = None \<and> c = CHR ''.'' then CHR ''_'' else map_fileid_char c relaxed) (take (min lname 8) src)"
    and "e = map (\<lambda>c. map_fileid_char c relaxed) (take (min lext 3) (drop (lname + 1) src))"
  have "0 < lext \<longleftrightarrow> e \<noteq> ''''" using b by (auto simp: e_def)
  then have "d = n @ (if e \<noteq> '''' \<or> force_dots then ''.'' else '''') @ e"
    using assms s by (auto simp: n_def e_def split: if_splits)
  moreover have "CHR ''.'' \<notin> set e"
  proof
    assume "CHR ''.'' \<in> set e"
    then obtain c where "c \<in> set (take (min lext 3) (drop (lname + 1) src))" and "map_fileid_char c relaxed = CHR ''.''"
      by (auto simp: e_def)
    then have "CHR ''.'' \<in> set (take (min lext 3) (drop (lname + 1) src))"
      using map_fileid_char_dot [of c relaxed] by simp
    moreover from this have "0 < lext" by (cases lext) auto
    ultimately show False using b by (auto dest: in_set_takeD)
  qed
  ultimately show thesis by (intro that) (auto simp: n_def e_def)
qed

lemma relaxed_of_dotless:
  assumes "\<not> allow_full_ascii opts" and "\<not> allow_7bit_ascii opts"
  shows "map_fileid_char c (relaxed_of opts) \<noteq> CHR ''.''"
  using assms by (intro map_fileid_char_dotless) (auto simp: relaxed_of_def)

lemma dot_not_mapped:
  assumes "set n \<subseteq> insert CHR ''_'' (range f)" and "\<And>c. f c \<noteq> CHR ''.''"
  shows "CHR ''.'' \<notin> set n"
proof
  assume "CHR ''.'' \<in> set n"
  with assms(1) have "CHR ''.'' \<in> insert CHR ''_'' (range f)" by blast
  then obtain c where "CHR ''.'' = f c" by auto
  with assms(2) [of c] show False by simp
qed

text \<open>The type of the node that a name is made for.\<close>

definition ecma_type :: "iso_node_type \<Rightarrow> node_type" where
  "ecma_type t = (case t of LIBISO_DIR \<Rightarrow> ECMA119_DIR | LIBISO_SYMLINK \<Rightarrow> ECMA119_SYMLINK
     | LIBISO_SPECIAL \<Rightarrow> ECMA119_SPECIAL | _ \<Rightarrow> ECMA119_FILE)"

lemma ecma_type_dir [simp]: "ecma_type t = ECMA119_DIR \<longleftrightarrow> t = LIBISO_DIR"
  by (cases t) (simp_all add: ecma_type_def)

section \<open>Properties\<close>


text \<open>C14: with none of the relaxing options, an identifier consists of d-characters, and of at most
  one dot if it is not a directory's.\<close>

theorem ecma119_name_strict_chars:
  assumes "iso_get_ecma119_name str2ascii opts (Some s) t = (Inr r, Some nm)"
    and "untranslated_name_len opts = 0" and "\<not> allow_dir_id_ext opts" and "relaxed_of opts = 0"
  shows "\<exists>n e. nm = n @ e \<and> list_all valid_d_char n \<and>
     (e = '''' \<or> (t \<noteq> LIBISO_DIR \<and> hd e = CHR ''.'' \<and> list_all valid_d_char (tl e)))"
proof -
  obtain a where a: "str2ascii s = Inr a"
    using assms(1,2) by (auto simp: iso_get_ecma119_name_def split: sum.splits)
  have strict: "set x \<subseteq> range (\<lambda>c. map_fileid_char c 0) \<Longrightarrow> list_all valid_d_char x" for x
    using map_fileid_char_strict by (auto simp: list_all_iff)
  show ?thesis
  proof (cases "t = LIBISO_DIR")
    case True
    with assms a have "list_all valid_d_char nm"
      by (auto simp: iso_get_ecma119_name_def Let_def iso_r_dirid_def iso_1_dirid_def iso_2_dirid_def
          iso_dirid_def list_all_iff map_fileid_char_strict split: if_splits)
    then show ?thesis by (intro exI [of _ nm] exI [of _ "''''"]) simp
  next
    case False
    have shape: ?thesis if "nm = n @ (if e \<noteq> '''' \<or> b then ''.'' else '''') @ e"
        "list_all valid_d_char n" "list_all valid_d_char e" for n e b
      using that False by (intro exI [of _ n] exI [of _ "(if e \<noteq> '''' \<or> b then ''.'' else '''') @ e"]) auto
    define fd where "fd = (\<not> (no_force_dots opts AND 1 \<noteq> 0 \<or> t = LIBISO_DIR))"
    have "file_identifier opts a 0 fd = Some nm"
      using assms(1,2,4) a False by (auto simp: iso_get_ecma119_name_def Let_def fd_def split: option.splits)
    then consider "iso_r_fileid (Some a) 36 0 fd = Some nm" | "iso_r_fileid (Some a) 30 0 fd = Some nm"
      | "iso_1_fileid (Some a) 0 fd = Some nm" | "iso_2_fileid (Some a) = Some nm"
      by (auto simp: file_identifier_def split: if_splits simp del: iso_r_fileid.simps iso_1_fileid.simps iso_2_fileid.simps)
    then show ?thesis
    proof cases
      case 1
      then show ?thesis by (rule iso_r_fileid_form) (use strict shape in auto)
    next
      case 2
      then show ?thesis by (rule iso_r_fileid_form) (use strict shape in auto)
    next
      case 3
      then show ?thesis
      proof (rule iso_1_fileid_form)
        fix n e
        assume "nm = n @ (if e \<noteq> '''' \<or> fd then ''.'' else '''') @ e"
          and n: "set n \<subseteq> insert CHR ''_'' (range (\<lambda>c. map_fileid_char c 0))"
          and "set e \<subseteq> range (\<lambda>c. map_fileid_char c 0)"
        moreover have "list_all valid_d_char n"
          using n map_fileid_char_strict by (auto simp: list_all_iff)
        ultimately show ?thesis using strict shape by blast
      qed
    next
      case 4
      then show ?thesis by (rule iso_2_fileid_form) (use shape [of _ _ True] in auto)
    qed
  qed
qed

text \<open>At level 1 with strict options the derivation gives an 8.3 name, and a name of that form
  is its own identifier: deriving twice is deriving once.\<close>

theorem iso_1_fileid_idempotent:
  assumes "iso_1_fileid (Some src) 0 force_dots = Some d"
  shows "conforms_8_3 d \<and> iso_1_fileid (Some d) 0 force_dots = Some d"
proof -
  have "force_dots" if dot: "strrchr d CHR ''.'' = Some (length d - 1)"
  proof (rule ccontr)
    assume no: "\<not> force_dots"
    from assms show False
    proof (rule iso_1_fileid_form)
      fix n e
      assume d: "d = n @ (if e \<noteq> '''' \<or> force_dots then ''.'' else '''') @ e"
        and n: "set n \<subseteq> insert CHR ''_'' (range (\<lambda>c. map_fileid_char c 0))" and e: "CHR ''.'' \<notin> set e"
      have "CHR ''.'' \<notin> set n" using n map_fileid_char_dotless [of 0] by (intro dot_not_mapped) simp_all
      then show False
        using dot no d e strrchr_last [OF e, of n] by (cases "e = ''''") (auto simp: strrchr_absent)
    qed
  qed
  with iso_1_fileid_strict [OF assms] iso_1_fileid_fix [of d force_dots 0] show ?thesis by blast
qed

text \<open>a name that converts to something other than nothing or a single dot always gets an
  identifier, unless names are to stay untranslated and it is too long.\<close>

theorem ecma119_name_total:
  assumes "str2ascii s = Inr a" and "a \<noteq> ''''" and "a \<noteq> ''.''"
    and "untranslated_name_len opts = 0 \<or> length s \<le> untranslated_name_len opts"
  shows "\<exists>nm. iso_get_ecma119_name str2ascii opts (Some s) t = (Inr 1, Some nm)"
proof -
  have r: "\<exists>d. iso_r_fileid (Some a) len relaxed fd = Some d" if "3 \<le> len" for len relaxed fd
    using split_lengths_bounds(5) [OF _ that, of a] assms(2) by (auto split: prod.splits)
  have one: "\<exists>d. iso_1_fileid (Some a) relaxed fd = Some d" for relaxed fd
    using split_1_lengths [of a] assms(2,3) by (auto split: prod.splits)
  have two: "\<exists>d. iso_2_fileid (Some a) = Some d"
    using split_lengths_bounds(5) [of 30 a] assms(2) by (auto split: prod.splits)
  have ident: "\<exists>nm. file_identifier opts a relaxed fd = Some nm" for relaxed fd
    using r [of 36] r [of 30] one two by (simp add: file_identifier_def del: iso_r_fileid.simps iso_1_fileid.simps iso_2_fileid.simps)
  show ?thesis
  proof (cases "untranslated_name_len opts = 0")
    case True
    obtain nm where "file_identifier opts a (relaxed_of opts) (\<not> (no_force_dots opts AND 1 \<noteq> 0 \<or> t = LIBISO_DIR)) = Some nm"
      using ident by blast
    with True assms(1) show ?thesis by (simp add: iso_get_ecma119_name_def Let_def)
  next
    case False
    with assms(4) show ?thesis by (simp add: iso_get_ecma119_name_def Let_def)
  qed
qed

text \<open>Witnesses, at level 1, with the conversion that changes nothing.\<close>

definition strict_level_one :: name_opts where
  "strict_level_one = \<lparr>untranslated_name_len = 0, max_37_char_filenames = False, iso_level = 1,
     allow_dir_id_ext = False, allow_full_ascii = False, allow_lowercase = False, allow_7bit_ascii = False,
     no_force_dots = 0\<rparr>"

lemma sample_identifier:
  "iso_get_ecma119_name Inr strict_level_one (Some ''archive-1.tar.gz'') LIBISO_FILE = (Inr 1, Some ''ARCHIVE_.GZ'')"
  by code_simp

lemma sample_identifier_1: "iso_1_fileid (Some ''archive-1.tar.gz'') 0 True = Some ''ARCHIVE_.GZ''"
  by code_simp


theorem ecma119_name_strict_chars_witness:
  "\<exists>n e. ''ARCHIVE_.GZ'' = n @ e \<and> list_all valid_d_char n \<and> (e = '''' \<or> hd e = CHR ''.'')"
  using ecma119_name_strict_chars [OF sample_identifier] by (simp add: strict_level_one_def relaxed_of_def) blast

theorem iso_1_fileid_idempotent_witness:
  "iso_1_fileid (Some ''ARCHIVE_.GZ'') 0 True = Some ''ARCHIVE_.GZ''"
  using iso_1_fileid_idempotent [OF sample_identifier_1] by simp

theorem ecma119_name_total_witness:
  "\<exists>nm. iso_get_ecma119_name Inr strict_level_one (Some ''..'') LIBISO_FILE = (Inr 1, Some nm)"
  by (rule ecma119_name_total [of Inr "''..''" "''..''"]) (simp_all add: strict_level_one_def)

end
