(* ===== verification/RingBuffer.thy ===== *)
theory RingBuffer
  imports Prelude
begin

text \<open>
  The synchronized ring buffer of \<open>libisofs/buffer.c\<close>, used by one writer thread and one reader
  thread. What a thread does while it holds the mutex is one step; between the steps the threads
  interleave freely. A thread that calls \<open>pthread_cond_wait\<close> stays there until it is signalled (or
  wakes spuriously, which POSIX allows) and then evaluates its loop condition again. Sizes are
  natural numbers: the product with \<open>BLOCK_SIZE\<close> is taken not to exceed \<open>size_t\<close>.
\<close>

section \<open>The buffer\<close>

record ring_buffer =
  rb_buf :: "byte list"
  rb_cap :: nat
  rb_size :: nat
  rb_rpos :: nat
  rb_wpos :: nat
  rb_rend :: nat
  rb_wend :: nat
  rb_times_full :: u32
  rb_times_empty :: u32

text \<open>\<open>struct_mem\<close> says whether the struct can be allocated, \<open>buf_mem\<close> what the second \<open>malloc\<close>
  returns: \<open>None\<close>, or memory with some contents for the requested number of bytes.\<close>

definition iso_ring_buffer_new ::
  "nat \<Rightarrow> bool \<Rightarrow> bool \<Rightarrow> (nat \<Rightarrow> byte list option) \<Rightarrow> iso_error + ring_buffer" where
  "iso_ring_buffer_new nblocks rbuf_null struct_mem buf_mem =
     (if rbuf_null then Inl ISO_NULL_POINTER
      else if \<not> struct_mem then Inl ISO_OUT_OF_MEM
      else let cap = (if nblocks > 32 then nblocks else 32) * BLOCK_SIZE
           in case buf_mem cap of
                None \<Rightarrow> Inl ISO_OUT_OF_MEM
              | Some mem \<Rightarrow> Inr \<lparr>rb_buf = mem, rb_cap = cap, rb_size = 0, rb_rpos = 0, rb_wpos = 0,
                              rb_rend = 0, rb_wend = 0, rb_times_full = 0, rb_times_empty = 0\<rparr>)"

text \<open>What happens between locking the mutex and releasing it, by unlocking or by waiting: the call
  returns, the thread waits, or bytes are copied. The writer's result is the new \<open>bytes_write\<close>,
  the reader's the bytes copied to \<open>dest\<close>.\<close>

datatype 'r critical = SecReturn nat | SecWait ring_buffer | SecCopy ring_buffer 'r

definition ring_write_section :: "ring_buffer \<Rightarrow> byte list \<Rightarrow> nat \<Rightarrow> nat critical" where
  "ring_write_section buf data bytes_write =
     (if rb_size buf = rb_cap buf
      then if rb_rend buf \<noteq> 0 then SecReturn 0
           else SecWait (buf\<lparr>rb_times_full := rb_times_full buf + 1\<rparr>)
      else let len0 = min (length data - bytes_write) (rb_cap buf - rb_size buf);
               len = (if rb_wpos buf + len0 > rb_cap buf then rb_cap buf - rb_wpos buf else len0)
           in SecCopy (buf\<lparr>rb_buf := buf_put (rb_buf buf) (rb_wpos buf) (take len (drop bytes_write data)),
                           rb_wpos := (rb_wpos buf + len) mod rb_cap buf,
                           rb_size := rb_size buf + len\<rparr>)
                      (bytes_write + len))"

definition ring_read_section :: "ring_buffer \<Rightarrow> nat \<Rightarrow> nat \<Rightarrow> byte list critical" where
  "ring_read_section buf count bytes_read =
     (if rb_size buf = 0
      then if rb_wend buf \<noteq> 0 then SecReturn 0
           else SecWait (buf\<lparr>rb_times_empty := rb_times_empty buf + 1\<rparr>)
      else let len0 = min (count - bytes_read) (rb_size buf);
               len = (if rb_rpos buf + len0 > rb_cap buf then rb_cap buf - rb_rpos buf else len0)
           in SecCopy (buf\<lparr>rb_rpos := (rb_rpos buf + len) mod rb_cap buf,
                           rb_size := rb_size buf - len\<rparr>)
                      (take len (drop (rb_rpos buf) (rb_buf buf))))"

definition iso_ring_buffer_writer_close :: "ring_buffer \<Rightarrow> bool \<Rightarrow> ring_buffer" where
  "iso_ring_buffer_writer_close buf error = buf\<lparr>rb_wend := (if error then 2 else 1)\<rparr>"

text \<open>The flag tells whether the condition \<open>full\<close> is signalled.\<close>

definition iso_ring_buffer_reader_close :: "ring_buffer \<Rightarrow> bool \<Rightarrow> ring_buffer \<times> bool" where
  "iso_ring_buffer_reader_close buf error =
     (if rb_rend buf \<noteq> 0 then (buf, False)
      else (buf\<lparr>rb_rend := (if error then 2 else 1)\<rparr>, True))"

definition iso_ring_buffer_get_times_full :: "ring_buffer \<Rightarrow> u32" where
  "iso_ring_buffer_get_times_full buf = rb_times_full buf"

definition iso_ring_buffer_get_times_empty :: "ring_buffer \<Rightarrow> u32" where
  "iso_ring_buffer_get_times_empty buf = rb_times_empty buf"

text \<open>The state code, the size and the free bytes.\<close>

fun iso_ring_buffer_get_buf_status :: "ring_buffer option \<Rightarrow> iso_error + nat \<times> nat \<times> nat" where
  "iso_ring_buffer_get_buf_status None = Inl ISO_NULL_POINTER"
| "iso_ring_buffer_get_buf_status (Some buf) =
     Inr ((if rb_rend buf \<noteq> 0 then 4 else 0) + (rb_wend buf + 1), rb_cap buf, rb_cap buf - rb_size buf)"

section \<open>The two threads\<close>

text \<open>Where a thread is: outside of the calls, running in the loop of a call, or in
  \<open>pthread_cond_wait\<close>. A write call keeps its data and \<open>bytes_write\<close>, a read call its count and the
  part of \<open>dest\<close> that is filled. The last two fields of the system are not in the code: they record
  all bytes that went into the buffer and all that came out of it.\<close>

datatype writer_pc = WIdle | WRun "byte list" nat | WWait "byte list" nat
datatype reader_pc = RIdle | RRun nat "byte list" | RWait nat "byte list"

record ring_system =
  rs_buf :: ring_buffer
  rs_writer :: writer_pc
  rs_reader :: reader_pc
  rs_in :: "byte list"
  rs_out :: "byte list"

datatype ring_event =
    EvWrite "byte list" | EvWriteReturn "iso_error + nat" | EvWriterClose bool
  | EvRead nat | EvReadReturn "iso_error + nat" "byte list" | EvReaderClose bool
  | EvCopy | EvWait | EvSpurious

text \<open>\<open>pthread_cond_signal\<close> on \<open>empty\<close> and on \<open>full\<close>.\<close>

fun signal_empty :: "reader_pc \<Rightarrow> reader_pc" where
  "signal_empty (RWait n d) = RRun n d"
| "signal_empty pc = pc"

fun signal_full :: "writer_pc \<Rightarrow> writer_pc" where
  "signal_full (WWait d n) = WRun d n"
| "signal_full pc = pc"

inductive ring_step :: "ring_system \<Rightarrow> ring_event \<Rightarrow> ring_system \<Rightarrow> bool" where
  w_call: "rs_writer s = WIdle \<Longrightarrow> ring_step s (EvWrite data) (s\<lparr>rs_writer := WRun data 0\<rparr>)"
| w_null: "rs_writer s = WIdle \<Longrightarrow> ring_step s (EvWriteReturn (Inl ISO_NULL_POINTER)) s"
| w_done: "rs_writer s = WRun data n \<Longrightarrow> \<not> n < length data \<Longrightarrow>
     ring_step s (EvWriteReturn (Inr 1)) (s\<lparr>rs_writer := WIdle\<rparr>)"
| w_abandoned: "rs_writer s = WRun data n \<Longrightarrow> n < length data \<Longrightarrow>
     ring_write_section (rs_buf s) data n = SecReturn r \<Longrightarrow>
     ring_step s (EvWriteReturn (Inr r)) (s\<lparr>rs_writer := WIdle\<rparr>)"
| w_wait: "rs_writer s = WRun data n \<Longrightarrow> n < length data \<Longrightarrow>
     ring_write_section (rs_buf s) data n = SecWait b \<Longrightarrow>
     ring_step s EvWait (s\<lparr>rs_buf := b, rs_writer := WWait data n\<rparr>)"
| w_copy: "rs_writer s = WRun data n \<Longrightarrow> n < length data \<Longrightarrow>
     ring_write_section (rs_buf s) data n = SecCopy b n' \<Longrightarrow>
     ring_step s EvCopy (s\<lparr>rs_buf := b, rs_writer := WRun data n', rs_reader := signal_empty (rs_reader s),
       rs_in := rs_in s @ take (n' - n) (drop n data)\<rparr>)"
| w_spurious: "rs_writer s = WWait data n \<Longrightarrow>
     ring_step s EvSpurious (s\<lparr>rs_writer := WRun data n\<rparr>)"
| w_close: "rs_writer s = WIdle \<Longrightarrow>
     ring_step s (EvWriterClose e) (s\<lparr>rs_buf := iso_ring_buffer_writer_close (rs_buf s) e,
       rs_reader := signal_empty (rs_reader s)\<rparr>)"
| r_call: "rs_reader s = RIdle \<Longrightarrow> ring_step s (EvRead count) (s\<lparr>rs_reader := RRun count []\<rparr>)"
| r_null: "rs_reader s = RIdle \<Longrightarrow> ring_step s (EvReadReturn (Inl ISO_NULL_POINTER) []) s"
| r_done: "rs_reader s = RRun count dest \<Longrightarrow> \<not> length dest < count \<Longrightarrow>
     ring_step s (EvReadReturn (Inr 1) dest) (s\<lparr>rs_reader := RIdle\<rparr>)"
| r_eof: "rs_reader s = RRun count dest \<Longrightarrow> length dest < count \<Longrightarrow>
     ring_read_section (rs_buf s) count (length dest) = SecReturn r \<Longrightarrow>
     ring_step s (EvReadReturn (Inr r) dest) (s\<lparr>rs_reader := RIdle\<rparr>)"
| r_wait: "rs_reader s = RRun count dest \<Longrightarrow> length dest < count \<Longrightarrow>
     ring_read_section (rs_buf s) count (length dest) = SecWait b \<Longrightarrow>
     ring_step s EvWait (s\<lparr>rs_buf := b, rs_reader := RWait count dest\<rparr>)"
| r_copy: "rs_reader s = RRun count dest \<Longrightarrow> length dest < count \<Longrightarrow>
     ring_read_section (rs_buf s) count (length dest) = SecCopy b bs \<Longrightarrow>
     ring_step s EvCopy (s\<lparr>rs_buf := b, rs_reader := RRun count (dest @ bs),
       rs_writer := signal_full (rs_writer s), rs_out := rs_out s @ bs\<rparr>)"
| r_spurious: "rs_reader s = RWait count dest \<Longrightarrow>
     ring_step s EvSpurious (s\<lparr>rs_reader := RRun count dest\<rparr>)"
| r_close: "iso_ring_buffer_reader_close (rs_buf s) e = (b, sig) \<Longrightarrow>
     ring_step s (EvReaderClose e) (s\<lparr>rs_buf := b,
       rs_writer := (if sig then signal_full (rs_writer s) else rs_writer s)\<rparr>)"

inductive ring_reachable :: "ring_system \<Rightarrow> bool" where
  start: "iso_ring_buffer_new nblocks False True mem = Inr b \<Longrightarrow> (\<forall>n bs. mem n = Some bs \<longrightarrow> length bs = n) \<Longrightarrow>
     ring_reachable \<lparr>rs_buf = b, rs_writer = WIdle, rs_reader = RIdle, rs_in = [], rs_out = []\<rparr>"
| step: "ring_reachable s \<Longrightarrow> ring_step s ev s' \<Longrightarrow> ring_reachable s'"

section \<open>The interface of a byte queue\<close>

text \<open>What the threads rely on: a bounded queue of bytes that takes a non-empty part of what it is
  offered if it has room, and hands out a non-empty part of what it has.\<close>

locale byte_queue =
  fixes ok :: "'b \<Rightarrow> bool"
    and content :: "'b \<Rightarrow> byte list"
    and room :: "'b \<Rightarrow> nat"
    and put :: "'b \<Rightarrow> byte list \<Rightarrow> 'b \<times> nat"
    and get :: "'b \<Rightarrow> nat \<Rightarrow> 'b \<times> byte list"
  assumes put_law: "ok b \<Longrightarrow> 0 < room b \<Longrightarrow> bs \<noteq> [] \<Longrightarrow> put b bs = (b', n) \<Longrightarrow>
      ok b' \<and> 0 < n \<and> n \<le> length bs \<and> content b' = content b @ take n bs"
    and get_law: "ok b \<Longrightarrow> content b \<noteq> [] \<Longrightarrow> 0 < n \<Longrightarrow> get b n = (b', bs) \<Longrightarrow>
      ok b' \<and> bs \<noteq> [] \<and> length bs \<le> n \<and> content b = bs @ content b'"
    and room_law: "ok b \<Longrightarrow> room b = 0 \<Longrightarrow> content b \<noteq> []"
begin

text \<open>The bytes that came out, followed by those inside, are the bytes that went in.\<close>

lemma put_stream:
  "ok b \<Longrightarrow> 0 < room b \<Longrightarrow> bs \<noteq> [] \<Longrightarrow> put b bs = (b', n) \<Longrightarrow>
     out @ content b = inp \<Longrightarrow> ok b' \<and> out @ content b' = inp @ take n bs \<and> content b' \<noteq> []"
  using put_law [of b bs b' n] by (auto simp: take_eq_Nil)

lemma get_stream:
  "ok b \<Longrightarrow> content b \<noteq> [] \<Longrightarrow> 0 < n \<Longrightarrow> get b n = (b', bs) \<Longrightarrow>
     out @ content b = inp \<Longrightarrow> ok b' \<and> (out @ bs) @ content b' = inp \<and> length bs \<le> n"
  using get_law [of b n b' bs] by auto

lemma not_full_and_empty: "ok b \<Longrightarrow> \<not> (room b = 0 \<and> content b = [])"
  using room_law by blast

end

section \<open>The ring buffer is a byte queue\<close>

definition rb_ok :: "ring_buffer \<Rightarrow> bool" where
  "rb_ok b \<longleftrightarrow> 0 < rb_cap b \<and> length (rb_buf b) = rb_cap b \<and> rb_size b \<le> rb_cap b \<and>
     rb_rpos b < rb_cap b \<and> rb_wpos b = (rb_rpos b + rb_size b) mod rb_cap b"

definition rb_content :: "ring_buffer \<Rightarrow> byte list" where
  "rb_content b = map (\<lambda>i. rb_buf b ! ((rb_rpos b + i) mod rb_cap b)) [0..<rb_size b]"

definition rb_room :: "ring_buffer \<Rightarrow> nat" where
  "rb_room b = rb_cap b - rb_size b"

definition rb_put :: "ring_buffer \<Rightarrow> byte list \<Rightarrow> ring_buffer \<times> nat" where
  "rb_put b bs = (case ring_write_section b bs 0 of SecCopy b' n \<Rightarrow> (b', n) | _ \<Rightarrow> (b, 0))"

definition rb_get :: "ring_buffer \<Rightarrow> nat \<Rightarrow> ring_buffer \<times> byte list" where
  "rb_get b n = (case ring_read_section b n 0 of SecCopy b' bs \<Rightarrow> (b', bs) | _ \<Rightarrow> (b, []))"

lemma length_rb_content [simp]: "length (rb_content b) = rb_size b"
  by (simp add: rb_content_def)

lemma rb_content_Nil [simp]: "rb_content b = [] \<longleftrightarrow> rb_size b = 0"
  by (simp add: rb_content_def)

lemma mod_wrap: "a < c \<Longrightarrow> i < c \<Longrightarrow> (a + i) mod c = (if a + i < c then a + i else a + i - c)" for a :: nat
  by (simp add: mod_if)

text \<open>Storing \<open>n\<close> bytes at the write position, without wrapping.\<close>

lemma rb_store:
  assumes ok: "rb_ok b" and n: "length bs = n" "rb_size b + n \<le> rb_cap b" "rb_wpos b + n \<le> rb_cap b" "0 < n"
  defines "b' \<equiv> b\<lparr>rb_buf := buf_put (rb_buf b) (rb_wpos b) bs,
      rb_wpos := (rb_wpos b + n) mod rb_cap b, rb_size := rb_size b + n\<rparr>"
  shows "rb_ok b'" and "rb_content b' = rb_content b @ bs"
proof -
  have b: "0 < rb_cap b" "length (rb_buf b) = rb_cap b" "rb_size b \<le> rb_cap b" "rb_rpos b < rb_cap b"
      "rb_wpos b = (rb_rpos b + rb_size b) mod rb_cap b"
    using ok by (auto simp: rb_ok_def)
  show "rb_ok b'"
    using b n by (simp add: rb_ok_def b'_def mod_simps add.assoc)
  show "rb_content b' = rb_content b @ bs"
  proof (rule nth_equalityI)
    fix i assume "i < length (rb_content b')"
    then have i: "i < rb_size b + n" by (simp add: b'_def)
    have s: "rb_size b < rb_cap b" using n by simp
    note w = mod_wrap [OF b(4) s]
    let ?j = "(rb_rpos b + i) mod rb_cap b"
    have j: "?j = (if rb_rpos b + i < rb_cap b then rb_rpos b + i else rb_rpos b + i - rb_cap b)"
      using b i n by (intro mod_wrap) auto
    have "rb_content b' ! i = buf_put (rb_buf b) (rb_wpos b) bs ! ?j"
      using i by (simp add: rb_content_def b'_def)
    also have "\<dots> = (if rb_wpos b \<le> ?j \<and> ?j < rb_wpos b + n then bs ! (?j - rb_wpos b) else rb_buf b ! ?j)"
      using b n by (subst nth_buf_put) auto
    also have "\<dots> = (rb_content b @ bs) ! i"
    proof (cases "i < rb_size b")
      case True
      then have "\<not> (rb_wpos b \<le> ?j \<and> ?j < rb_wpos b + n)"
        unfolding j b(5) w using n(2,3) b(3,4) b(5) w by (auto split: if_splits)
      then have "(if rb_wpos b \<le> ?j \<and> ?j < rb_wpos b + n then bs ! (?j - rb_wpos b) else rb_buf b ! ?j) =
          rb_buf b ! ?j" by (rule if_not_P)
      with True show ?thesis by (simp only: nth_append) (simp add: rb_content_def)
    next
      case False
      then have "?j = rb_wpos b + (i - rb_size b)"
        unfolding j b(5) w using n(2,3) i b(3,4) b(5) w by (auto split: if_splits)
      moreover from this have "rb_wpos b \<le> ?j \<and> ?j < rb_wpos b + n" using False i by linarith
      ultimately show ?thesis using False by (simp add: nth_append)
    qed
    finally show "rb_content b' ! i = (rb_content b @ bs) ! i" .
  qed (simp add: b'_def n)
qed

text \<open>Fetching \<open>n\<close> bytes from the read position, without wrapping.\<close>

lemma rb_fetch:
  assumes ok: "rb_ok b" and n: "n \<le> rb_size b" "rb_rpos b + n \<le> rb_cap b"
  defines "b' \<equiv> b\<lparr>rb_rpos := (rb_rpos b + n) mod rb_cap b, rb_size := rb_size b - n\<rparr>"
  shows "rb_ok b'" and "rb_content b = take n (drop (rb_rpos b) (rb_buf b)) @ rb_content b'"
proof -
  have b: "0 < rb_cap b" "length (rb_buf b) = rb_cap b" "rb_size b \<le> rb_cap b" "rb_rpos b < rb_cap b"
      "rb_wpos b = (rb_rpos b + rb_size b) mod rb_cap b"
    using ok by (auto simp: rb_ok_def)
  have "((rb_rpos b + n) mod rb_cap b + (rb_size b - n)) mod rb_cap b = (rb_rpos b + n + (rb_size b - n)) mod rb_cap b"
    by (rule mod_add_left_eq)
  then show "rb_ok b'"
    using b n by (simp add: rb_ok_def b'_def)
  show "rb_content b = take n (drop (rb_rpos b) (rb_buf b)) @ rb_content b'"
    using b n by (intro nth_equalityI) (auto simp: rb_content_def b'_def nth_append mod_simps add.assoc)
qed

lemma write_section_copy:
  assumes "rb_ok b" and "n < length data" and "ring_write_section b data n = SecCopy b' n'"
  shows "rb_ok b'" and "n < n'" and "n' \<le> length data"
    and "rb_content b' = rb_content b @ take (n' - n) (drop n data)"
    and "rb_rend b' = rb_rend b" and "rb_wend b' = rb_wend b" and "0 < rb_size b'"
proof -
  have b: "0 < rb_cap b" "rb_size b \<le> rb_cap b" "rb_wpos b < rb_cap b" using assms(1) by (auto simp: rb_ok_def)
  have free: "rb_size b \<noteq> rb_cap b" using assms(3) by (auto simp: ring_write_section_def split: if_splits)
  define len0 where "len0 = min (length data - n) (rb_cap b - rb_size b)"
  define len where "len = (if rb_wpos b + len0 > rb_cap b then rb_cap b - rb_wpos b else len0)"
  have len: "0 < len" "n + len \<le> length data" "rb_size b + len \<le> rb_cap b" "rb_wpos b + len \<le> rb_cap b"
    using b free assms(2) by (auto simp: len_def len0_def)
  have e: "b' = b\<lparr>rb_buf := buf_put (rb_buf b) (rb_wpos b) (take len (drop n data)),
      rb_wpos := (rb_wpos b + len) mod rb_cap b, rb_size := rb_size b + len\<rparr>" "n' = n + len"
    using assms(3) free by (simp_all add: ring_write_section_def Let_def len_def [symmetric] len0_def [symmetric])
  have "length (take len (drop n data)) = len" using len by simp
  note store = rb_store [OF assms(1) this len(3,4,1)]
  show "rb_ok b'" and "rb_content b' = rb_content b @ take (n' - n) (drop n data)"
    using store by (simp_all add: e)
  show "n < n'" and "n' \<le> length data" and "0 < rb_size b'" using len by (simp_all add: e)
  show "rb_rend b' = rb_rend b" and "rb_wend b' = rb_wend b" by (simp_all add: e)
qed

lemma read_section_copy:
  assumes "rb_ok b" and "n < count" and "ring_read_section b count n = SecCopy b' bs"
  shows "rb_ok b'" and "bs \<noteq> []" and "n + length bs \<le> count" and "rb_content b = bs @ rb_content b'"
    and "rb_rend b' = rb_rend b" and "rb_wend b' = rb_wend b" and "rb_size b' < rb_cap b'"
proof -
  have b: "length (rb_buf b) = rb_cap b" "rb_size b \<le> rb_cap b" "rb_rpos b < rb_cap b"
    using assms(1) by (auto simp: rb_ok_def)
  have pos: "rb_size b \<noteq> 0" using assms(3) by (auto simp: ring_read_section_def split: if_splits)
  define len0 where "len0 = min (count - n) (rb_size b)"
  define len where "len = (if rb_rpos b + len0 > rb_cap b then rb_cap b - rb_rpos b else len0)"
  have len: "0 < len" "n + len \<le> count" "len \<le> rb_size b" "rb_rpos b + len \<le> rb_cap b"
    using b pos assms(2) by (auto simp: len_def len0_def)
  have e: "b' = b\<lparr>rb_rpos := (rb_rpos b + len) mod rb_cap b, rb_size := rb_size b - len\<rparr>"
      "bs = take len (drop (rb_rpos b) (rb_buf b))"
    using assms(3) pos by (simp_all add: ring_read_section_def Let_def len_def [symmetric] len0_def [symmetric])
  note fetch = rb_fetch [OF assms(1) len(3,4)]
  show "rb_ok b'" and "rb_content b = bs @ rb_content b'"
    using fetch by (simp_all only: e)
  show "bs \<noteq> []" and "n + length bs \<le> count" and "rb_size b' < rb_cap b'"
    using len b by (auto simp: e)
  show "rb_rend b' = rb_rend b" and "rb_wend b' = rb_wend b" by (simp_all add: e)
qed

lemma rb_put_copy: "0 < rb_room b \<Longrightarrow> rb_put b bs = (b', n) \<Longrightarrow> ring_write_section b bs 0 = SecCopy b' n"
  by (auto simp: rb_put_def rb_room_def ring_write_section_def Let_def split: if_splits)

lemma rb_get_copy: "rb_size b \<noteq> 0 \<Longrightarrow> rb_get b n = (b', bs) \<Longrightarrow> ring_read_section b n 0 = SecCopy b' bs"
  by (auto simp: rb_get_def ring_read_section_def Let_def split: if_splits)

interpretation ring: byte_queue rb_ok rb_content rb_room rb_put rb_get
proof unfold_locales
  fix b b' n and bs :: "byte list"
  assume ok: "rb_ok b"
  { assume "0 < rb_room b" and bs: "bs \<noteq> []" and "rb_put b bs = (b', n)"
    then have "ring_write_section b bs 0 = SecCopy b' n" by (intro rb_put_copy)
    with write_section_copy [OF ok _ this] bs
    show "rb_ok b' \<and> 0 < n \<and> n \<le> length bs \<and> rb_content b' = rb_content b @ take n bs" by simp }
  { assume "rb_content b \<noteq> []" and n: "0 < n" and "rb_get b n = (b', bs)"
    then have "ring_read_section b n 0 = SecCopy b' bs" by (intro rb_get_copy) simp_all
    with read_section_copy [OF ok _ this] n
    show "rb_ok b' \<and> bs \<noteq> [] \<and> length bs \<le> n \<and> rb_content b = bs @ rb_content b'" by simp }
  assume "rb_room b = 0"
  with ok show "rb_content b \<noteq> []" by (simp add: rb_room_def rb_ok_def)
qed

section \<open>The invariant of the two threads\<close>

text \<open>The buffer is consistent, the bytes that came out and those inside are those that went in, and
  a thread only waits while its condition holds: no wakeup is lost.\<close>

fun writer_ok :: "ring_buffer \<Rightarrow> writer_pc \<Rightarrow> bool" where
  "writer_ok b WIdle \<longleftrightarrow> True"
| "writer_ok b (WRun data n) \<longleftrightarrow> n \<le> length data"
| "writer_ok b (WWait data n) \<longleftrightarrow> n < length data \<and> rb_size b = rb_cap b \<and> rb_rend b = 0"

fun reader_ok :: "ring_buffer \<Rightarrow> reader_pc \<Rightarrow> bool" where
  "reader_ok b RIdle \<longleftrightarrow> True"
| "reader_ok b (RRun count dest) \<longleftrightarrow> length dest \<le> count"
| "reader_ok b (RWait count dest) \<longleftrightarrow> length dest < count \<and> rb_size b = 0 \<and> rb_wend b = 0"

definition ring_inv :: "ring_system \<Rightarrow> bool" where
  "ring_inv s \<longleftrightarrow> rb_ok (rs_buf s) \<and> rs_in s = rs_out s @ rb_content (rs_buf s) \<and>
     writer_ok (rs_buf s) (rs_writer s) \<and> reader_ok (rs_buf s) (rs_reader s)"

inductive_cases write_returnE: "ring_step s (EvWriteReturn r) s'"
inductive_cases read_returnE: "ring_step s (EvReadReturn r dest) s'"

lemma writer_ok_signal: "writer_ok b pc \<Longrightarrow> writer_ok b' (signal_full pc)"
  by (cases pc) auto

lemma reader_ok_signal: "reader_ok b pc \<Longrightarrow> reader_ok b' (signal_empty pc)"
  by (cases pc) auto

lemma write_section_wait:
  "ring_write_section b data n = SecWait b' \<Longrightarrow>
     rb_size b = rb_cap b \<and> rb_rend b = 0 \<and> b' = b\<lparr>rb_times_full := rb_times_full b + 1\<rparr>"
  by (auto simp: ring_write_section_def Let_def split: if_splits)

lemma read_section_wait:
  "ring_read_section b c n = SecWait b' \<Longrightarrow>
     rb_size b = 0 \<and> rb_wend b = 0 \<and> b' = b\<lparr>rb_times_empty := rb_times_empty b + 1\<rparr>"
  by (auto simp: ring_read_section_def Let_def split: if_splits)

lemma rb_field_updates [simp]:
  "rb_ok (b\<lparr>rb_times_full := x\<rparr>) = rb_ok b" "rb_content (b\<lparr>rb_times_full := x\<rparr>) = rb_content b"
  "rb_ok (b\<lparr>rb_times_empty := x\<rparr>) = rb_ok b" "rb_content (b\<lparr>rb_times_empty := x\<rparr>) = rb_content b"
  "rb_ok (b\<lparr>rb_wend := e\<rparr>) = rb_ok b" "rb_content (b\<lparr>rb_wend := e\<rparr>) = rb_content b"
  "rb_ok (b\<lparr>rb_rend := e\<rparr>) = rb_ok b" "rb_content (b\<lparr>rb_rend := e\<rparr>) = rb_content b"
  by (simp_all add: rb_ok_def rb_content_def)

lemma writer_ok_updates [simp]:
  "writer_ok (b\<lparr>rb_times_full := x\<rparr>) pc = writer_ok b pc"
  "writer_ok (b\<lparr>rb_times_empty := x\<rparr>) pc = writer_ok b pc"
  "writer_ok (b\<lparr>rb_wend := e\<rparr>) pc = writer_ok b pc"
  by (cases pc; simp)+

lemma reader_ok_updates [simp]:
  "reader_ok (b\<lparr>rb_times_full := x\<rparr>) pc = reader_ok b pc"
  "reader_ok (b\<lparr>rb_times_empty := x\<rparr>) pc = reader_ok b pc"
  "reader_ok (b\<lparr>rb_rend := e\<rparr>) pc = reader_ok b pc"
  by (cases pc; simp)+

lemma ring_inv_step:
  assumes "ring_step s ev s'" and "ring_inv s"
  shows "ring_inv s'"
  using assms
proof (induction rule: ring_step.induct)
  case (w_wait s data n b)
  from write_section_wait [OF w_wait(3)] w_wait show ?case by (auto simp: ring_inv_def)
next
  case (w_copy s data n b n')
  then have ok: "rb_ok (rs_buf s)" by (simp add: ring_inv_def)
  note c = write_section_copy [OF ok w_copy(2,3)]
  from w_copy(4) have "reader_ok b (signal_empty (rs_reader s))"
    by (auto simp: ring_inv_def intro: reader_ok_signal)
  with c w_copy(4) show ?case by (simp add: ring_inv_def)
next
  case (r_wait s count dest b)
  from read_section_wait [OF r_wait(3)] r_wait show ?case by (auto simp: ring_inv_def)
next
  case (r_copy s count dest b bs)
  then have ok: "rb_ok (rs_buf s)" by (simp add: ring_inv_def)
  note c = read_section_copy [OF ok r_copy(2,3)]
  from r_copy(4) have "writer_ok b (signal_full (rs_writer s))"
    by (auto simp: ring_inv_def intro: writer_ok_signal)
  with c r_copy(4) show ?case by (simp add: ring_inv_def)
next
  case (w_close s e)
  then show ?case by (auto simp: ring_inv_def iso_ring_buffer_writer_close_def intro: reader_ok_signal)
next
  case (r_close s e b sig)
  then show ?case
    by (auto simp: ring_inv_def iso_ring_buffer_reader_close_def intro: writer_ok_signal split: if_splits)
qed (auto simp: ring_inv_def)

lemma new_buffer_inv:
  assumes "iso_ring_buffer_new nblocks False True mem = Inr b" and "\<forall>n bs. mem n = Some bs \<longrightarrow> length bs = n"
  shows "rb_ok b" and "rb_size b = 0" and "rb_wend b = 0" and "rb_rend b = 0"
    and "rb_cap b = max nblocks 32 * 2048"
  using assms by (auto simp: iso_ring_buffer_new_def Let_def BLOCK_SIZE_def rb_ok_def max_def
      split: option.splits if_splits)

lemma ring_reachable_inv: "ring_reachable s \<Longrightarrow> ring_inv s"
proof (induction rule: ring_reachable.induct)
  case (start nblocks mem b)
  from new_buffer_inv [OF start] show ?case by (simp add: ring_inv_def rb_content_def)
next
  case (step s ev s')
  then show ?case by (blast intro: ring_inv_step)
qed

section \<open>Properties\<close>

text \<open>C15: whatever the interleaving of the two threads, the bytes that the reader has received are
  a prefix of the bytes that the writer has handed over, and what is missing is what the buffer
  holds.\<close>

theorem ring_buffer_fifo:
  assumes "ring_reachable s"
  shows "rs_in s = rs_out s @ rb_content (rs_buf s)"
  using ring_reachable_inv [OF assms] by (simp add: ring_inv_def)

text \<open>C16: the two threads never block each other: if both are in a call, one of them can take a
  step that is not a spurious wakeup; and a thread waits only while the buffer is full (empty) and
  the other side is not closed.\<close>

theorem ring_buffer_no_deadlock:
  assumes reach: "ring_reachable s" and calls: "rs_writer s \<noteq> WIdle" "rs_reader s \<noteq> RIdle"
  shows "(\<exists>ev s'. ring_step s ev s' \<and> ev \<in> {EvCopy, EvWait} \<union> range EvWriteReturn \<union> {EvReadReturn r d |r d. True}) \<and>
     (\<forall>d n. rs_writer s = WWait d n \<longrightarrow> rb_size (rs_buf s) = rb_cap (rs_buf s) \<and> rb_rend (rs_buf s) = 0) \<and>
     (\<forall>c d. rs_reader s = RWait c d \<longrightarrow> rb_size (rs_buf s) = 0 \<and> rb_wend (rs_buf s) = 0)"
proof -
  note inv = ring_reachable_inv [OF reach, unfolded ring_inv_def]
  have writer: "\<exists>ev s'. ring_step s ev s' \<and> ev \<in> {EvCopy, EvWait} \<union> range EvWriteReturn"
    if w: "rs_writer s = WRun d n" for d n
  proof (cases "n < length d")
    case False
    from w_done [OF w this] show ?thesis by blast
  next
    case True
    show ?thesis
    proof (cases "ring_write_section (rs_buf s) d n")
      case (SecReturn r)
      from w_abandoned [OF w True this] show ?thesis by blast
    next
      case (SecWait b)
      from w_wait [OF w True this] show ?thesis by blast
    next
      case (SecCopy b n')
      from w_copy [OF w True this] show ?thesis by blast
    qed
  qed
  have reader: "\<exists>ev s'. ring_step s ev s' \<and> ev \<in> {EvCopy, EvWait} \<union> {EvReadReturn r d |r d. True}"
    if r: "rs_reader s = RRun c d" for c d
  proof (cases "length d < c")
    case False
    from r_done [OF r this] show ?thesis by blast
  next
    case True
    show ?thesis
    proof (cases "ring_read_section (rs_buf s) c (length d)")
      case (SecReturn q)
      from r_eof [OF r True this] show ?thesis by blast
    next
      case (SecWait b)
      from r_wait [OF r True this] show ?thesis by blast
    next
      case (SecCopy b bs)
      from r_copy [OF r True this] show ?thesis by blast
    qed
  qed
  have "\<not> ((\<exists>d n. rs_writer s = WWait d n) \<and> (\<exists>c d. rs_reader s = RWait c d))"
    using inv ring.not_full_and_empty [of "rs_buf s"] by (auto simp: rb_room_def)
  with calls consider d n where "rs_writer s = WRun d n" | c d where "rs_reader s = RRun c d"
    by (cases "rs_writer s"; cases "rs_reader s") auto
  then have "\<exists>ev s'. ring_step s ev s' \<and> ev \<in> {EvCopy, EvWait} \<union> range EvWriteReturn \<union> {EvReadReturn r d |r d. True}"
    by cases (use writer reader in blast)+
  with inv show ?thesis by auto
qed

text \<open>C17: a read call that returns 1 has filled its destination with the requested number of bytes,
  and one that returns 0 saw the end of the input: the writer has closed the buffer and every byte
  it wrote has come out.\<close>

theorem ring_buffer_read_return:
  assumes "ring_reachable s" and "ring_step s (EvReadReturn (Inr r) dest) s'"
  shows "(r = 1 \<and> (\<exists>count. rs_reader s = RRun count dest \<and> length dest = count)) \<or>
     (r = 0 \<and> rb_wend (rs_buf s) \<noteq> 0 \<and> rs_in s = rs_out s)"
proof -
  note inv = ring_reachable_inv [OF assms(1), unfolded ring_inv_def]
  have eof: "r = 0 \<and> rb_size (rs_buf s) = 0 \<and> rb_wend (rs_buf s) \<noteq> 0"
    if "ring_read_section (rs_buf s) count n = SecReturn r" for count n
    using that by (auto simp: ring_read_section_def Let_def split: if_splits)
  from assms(2) have "(r = 1 \<and> (\<exists>count. rs_reader s = RRun count dest \<and> \<not> length dest < count)) \<or>
      (r = 0 \<and> rb_size (rs_buf s) = 0 \<and> rb_wend (rs_buf s) \<noteq> 0)"
    by (auto elim!: read_returnE dest: eof)
  with inv show ?thesis by fastforce
qed

text \<open>Witnesses: a buffer of the smallest size, a writer that hands over three bytes, and a reader that
  asks for two of them before they are there.\<close>

definition sample_ring :: ring_buffer where
  "sample_ring = \<lparr>rb_buf = replicate 65536 0, rb_cap = 65536, rb_size = 0, rb_rpos = 0, rb_wpos = 0,
     rb_rend = 0, rb_wend = 0, rb_times_full = 0, rb_times_empty = 0\<rparr>"

definition sample_start :: ring_system where
  "sample_start = \<lparr>rs_buf = sample_ring, rs_writer = WIdle, rs_reader = RIdle, rs_in = [], rs_out = []\<rparr>"

definition sample_waiting :: ring_system where
  "sample_waiting = sample_start\<lparr>rs_buf := sample_ring\<lparr>rb_times_empty := 1\<rparr>,
     rs_reader := RWait 2 [], rs_writer := WRun [1, 2, 3] 0\<rparr>"

definition sample_filled :: ring_system where
  "sample_filled = sample_waiting\<lparr>rs_buf := sample_ring\<lparr>rb_times_empty := 1, rb_wpos := 3, rb_size := 3,
       rb_buf := buf_put (replicate 65536 0) 0 [1, 2, 3]\<rparr>,
     rs_reader := RRun 2 [], rs_writer := WRun [1, 2, 3] 3, rs_in := [1, 2, 3]\<rparr>"

definition sample_read :: ring_system where
  "sample_read = sample_filled\<lparr>rs_buf := rs_buf sample_filled\<lparr>rb_rpos := 2, rb_size := 1\<rparr>,
     rs_reader := RRun 2 [1, 2], rs_out := [1, 2]\<rparr>"

lemmas sample_defs = sample_ring_def sample_start_def sample_waiting_def sample_filled_def sample_read_def

lemma sample_reachable:
  shows "ring_reachable sample_waiting" and "ring_reachable sample_read"
proof -
  have "ring_reachable sample_start"
    unfolding sample_start_def
  proof (rule ring_reachable.start)
    show "iso_ring_buffer_new 1 False True (\<lambda>n. Some (replicate n 0)) = Inr sample_ring"
      by (simp add: iso_ring_buffer_new_def sample_ring_def BLOCK_SIZE_def)
  qed simp
  moreover define s1 where "s1 = sample_start\<lparr>rs_reader := RRun 2 []\<rparr>"
  have "ring_step sample_start (EvRead 2) s1"
    unfolding s1_def by (rule r_call) (simp add: sample_defs)
  moreover define s2 where "s2 = s1\<lparr>rs_buf := sample_ring\<lparr>rb_times_empty := 1\<rparr>, rs_reader := RWait 2 []\<rparr>"
  have "ring_step s1 EvWait s2"
    unfolding s2_def by (rule r_wait) (simp_all add: s1_def ring_read_section_def sample_defs)
  moreover have "ring_step s2 (EvWrite [1, 2, 3]) (s2\<lparr>rs_writer := WRun [1, 2, 3] 0\<rparr>)"
    by (rule w_call) (simp add: s2_def s1_def sample_defs)
  moreover have "s2\<lparr>rs_writer := WRun [1, 2, 3] 0\<rparr> = sample_waiting"
    by (simp add: s2_def s1_def sample_defs)
  ultimately show waiting: "ring_reachable sample_waiting" by (metis ring_reachable.step)
  let ?b = "sample_ring\<lparr>rb_times_empty := 1, rb_wpos := 3, rb_size := 3,
       rb_buf := buf_put (replicate 65536 0) 0 [1, 2, 3]\<rparr>"
  have sec: "ring_write_section (rs_buf sample_waiting) [1, 2, 3] 0 = SecCopy ?b 3"
    by (simp add: ring_write_section_def sample_defs)
  have "ring_step sample_waiting EvCopy sample_filled"
    using w_copy [OF _ _ sec] by (simp add: sample_defs)
  with waiting have filled: "ring_reachable sample_filled" by (rule ring_reachable.step)
  have sec: "ring_read_section (rs_buf sample_filled) 2 (length ([]::byte list)) =
      SecCopy (rs_buf sample_filled\<lparr>rb_rpos := 2, rb_size := 1\<rparr>) [1, 2]"
    by (simp add: ring_read_section_def sample_defs buf_put_def)
  have "ring_step sample_filled EvCopy sample_read"
    using r_copy [OF _ _ sec] by (simp add: sample_defs)
  with filled show "ring_reachable sample_read" by (rule ring_reachable.step)
qed

theorem ring_buffer_fifo_witness:
  "rs_in sample_read = [1, 2] @ rb_content (rs_buf sample_read)"
  using ring_buffer_fifo [OF sample_reachable(2)] by (simp add: sample_read_def)

theorem ring_buffer_no_deadlock_witness:
  "\<exists>ev s'. ring_step sample_waiting ev s' \<and> ev \<noteq> EvSpurious"
proof -
  have "rs_writer sample_waiting \<noteq> WIdle" and "rs_reader sample_waiting \<noteq> RIdle"
    by (simp_all add: sample_defs)
  from ring_buffer_no_deadlock [OF sample_reachable(1) this] show ?thesis by blast
qed

theorem ring_buffer_read_return_witness:
  "\<exists>s'. ring_step sample_read (EvReadReturn (Inr 1) [1, 2]) s' \<and> rs_reader sample_read = RRun 2 [1, 2]"
proof -
  have r: "rs_reader sample_read = RRun 2 [1, 2]" by (simp add: sample_defs)
  have "\<not> length [1, 2 :: byte] < 2" by simp
  from r_done [OF r this] obtain s' where s': "ring_step sample_read (EvReadReturn (Inr 1) [1, 2]) s'" by blast
  from ring_buffer_read_return [OF sample_reachable(2) s'] r s' show ?thesis by auto
qed

end
