(* ===== verification/DateTime.thy ===== *)
theory DateTime
  imports Prelude "HOL-Library.Signed_Division"
begin

text \<open>
  The time stamps of ISO 9660 (\<open>libisofs/util.c\<close>: \<open>iso_datetime_7\<close>, \<open>iso_datetime_17\<close>,
  \<open>iso_datetime_read_7\<close>, \<open>iso_datetime_read_17\<close>, and the replacement of \<open>timegm\<close> that is compiled
  without \<open>HAVE_TIMEGM\<close>). A \<open>time_t\<close> and the members of \<open>struct tm\<close> are integers; \<open>gmtime\<close>
  is the Gregorian calendar of the C library, \<open>localtime\<close> and the detour over \<open>mktime\<close>
  (\<open>env_timegm\<close>) are parameters. The writers are modelled as compiled with \<open>HAVE_TM_GMTOFF\<close>.
\<close>

section \<open>Calendar\<close>

record tm =
  tm_sec :: int
  tm_min :: int
  tm_hour :: int
  tm_mday :: int
  tm_mon :: int
  tm_year :: int
  tm_gmtoff :: int

definition ts_is_leapyear :: "int \<Rightarrow> bool" where
  "ts_is_leapyear y \<longleftrightarrow> y smod 4 = 0 \<and> (y smod 100 \<noteq> 0 \<or> y smod 400 = 100)"

definition month_length :: "int \<Rightarrow> int list" where
  "month_length y =
     (if ts_is_leapyear y then [31, 29, 31, 30, 31, 30, 31, 31, 30, 31, 30, 31]
      else [31, 28, 31, 30, 31, 30, 31, 31, 30, 31, 30, 31])"

text \<open>The loop over the years since 1970.\<close>

primrec year_seconds :: "nat \<Rightarrow> int" where
  "year_seconds 0 = 0"
| "year_seconds (Suc i) =
     year_seconds i + 365 * 86400 + (if ts_is_leapyear (70 + int i) then 86400 else 0)"

text \<open>\<open>None\<close>: the loop over the months reads past the end of the table.\<close>

definition ts_timegm :: "tm \<Rightarrow> int option" where
  "ts_timegm t =
     (let years = tm_year t - 70
      in if years < 0 then Some 0
         else if tm_mon t > 12 then None
         else Some (year_seconds (nat years) +
                sum_list (map (\<lambda>l. l * 86400) (take (nat (tm_mon t)) (month_length (tm_year t)))) +
                (tm_mday t - 1) * 86400 + tm_hour t * 3600 + tm_min t * 60 + tm_sec t))"

text \<open>\<open>gmtime\<close> of the library: the year and the day in it, then the month and the day in it.\<close>

definition year_days :: "int \<Rightarrow> int" where
  "year_days y = (if ts_is_leapyear y then 366 else 365)"

lemma year_days_bounds: "365 \<le> year_days y \<and> year_days y \<le> 366"
  by (simp add: year_days_def)

function year_of_day :: "int \<Rightarrow> int \<Rightarrow> int \<times> int" where
  "year_of_day d y =
     (if d < 0 then year_of_day (d + year_days (y - 1)) (y - 1)
      else if year_days y \<le> d then year_of_day (d - year_days y) (y + 1)
      else (y, d))"
  by pat_completeness auto
termination
proof (relation "measure (\<lambda>(d, y). nat (if d < 0 then 400 - d else d))")
  fix d y :: int
  show "d < 0 \<Longrightarrow> ((d + year_days (y - 1), y - 1), d, y) \<in> measure (\<lambda>(d, y). nat (if d < 0 then 400 - d else d))"
    using year_days_bounds [of "y - 1"] by auto
  show "\<not> d < 0 \<Longrightarrow> year_days y \<le> d \<Longrightarrow>
      ((d - year_days y, y + 1), d, y) \<in> measure (\<lambda>(d, y). nat (if d < 0 then 400 - d else d))"
    using year_days_bounds [of y] by auto
qed simp

declare year_of_day.simps [simp del]

fun month_of_day :: "int list \<Rightarrow> int \<Rightarrow> nat \<times> int" where
  "month_of_day [] d = (0, d)"
| "month_of_day (l # ls) d =
     (if d < l then (0, d) else case month_of_day ls (d - l) of (m, r) \<Rightarrow> (m + 1, r))"

definition gmtime :: "int \<Rightarrow> tm" where
  "gmtime t =
     (let s = t mod 86400
      in case year_of_day (t div 86400) 70 of (y, d) \<Rightarrow>
         case month_of_day (month_length y) d of (m, r) \<Rightarrow>
           \<lparr>tm_sec = s mod 60, tm_min = s div 60 mod 60, tm_hour = s div 3600, tm_mday = r + 1,
            tm_mon = int m, tm_year = y, tm_gmtoff = 0\<rparr>)"

text \<open>The replacement of \<open>timegm\<close>; \<open>env_timegm\<close> is only called when \<open>gmtime\<close> disagrees.\<close>

definition timegm :: "(tm \<Rightarrow> int) \<Rightarrow> tm \<Rightarrow> int option" where
  "timegm env_timegm t =
     (case ts_timegm t of
        None \<Rightarrow> None
      | Some raw_t \<Rightarrow>
          if raw_t = 0 then Some raw_t
          else let test_tm = gmtime raw_t
               in if tm_sec t = tm_sec test_tm \<and> tm_min t = tm_min test_tm \<and> tm_hour t = tm_hour test_tm \<and>
                     tm_mday t = tm_mday test_tm \<and> tm_mon t = tm_mon test_tm \<and> tm_year t = tm_year test_tm
                  then Some raw_t else Some (env_timegm t))"

section \<open>Writing\<close>

text \<open>The time zone offset in units of 15 minutes, and the broken down time it goes with.\<close>

definition tm_and_offset :: "(int \<Rightarrow> tm) \<Rightarrow> int \<Rightarrow> bool \<Rightarrow> tm \<times> int" where
  "tm_and_offset localtime t always_gmt =
     (let tzoffset = tm_gmtoff (localtime t) sdiv 60 sdiv 15
      in if tzoffset > 52 \<or> tzoffset < -48 \<or> always_gmt then (gmtime t, 0) else (localtime t, tzoffset))"

definition iso_datetime_7 :: "(int \<Rightarrow> tm) \<Rightarrow> int \<Rightarrow> bool \<Rightarrow> byte list" where
  "iso_datetime_7 localtime t always_gmt =
     (case tm_and_offset localtime t always_gmt of (tm0, tzoffset) \<Rightarrow>
        let u = (if tm_year tm0 < 0
                 then tm0\<lparr>tm_year := 0, tm_mon := 0, tm_mday := 1, tm_hour := 0, tm_min := 0, tm_sec := 0\<rparr>
                 else if tm_year tm0 > 255
                 then tm0\<lparr>tm_year := 255, tm_mon := 11, tm_mday := 31, tm_hour := 23, tm_min := 59, tm_sec := 59\<rparr>
                 else tm0)
        in map word_of_int [tm_year u, tm_mon u + 1, tm_mday u, tm_hour u, tm_min u, tm_sec u, tzoffset])"

text \<open>\<open>sprintf\<close> with \<open>%0<width>d\<close> and its terminating NUL, into the buffer at \<open>p\<close>.\<close>

definition sprintf_at :: "nat \<Rightarrow> nat \<Rightarrow> int \<Rightarrow> byte list \<Rightarrow> byte list" where
  "sprintf_at p width n buf = buf_put buf p (bytes_of (zero_pad width (nat n)) @ [0])"

definition iso_datetime_17 :: "(int \<Rightarrow> tm) \<Rightarrow> byte list \<Rightarrow> int \<Rightarrow> bool \<Rightarrow> byte list" where
  "iso_datetime_17 localtime buf t always_gmt =
     (if t = -1 then (buf_put buf 0 (replicate 16 (char_byte CHR ''0'')))[16 := 0]
      else case tm_and_offset localtime t always_gmt of (u, tzoffset) \<Rightarrow>
        let buf1 = (if tm_year u \<le> -1900 then buf_put buf 0 (bytes_of ''00010101000000'' @ [0])
                    else if tm_year u \<ge> 8100 then buf_put buf 0 (bytes_of ''99991231235959'' @ [0])
                    else sprintf_at 12 2 (min 59 (tm_sec u)) (sprintf_at 10 2 (tm_min u)
                           (sprintf_at 8 2 (tm_hour u) (sprintf_at 6 2 (tm_mday u)
                             (sprintf_at 4 2 (tm_mon u + 1) (sprintf_at 0 4 (tm_year u + 1900) buf))))))
        in (buf_put buf1 14 (bytes_of ''00''))[16 := word_of_int tzoffset])"

section \<open>Reading\<close>

definition iso_datetime_read_7 :: "(tm \<Rightarrow> int) \<Rightarrow> byte list \<Rightarrow> int option" where
  "iso_datetime_read_7 env_timegm buf =
     map_option (\<lambda>t. t - sint (buf ! 6) * 60 * 15)
       (timegm env_timegm \<lparr>tm_sec = uint (buf ! 5), tm_min = uint (buf ! 4), tm_hour = uint (buf ! 3),
          tm_mday = uint (buf ! 2), tm_mon = uint (buf ! 1) - 1, tm_year = uint (buf ! 0), tm_gmtoff = 0\<rparr>)"

text \<open>\<open>sscanf\<close> with \<open>%<width>d\<close>: white space, then at most \<open>width\<close> characters of an optional sign and
  digits; \<open>None\<close> if there is no digit, when the variable stays undefined.\<close>

definition isspace :: "byte \<Rightarrow> bool" where
  "isspace b \<longleftrightarrow> b = 32 \<or> (9 \<le> b \<and> b \<le> 13)"

definition isdigit :: "byte \<Rightarrow> bool" where
  "isdigit b \<longleftrightarrow> 48 \<le> b \<and> b \<le> 57"

definition scan_digits :: "byte list \<Rightarrow> int option" where
  "scan_digits bs =
     (let ds = takeWhile isdigit bs
      in if ds = [] then None else Some (foldl (\<lambda>v b. 10 * v + (uint b - 48)) 0 ds))"

definition scan_int :: "nat \<Rightarrow> byte list \<Rightarrow> int option" where
  "scan_int width bs =
     (case take width (dropWhile isspace bs) of
        [] \<Rightarrow> None
      | b # rest \<Rightarrow>
          if b = 45 then map_option uminus (scan_digits rest)
          else if b = 43 then scan_digits rest
          else scan_digits (b # rest))"

definition iso_datetime_read_17 :: "(tm \<Rightarrow> int) \<Rightarrow> byte list \<Rightarrow> int option" where
  "iso_datetime_read_17 env_timegm buf =
     (case (scan_int 4 buf, scan_int 2 (drop 4 buf), scan_int 2 (drop 6 buf), scan_int 2 (drop 8 buf),
            scan_int 2 (drop 10 buf), scan_int 2 (drop 12 buf)) of
        (Some y, Some mon, Some d, Some h, Some mi, Some s) \<Rightarrow>
          map_option (\<lambda>t. t - sint (buf ! 16) * 60 * 15)
            (timegm env_timegm \<lparr>tm_sec = s, tm_min = mi, tm_hour = h, tm_mday = d, tm_mon = mon - 1,
               tm_year = y - 1900, tm_gmtoff = 0\<rparr>)
      | _ \<Rightarrow> None)"

section \<open>The calendar is consistent\<close>

lemma sum_month_length: "sum_list (month_length y) = year_days y"
  by (simp add: month_length_def year_days_def)

lemma length_month_length [simp]: "length (month_length y) = 12"
  by (simp add: month_length_def)

lemma month_of_day_sum:
  "month_of_day ls d = (m, r) \<Longrightarrow> 0 \<le> d \<Longrightarrow> d < sum_list ls \<Longrightarrow>
     sum_list (take m ls) + r = d \<and> m < length ls \<and> 0 \<le> r \<and> r < ls ! m"
proof (induction ls arbitrary: d m)
  case (Cons l ls)
  show ?case
  proof (cases "d < l")
    case True
    with Cons.prems show ?thesis by simp
  next
    case False
    then obtain m' where m': "month_of_day ls (d - l) = (m', r)" "m = m' + 1"
      using Cons.prems(1) by (auto split: prod.splits)
    with Cons.IH [OF m'(1)] Cons.prems(2,3) False show ?thesis by simp
  qed
qed simp

lemma year_of_day_seconds:
  "year_of_day d y = (y', d') \<Longrightarrow> 0 \<le> d \<Longrightarrow> 70 \<le> y \<Longrightarrow>
     0 \<le> d' \<and> d' < year_days y' \<and> y \<le> y' \<and>
     year_seconds (nat (y' - 70)) + d' * 86400 = year_seconds (nat (y - 70)) + d * 86400"
proof (induction d y rule: year_of_day.induct)
  case (1 d y)
  show ?case
  proof (cases "year_days y \<le> d")
    case False
    with 1(3-5) show ?thesis by (subst (asm) year_of_day.simps) auto
  next
    case True
    have e: "nat (y + 1 - 70) = Suc (nat (y - 70))" using 1(5) by simp
    have "year_seconds (nat (y + 1 - 70)) = year_seconds (nat (y - 70)) + year_days y * 86400"
      unfolding e using 1(5) by (simp add: year_days_def)
    moreover have "year_of_day (d - year_days y) (y + 1) = (y', d')"
      using 1(3,4) True by (subst (asm) year_of_day.simps) simp
    with 1(2,4,5) True have "0 \<le> d' \<and> d' < year_days y' \<and> y + 1 \<le> y' \<and>
        year_seconds (nat (y' - 70)) + d' * 86400 = year_seconds (nat (y + 1 - 70)) + (d - year_days y) * 86400"
      by simp
    ultimately show ?thesis by (simp add: algebra_simps)
  qed
qed

lemma sum_list_seconds: "sum_list (map (\<lambda>l. l * 86400) ls) = sum_list ls * (86400 :: int)"
  by (induction ls) (simp_all add: algebra_simps)

text \<open>The ranges of the members that \<open>gmtime\<close> fills.\<close>

definition tm_valid :: "tm \<Rightarrow> bool" where
  "tm_valid u \<longleftrightarrow> 0 \<le> tm_sec u \<and> tm_sec u < 60 \<and> 0 \<le> tm_min u \<and> tm_min u < 60 \<and> 0 \<le> tm_hour u \<and> tm_hour u < 24 \<and>
     1 \<le> tm_mday u \<and> tm_mday u \<le> 31 \<and> 0 \<le> tm_mon u \<and> tm_mon u < 12"

lemma month_length_le: "m < 12 \<Longrightarrow> month_length y ! m \<le> 31"
  by (auto simp: month_length_def less_Suc_eq numeral_eq_Suc)

lemma gmtime_props:
  assumes "0 \<le> t"
  shows "tm_valid (gmtime t)" and "70 \<le> tm_year (gmtime t)" and "ts_timegm (gmtime t) = Some t"
    and "tm_gmtoff (gmtime t) = 0"
proof -
  obtain y d where y: "year_of_day (t div 86400) 70 = (y, d)" by (cases "year_of_day (t div 86400) 70")
  obtain m r where m: "month_of_day (month_length y) d = (m, r)" by (cases "month_of_day (month_length y) d")
  have yd: "0 \<le> d" "d < year_days y" "70 \<le> y"
    "year_seconds (nat (y - 70)) + d * 86400 = t div 86400 * 86400"
    using year_of_day_seconds [OF y] assms by simp_all
  have md: "sum_list (take m (month_length y)) + r = d" "m < 12" "0 \<le> r" "r < month_length y ! m"
    using month_of_day_sum [OF m] yd(1,2) by (simp_all add: sum_month_length)
  define s where "s = t mod 86400"
  have s: "0 \<le> s" "s < 86400" by (simp_all add: s_def)
  have g: "gmtime t = \<lparr>tm_sec = s mod 60, tm_min = s div 60 mod 60, tm_hour = s div 3600, tm_mday = r + 1,
      tm_mon = int m, tm_year = y, tm_gmtoff = 0\<rparr>"
    by (simp add: gmtime_def y m s_def Let_def)
  have "s div 3600 < 24" and "0 \<le> s div 3600" using s by simp_all
  moreover have "r \<le> 30" using md(4) month_length_le [OF md(2), of y] by simp
  ultimately show "tm_valid (gmtime t)" using md(2,3) by (simp add: g tm_valid_def)
  show "70 \<le> tm_year (gmtime t)" and "tm_gmtoff (gmtime t) = 0" using yd(3) by (simp_all add: g)
  have "s div 3600 * 3600 + s div 60 mod 60 * 60 + s mod 60 = s"
  proof -
    have "s div 3600 = s div 60 div 60" using zdiv_zmult2_eq [of 60 s 60] by simp
    moreover have "s div 60 div 60 * 60 + s div 60 mod 60 = s div 60" and "s div 60 * 60 + s mod 60 = s"
      by (rule div_mult_mod_eq)+
    ultimately show ?thesis by linarith
  qed
  moreover have "sum_list (take m (month_length y)) * 86400 + r * 86400 = d * 86400"
    unfolding md(1) [symmetric] by (simp add: algebra_simps)
  moreover have "t div 86400 * 86400 + s = t" unfolding s_def by (rule div_mult_mod_eq)
  ultimately have "year_seconds (nat (y - 70)) + sum_list (take m (month_length y)) * 86400 + r * 86400 +
      s div 3600 * 3600 + s div 60 mod 60 * 60 + s mod 60 = t"
    using yd(4) by linarith
  then show "ts_timegm (gmtime t) = Some t"
    using md(2) yd(3) by (simp add: g ts_timegm_def sum_list_seconds)
qed

lemma timegm_gmtime:
  assumes "0 \<le> t"
  shows "timegm env (gmtime t\<lparr>tm_gmtoff := x\<rparr>) = Some t"
proof -
  have "ts_timegm (gmtime t\<lparr>tm_gmtoff := x\<rparr>) = ts_timegm (gmtime t)"
    by (simp add: ts_timegm_def)
  then show ?thesis using gmtime_props(3) [OF assms] by (simp add: timegm_def)
qed

section \<open>Round trips\<close>

text \<open>What the writers need of \<open>localtime\<close>: at \<open>t\<close>, it shows the calendar of a place whose clocks
  are \<open>k\<close> quarters of an hour ahead of GMT, and says so in \<open>tm_gmtoff\<close>.\<close>

definition local_at :: "(int \<Rightarrow> tm) \<Rightarrow> int \<Rightarrow> int \<Rightarrow> bool" where
  "local_at localtime t k \<longleftrightarrow> localtime t = (gmtime (t + 900 * k))\<lparr>tm_gmtoff := 900 * k\<rparr> \<and> -48 \<le> k \<and> k \<le> 52"

lemma sdiv_exact: "0 < b \<Longrightarrow> (b * a) sdiv b = a" for a b :: int
  by (simp add: signed_divide_int_def abs_mult sgn_mult) (simp add: abs_if sgn_if)

lemma tm_and_offset_local:
  assumes "local_at localtime t k"
  obtains k' where "tm_and_offset localtime t always_gmt = ((gmtime (t + 900 * k'))\<lparr>tm_gmtoff := 900 * k'\<rparr>, k')"
    and "-48 \<le> k'" and "k' \<le> 52" and "k' = (if always_gmt then 0 else k)"
proof -
  have "(900 * k) sdiv 60 sdiv 15 = k"
    using sdiv_exact [of 60 "15 * k"] sdiv_exact [of 15 k] by simp
  then have "tm_and_offset localtime t always_gmt =
      (let k' = if always_gmt then 0 else k in ((gmtime (t + 900 * k'))\<lparr>tm_gmtoff := 900 * k'\<rparr>, k'))"
    using assms by (auto simp: local_at_def tm_and_offset_def Let_def gmtime_def split: prod.splits)
  with assms show thesis by (intro that [of "if always_gmt then 0 else k"]) (auto simp: local_at_def)
qed

lemma uint_small: "0 \<le> n \<Longrightarrow> n < 256 \<Longrightarrow> uint (word_of_int n :: byte) = n"
  by (simp add: uint_word_of_int)

lemma sint_small: "-128 \<le> n \<Longrightarrow> n < 128 \<Longrightarrow> sint (word_of_int n :: byte) = n"
  by (simp add: sint_sbintrunc' signed_take_bit_int_eq_self)

section \<open>Decimal fields\<close>

lemma isdigit_uint: "isdigit b \<longleftrightarrow> 48 \<le> uint b \<and> uint b \<le> 57"
  by (simp add: isdigit_def word_le_def)

lemma scan_value:
  "\<forall>c \<in> set s. \<exists>d < 10. c = digit_char d \<Longrightarrow>
     foldl (\<lambda>v b. 10 * v + (uint b - 48)) (int v) (bytes_of s) =
       int (foldl (\<lambda>v c. 10 * v + (of_char c - 48)) v s)"
proof (induction s arbitrary: v)
  case (Cons c s)
  from Cons.prems obtain d where d: "d < 10" "c = digit_char d" by auto
  then have "10 * int v + (uint (char_byte c) - 48) = int (10 * v + (of_char c - 48))"
    by (simp add: uint_digit of_char_digit)
  moreover have "\<forall>c \<in> set s. \<exists>d < 10. c = digit_char d" using Cons.prems by simp
  from Cons.IH [OF this, of "10 * v + (of_char c - 48)"] calculation show ?case
    by (simp only: bytes_of_def list.map foldl_Cons)
qed (simp add: bytes_of_def)

lemma scan_zero_pad:
  assumes "0 < w" and "n < 10 ^ w"
  shows "scan_int w (bytes_of (zero_pad w n) @ rest) = Some (int n)"
proof -
  let ?s = "zero_pad w n"
  have len: "length (bytes_of ?s) = w" using length_zero_pad [OF assms] by (simp add: bytes_of_def)
  have digits: "isdigit b" if "b \<in> set (bytes_of ?s)" for b
    using that set_zero_pad uint_digit by (fastforce simp: bytes_of_def isdigit_uint)
  obtain b bs where b: "bytes_of ?s = b # bs" using len assms(1) by (cases "bytes_of ?s") auto
  then have "isdigit b" using digits by simp
  then have "\<not> isspace b" "b \<noteq> 45" "b \<noteq> 43" by (auto simp: isdigit_def isspace_def word_le_def)
  moreover have "take w (bytes_of ?s @ rest) = b # bs"
  proof -
    have "take (length (bytes_of ?s)) (bytes_of ?s @ rest) = bytes_of ?s" by simp
    then show ?thesis unfolding len unfolding b .
  qed
  moreover have "takeWhile isdigit (b # bs) = b # bs" using digits unfolding b by (simp add: takeWhile_eq_all_conv)
  moreover have "digits_value ?s = n"
    by (simp only: zero_pad_def Let_def digits_value_zeros digits_value_dec)
  then have "foldl (\<lambda>v b. 10 * v + (uint b - 48)) 0 (b # bs) = int n"
    using scan_value [of ?s 0] set_zero_pad unfolding b [symmetric] by (simp add: digits_value_def)
  ultimately show ?thesis
    by (simp add: scan_int_def scan_digits_def b Let_def)
qed

lemma scan_field:
  "0 \<le> n \<Longrightarrow> n < 10 ^ w \<Longrightarrow> 0 < w \<Longrightarrow> scan_int w (bytes_of (zero_pad w (nat n)) @ rest) = Some n"
  using scan_zero_pad [of w "nat n" rest] by (simp add: nat_less_iff)

lemma length_sprintf: "nat n < 10 ^ w \<Longrightarrow> 0 < w \<Longrightarrow> length (bytes_of (zero_pad w (nat n))) = w"
  by (simp add: bytes_of_def length_zero_pad)

text \<open>The date string of 17 bytes: what \<open>sprintf\<close> leaves behind when each call overwrites the NUL
  of the one before.\<close>

lemma two_bytes: "length xs = 2 \<Longrightarrow> \<exists>a b. xs = [a, b]"
  by (auto simp: length_Suc_conv numeral_eq_Suc)

lemma four_bytes: "length xs = 4 \<Longrightarrow> \<exists>a b c d. xs = [a, b, c, d]"
  by (auto simp: length_Suc_conv numeral_eq_Suc)

lemma overlapping_fields:
  assumes "length buf = 17" and "length a = 4" "length b = 2" "length c = 2" "length d = 2" "length e = 2"
    "length f = 2" "length z = 2"
  shows "(buf_put (buf_put (buf_put (buf_put (buf_put (buf_put (buf_put buf 0 (a @ [0])) 4 (b @ [0])) 6 (c @ [0]))
      8 (d @ [0])) 10 (e @ [0])) 12 (f @ [0])) 14 z)[16 := k] = a @ b @ c @ d @ e @ f @ z @ [k :: byte]"
proof -
  from assms(1) obtain x0 x1 x2 x3 x4 x5 x6 x7 x8 x9 x10 x11 x12 x13 x14 x15 x16 where
    "buf = [x0, x1, x2, x3, x4, x5, x6, x7, x8, x9, x10, x11, x12, x13, x14, x15, x16]"
    by (auto simp: length_Suc_conv numeral_eq_Suc)
  with four_bytes [OF assms(2)] assms(3-8) [THEN two_bytes] show ?thesis
    by (elim exE) (simp add: buf_put_def)
qed

lemma datetime_17_fields:
  assumes "length buf = 17" and u: "tm_valid u" "-1900 < tm_year u" "tm_year u < 8100"
    and "tm_and_offset localtime t always_gmt = (u, k)" and "t \<noteq> -1"
  shows "iso_datetime_17 localtime buf t always_gmt =
     bytes_of (zero_pad 4 (nat (tm_year u + 1900))) @ bytes_of (zero_pad 2 (nat (tm_mon u + 1))) @
     bytes_of (zero_pad 2 (nat (tm_mday u))) @ bytes_of (zero_pad 2 (nat (tm_hour u))) @
     bytes_of (zero_pad 2 (nat (tm_min u))) @ bytes_of (zero_pad 2 (nat (tm_sec u))) @
     bytes_of ''00'' @ [word_of_int k]"
proof -
  have l: "length (bytes_of (zero_pad 4 (nat (tm_year u + 1900)))) = 4"
    "length (bytes_of (zero_pad 2 (nat (tm_mon u + 1)))) = 2" "length (bytes_of (zero_pad 2 (nat (tm_mday u)))) = 2"
    "length (bytes_of (zero_pad 2 (nat (tm_hour u)))) = 2" "length (bytes_of (zero_pad 2 (nat (tm_min u)))) = 2"
    "length (bytes_of (zero_pad 2 (nat (tm_sec u)))) = 2"
    using u by (auto simp: tm_valid_def intro!: length_sprintf)
  have z: "length (bytes_of ''00'') = 2" by (simp add: bytes_of_def)
  have m: "min 59 (tm_sec u) = tm_sec u" using u(1) by (simp add: tm_valid_def)
  show ?thesis
    using assms(3-6) overlapping_fields [OF assms(1) l z, of "word_of_int k"]
    by (simp add: iso_datetime_17_def sprintf_at_def m Let_def)
qed

section \<open>Properties\<close>


lemma read_7_written:
  assumes zone: "local_at localtime t k" and t: "0 \<le> t" "0 \<le> t + 900 * k"
    and year: "tm_year (gmtime (t + 900 * (if always_gmt then 0 else k))) \<le> 255"
  shows "iso_datetime_read_7 env_timegm (iso_datetime_7 localtime t always_gmt) = Some t"
proof -
  obtain k' where k': "tm_and_offset localtime t always_gmt = ((gmtime (t + 900 * k'))\<lparr>tm_gmtoff := 900 * k'\<rparr>, k')"
    "-48 \<le> k'" "k' \<le> 52" "k' = (if always_gmt then 0 else k)"
    using tm_and_offset_local [OF zone] .
  have pos: "0 \<le> t + 900 * k'" using t k'(4) by simp
  define u where "u = gmtime (t + 900 * k')"
  have u: "tm_valid u" "70 \<le> tm_year u" "tm_gmtoff u = 0"
    using gmtime_props [OF pos] by (simp_all add: u_def)
  have y: "tm_year u \<le> 255" using year k'(4) by (simp add: u_def)
  have "timegm env_timegm (u\<lparr>tm_gmtoff := 0\<rparr>) = Some (t + 900 * k')"
    unfolding u_def by (rule timegm_gmtime [OF pos])
  moreover have "u\<lparr>tm_gmtoff := 0\<rparr> = \<lparr>tm_sec = tm_sec u, tm_min = tm_min u, tm_hour = tm_hour u, tm_mday = tm_mday u,
      tm_mon = tm_mon u, tm_year = tm_year u, tm_gmtoff = 0\<rparr>" by simp
  moreover have "uint (word_of_int (tm_mon u) + 1 :: byte) = tm_mon u + 1"
    using u(1) uint_small [of "tm_mon u + 1"] by (simp add: tm_valid_def)
  ultimately show ?thesis
    using u(1,2) y k'(2,3)
    by (simp add: iso_datetime_read_7_def iso_datetime_7_def k'(1) flip: u_def)
      (simp add: uint_small sint_small tm_valid_def)
qed



text \<open>Witnesses: 2011-02-26 23:50:00 GMT, in the zone two hours and a half ahead of GMT.\<close>

definition sample_zone :: "int \<Rightarrow> tm" where
  "sample_zone t = (gmtime (t + 9000))\<lparr>tm_gmtoff := 9000\<rparr>"

lemma sample_zone: "local_at sample_zone t 10"
  by (simp add: local_at_def sample_zone_def)

lemma sample_year: "tm_year (gmtime (1298764200 + 9000)) = 111"
  by code_simp




end
