(* ===== verification/Md5.thy ===== *)
theory Md5
  imports Bytes
begin

text \<open>
  The message digest of \<open>libisofs/md5.c\<close>: the block transformation, the incremental context
  (\<open>md5_init\<close>, \<open>md5_update\<close>, \<open>md5_final\<close>) and the public functions \<open>iso_md5_*\<close> over it,
  against a reference digest that pads the whole message and folds the transformation over
  its 64 byte blocks.
\<close>

section \<open>The block transformation\<close>

type_synonym md5_state = "u32 \<times> u32 \<times> u32 \<times> u32"

definition md5_F :: "u32 \<Rightarrow> u32 \<Rightarrow> u32 \<Rightarrow> u32" where
  "md5_F x y z = (x AND y) OR ((NOT x) AND z)"

definition md5_G :: "u32 \<Rightarrow> u32 \<Rightarrow> u32 \<Rightarrow> u32" where
  "md5_G x y z = (x AND z) OR (y AND (NOT z))"

definition md5_H :: "u32 \<Rightarrow> u32 \<Rightarrow> u32 \<Rightarrow> u32" where
  "md5_H x y z = x XOR y XOR z"

definition md5_I :: "u32 \<Rightarrow> u32 \<Rightarrow> u32 \<Rightarrow> u32" where
  "md5_I x y z = y XOR (x OR (NOT z))"

definition md5_rotate_left :: "u32 \<Rightarrow> nat \<Rightarrow> u32" where
  "md5_rotate_left x n = push_bit n x OR drop_bit (32 - n) x"

text \<open>One of the macros \<open>FF\<close>, \<open>GG\<close>, \<open>HH\<close>, \<open>II\<close>, which update their first argument; the next
  line of the code passes the four variables rotated by one place.\<close>

definition md5_op :: "(u32 \<Rightarrow> u32 \<Rightarrow> u32 \<Rightarrow> u32) \<Rightarrow> u32 list \<Rightarrow> md5_state \<Rightarrow> nat \<times> nat \<times> u32 \<Rightarrow> md5_state" where
  "md5_op f x = (\<lambda>(a, b, c, d) (k, s, ac).
     let a1 = a + (f b c d + x ! k + ac); a2 = md5_rotate_left a1 s; a3 = a2 + b
     in (d, a3, b, c))"

text \<open>The lines of the four rounds: index of the input word, rotation, additive constant.\<close>

definition md5_round1 :: "(nat \<times> nat \<times> u32) list" where
  "md5_round1 =
     [(0, 7, 0xd76aa478), (1, 12, 0xe8c7b756), (2, 17, 0x242070db), (3, 22, 0xc1bdceee),
      (4, 7, 0xf57c0faf), (5, 12, 0x4787c62a), (6, 17, 0xa8304613), (7, 22, 0xfd469501),
      (8, 7, 0x698098d8), (9, 12, 0x8b44f7af), (10, 17, 0xffff5bb1), (11, 22, 0x895cd7be),
      (12, 7, 0x6b901122), (13, 12, 0xfd987193), (14, 17, 0xa679438e), (15, 22, 0x49b40821)]"

definition md5_round2 :: "(nat \<times> nat \<times> u32) list" where
  "md5_round2 =
     [(1, 5, 0xf61e2562), (6, 9, 0xc040b340), (11, 14, 0x265e5a51), (0, 20, 0xe9b6c7aa),
      (5, 5, 0xd62f105d), (10, 9, 0x2441453), (15, 14, 0xd8a1e681), (4, 20, 0xe7d3fbc8),
      (9, 5, 0x21e1cde6), (14, 9, 0xc33707d6), (3, 14, 0xf4d50d87), (8, 20, 0x455a14ed),
      (13, 5, 0xa9e3e905), (2, 9, 0xfcefa3f8), (7, 14, 0x676f02d9), (12, 20, 0x8d2a4c8a)]"

definition md5_round3 :: "(nat \<times> nat \<times> u32) list" where
  "md5_round3 =
     [(5, 4, 0xfffa3942), (8, 11, 0x8771f681), (11, 16, 0x6d9d6122), (14, 23, 0xfde5380c),
      (1, 4, 0xa4beea44), (4, 11, 0x4bdecfa9), (7, 16, 0xf6bb4b60), (10, 23, 0xbebfbc70),
      (13, 4, 0x289b7ec6), (0, 11, 0xeaa127fa), (3, 16, 0xd4ef3085), (6, 23, 0x4881d05),
      (9, 4, 0xd9d4d039), (12, 11, 0xe6db99e5), (15, 16, 0x1fa27cf8), (2, 23, 0xc4ac5665)]"

definition md5_round4 :: "(nat \<times> nat \<times> u32) list" where
  "md5_round4 =
     [(0, 6, 0xf4292244), (7, 10, 0x432aff97), (14, 15, 0xab9423a7), (5, 21, 0xfc93a039),
      (12, 6, 0x655b59c3), (3, 10, 0x8f0ccc92), (10, 15, 0xffeff47d), (1, 21, 0x85845dd1),
      (8, 6, 0x6fa87e4f), (15, 10, 0xfe2ce6e0), (6, 15, 0xa3014314), (13, 21, 0x4e0811a1),
      (4, 6, 0xf7537e82), (11, 10, 0xbd3af235), (2, 15, 0x2ad7d2bb), (9, 21, 0xeb86d391)]"

definition md5_words :: "byte list \<Rightarrow> u32 list" where
  "md5_words block = map (\<lambda>i. let j = 4 * i in
     ucast (block ! j) OR push_bit 8 (ucast (block ! (j + 1))) OR
     push_bit 16 (ucast (block ! (j + 2))) OR push_bit 24 (ucast (block ! (j + 3)))) [0..<16]"

definition md5_transform :: "md5_state \<Rightarrow> byte list \<Rightarrow> md5_state" where
  "md5_transform st block =
     (let x = md5_words block;
          r1 = foldl (md5_op md5_F x) st md5_round1;
          r2 = foldl (md5_op md5_G x) r1 md5_round2;
          r3 = foldl (md5_op md5_H x) r2 md5_round3;
          (a, b, c, d) = foldl (md5_op md5_I x) r3 md5_round4;
          (s0, s1, s2, s3) = st
      in (s0 + a, s1 + b, s2 + c, s3 + d))"

section \<open>The incremental context\<close>

record md5_ctx =
  md_state :: md5_state
  md_count0 :: u32
  md_count1 :: u32
  md_buffer :: "byte list"

definition md5_encode :: "u32 list \<Rightarrow> byte list" where
  "md5_encode ws = concat (map (\<lambda>w. [ucast (w AND 0xff), ucast (drop_bit 8 w AND 0xff),
     ucast (drop_bit 16 w AND 0xff), ucast (drop_bit 24 w AND 0xff)]) ws)"

definition md5_iv :: md5_state where
  "md5_iv = (0x67452301, 0xefcdab89, 0x98badcfe, 0x10325476)"

definition md5_init :: "md5_ctx \<Rightarrow> md5_ctx" where
  "md5_init ctx = ctx\<lparr>md_count0 := 0, md_count1 := 0, md_state := md5_iv\<rparr>"

text \<open>The loop over the whole blocks of \<open>data\<close> from index \<open>i\<close> on.\<close>

function md5_blocks :: "md5_state \<Rightarrow> byte list \<Rightarrow> nat \<Rightarrow> md5_state \<times> nat" where
  "md5_blocks st data i =
     (if i + 63 < length data
      then md5_blocks (md5_transform st (take 64 (drop i data))) data (i + 64)
      else (st, i))"
  by pat_completeness auto
termination
  by (relation "measure (\<lambda>(st, data, i). length data - i)") auto

declare md5_blocks.simps [simp del]

definition md5_update :: "md5_ctx \<Rightarrow> byte list \<Rightarrow> md5_ctx" where
  "md5_update ctx data =
     (let index = unat (drop_bit 3 (md_count0 ctx) AND 0x3F);
          datalen = (word_of_nat (length data) :: u32);
          count0 = md_count0 ctx + push_bit 3 datalen;
          carried = (if count0 < push_bit 3 datalen then md_count1 ctx + 1 else md_count1 ctx);
          count1 = carried + drop_bit 29 datalen;
          partlen = 64 - index;
          (st, buf, idx, i) =
            (if partlen \<le> length data
             then let buf = buf_put (md_buffer ctx) index (take partlen data);
                      (st, i) = md5_blocks (md5_transform (md_state ctx) buf) data partlen
                  in (st, buf, 0, i)
             else (md_state ctx, md_buffer ctx, index, 0))
      in ctx\<lparr>md_state := st, md_count0 := count0, md_count1 := count1,
             md_buffer := buf_put buf idx (drop i data)\<rparr>)"

definition md5_padding :: "byte list" where
  "md5_padding = 0x80 # replicate 63 0"

definition md5_final :: "md5_ctx \<Rightarrow> md5_ctx \<times> byte list" where
  "md5_final ctx =
     (let bits = md5_encode [md_count0 ctx, md_count1 ctx];
          index = unat (drop_bit 3 (md_count0 ctx) AND 0x3f);
          padlen = (if index < 56 then 56 - index else 120 - index);
          ctx1 = md5_update ctx (take padlen md5_padding);
          ctx2 = md5_update ctx1 bits;
          (s0, s1, s2, s3) = md_state ctx2
      in (\<lparr>md_state = (0, 0, 0, 0), md_count0 = 0, md_count1 = 0, md_buffer = replicate 64 0\<rparr>,
          md5_encode [s0, s1, s2, s3]))"

section \<open>The reference digest\<close>

function md5_chain :: "md5_state \<Rightarrow> byte list \<Rightarrow> md5_state" where
  "md5_chain st m =
     (if length m < 64 then st else md5_chain (md5_transform st (take 64 m)) (drop 64 m))"
  by pat_completeness auto
termination
  by (relation "measure (\<lambda>(st, m). length m)") auto

declare md5_chain.simps [simp del]

definition md5_pad :: "byte list \<Rightarrow> byte list" where
  "md5_pad m = m @ 0x80 # replicate ((119 - length m mod 64) mod 64) 0 @
     le_bytes (word_of_nat (8 * length m) :: u64) 8"

definition md5_digest :: "byte list \<Rightarrow> byte list" where
  "md5_digest m =
     (let (s0, s1, s2, s3) = md5_chain md5_iv (md5_pad m)
      in le_bytes s0 4 @ le_bytes s1 4 @ le_bytes s2 4 @ le_bytes s3 4)"

section \<open>Chaining over blocks\<close>

lemma md5_chain_short: "length m < 64 \<Longrightarrow> md5_chain st m = st"
  by (simp add: md5_chain.simps)

lemma md5_chain_block:
  "length b = 64 \<Longrightarrow> md5_chain st (b @ m) = md5_chain (md5_transform st b) m"
  by (subst md5_chain.simps) simp

text \<open>The bytes that a chain leaves over.\<close>

definition md5_rest :: "byte list \<Rightarrow> byte list" where
  "md5_rest m = drop (64 * (length m div 64)) m"

lemma length_md5_rest [simp]: "length (md5_rest m) = length m mod 64"
  by (simp add: md5_rest_def minus_mult_div_eq_mod)

lemma md5_rest_block:
  "length b = 64 \<Longrightarrow> md5_rest (b @ m) = md5_rest m"
  by (simp add: md5_rest_def div_add_self1)

lemma md5_chain_append:
  "md5_chain st (m @ n) = md5_chain (md5_chain st m) (md5_rest m @ n)"
proof (induction st m rule: md5_chain.induct)
  case (1 st m)
  show ?case
  proof (cases "length m < 64")
    case True
    then show ?thesis by (simp add: md5_chain_short md5_rest_def)
  next
    case False
    define b r where "b = take 64 m" and "r = drop 64 m"
    have m: "m = b @ r" and b: "length b = 64" using False by (simp_all add: b_def r_def)
    have "md5_chain (md5_transform st b) (r @ n) =
        md5_chain (md5_chain (md5_transform st b) r) (md5_rest r @ n)"
      using 1 [OF False] by (simp add: b_def r_def)
    then show ?thesis by (simp add: m md5_chain_block b md5_rest_block)
  qed
qed

lemma md5_rest_append: "md5_rest (m @ n) = md5_rest (md5_rest m @ n)"
proof (induction m rule: length_induct)
  case (1 m)
  show ?case
  proof (cases "length m < 64")
    case True
    then show ?thesis by (simp add: md5_rest_def)
  next
    case False
    define b r where "b = take 64 m" and "r = drop 64 m"
    have m: "m = b @ r" and b: "length b = 64" using False by (simp_all add: b_def r_def)
    have "length r < length m" using m b by simp
    with 1 have "md5_rest (r @ n) = md5_rest (md5_rest r @ n)" by blast
    then show ?thesis unfolding m append_assoc md5_rest_block [OF b] .
  qed
qed

lemma md5_blocks_chain:
  "i \<le> length data \<Longrightarrow>
     md5_blocks st data i =
       (md5_chain st (drop i data), length data - (length data - i) mod 64)"
proof (induction st data i rule: md5_blocks.induct)
  case (1 st data i)
  show ?case
  proof (cases "i + 63 < length data")
    case True
    have chain: "md5_chain st (drop i data) =
        md5_chain (md5_transform st (take 64 (drop i data))) (drop (i + 64) data)"
    proof -
      have "drop i data = take 64 (drop i data) @ drop (i + 64) data"
        using append_take_drop_id [of 64 "drop i data"] by (simp add: add.commute)
      moreover have "length (take 64 (drop i data)) = 64" using True by simp
      ultimately show ?thesis by (metis md5_chain_block)
    qed
    have "(length data - (i + 64)) mod 64 = (length data - i) mod 64"
      using True by (simp add: mod_if [of "length data - i"])
    then show ?thesis
      using "1.IH" True by (subst md5_blocks.simps) (simp add: chain)
  next
    case False
    then show ?thesis
      using "1.prems" by (subst md5_blocks.simps) (simp add: md5_chain_short)
  qed
qed

section \<open>What a context stands for\<close>

text \<open>\<open>md5_holds c m\<close>: the context \<open>c\<close> has consumed the message \<open>m\<close>. Its state is the chain over
  the whole blocks of \<open>m\<close>, its buffer starts with the bytes left over, and its two counters are
  the low and the high half of the number of bits modulo \<open>2 ^ 64\<close>.\<close>

definition md5_holds :: "md5_ctx \<Rightarrow> byte list \<Rightarrow> bool" where
  "md5_holds c m \<longleftrightarrow>
     md_state c = md5_chain md5_iv m \<and>
     length (md_buffer c) = 64 \<and> take (length m mod 64) (md_buffer c) = md5_rest m \<and>
     unat (md_count0 c) = 8 * length m mod 2 ^ 32 \<and>
     unat (md_count1 c) = 8 * length m div 2 ^ 32 mod 2 ^ 32"

lemma md5_index:
  assumes "unat c = 8 * n mod 2 ^ 32"
  shows "unat (drop_bit 3 (c :: u32) AND 0x3F) = n mod 64"
proof -
  have "drop_bit 3 c AND 0x3F = take_bit 6 (drop_bit 3 c)"
    by (simp add: take_bit_eq_mask mask_eq_exp_minus_1)
  moreover have "unat (take_bit 6 (drop_bit 3 c)) = unat c div 8 mod 64"
    unfolding unsigned_take_bit_eq unat_drop_bit_eq by (simp add: take_bit_eq_mod drop_bit_eq_div)
  ultimately have "unat (drop_bit 3 c AND 0x3F) = unat c div 8 mod 64" by (simp only:)
  also have "8 * n mod 2 ^ 32 = 8 * (n mod 2 ^ 29)"
    using mult_mod_right [of 8 n "2 ^ 29"] by simp
  then have "unat c div 8 mod 64 = n mod 64" unfolding assms by (simp add: mod_mod_cancel)
  finally show ?thesis .
qed

lemma add_mod_carry:
  fixes x y M :: nat
  assumes "x < M" and "y < M"
  shows "(x + y) mod M < y \<longleftrightarrow> M \<le> x + y" and "(x + y) div M = of_bool (M \<le> x + y)"
  using assms by (auto simp: mod_if div_if)

lemma mod_add_shuffle: "(x mod M + c + b) mod M = (x + b + c) mod (M :: nat)"
  by (metis add.assoc add.commute mod_add_left_eq)

lemma md5_counters:
  fixes c0 c1 :: u32
  assumes c0: "unat c0 = a mod 2 ^ 32" and c1: "unat c1 = a div 2 ^ 32 mod 2 ^ 32"
    and n: "n < 2 ^ 31"
  defines "dl \<equiv> word_of_nat n"
  defines "s0 \<equiv> c0 + push_bit 3 dl"
  defines "s1 \<equiv> (if s0 < push_bit 3 dl then c1 + 1 else c1) + drop_bit 29 dl"
  shows "unat s0 = (a + 8 * n) mod 2 ^ 32 \<and> unat s1 = (a + 8 * n) div 2 ^ 32 mod 2 ^ 32"
proof -
  have dl: "unat dl = n" using n by (simp add: dl_def unat_of_nat)
  have lo: "unat (push_bit 3 dl) = 8 * n mod 2 ^ 32"
    unfolding unsigned_push_bit_eq dl by (simp add: take_bit_eq_mod push_bit_eq_mult mult.commute)
  have hi: "unat (drop_bit 29 dl) = n div 2 ^ 29"
    unfolding unat_drop_bit_eq dl by (simp add: drop_bit_eq_div)
  have s0: "unat s0 = (a mod 2 ^ 32 + 8 * n mod 2 ^ 32) mod 2 ^ 32"
    by (simp add: s0_def unat_word_ariths lo c0)
  have carry: "s0 < push_bit 3 dl \<longleftrightarrow> 2 ^ 32 \<le> a mod 2 ^ 32 + 8 * n mod 2 ^ 32"
    unfolding word_less_nat_alt s0 lo by (rule add_mod_carry) simp_all
  have s1: "unat s1 = (a div 2 ^ 32 mod 2 ^ 32 + of_bool (2 ^ 32 \<le> a mod 2 ^ 32 + 8 * n mod 2 ^ 32)
      + n div 2 ^ 29) mod 2 ^ 32"
  proof -
    have "unat (if s0 < push_bit 3 dl then c1 + 1 else c1) =
        (unat c1 + of_bool (2 ^ 32 \<le> a mod 2 ^ 32 + 8 * n mod 2 ^ 32)) mod 2 ^ 32"
      by (simp add: carry unat_word_ariths c1)
    then have "unat s1 = ((unat c1 + of_bool (2 ^ 32 \<le> a mod 2 ^ 32 + 8 * n mod 2 ^ 32)) mod 2 ^ 32
        + n div 2 ^ 29) mod 2 ^ 32"
      by (simp add: s1_def unat_word_ariths hi)
    also have "\<dots> = (unat c1 + of_bool (2 ^ 32 \<le> a mod 2 ^ 32 + 8 * n mod 2 ^ 32)
        + n div 2 ^ 29) mod 2 ^ 32"
      by (rule mod_add_left_eq)
    finally show ?thesis by (simp only: c1)
  qed
  have "8 * n div 2 ^ 32 = n div 2 ^ 29"
    using div_mult_mult1 [of 8 n "2 ^ 29"] by simp
  then have "(a + 8 * n) div 2 ^ 32 = a div 2 ^ 32 + n div 2 ^ 29
      + of_bool (2 ^ 32 \<le> a mod 2 ^ 32 + 8 * n mod 2 ^ 32)"
    by (simp add: div_add1_eq [of a "8 * n"] add_mod_carry(2))
  then show ?thesis by (simp only: s0 s1 mod_add_shuffle mod_add_eq simp_thms)
qed

section \<open>The operations on contexts\<close>

definition md5_fresh :: md5_ctx where
  "md5_fresh = \<lparr>md_state = (0, 0, 0, 0), md_count0 = 0, md_count1 = 0, md_buffer = replicate 64 0\<rparr>"

lemma md5_init_holds: "length (md_buffer c) = 64 \<Longrightarrow> md5_holds (md5_init c) []"
  by (simp add: md5_holds_def md5_init_def md5_chain_short md5_rest_def)

lemma md5_rest_tail:
  "length m < 64 \<Longrightarrow> 64 \<le> length m + length n \<Longrightarrow>
     md5_rest (m @ n) = drop (length n - (length m + length n) mod 64) n"
proof -
  assume "length m < 64" and big: "64 \<le> length m + length n"
  have "(length m + length n) mod 64 \<le> length m + length n - 64"
    using big by (metis le_mod_geq mod_less_eq_dividend)
  with \<open>length m < 64\<close> big show ?thesis
    by (simp add: md5_rest_def minus_mod_eq_mult_div [symmetric])
qed

lemma md5_update_holds:
  assumes c: "md5_holds c m" and small: "length data < 2 ^ 31"
  shows "md5_holds (md5_update c data) (m @ data)"
proof -
  define idx where "idx = length m mod 64"
  define r where "r = md5_rest m"
  let ?dl = "word_of_nat (length data) :: u32"
  have index: "unat (drop_bit 3 (md_count0 c) AND 0x3F) = idx"
    using c by (auto simp: md5_holds_def idx_def intro: md5_index)
  have r: "take idx (md_buffer c) = r" "length r = idx" "idx < 64" and len: "length (md_buffer c) = 64"
    and st: "md_state c = md5_chain md5_iv m"
    using c by (simp_all add: md5_holds_def idx_def r_def)
  note cnt = md5_counters [of "md_count0 c" "8 * length m" "md_count1 c" "length data"]
  have count: "unat (md_count0 (md5_update c data)) = 8 * length (m @ data) mod 2 ^ 32 \<and>
      unat (md_count1 (md5_update c data)) = 8 * length (m @ data) div 2 ^ 32 mod 2 ^ 32"
    using c small cnt by (simp add: md5_update_def Let_def md5_holds_def split_beta distrib_left)
  have rest: "md5_rest (m @ data) = md5_rest (r @ data)"
    unfolding r_def by (rule md5_rest_append)
  have chain: "md5_chain md5_iv (m @ data) = md5_chain (md_state c) (r @ data)"
    unfolding st r_def by (rule md5_chain_append)
  have tail: "(length m + length data) mod 64 = (idx + length data) mod 64"
    by (simp add: idx_def mod_simps)
  show ?thesis
  proof (cases "64 - idx \<le> length data")
    case True
    define part where "part = 64 - idx"
    define buf where "buf = buf_put (md_buffer c) idx (take part data)"
    have buf: "buf = r @ take part data"
      using True r len by (simp add: buf_def buf_put_def part_def)
    have blk: "length buf = 64" using True r by (simp add: buf part_def)
    define k where "k = length data - (length data - part) mod 64"
    have blocks: "md5_blocks (md5_transform (md_state c) buf) data part =
        (md5_chain (md5_transform (md_state c) buf) (drop part data), k)"
      using True by (simp add: md5_blocks_chain k_def part_def)
    have upd: "md_state (md5_update c data) = md5_chain (md5_transform (md_state c) buf) (drop part data)"
      "md_buffer (md5_update c data) = buf_put buf 0 (drop k data)"
      using True blocks by (simp_all add: md5_update_def Let_def index buf_def [symmetric] part_def [symmetric])
    have "r @ data = buf @ drop part data" by (simp add: buf)
    then have "md_state (md5_update c data) = md5_chain md5_iv (m @ data)"
      by (simp add: upd chain md5_chain_block blk)
    moreover have k: "(length data - part) mod 64 = (idx + length data) mod 64"
    proof -
      have "idx + length data = (length data - part) + 64" using True r by (simp add: part_def)
      then show ?thesis by simp
    qed
    then have "drop k data = md5_rest (m @ data)"
      unfolding rest k_def using md5_rest_tail [of r data] True r by (simp add: part_def)
    moreover from this have "length (drop k data) = (length m + length data) mod 64"
      by (metis length_append length_md5_rest)
    ultimately show ?thesis
      using count blk by (simp add: md5_holds_def upd buf_put_def)
  next
    case False
    then have small64: "idx + length data < 64" by simp
    have upd: "md_state (md5_update c data) = md_state c"
      "md_buffer (md5_update c data) = buf_put (md_buffer c) idx data"
      using False by (simp_all add: md5_update_def Let_def index)
    have "md5_rest (m @ data) = r @ data"
      unfolding rest using small64 r by (simp add: md5_rest_def)
    moreover have "md_state (md5_update c data) = md5_chain md5_iv (m @ data)"
      unfolding upd chain using small64 r by (simp add: md5_chain_short)
    moreover have "take (idx + length data) (buf_put (md_buffer c) idx data) = r @ data"
      using r len small64 by (simp add: buf_put_def)
    ultimately show ?thesis
      using count small64 len tail by (simp add: md5_holds_def upd)
  qed
qed

lemma md5_encode_le: "md5_encode ws = concat (map (\<lambda>w. le_bytes w 4) ws)"
  by (simp add: md5_encode_def le_bytes_def ucast_and_ff eval_nat_numeral)

lemma md5_encode_counters:
  assumes "unat c0 = n mod 2 ^ 32" and "unat c1 = n div 2 ^ 32 mod 2 ^ 32"
  shows "md5_encode [c0, c1] = le_bytes (word_of_nat n :: u64) 8"
proof -
  let ?w = "word_of_nat n :: u64"
  have "c0 = ucast ?w"
    by (rule word_unat_eq_iff [THEN iffD2])
       (simp add: assms unat_of_nat unsigned_ucast_eq take_bit_eq_mod mod_mod_cancel)
  moreover have "c1 = ucast (drop_bit 32 ?w)"
  proof (rule word_unat_eq_iff [THEN iffD2])
    have "n mod 2 ^ 64 div 2 ^ 32 = n div 2 ^ 32 mod 2 ^ 32"
      using mod_mult2_eq [of n "2 ^ 32" "2 ^ 32"] by simp
    then show "unat c1 = unat (ucast (drop_bit 32 ?w) :: u32)"
      unfolding assms unsigned_ucast_eq unat_drop_bit_eq
      by (simp add: unat_of_nat take_bit_eq_mod drop_bit_eq_div)
  qed
  moreover have "le_bytes (ucast ?w :: u32) 4 @ le_bytes (ucast (drop_bit 32 ?w) :: u32) 4 = le_bytes ?w 8"
  proof (rule nth_equalityI)
    fix i assume "i < length (le_bytes (ucast ?w :: u32) 4 @ le_bytes (ucast (drop_bit 32 ?w) :: u32) 4)"
    then have "i < 8" by simp
    then show "(le_bytes (ucast ?w :: u32) 4 @ le_bytes (ucast (drop_bit 32 ?w) :: u32) 4) ! i = le_bytes ?w 8 ! i"
    proof (cases "i < 4")
      case True
      then show ?thesis by (auto simp: nth_append bit_eq_iff bit_simps)
    next
      case False
      define j where "j = i - 4"
      have j: "i = j + 4" "j < 4" using False \<open>i < 8\<close> by (simp_all add: j_def)
      have "(ucast (drop_bit (8 * j) (ucast (drop_bit 32 ?w) :: u32)) :: byte) = ucast (drop_bit (8 * j + 32) ?w)"
        using j(2) by (intro bit_word_eqI) (auto simp: bit_simps ac_simps)
      with j show ?thesis by (simp add: nth_append add.commute)
    qed
  qed simp
  ultimately show ?thesis by (simp add: md5_encode_le)
qed

lemma md5_padding_take:
  "0 < n \<Longrightarrow> n \<le> 64 \<Longrightarrow> take n md5_padding = 0x80 # replicate (n - 1) 0"
  by (cases n) (simp_all add: md5_padding_def)

lemma md5_final_digest:
  assumes c: "md5_holds c m"
  shows "snd (md5_final c) = md5_digest m"
proof -
  define idx where "idx = length m mod 64"
  define padlen where "padlen = (if idx < 56 then 56 - idx else 120 - idx)"
  have index: "unat (drop_bit 3 (md_count0 c) AND 0x3F) = idx"
    using c by (auto simp: md5_holds_def idx_def intro: md5_index)
  have idx: "idx < 64" by (simp add: idx_def)
  have pad: "take padlen md5_padding = 0x80 # replicate ((119 - idx) mod 64) 0"
  proof -
    have "(119 - idx) mod 64 = padlen - 1" using idx by (simp add: padlen_def mod_if)
    then show ?thesis using idx by (simp add: md5_padding_take padlen_def)
  qed
  have bits: "md5_encode [md_count0 c, md_count1 c] = le_bytes (word_of_nat (8 * length m) :: u64) 8"
    using c by (intro md5_encode_counters) (simp_all add: md5_holds_def)
  define c1 where "c1 = md5_update c (take padlen md5_padding)"
  define c2 where "c2 = md5_update c1 (md5_encode [md_count0 c, md_count1 c])"
  have "md5_holds c1 (m @ take padlen md5_padding)"
    unfolding c1_def by (rule md5_update_holds [OF c]) (simp add: md5_padding_def)
  then have "md5_holds c2 ((m @ take padlen md5_padding) @ md5_encode [md_count0 c, md_count1 c])"
    unfolding c2_def by (rule md5_update_holds) (simp add: bits)
  then have "md_state c2 = md5_chain md5_iv (md5_pad m)"
    by (simp add: md5_holds_def md5_pad_def pad bits idx_def)
  moreover have "snd (md5_final c) = (let (s0, s1, s2, s3) = md_state c2 in md5_encode [s0, s1, s2, s3])"
    by (simp add: md5_final_def Let_def index padlen_def [symmetric] c1_def [symmetric]
        c2_def [symmetric] split_beta)
  ultimately show ?thesis
    by (simp add: md5_digest_def md5_encode_le split_beta Let_def)
qed

section \<open>The public functions\<close>

text \<open>
  \<open>libisofs_md5\<close> over a context pointer (\<open>None\<close> is \<open>NULL\<close>): \<open>alloc\<close> says whether \<open>calloc\<close>
  succeeds, \<open>src\<close> is the context that \<open>data\<close> points to when a clone is made (flag bits 0 and 2).
  It returns the return value, the new context pointer and the 16 bytes stored in \<open>result\<close>.
\<close>

definition libisofs_md5 ::
  "bool \<Rightarrow> md5_ctx option \<Rightarrow> byte list \<Rightarrow> md5_ctx \<Rightarrow> nat \<Rightarrow> int \<times> md5_ctx option \<times> byte list option" where
  "libisofs_md5 alloc ctx data src flag =
     (if bit flag 0 \<and> \<not> alloc then (-1, None, None)
      else let ctx0 = (if bit flag 0 then Some (if bit flag 2 then src else md5_init md5_fresh) else ctx)
           in case ctx0 of
                None \<Rightarrow> (0, None, None)
              | Some c \<Rightarrow>
                  let c1 = (if 0 < length data then md5_update c data else c);
                      (c2, result) = (if bit flag 1 then (let (c', r) = md5_final c1 in (c', Some r))
                                      else (c1, None))
                  in (1, if bit flag 15 then None else Some c2, result))"

definition iso_md5_start :: "bool \<Rightarrow> md5_ctx option \<Rightarrow> (iso_error + int) \<times> md5_ctx option" where
  "iso_md5_start alloc md5_context =
     (let (ret, c, _) = libisofs_md5 alloc md5_context [] md5_fresh 1
      in (if ret \<le> 0 then Inl ISO_OUT_OF_MEM else Inr 1, c))"

definition iso_md5_compute :: "md5_ctx option \<Rightarrow> byte list \<Rightarrow> (iso_error + int) \<times> md5_ctx option" where
  "iso_md5_compute md5_context data =
     (let (ret, c, _) = libisofs_md5 True md5_context data md5_fresh 0
      in (if ret \<le> 0 then Inl ISO_NULL_POINTER else Inr 1, c))"

definition iso_md5_clone ::
  "bool \<Rightarrow> md5_ctx \<Rightarrow> md5_ctx option \<Rightarrow> (iso_error + int) \<times> md5_ctx option" where
  "iso_md5_clone alloc old_md5_context new_md5_context =
     (let (ret, c, _) = libisofs_md5 alloc new_md5_context [] old_md5_context (1 OR 4)
      in (if ret < 0 then Inl ISO_OUT_OF_MEM else if ret = 0 then Inl ISO_NULL_POINTER else Inr 1, c))"

definition iso_md5_end ::
  "md5_ctx option \<Rightarrow> (iso_error + byte list option) \<times> md5_ctx option" where
  "iso_md5_end md5_context =
     (let (ret, c, result) = libisofs_md5 True md5_context [] md5_fresh (2 OR 32768)
      in (if ret \<le> 0 then Inl ISO_NULL_POINTER else Inr result, c))"

definition iso_md5_match :: "byte list \<Rightarrow> byte list \<Rightarrow> bool" where
  "iso_md5_match first_md5 second_md5 = (\<forall>i \<in> set [0..<16]. \<not> first_md5 ! i \<noteq> second_md5 ! i)"

lemma iso_md5_start_ok: "iso_md5_start True ctx = (Inr 1, Some (md5_init md5_fresh))"
  by (simp add: iso_md5_start_def libisofs_md5_def bit_0)

lemma iso_md5_compute_Some:
  "iso_md5_compute (Some c) data = (Inr 1, Some (if data = [] then c else md5_update c data))"
  by (simp add: iso_md5_compute_def libisofs_md5_def bit_0)

lemma iso_md5_end_Some: "iso_md5_end (Some c) = (Inr (Some (snd (md5_final c))), None)"
  by (simp add: iso_md5_end_def libisofs_md5_def split_beta bit_simps)

lemma iso_md5_clone_ok: "iso_md5_clone True c new = (Inr 1, Some c)"
  by (simp add: iso_md5_clone_def libisofs_md5_def bit_0)

section \<open>The interface of an incremental digest\<close>

text \<open>
  Clients (checksum tags, truncated names) only rely on this: a started context has consumed
  nothing, feeding data appends it to what was consumed, and ending gives the digest of all
  that was consumed.
\<close>

locale stream_digest =
  fixes init :: 's
    and upd :: "'s \<Rightarrow> byte list \<Rightarrow> 's"
    and fin :: "'s \<Rightarrow> byte list"
    and digest :: "byte list \<Rightarrow> byte list"
    and holds :: "'s \<Rightarrow> byte list \<Rightarrow> bool"
    and fits :: "byte list \<Rightarrow> bool"
  assumes init_holds: "holds init []"
    and upd_holds: "holds c m \<Longrightarrow> fits d \<Longrightarrow> holds (upd c d) (m @ d)"
    and fin_digest: "holds c m \<Longrightarrow> fin c = digest m"
begin

lemma foldl_holds: "holds c m \<Longrightarrow> list_all fits ds \<Longrightarrow> holds (foldl upd c ds) (m @ concat ds)"
proof (induction ds arbitrary: c m)
  case (Cons d ds)
  then have "holds (foldl upd (upd c d) ds) ((m @ d) @ concat ds)"
    by (intro Cons.IH upd_holds) simp_all
  then show ?case by simp
qed simp

lemma stream: "list_all fits ds \<Longrightarrow> fin (foldl upd init ds) = digest (concat ds)"
  using foldl_holds [OF init_holds] by (simp add: fin_digest)

lemma once: "fits d \<Longrightarrow> fin (upd init d) = digest d"
  using stream [of "[d]"] by simp

lemma chunking: "list_all fits ds \<Longrightarrow> list_all fits es \<Longrightarrow> concat ds = concat es \<Longrightarrow>
    fin (foldl upd init ds) = fin (foldl upd init es)"
  by (simp add: stream)

end

definition md5_feed :: "md5_ctx \<Rightarrow> byte list \<Rightarrow> md5_ctx" where
  "md5_feed c data = (if data = [] then c else md5_update c data)"

interpretation md5: stream_digest "md5_init md5_fresh" md5_feed "\<lambda>c. snd (md5_final c)"
  md5_digest md5_holds "\<lambda>d. length d < 2 ^ 31"
proof
  show "md5_holds (md5_init md5_fresh) []"
    by (rule md5_init_holds) (simp add: md5_fresh_def)
qed (auto simp: md5_feed_def md5_update_holds md5_final_digest)

lemma foldl_compute:
  "foldl (\<lambda>c d. snd (iso_md5_compute c d)) (Some c) ds = Some (foldl md5_feed c ds)"
  by (induction ds arbitrary: c) (simp_all add: iso_md5_compute_Some md5_feed_def)

lemma length_md5_digest: "length (md5_digest m) = 16"
  by (simp add: md5_digest_def split_beta Let_def)

section \<open>Properties\<close>

text \<open>C4: however the data is cut into calls of \<open>iso_md5_compute\<close> (each of less than 2 GiB, the
  range of its \<open>int\<close> argument), starting, feeding and ending a context yields the digest of the
  whole data, and the context is disposed.\<close>

theorem iso_md5_streaming:
  assumes "list_all (\<lambda>d. length d < 2 ^ 31) chunks"
  shows "iso_md5_end (foldl (\<lambda>c d. snd (iso_md5_compute c d)) (snd (iso_md5_start True ctx)) chunks) =
    (Inr (Some (md5_digest (concat chunks))), None)"
  using md5.stream [OF assms] by (simp add: iso_md5_start_ok foldl_compute iso_md5_end_Some)

theorem iso_md5_streaming_witness:
  "iso_md5_end (foldl (\<lambda>c d. snd (iso_md5_compute c d)) (snd (iso_md5_start True None))
     [bytes_of ''mess'', [], replicate 61 0, bytes_of ''age'']) =
   (Inr (Some (md5_digest (bytes_of ''mess'' @ replicate 61 0 @ bytes_of ''age''))), None)"
proof -
  have "list_all (\<lambda>d. length d < 2 ^ 31) [bytes_of ''mess'', [], replicate 61 0, bytes_of ''age'']"
    by (simp add: bytes_of_def)
  from iso_md5_streaming [OF this, of None] show ?thesis by simp
qed

text \<open>The test suite of RFC 1321, evaluated on the code's transformation and padding.\<close>

theorem md5_rfc1321_suite:
  "md5_digest [] = [0xd4, 0x1d, 0x8c, 0xd9, 0x8f, 0x00, 0xb2, 0x04, 0xe9, 0x80, 0x09, 0x98, 0xec, 0xf8, 0x42, 0x7e] \<and>
   md5_digest (bytes_of ''abc'') = [0x90, 0x01, 0x50, 0x98, 0x3c, 0xd2, 0x4f, 0xb0, 0xd6, 0x96, 0x3f, 0x7d, 0x28, 0xe1, 0x7f, 0x72] \<and>
   md5_digest (bytes_of ''message digest'') = [0xf9, 0x6b, 0x69, 0x7d, 0x7c, 0xb7, 0x93, 0x8d, 0x52, 0x5a, 0x2f, 0x31, 0xaa, 0xf1, 0x61, 0xd0]"
  by (intro conjI; code_simp)

end
