(* ===== verification/UtilText.thy ===== *)
theory UtilText
  imports Md5
begin

text \<open>
  Text utilities of \<open>libisofs/util.c\<close>: hexadecimal text, numbers with unit letters, copying and
  padding, the truncation of Rock Ridge names, the library version and the override of the clock.
  Texts that are taken apart by bytes are byte lists; a C string ends before its NUL.
\<close>

section \<open>Hexadecimal text\<close>

definition hex_digit :: "nat \<Rightarrow> char" where
  "hex_digit d = (if d < 10 then char_of (48 + d) else char_of (87 + d))"

text \<open>\<open>sprintf\<close> with \<open>%2.2x\<close> (also \<open>%-2.2x\<close>) of a byte.\<close>

definition hex_byte :: "byte \<Rightarrow> byte list" where
  "hex_byte b = map char_byte [hex_digit (unat b div 16), hex_digit (unat b mod 16)]"

text \<open>The text without its NUL.\<close>

definition iso_util_bin_to_hex :: "byte list \<Rightarrow> byte list" where
  "iso_util_bin_to_hex bytes = concat (map hex_byte bytes)"

text \<open>\<open>strchr (allowed, b) != NULL\<close>: \<open>strchr\<close> also finds the terminating NUL.\<close>

definition hex_allowed :: "byte \<Rightarrow> bool" where
  "hex_allowed b \<longleftrightarrow> b = 0 \<or> (48 \<le> b \<and> b \<le> 57) \<or> (65 \<le> b \<and> b \<le> 70) \<or> (97 \<le> b \<and> b \<le> 102)"

definition hex_value :: "byte \<Rightarrow> byte" where
  "hex_value b = (if b \<le> 57 then b - 48 else if b \<le> 70 then b - 55 else b - 87)"

text \<open>\<open>sscanf (b, "%x", &u)\<close> on the string of the two characters: a NUL ends it early, and \<open>u\<close>
  keeps its value if nothing is left.\<close>

definition scan_hex2 :: "byte \<Rightarrow> byte \<Rightarrow> byte \<Rightarrow> byte" where
  "scan_hex2 u b0 b1 =
     (if b0 = 0 then u else if b1 = 0 then hex_value b0 else 16 * hex_value b0 + hex_value b1)"

text \<open>The loop; \<open>u\<close> is what the variable holds before, and memory after the text reads as NUL.\<close>

definition byte_at :: "byte list \<Rightarrow> nat \<Rightarrow> byte" where
  "byte_at bs i = (if i < length bs then bs ! i else 0)"

fun hex_loop :: "nat \<Rightarrow> byte list \<Rightarrow> byte \<Rightarrow> byte list" where
  "hex_loop 0 hex u = []"
| "hex_loop (Suc n) hex u =
     (let b0 = byte_at hex 0; b1 = byte_at hex 1
      in if \<not> hex_allowed b0 \<or> \<not> hex_allowed b1 then []
         else let u' = scan_hex2 u b0 b1 in u' # hex_loop n (drop 2 hex) u')"

text \<open>The bytes written (their number is \<open>bin_count\<close>) and the return value.\<close>

definition iso_util_hex_to_bin :: "byte list \<Rightarrow> nat \<Rightarrow> byte \<Rightarrow> byte list \<times> bool" where
  "iso_util_hex_to_bin hex bin_size u = (let bin = hex_loop bin_size hex u in (bin, length bin > 0))"

lemma hex_digit_byte:
  assumes "d < 16"
  shows "hex_allowed (char_byte (hex_digit d))" and "char_byte (hex_digit d) \<noteq> 0"
    and "hex_value (char_byte (hex_digit d)) = of_nat d"
proof -
  define n where "n = (if d < 10 then 48 + d else 87 + d)"
  have n: "n < 256" "hex_digit d = char_of n" using assms by (simp_all add: n_def hex_digit_def)
  have c: "char_byte (char_of n) = of_nat n"
    using n(1) by (simp add: char_byte_def of_char_of take_bit_nat_eq_self flip: of_nat_of_char [of "char_of n"])
  have u: "unat (of_nat n :: byte) = n" using n(1) by (simp add: unsigned_of_nat take_bit_nat_eq_self)
  define w where "w = (of_nat n :: byte)"
  have w: "char_byte (hex_digit d) = w" "unat w = n" using u by (simp_all add: n(2) c w_def)
  have r: "d < 10 \<and> n = 48 + d \<or> 10 \<le> d \<and> n = 87 + d" using assms by (auto simp: n_def)
  then show "hex_allowed (char_byte (hex_digit d))"
    using assms unfolding w(1) hex_allowed_def word_le_nat_alt w(2) by auto
  have "unat w \<noteq> unat (0 :: byte)" using r by (auto simp: w(2))
  then show "char_byte (hex_digit d) \<noteq> 0" unfolding w(1) by metis
  have "hex_value w = (if n \<le> 57 then of_nat n - 48 else if n \<le> 70 then of_nat n - 55 else of_nat n - 87)"
    unfolding hex_value_def word_le_nat_alt w(2) by (simp add: w_def)
  with r show "hex_value (char_byte (hex_digit d)) = of_nat d" unfolding w(1) by auto
qed

lemma scan_hex_byte:
  "hex_byte b = [h, l] \<Longrightarrow> hex_allowed h \<and> hex_allowed l \<and> scan_hex2 u h l = b"
proof -
  assume "hex_byte b = [h, l]"
  then have hl: "h = char_byte (hex_digit (unat b div 16))" "l = char_byte (hex_digit (unat b mod 16))"
    by (simp_all add: hex_byte_def)
  have "unat b < 256" using unsigned_less [of b] by simp
  then have d: "unat b div 16 < 16" "unat b mod 16 < 16" by simp_all
  have "(16 * of_nat (unat b div 16) + of_nat (unat b mod 16) :: byte) = of_nat (16 * (unat b div 16) + unat b mod 16)"
    by (simp only: of_nat_add of_nat_mult of_nat_numeral)
  then have "(16 * of_nat (unat b div 16) + of_nat (unat b mod 16) :: byte) = b" by simp
  then show ?thesis using hex_digit_byte [OF d(1)] hex_digit_byte [OF d(2)] by (simp add: hl scan_hex2_def)
qed

lemma hex_loop_hex: "hex_loop (length bs) (iso_util_bin_to_hex bs @ rest) u = bs"
proof (induction bs arbitrary: u)
  case (Cons b bs)
  obtain h l where hl: "hex_byte b = [h, l]" by (simp add: hex_byte_def)
  with scan_hex_byte [OF hl] Cons show ?case
    by (simp add: iso_util_bin_to_hex_def byte_at_def Let_def)
qed simp

lemma length_bin_to_hex [simp]: "length (iso_util_bin_to_hex bs) = 2 * length bs"
  by (induction bs) (simp_all add: iso_util_bin_to_hex_def hex_byte_def)

section \<open>Truncation of Rock Ridge names\<close>

text \<open>The five patterns of an UTF-8 start byte, and the tail bytes.\<close>

definition utf8_tail :: "byte \<Rightarrow> bool" where
  "utf8_tail b \<longleftrightarrow> b AND 0xc0 = 0x80"

definition utf8_start :: "byte \<Rightarrow> bool" where
  "utf8_start b \<longleftrightarrow> b AND 0xe0 = 0xc0 \<or> b AND 0xf0 = 0xe0 \<or> b AND 0xf8 = 0xf0 \<or> b AND 0xfc = 0xf8 \<or>
     b AND 0xfe = 0xfc"

text \<open>The loop over \<open>i\<close>; the first argument is how many rounds are left of five.\<close>

fun utf8_back :: "nat \<Rightarrow> byte list \<Rightarrow> nat \<Rightarrow> nat \<Rightarrow> nat" where
  "utf8_back 0 uname idx i = idx"
| "utf8_back (Suc n) uname idx i =
     (if i + 1 \<le> idx
      then let uch = uname ! (idx - 1 - i)
           in if utf8_start uch then idx - 1 - i
              else if \<not> utf8_tail uch then idx
              else utf8_back n uname idx (i + 1)
      else idx)"

definition find_utf8_start :: "byte list \<Rightarrow> nat \<Rightarrow> nat" where
  "find_utf8_start name idx = (if \<not> utf8_tail (name ! idx) then idx else utf8_back 5 name idx 0)"

text \<open>The loop that writes the hash over the end of the name, two hexadecimal digits at a time
  (each \<open>sprintf\<close> also writes a NUL).\<close>

fun hash_loop :: "nat \<Rightarrow> byte list \<Rightarrow> nat \<Rightarrow> byte list \<Rightarrow> byte list" where
  "hash_loop limit [] goal name = name"
| "hash_loop limit (h # hs) goal name =
     (if goal < limit - 1 then hash_loop limit hs (goal + 2) (buf_put name goal (hex_byte h @ [0]))
      else name)"

text \<open>\<open>name\<close> is the text without its NUL; the result is what is in front of the new one. The
  message about the truncation is left out.\<close>

definition iso_truncate_rr_name :: "int \<Rightarrow> nat \<Rightarrow> byte list \<Rightarrow> (iso_error + nat) \<times> byte list" where
  "iso_truncate_rr_name truncate_mode truncate_length name =
     (let l = length name
      in if l \<le> truncate_length then (Inr 1, name)
         else if truncate_mode = 0 then (Inl ISO_RR_NAME_TOO_LONG, name)
         else case iso_md5_start True None of
                (Inl e, _) \<Rightarrow> (Inl e, name)
              | (Inr _, ctx) \<Rightarrow>
                  (case iso_md5_compute ctx (take (if l > 4095 then 4095 else l) name) of
                     (Inl e, _) \<Rightarrow> (Inl e, name)
                   | (Inr _, ctx') \<Rightarrow>
                       (case iso_md5_end ctx' of
                          (Inr (Some hashval), _) \<Rightarrow>
                            let goal = truncate_length - 32 - 1;
                                neck = find_utf8_start name goal;
                                name1 = take neck name @ replicate (goal - neck) (char_byte CHR ''_'') @ drop goal name;
                                name2 = name1[goal := char_byte CHR '':''];
                                name3 = hash_loop truncate_length (take 16 hashval) (goal + 1) name2
                            in (Inr 1, take truncate_length name3)
                        | (Inr None, _) \<Rightarrow> (Inr 0, name)
                        | (Inl e, _) \<Rightarrow> (Inl e, name))))"

definition iso_truncate_leaf_name :: "int \<Rightarrow> int \<Rightarrow> byte list \<Rightarrow> (iso_error + nat) \<times> byte list" where
  "iso_truncate_leaf_name mode len name =
     (if mode < 0 \<or> mode > 1 then (Inl ISO_WRONG_ARG_VALUE, name)
      else if len < 64 \<or> len > 255 then (Inl ISO_WRONG_ARG_VALUE, name)
      else iso_truncate_rr_name mode (nat len) name)"

lemma utf8_back_le: "utf8_back n name idx i \<le> idx"
  by (induction n name idx i rule: utf8_back.induct) (auto simp: Let_def)

lemma find_utf8_start_le: "find_utf8_start name idx \<le> idx"
  by (simp add: find_utf8_start_def utf8_back_le)

text \<open>The text that the hash loop leaves: it ends exactly at the limit when the hash is as long as
  the space for it.\<close>

lemma hash_loop_text:
  "goal + 2 * length hs = limit \<Longrightarrow> limit < length name \<Longrightarrow>
     take limit (hash_loop limit hs goal name) = take goal name @ iso_util_bin_to_hex hs"
proof (induction hs arbitrary: goal name)
  case (Cons h hs)
  have hb: "length (hex_byte h) = 2" by (simp add: hex_byte_def)
  have put: "take (goal + 2) (buf_put name goal (hex_byte h @ [0])) = take goal name @ hex_byte h"
    using Cons.prems hb by (simp add: buf_put_def)
  have "goal < limit - 1" using Cons.prems by simp
  then have "take limit (hash_loop limit (h # hs) goal name) =
      take limit (hash_loop limit hs (goal + 2) (buf_put name goal (hex_byte h @ [0])))" by simp
  also have "\<dots> = take (goal + 2) (buf_put name goal (hex_byte h @ [0])) @ iso_util_bin_to_hex hs"
    using Cons.prems hb by (intro Cons.IH) simp_all
  finally show ?case unfolding put by (simp add: iso_util_bin_to_hex_def)
qed (simp add: iso_util_bin_to_hex_def)

lemma truncate_result:
  assumes "truncate_mode \<noteq> 0" and "truncate_length < length name" and "33 \<le> truncate_length"
  shows "iso_truncate_rr_name truncate_mode truncate_length name =
     (let goal = truncate_length - 33; neck = find_utf8_start name goal
      in (Inr 1, take neck name @ replicate (goal - neck) (char_byte CHR ''_'') @ [char_byte CHR '':''] @
            iso_util_bin_to_hex (md5_digest (take 4095 name))))"
proof -
  define goal where "goal = truncate_length - 33"
  define neck where "neck = find_utf8_start name goal"
  have g: "truncate_length = goal + 33" "goal < length name" using assms by (simp_all add: goal_def)
  have neck: "neck \<le> goal" by (simp add: neck_def find_utf8_start_le)
  define head where "head = take neck name @ replicate (goal - neck) (char_byte CHR ''_'')"
  have head: "length head = goal" using neck g by (simp add: head_def)
  define name2 where "name2 = (head @ drop goal name)[goal := char_byte CHR '':'']"
  have name2: "length name2 = length name" "take (goal + 1) name2 = head @ [char_byte CHR '':'']"
    using head g by (simp_all add: name2_def list_update_append take_update_swap)
      (simp add: take_Suc_conv_app_nth list_update_append)
  have data: "take (if length name > 4095 then 4095 else length name) name = take 4095 name" by simp
  have ne: "name \<noteq> []" "take 4095 name \<noteq> []" using assms(2) by auto
  then have dig: "snd (md5_final (md5_update (md5_init md5_fresh) (take 4095 name))) = md5_digest (take 4095 name)"
    using md5.once [of "take 4095 name"] by (simp add: md5_feed_def)
  let ?h = "md5_digest (take 4095 name)"
  have "take truncate_length (hash_loop truncate_length (take 16 ?h) (goal + 1) name2) =
      take (goal + 1) name2 @ iso_util_bin_to_hex (take 16 ?h)"
    using g name2(1) length_md5_digest [of "take 4095 name"] assms(2) by (intro hash_loop_text) simp_all
  then have "take truncate_length (hash_loop truncate_length (take 16 ?h) (goal + 1)
      ((take neck name @ replicate (goal - neck) (char_byte CHR ''_'') @ drop goal name)[goal := char_byte CHR '':''])) =
      take neck name @ replicate (goal - neck) (char_byte CHR ''_'') @ [char_byte CHR '':''] @ iso_util_bin_to_hex ?h"
    using name2(2) length_md5_digest [of "take 4095 name"] by (simp add: name2_def head_def)
  moreover have "truncate_length - 32 - 1 = goal" by (simp add: goal_def)
  ultimately show ?thesis
    using assms(1,2) ne
    by (simp add: iso_truncate_rr_name_def iso_md5_start_ok iso_md5_compute_Some iso_md5_end_Some data dig Let_def
        goal_def [symmetric] neck_def [symmetric] del: take_append)
qed

section \<open>Whole UTF-8 characters\<close>

text \<open>An encoded character: one byte below 128, or a start byte with one to five tail bytes.\<close>

definition utf8_char :: "byte list \<Rightarrow> bool" where
  "utf8_char bs \<longleftrightarrow>
     (case bs of
        [] \<Rightarrow> False
      | [b] \<Rightarrow> b AND 0x80 = 0
      | b # ts \<Rightarrow> utf8_start b \<and> list_all utf8_tail ts \<and> length ts \<le> 5)"

lemma tail_bits: "utf8_tail b \<Longrightarrow> bit b 7 \<and> \<not> bit b 6"
proof -
  assume "utf8_tail b"
  then have e: "b AND 0xc0 = 0x80" by (simp add: utf8_tail_def)
  show ?thesis using arg_cong [OF e, of "\<lambda>w. bit w 7"] arg_cong [OF e, of "\<lambda>w. bit w 6"]
    by (simp add: bit_simps)
qed

lemma start_bits: "utf8_start b \<Longrightarrow> bit b 6"
  unfolding utf8_start_def
  by (elim disjE; drule arg_cong [where f = "\<lambda>w. bit w 6"]; simp add: bit_simps)

lemma utf8_char_cases:
  assumes "utf8_char bs"
  obtains b ts where "bs = b # ts" and "\<not> utf8_tail b" and "ts \<noteq> [] \<longrightarrow> utf8_start b"
    and "list_all utf8_tail ts" and "length ts \<le> 5"
proof -
  obtain b ts where bs: "bs = b # ts" using assms by (cases bs) (auto simp: utf8_char_def)
  have "\<not> utf8_tail b"
  proof (cases ts)
    case Nil
    then have e: "b AND 0x80 = 0" using assms by (simp add: utf8_char_def bs)
    have "\<not> bit b 7" using arg_cong [OF e, of "\<lambda>w. bit w 7"] by (simp add: bit_simps)
    then show ?thesis using tail_bits by blast
  next
    case (Cons t ts')
    then have "utf8_start b" using assms by (simp add: utf8_char_def bs)
    then show ?thesis using tail_bits start_bits by blast
  qed
  then show thesis using assms by (intro that [OF bs]) (auto simp: utf8_char_def bs split: list.splits)
qed

lemma utf8_back_finds:
  assumes "i < k" and "k \<le> idx" and "k \<le> i + n" and "utf8_start (name ! (idx - k))"
    and "\<forall>j. i \<le> j \<longrightarrow> j + 1 < k \<longrightarrow> utf8_tail (name ! (idx - 1 - j))"
  shows "utf8_back n name idx i = idx - k"
  using assms
proof (induction n name idx i rule: utf8_back.induct)
  case (2 n name idx i)
  show ?case
  proof (cases "i + 1 = k")
    case True
    with 2(3,5) show ?thesis by (simp add: Let_def)
  next
    case False
    then have k: "i + 1 < k" using 2(2) by simp
    then have tail: "utf8_tail (name ! (idx - 1 - i))" using 2(6) by simp
    then have "\<not> utf8_start (name ! (idx - 1 - i))" using tail_bits start_bits by blast
    moreover have "utf8_back n name idx (i + 1) = idx - k"
      using tail k 2(3-6) calculation by (intro 2(1) [OF _ refl]) auto
    ultimately show ?thesis using tail k 2(3) by (simp add: Let_def)
  qed
qed simp

lemma find_utf8_start_whole:
  assumes "list_all utf8_char cs" and "idx < length (concat cs)"
  shows "\<exists>k. take (find_utf8_start (concat cs) idx) (concat cs) = concat (take k cs)"
proof -
  define k where "k = (LEAST m. idx < length (concat (take (m + 1) cs)))"
  have "idx < length (concat (take (length cs + 1) cs))" using assms(2) by simp
  then have k1: "idx < length (concat (take (k + 1) cs))" unfolding k_def by (rule LeastI)
  have k0: "length (concat (take k cs)) \<le> idx"
  proof (cases k)
    case (Suc m)
    then have "\<not> idx < length (concat (take (m + 1) cs))" unfolding k_def by (intro not_less_Least) simp
    with Suc show ?thesis by simp
  qed simp
  have "k < length cs" using k0 k1 by (cases "k < length cs") auto
  then have cs: "cs = take k cs @ cs ! k # drop (k + 1) cs" and t: "take (k + 1) cs = take k cs @ [cs ! k]"
    by (simp_all add: id_take_nth_drop take_Suc_conv_app_nth)
  define pre where "pre = concat (take k cs)"
  have "utf8_char (cs ! k)" using assms(1) \<open>k < length cs\<close> by (simp add: list_all_length)
  then obtain b ts where b: "cs ! k = b # ts" "\<not> utf8_tail b" "ts \<noteq> [] \<longrightarrow> utf8_start b" "list_all utf8_tail ts"
    "length ts \<le> 5" by (rule utf8_char_cases)
  define post where "post = concat (drop (k + 1) cs)"
  have name: "concat cs = pre @ (b # ts) @ post"
    by (subst cs) (simp only: concat_append concat.simps b(1) pre_def post_def)
  define off where "off = idx - length pre"
  have off: "idx = length pre + off" "off < length (b # ts)"
    using k0 k1 t b(1) by (simp_all add: off_def pre_def)
  have at: "concat cs ! (length pre + j) = (b # ts) ! j" if "j \<le> off" for j
    using that off(2) by (cases j) (auto simp: name nth_append)
  have "find_utf8_start (concat cs) idx = length pre"
  proof (cases off)
    case 0
    with at [of 0] b(2) off(1) show ?thesis by (simp add: find_utf8_start_def)
  next
    case (Suc o')
    have tails: "utf8_tail (concat cs ! (length pre + j))" if "0 < j" "j \<le> off" for j
      using at [OF that(2)] that off(2) b(4) by (cases j) (simp_all add: list_all_length)
    have "utf8_back 5 (concat cs) idx 0 = idx - off"
    proof (rule utf8_back_finds)
      show "utf8_start (concat cs ! (idx - off))" using at [of 0] b(3) off Suc by auto
      show "\<forall>j. 0 \<le> j \<longrightarrow> j + 1 < off \<longrightarrow> utf8_tail (concat cs ! (idx - 1 - j))"
      proof (intro allI impI)
        fix j assume "j + 1 < off"
        then show "utf8_tail (concat cs ! (idx - 1 - j))"
          using tails [of "off - 1 - j"] off(1) by simp
      qed
    qed (use Suc off b(5) in auto)
    with tails [of off] Suc off(1) show ?thesis by (simp add: find_utf8_start_def)
  qed
  then show ?thesis by (intro exI [of _ k]) (simp add: name pre_def)
qed

section \<open>Numbers with a unit, copies, version, clock\<close>

text \<open>\<open>iso_scanf_io_size\<close>: digits, then an optional unit letter. Numbers are taken to be in the
  range of \<open>off_t\<close>.\<close>

definition unit_factor :: "byte \<Rightarrow> int" where
  "unit_factor c =
     (if c = 107 \<or> c = 75 then 1024
      else if c = 109 \<or> c = 77 then 1024 * 1024
      else if c = 103 \<or> c = 71 then 1024 * 1024 * 1024
      else if c = 116 \<or> c = 84 then 1024 * 1024 * 1024 * 1024
      else if c = 115 \<or> c = 83 then 2048
      else if c = 100 \<or> c = 68 then 512
      else 1)"

definition iso_scanf_io_size :: "byte list \<Rightarrow> nat \<Rightarrow> int" where
  "iso_scanf_io_size text flag =
     (let digits = takeWhile (\<lambda>b. 48 \<le> b \<and> b \<le> 57) text; c = byte_at text (length digits)
      in if digits = [] then (if bit flag 0 then -1 else 0)
         else let ret = foldl (\<lambda>r b. r * 10 + (uint b - 48)) 0 digits * unit_factor c
              in if bit flag 1 then ret + unit_factor c - 1 else ret)"

text \<open>A negative number is not read: the result is the failure value.\<close>

lemma scanf_io_size_negative: "iso_scanf_io_size (bytes_of (CHR ''-'' # s)) flag = (if bit flag 0 then -1 else 0)"
proof -
  have "char_byte CHR ''-'' = 45" by (simp add: char_byte_def)
  then show ?thesis by (simp add: iso_scanf_io_size_def bytes_of_def Let_def)
qed

text \<open>\<open>calloc\<close> and \<open>strncpy\<close>: the text up to the first NUL, at most \<open>len\<close> bytes.\<close>

definition iso_util_strcopy :: "byte list \<Rightarrow> nat \<Rightarrow> byte list" where
  "iso_util_strcopy buf len = takeWhile (\<lambda>b. b \<noteq> 0) (take len buf)"

text \<open>The loop from the end works on the whole buffer of \<open>len + 1\<close> bytes, where the bytes after the
  text are NUL: it stops at once if the text is shorter than \<open>len\<close>.\<close>

definition iso_util_strcopy_untail :: "byte list \<Rightarrow> nat \<Rightarrow> byte list" where
  "iso_util_strcopy_untail buf len_in =
     (let str = iso_util_strcopy buf len_in
      in if length str < len_in then str else rev (dropWhile (\<lambda>b. b = 32) (rev str)))"

fun strncpy_pad :: "byte list option \<Rightarrow> nat \<Rightarrow> byte list" where
  "strncpy_pad (Some src) mx = (let len = min (length src) mx in take len src @ replicate (mx - len) 32)"
| "strncpy_pad None mx = replicate mx 32"

lemma length_strncpy_pad: "length (strncpy_pad src mx) = mx"
  by (cases src) (simp_all add: Let_def)

definition iso_lib_version :: "nat \<times> nat \<times> nat" where
  "iso_lib_version = (1, 5, 5)"

definition iso_lib_is_compatible :: "nat \<Rightarrow> nat \<Rightarrow> nat \<Rightarrow> bool" where
  "iso_lib_is_compatible major minor micro =
     (case iso_lib_version of (cmajor, cminor, cmicro) \<Rightarrow>
        cmajor > major \<or> (cmajor = major \<and> (cminor > minor \<or> (cminor = minor \<and> cmicro \<ge> micro))))"

text \<open>\<open>iso_nowtime\<close> with its static variables; \<open>now\<close> is the argument and \<open>clock\<close> is \<open>time (NULL)\<close>.
  The result is the return value, the time stored, and the new statics.\<close>

definition iso_nowtime :: "bool \<times> int \<Rightarrow> int \<Rightarrow> int \<Rightarrow> nat \<Rightarrow> nat \<times> int \<times> (bool \<times> int)" where
  "iso_nowtime statics now clock flag =
     (let statics1 = (if bit flag 0 then (True, now) else statics);
          statics2 = (if bit flag 1 then (False, snd statics1) else statics1)
      in if \<not> fst statics2 then (1, clock, statics2) else (2, snd statics2, statics2))"

text \<open>Once set, the override answers every later inquiry until it is disabled.\<close>

lemma nowtime_override:
  "snd (snd (iso_nowtime st t clock 1)) = st' \<Longrightarrow> iso_nowtime st' x clock' 0 = (2, t, st')"
  by (auto simp: iso_nowtime_def Let_def bit_0)

fun iso_clone_mem :: "byte list option \<Rightarrow> nat \<Rightarrow> bool \<Rightarrow> (iso_error + nat) \<times> byte list option" where
  "iso_clone_mem None sz alloc = (Inr 1, None)"
| "iso_clone_mem (Some mem) sz alloc =
     (let n = (if sz = 0 then length (takeWhile (\<lambda>b. b \<noteq> 0) mem) + 1 else sz)
      in if \<not> alloc then (Inl ISO_OUT_OF_MEM, None) else (Inr 1, Some (take n mem)))"

section \<open>Properties\<close>

text \<open>Bytes written as hexadecimal text are read back, all of them and nothing else.\<close>

lemma hex_roundtrip:
  "iso_util_hex_to_bin (iso_util_bin_to_hex bs @ rest) (length bs) u = (bs, bs \<noteq> [])"
  by (simp add: iso_util_hex_to_bin_def hex_loop_hex)

text \<open>C21: an over-long Rock Ridge name is cut to exactly the allowed length: whole UTF-8 characters
  from its beginning, underscores where a character would have been cut, a colon, and the 32
  hexadecimal digits of the MD5 of (the first 4095 bytes of) the full name.\<close>

theorem iso_truncate_rr_name_correct:
  assumes "list_all utf8_char cs" and "truncate_mode \<noteq> 0" and "33 \<le> truncate_length"
    and "truncate_length < length (concat cs)"
  shows "\<exists>k m. iso_truncate_rr_name truncate_mode truncate_length (concat cs) =
     (Inr 1, concat (take k cs) @ replicate m (char_byte CHR ''_'') @ [char_byte CHR '':''] @
        iso_util_bin_to_hex (md5_digest (take 4095 (concat cs)))) \<and>
     length (concat (take k cs)) + m + 33 = truncate_length"
proof -
  define goal where "goal = truncate_length - 33"
  have "goal < length (concat cs)" using assms(4) by (simp add: goal_def)
  with find_utf8_start_whole [OF assms(1)] obtain k where
    k: "take (find_utf8_start (concat cs) goal) (concat cs) = concat (take k cs)" by blast
  have le: "find_utf8_start (concat cs) goal \<le> goal" by (rule find_utf8_start_le)
  then have "length (concat (take k cs)) = find_utf8_start (concat cs) goal"
    using assms(3,4) unfolding k [symmetric] by (simp add: goal_def)
  then show ?thesis
    using truncate_result [OF assms(2,4,3)] k le assms(3)
    by (intro exI [of _ k] exI [of _ "goal - find_utf8_start (concat cs) goal"])
      (simp add: Let_def goal_def)
qed

text \<open>\<open>iso_truncate_leaf_name\<close> gives a name within the limit, leaves names within the limit
  alone, and refuses a mode or a limit that is out of range.\<close>

theorem iso_truncate_leaf_name_cases:
  "case iso_truncate_leaf_name mode len name of
     (Inr r, name') \<Rightarrow> r = 1 \<and> int (length name') \<le> len \<and> (int (length name) \<le> len \<longrightarrow> name' = name)
   | (Inl e, name') \<Rightarrow> name' = name \<and>
       (e = ISO_WRONG_ARG_VALUE \<and> (mode \<notin> {0, 1} \<or> len \<notin> {64..255}) \<or>
        e = ISO_RR_NAME_TOO_LONG \<and> mode = 0 \<and> len < int (length name))"
proof (cases "mode \<in> {0, 1} \<and> len \<in> {64..255}")
  case False
  then show ?thesis by (auto simp: iso_truncate_leaf_name_def)
next
  case True
  then have e: "iso_truncate_leaf_name mode len name = iso_truncate_rr_name mode (nat len) name"
    by (auto simp: iso_truncate_leaf_name_def)
  consider "length name \<le> nat len" | "nat len < length name" "mode = 0" | "nat len < length name" "mode \<noteq> 0"
    by linarith
  then show ?thesis
  proof cases
    case 3
    let ?goal = "nat len - 33"
    have "find_utf8_start name ?goal \<le> ?goal" by (rule find_utf8_start_le)
    with 3 True show ?thesis
      unfolding e truncate_result [OF 3(2,1)] by (subst truncate_result) (auto simp: Let_def length_md5_digest)
  qed (use True e in \<open>auto simp: iso_truncate_rr_name_def Let_def\<close>)
qed

text \<open>Witness: a name of forty characters of two bytes each, cut at 64 bytes.\<close>

theorem iso_truncate_rr_name_correct_witness:
  "\<exists>k m. snd (iso_truncate_rr_name 1 64 (concat (replicate 40 [0xc3, 0xa4]))) =
     concat (take k (replicate 40 [0xc3, 0xa4])) @ replicate m (char_byte CHR ''_'') @ [char_byte CHR '':''] @
       iso_util_bin_to_hex (md5_digest (take 4095 (concat (replicate 40 [0xc3, 0xa4])))) \<and>
     2 * k + m = 31"
proof -
  let ?cs = "replicate 40 [0xc3, 0xa4] :: byte list list"
  have "list_all utf8_char ?cs"
    by (simp add: utf8_char_def utf8_start_def utf8_tail_def list_all_iff)
  moreover have len: "length (concat (replicate n [0xc3, 0xa4 :: byte])) = 2 * n" for n by (induction n) auto
  ultimately obtain k m where km: "iso_truncate_rr_name 1 64 (concat ?cs) =
      (Inr 1, concat (take k ?cs) @ replicate m (char_byte CHR ''_'') @ [char_byte CHR '':''] @
        iso_util_bin_to_hex (md5_digest (take 4095 (concat ?cs))))"
      "length (concat (take k ?cs)) + m + 33 = 64"
    using iso_truncate_rr_name_correct [of ?cs 1 64] by auto
  have "2 * min k 40 + m = 31" using km(2) len [of "min k 40"] by (simp add: take_replicate)
  with km(1) show ?thesis by (intro exI [of _ "min k 40"] exI [of _ m]) (simp add: take_replicate)
qed

theorem iso_truncate_leaf_name_cases_witness:
  "case iso_truncate_leaf_name 1 64 [65, 66] of (Inr r, name') \<Rightarrow> r = 1 \<and> name' = [65, 66] | (Inl e, name') \<Rightarrow> False"
  using iso_truncate_leaf_name_cases [where mode = 1 and len = 64 and name = "[65, 66]"] by (auto split: prod.splits sum.splits)

end
