(* ===== verification/ChecksumTag.thy ===== *)
theory ChecksumTag
  imports Complex_Main UtilText
begin

text \<open>
  The checksum tags that libisofs puts into an image: \<open>iso_md5_write_tag\<close> and
  \<open>iso_md5_write_scdbackup_tag\<close> of \<open>libisofs/md5.c\<close> with \<open>iso_write\<close> of \<open>libisofs/ecma119.c\<close>, and
  the functions that recognize a tag when the image is loaded, \<open>iso_util_decode_md5_tag\<close> and
  \<open>iso_util_eval_md5_tag\<close> of \<open>libisofs/util.c\<close>. A block is a byte list; the memory after it
  is taken to be NUL. \<open>sscanf\<close> with \<open>%lf\<close> is a parameter. Messages are left out.
\<close>

section \<open>Reading text\<close>

text \<open>\<open>strstr\<close>: the part of the C string from the first occurrence on.\<close>

fun strstr :: "byte list \<Rightarrow> byte list \<Rightarrow> byte list option" where
  "strstr [] needle = (if needle = [] then Some [] else None)"
| "strstr (b # bs) needle =
     (if starts_with (b # bs) needle then Some (b # bs)
      else if b = 0 then None else strstr bs needle)"

text \<open>\<open>num\<close> is the number that \<open>sscanf\<close> leaves in the variable.\<close>

definition iso_util_dec_to_uint32 :: "(byte list \<Rightarrow> rat) \<Rightarrow> byte list \<Rightarrow> u32 option" where
  "iso_util_dec_to_uint32 scan_lf dec =
     (let num = scan_lf dec
      in if num < 0 \<or> num > 4294967295 then None else Some (word_of_int (floor num)))"

definition tag_magic :: "nat \<Rightarrow> byte list" where
  "tag_magic tag_type =
     bytes_of ([[], ''libisofs_checksum_tag_v1'', ''libisofs_sb_checksum_tag_v1'',
                ''libisofs_tree_checksum_tag_v1'', ''libisofs_rlsb32_checksum_tag_v1''] ! tag_type)"

definition iso_util_tag_magic :: "int \<Rightarrow> (iso_error + nat) \<times> (byte list \<times> nat) option" where
  "iso_util_tag_magic tag_type =
     (if tag_type < 0 \<or> tag_type > 4 then (Inl ISO_WRONG_ARG_VALUE, None)
      else (Inr 4, Some (tag_magic (nat tag_type), [0, 24, 27, 29, 31] ! nat tag_type)))"

lemma length_tag_magic: "m \<le> 4 \<Longrightarrow> length (tag_magic m) \<le> 31"
  by (auto simp: tag_magic_def bytes_of_def le_Suc_eq numeral_eq_Suc)

lemma magic_length: "m \<le> 4 \<Longrightarrow> length (tag_magic m) = [0, 24, 27, 29, 31] ! m"
  by (auto simp: tag_magic_def bytes_of_def le_Suc_eq numeral_eq_Suc)

record tag_info =
  ti_type :: nat
  ti_pos :: u32
  ti_start :: u32
  ti_size :: u32
  ti_next :: u32
  ti_md5 :: "byte list"

text \<open>The search for a key and the number after it; the rest of the text starts at the key.\<close>

definition scan_key :: "(byte list \<Rightarrow> rat) \<Rightarrow> byte list \<Rightarrow> string \<Rightarrow> (u32 \<times> byte list) option" where
  "scan_key scan_lf cpt key =
     (case strstr cpt (bytes_of key) of
        None \<Rightarrow> None
      | Some c \<Rightarrow>
          (case iso_util_dec_to_uint32 scan_lf (drop (length key) c) of
             None \<Rightarrow> None
           | Some v \<Rightarrow> Some (v, c)))"

text \<open>From \<open>md5=\<close> on: the sum of the range, and the check of the tag's own sum.\<close>

definition decode_sums :: "byte list \<Rightarrow> byte list \<Rightarrow> byte \<Rightarrow> tag_info \<Rightarrow> (iso_error + nat) \<times> tag_info" where
  "decode_sums data cpt u ti =
     (case strstr cpt (bytes_of ''md5='') of
        None \<Rightarrow> (Inr 0, ti)
      | Some c \<Rightarrow>
          (case iso_util_hex_to_bin (drop 4 c) 16 u of (md5, ok) \<Rightarrow>
             let ti1 = ti\<lparr>ti_md5 := md5\<rparr>
             in if \<not> ok \<or> length md5 \<noteq> 16 then (Inr 0, ti1)
                else let cpt1 = drop (4 + 32) c
                     in case iso_md5_start True None of
                          (Inl e, _) \<Rightarrow> (Inl e, ti1)
                        | (Inr _, ctx) \<Rightarrow>
                            (let ctx1 = snd (iso_md5_compute ctx (take (length data - length cpt1) data));
                                 tag_md5 = (case fst (iso_md5_end ctx1) of Inr (Some r) \<Rightarrow> r | _ \<Rightarrow> [])
                             in case strstr cpt1 (bytes_of ''self='') of
                                  None \<Rightarrow> (Inr 0, ti1)
                                | Some s \<Rightarrow>
                                    (case iso_util_hex_to_bin (drop 5 s) 16 u of (self_md5, ok) \<Rightarrow>
                                       if \<not> ok \<or> length self_md5 \<noteq> 16 then (Inr 0, ti1)
                                       else if self_md5 \<noteq> tag_md5 then (Inl ISO_MD5_AREA_CORRUPTED, ti1)
                                       else if byte_at s (5 + 32) \<noteq> 10 then (Inr 0, ti1)
                                       else (Inr 1, ti1)))))"

definition iso_util_decode_md5_tag ::
  "(byte list \<Rightarrow> rat) \<Rightarrow> byte list \<Rightarrow> nat \<Rightarrow> byte \<Rightarrow> tag_info \<Rightarrow> (iso_error + nat) \<times> tag_info" where
  "iso_util_decode_md5_tag scan_lf data flag u ti0 =
     (let ti1 = ti0\<lparr>ti_next := 0\<rparr>; mode = flag AND 255
      in if mode > 4 then (Inl ISO_WRONG_ARG_VALUE, ti1)
         else case find (\<lambda>i. starts_with data (tag_magic i)) (if mode > 0 then [mode] else [1, 2, 3, 4]) of
                None \<Rightarrow> (Inr 0, ti1)
              | Some i \<Rightarrow>
                  let ti2 = ti1\<lparr>ti_type := i\<rparr>; cpt = drop (length (tag_magic i) + 1) data
                  in if \<not> starts_with cpt (bytes_of ''pos='') then (Inr 0, ti2)
                     else case iso_util_dec_to_uint32 scan_lf (drop 4 cpt) of
                       None \<Rightarrow> (Inr 0, ti2)
                     | Some p \<Rightarrow>
                     case scan_key scan_lf (drop 4 cpt) ''range_start='' of
                       None \<Rightarrow> (Inr 0, ti2\<lparr>ti_pos := p\<rparr>)
                     | Some (st, c1) \<Rightarrow>
                     case scan_key scan_lf c1 ''range_size='' of
                       None \<Rightarrow> (Inr 0, ti2\<lparr>ti_pos := p, ti_start := st\<rparr>)
                     | Some (sz, c2) \<Rightarrow>
                       let ti3 = ti2\<lparr>ti_pos := p, ti_start := st, ti_size := sz\<rparr>
                       in if i = 2 \<or> i = 3 \<or> i = 4
                          then case scan_key scan_lf c2 (if i = 4 then ''session_start='' else ''next='') of
                                 None \<Rightarrow> (Inr 0, ti3)
                               | Some (nx, c3) \<Rightarrow> decode_sums data c3 u (ti3\<lparr>ti_next := nx\<rparr>)
                          else decode_sums data c2 u ti3)"

text \<open>\<open>iso_util_eval_md5_tag\<close>: the result, the type and the next tag; the last two are stored
  through pointers.\<close>

definition iso_util_eval_md5_tag ::
  "(byte list \<Rightarrow> rat) \<Rightarrow> byte list \<Rightarrow> nat \<Rightarrow> u32 \<Rightarrow> md5_ctx \<Rightarrow> u32 \<Rightarrow> byte \<Rightarrow> tag_info \<Rightarrow>
     (iso_error + nat) \<times> nat \<times> u32" where
  "iso_util_eval_md5_tag scan_lf block desired lba ctx ctx_start_lba u ti0 =
     (case iso_util_decode_md5_tag scan_lf block 0 u (ti0\<lparr>ti_type := 0\<rparr>) of (decode_ret, ti) \<Rightarrow>
        (if decode_ret \<noteq> Inr 1 \<and> decode_ret \<noteq> Inl ISO_MD5_AREA_CORRUPTED then Inr 0
         else if ti_type ti > 30 then Inr 0
         else if decode_ret = Inl ISO_MD5_AREA_CORRUPTED then decode_ret
         else if \<not> bit desired (ti_type ti) then Inr 0
         else if ti_pos ti \<noteq> lba
         then (if ti_type ti = 2 \<and> lba < 32
               then if ti_start ti - (ti_pos ti - lba) \<noteq> ctx_start_lba then Inl ISO_MD5_TAG_MISPLACED
                    else Inl ISO_MD5_TAG_COPIED
               else Inl ISO_MD5_TAG_MISPLACED)
         else if ti_start ti \<noteq> ctx_start_lba then Inl ISO_MD5_TAG_MISPLACED
         else case iso_md5_clone True ctx None of
                (Inl e, _) \<Rightarrow> Inl e
              | (Inr _, cloned_ctx) \<Rightarrow>
                  (case fst (iso_md5_end cloned_ctx) of
                     Inr (Some cloned_md5) \<Rightarrow>
                       if \<not> iso_md5_match cloned_md5 (ti_md5 ti) then Inl ISO_MD5_TAG_MISMATCH else Inr 1
                   | _ \<Rightarrow> Inr 1),
         ti_type ti, ti_next ti))"

section \<open>Writing\<close>

text \<open>The part of \<open>Ecma119Image\<close> that tags and block output use; \<open>written\<close> is what the ring buffer
  has taken.\<close>

record ecma119_target =
  total_size :: int
  bytes_written :: int
  percent_written :: u32
  written :: "byte list"
  checksum_ctx :: "md5_ctx option"
  checksum_counter :: int
  checksum_range_start :: u32
  checksum_range_size :: u32
  checksum_tag_pos :: u32
  checksum_sb_tag_pos :: u32
  checksum_tree_tag_pos :: u32
  checksum_rlsb_tag_pos :: u32
  ms_block :: u32
  scdbackup_tag_parm :: "byte list"
  scdbackup_tag_written :: "byte list option"
  opts_overwrite :: "byte list option"

text \<open>\<open>iso_write\<close> without libjte; \<open>ring_ret\<close> is what \<open>iso_ring_buffer_write\<close> returns.\<close>

definition iso_write ::
  "(ecma119_target \<Rightarrow> byte list \<Rightarrow> iso_error + nat) \<Rightarrow> ecma119_target \<Rightarrow> byte list \<Rightarrow>
     (iso_error + nat) \<times> ecma119_target" where
  "iso_write ring_ret t buf =
     (if bytes_written t + int (length buf) > total_size t then (Inl ISO_ASSERT_FAILURE, t)
      else case ring_ret t buf of
             Inl e \<Rightarrow> (Inl e, t)
           | Inr r \<Rightarrow>
               if r = 0 then (Inl ISO_CANCELED, t)
               else let t1 = t\<lparr>written := written t @ buf\<rparr>;
                        t2 = (if checksum_ctx t1 \<noteq> None
                              then t1\<lparr>checksum_counter := checksum_counter t1 + int (length buf),
                                      checksum_ctx := snd (iso_md5_compute (checksum_ctx t1) buf)\<rparr>
                              else t1)
                    in (Inr 1,
                        if total_size t2 \<noteq> 0
                        then let bw = bytes_written t2 + int (length buf);
                                 kbw = (word_of_int (bw div 1024) :: u32);
                                 kbt = (word_of_int (total_size t2 div 1024) :: u32);
                                 percent = (kbw * 100) div kbt
                             in t2\<lparr>bytes_written := bw,
                                   percent_written := (if percent_written t2 + 5 \<le> percent then percent
                                                       else percent_written t2)\<rparr>
                        else t2))"

definition u32_text :: "u32 \<Rightarrow> byte list" where
  "u32_text x = bytes_of (dec_digits (unat x))"

text \<open>The digest of the context, and of a text in a new context.\<close>

definition clone_digest :: "md5_ctx option \<Rightarrow> byte list" where
  "clone_digest ctx =
     (case fst (iso_md5_end (snd (iso_md5_clone True (the ctx) None))) of Inr (Some r) \<Rightarrow> r | _ \<Rightarrow> [])"

definition text_digest :: "byte list \<Rightarrow> byte list" where
  "text_digest text =
     (case fst (iso_md5_end (snd (iso_md5_compute (snd (iso_md5_start True None)) text))) of
        Inr (Some r) \<Rightarrow> r | _ \<Rightarrow> [])"

text \<open>Position, start and size for each type of tag.\<close>

definition tag_range :: "ecma119_target \<Rightarrow> nat \<Rightarrow> u32 \<times> u32 \<times> u32" where
  "tag_range t mode =
     (if mode = 1 then (checksum_tag_pos t, checksum_range_start t, checksum_range_size t)
      else let pos = (if mode = 2 then checksum_sb_tag_pos t
                      else if mode = 3 then checksum_tree_tag_pos t else checksum_rlsb_tag_pos t);
               start = (if mode = 4 then pos - pos mod 32 else checksum_range_start t)
           in (pos, start, pos - start))"

definition tag_next :: "ecma119_target \<Rightarrow> nat \<Rightarrow> byte list" where
  "tag_next t mode =
     (if mode = 2 then bytes_of '' next='' @ u32_text (checksum_tree_tag_pos t)
      else if mode = 3 then bytes_of '' next='' @ u32_text (checksum_tag_pos t)
      else if mode = 4 then bytes_of '' session_start='' @ u32_text (ms_block t)
      else [])"

text \<open>The text of the tag up to its sum, and all of it.\<close>

definition tag_head :: "ecma119_target \<Rightarrow> nat \<Rightarrow> byte list" where
  "tag_head t mode =
     (case tag_range t mode of (pos, start, sz) \<Rightarrow>
        tag_magic mode @ bytes_of '' pos='' @ u32_text pos @ bytes_of '' range_start='' @ u32_text start @
        bytes_of '' range_size='' @ u32_text sz @ tag_next t mode @ bytes_of '' md5='' @
        iso_util_bin_to_hex (clone_digest (checksum_ctx t)))"

definition tag_text :: "ecma119_target \<Rightarrow> nat \<Rightarrow> byte list" where
  "tag_text t mode =
     (let head = tag_head t mode
      in head @ bytes_of '' self='' @ iso_util_bin_to_hex (text_digest head) @ [10])"

definition tag_block :: "byte list \<Rightarrow> byte list" where
  "tag_block text = text @ replicate (2048 - length text) 0"

text \<open>The additional line for scdbackup; \<open>text\<close> is the text in the block so far.\<close>

definition iso_md5_write_scdbackup_tag :: "ecma119_target \<Rightarrow> byte list \<Rightarrow> byte list \<times> ecma119_target" where
  "iso_md5_write_scdbackup_tag t text =
     (let t1 = t\<lparr>checksum_ctx := snd (iso_md5_compute (checksum_ctx t) text)\<rparr>;
          md5 = clone_digest (checksum_ctx t1);
          pos = unat (checksum_tag_pos t1) * 2048 + length text;
          postext = bytes_of (if pos \<ge> 1000000000
                              then dec_digits (pos div 1000000000) @ zero_pad 9 (pos mod 1000000000)
                              else dec_digits pos);
          rec_text = scdbackup_tag_parm t1 @ [32] @ postext @ [32] @ iso_util_bin_to_hex md5;
          line = bytes_of ''scdbackup_checksum_tag_v0.1 '' @ postext @ [32] @ bytes_of (dec_digits (length rec_text)) @
                 [32] @ rec_text @ [32] @ iso_util_bin_to_hex (text_digest rec_text) @ [10]
      in (text @ line,
          t1\<lparr>scdbackup_tag_written := map_option (\<lambda>buf. buf_put buf 0 line) (scdbackup_tag_written t1)\<rparr>))"

definition iso_md5_write_tag ::
  "(ecma119_target \<Rightarrow> byte list \<Rightarrow> iso_error + nat) \<Rightarrow> ecma119_target \<Rightarrow> nat \<Rightarrow>
     (iso_error + nat) \<times> ecma119_target" where
  "iso_md5_write_tag ring_ret t flag =
     (let mode = flag AND 255
      in if mode < 1 \<or> mode > 4 then (Inl ISO_WRONG_ARG_VALUE, t)
         else let text = tag_text t mode;
                  (text1, t1) = (if mode = 1 \<and> scdbackup_tag_parm t \<noteq> [] \<and> ms_block t = 0
                                 then iso_md5_write_scdbackup_tag t text else (text, t));
                  block = tag_block text1
              in if mode = 4
                 then (Inr 1, t1\<lparr>opts_overwrite := map_option
                         (\<lambda>ow. buf_put ow (unat (checksum_rlsb_tag_pos t1 * 2048)) block) (opts_overwrite t1)\<rparr>)
                 else case iso_write ring_ret t1 block of
                        (Inl e, t2) \<Rightarrow> (Inl e, t2)
                      | (Inr _, t2) \<Rightarrow> (Inr 1, t2))"

section \<open>Finding the keys\<close>

lemma bytes_of_append [simp]: "bytes_of (s @ t) = bytes_of s @ bytes_of t"
  by (simp add: bytes_of_def)

declare length_bytes_of [simp]

lemma strstr_here: "needle \<noteq> [] \<Longrightarrow> strstr (needle @ rest) needle = Some (needle @ rest)"
  by (cases needle) simp_all

lemma strstr_skip:
  "hd needle \<notin> set pre \<Longrightarrow> 0 \<notin> set pre \<Longrightarrow> needle \<noteq> [] \<Longrightarrow>
     strstr (pre @ needle @ rest) needle = Some (needle @ rest)"
proof (induction pre)
  case (Cons b pre)
  then obtain c cs where "needle = c # cs" by (cases needle) auto
  with Cons show ?case by auto
qed (simp add: strstr_here)

lemma digit_byte:
  "b \<in> set (u32_text x) \<Longrightarrow> 48 \<le> b \<and> b \<le> 57"
proof -
  assume "b \<in> set (u32_text x)"
  then obtain d where d: "d < 10" "b = char_byte (digit_char d)"
    using set_dec_digits by (auto simp: u32_text_def bytes_of_def)
  then show ?thesis using uint_digit [OF d(1)] by (simp add: word_le_def)
qed

lemma strstr_after_number:
  assumes "needle \<noteq> []" and "57 < hd needle"
  shows "strstr (u32_text x @ 32 # needle @ rest) needle = Some (needle @ rest)"
proof -
  have "b \<noteq> hd needle \<and> b \<noteq> 0" if "b \<in> set (u32_text x)" for b
  proof -
    have b: "48 \<le> b" "b \<le> 57" using digit_byte [OF that] by simp_all
    from b(2) assms(2) have "b < hd needle" by (rule le_less_trans)
    moreover have "b \<noteq> 0" using b(1) by auto
    ultimately show ?thesis by auto
  qed
  moreover have "hd needle \<noteq> 32" using assms(2) by auto
  ultimately show ?thesis using strstr_skip [of needle "u32_text x @ [32]" rest] assms(1) by auto
qed

lemma key_range_size:
  "strstr (bytes_of ''range_start='' @ u32_text x @ 32 # bytes_of ''range_size='' @ r) (bytes_of ''range_size='') =
     Some (bytes_of ''range_size='' @ r)"
  using strstr_after_number [of "bytes_of ''range_size=''" x r] by (simp add: bytes_of_def char_byte_def)

lemma key_next:
  "strstr (bytes_of ''range_size='' @ u32_text x @ 32 # bytes_of ''next='' @ r) (bytes_of ''next='') =
     Some (bytes_of ''next='' @ r)"
  using strstr_after_number [of "bytes_of ''next=''" x r] by (simp add: bytes_of_def char_byte_def)

lemma key_session_start:
  "strstr (bytes_of ''range_size='' @ u32_text x @ 32 # bytes_of ''session_start='' @ r) (bytes_of ''session_start='') =
     Some (bytes_of ''session_start='' @ r)"
  using strstr_after_number [of "bytes_of ''session_start=''" x r] by (simp add: bytes_of_def char_byte_def)

lemma key_md5:
  assumes "key \<in> {''range_size='', ''next='', ''session_start=''}"
  shows "strstr (bytes_of key @ u32_text x @ 32 # bytes_of ''md5='' @ r) (bytes_of ''md5='') = Some (bytes_of ''md5='' @ r)"
  using assms strstr_after_number [of "bytes_of ''md5=''" x r] by (auto simp: bytes_of_def char_byte_def)

text \<open>What the reader needs of \<open>sscanf\<close>: a decimal number in front of a blank is read exactly.\<close>

definition scans_decimals :: "(byte list \<Rightarrow> rat) \<Rightarrow> bool" where
  "scans_decimals scan_lf \<longleftrightarrow>
     (\<forall>n rest. n < 2 ^ 32 \<longrightarrow> scan_lf (bytes_of (dec_digits n) @ 32 # rest) = of_nat n)"

lemma dec_to_uint32_text:
  assumes "scans_decimals scan_lf"
  shows "iso_util_dec_to_uint32 scan_lf (u32_text x @ 32 # rest) = Some x"
proof -
  define n where "n = unat x"
  have n: "n < 2 ^ 32" and x: "word_of_int (int n) = x" using unsigned_less [of x] by (simp_all add: n_def)
  have "scan_lf (u32_text x @ 32 # rest) = of_nat n"
    using assms n by (simp add: scans_decimals_def u32_text_def n_def [symmetric])
  moreover have "(of_nat n :: rat) \<le> of_nat 4294967295" unfolding of_nat_le_iff using n by simp
  ultimately show ?thesis using x by (simp add: iso_util_dec_to_uint32_def Let_def)
qed

lemma scan_key_text:
  assumes "scans_decimals scan_lf"
    and "strstr cpt (bytes_of key) = Some (bytes_of key @ u32_text x @ 32 # rest)"
  shows "scan_key scan_lf cpt key = Some (x, bytes_of key @ u32_text x @ 32 # rest)"
  using assms(2) dec_to_uint32_text [OF assms(1), of x rest] by (simp add: scan_key_def)

section \<open>Decoding what was written\<close>

lemma length_clone_digest: "length (clone_digest (Some c)) = 16 \<longleftrightarrow> length (snd (md5_final c)) = 16"
  by (simp add: clone_digest_def iso_md5_clone_ok iso_md5_end_Some)

lemma clone_digest_holds: "md5_holds c m \<Longrightarrow> clone_digest (Some c) = md5_digest m"
  using md5_final_digest [of c m] by (simp add: clone_digest_def iso_md5_clone_ok iso_md5_end_Some)

lemma text_digest_md5: "length tx < 2 ^ 31 \<Longrightarrow> text_digest tx = md5_digest tx"
  using md5.once [of tx]
  by (simp add: text_digest_def iso_md5_start_ok iso_md5_compute_Some iso_md5_end_Some md5_feed_def)

lemma hex_to_bin_16: "length bs = 16 \<Longrightarrow> iso_util_hex_to_bin (iso_util_bin_to_hex bs @ rest) 16 u = (bs, True)"
  using hex_loop_hex [of bs rest u] by (cases bs) (simp_all add: iso_util_hex_to_bin_def Let_def)

lemma decode_sums_text:
  assumes md5: "length md5 = 16" and len: "length pre < 2 ^ 30"
    and cpt: "strstr cpt (bytes_of ''md5='') = Some (bytes_of ''md5='' @ iso_util_bin_to_hex md5 @ tail)"
    and data: "data = pre @ tail"
    and tail: "tail = bytes_of '' self='' @ iso_util_bin_to_hex (text_digest pre) @ [10] @ rest"
  shows "decode_sums data cpt u ti = (Inr 1, ti\<lparr>ti_md5 := md5\<rparr>)"
proof -
  have pre: "take (length data - length tail) data = pre" by (simp add: data)
  have drop36: "drop (4 + 32) (bytes_of ''md5='' @ iso_util_bin_to_hex md5 @ tail) = tail"
    using md5 by (simp add: iso_util_bin_to_hex_def [symmetric])
  have dig: "length (text_digest pre) = 16"
    using text_digest_md5 [of pre] len by (simp add: length_md5_digest)
  have "strstr ([32] @ bytes_of ''self='' @ iso_util_bin_to_hex (text_digest pre) @ [10] @ rest) (bytes_of ''self='') =
      Some (bytes_of ''self='' @ iso_util_bin_to_hex (text_digest pre) @ [10] @ rest)"
    by (rule strstr_skip) (simp_all add: bytes_of_def char_byte_def)
  moreover have "bytes_of '' self='' = [32] @ bytes_of ''self=''" by (simp add: bytes_of_def char_byte_def)
  ultimately have self: "strstr tail (bytes_of ''self='') =
      Some (bytes_of ''self='' @ iso_util_bin_to_hex (text_digest pre) @ [10] @ rest)"
    by (simp add: tail)
  have newline: "byte_at (bytes_of ''self='' @ iso_util_bin_to_hex (text_digest pre) @ [10] @ rest) (5 + 32) = 10"
    using dig by (simp add: byte_at_def nth_append)
  have td: "(case fst (iso_md5_end (snd (iso_md5_compute (Some (md5_init md5_fresh)) pre))) of
      Inr (Some r) \<Rightarrow> r | _ \<Rightarrow> []) = text_digest pre"
    by (simp add: text_digest_def iso_md5_start_ok)
  have h1: "iso_util_hex_to_bin (drop 4 (bytes_of ''md5='' @ iso_util_bin_to_hex md5 @ tail)) 16 u = (md5, True)"
    using hex_to_bin_16 [OF md5] by simp
  have h2: "iso_util_hex_to_bin (drop 5 (bytes_of ''self='' @ iso_util_bin_to_hex (text_digest pre) @ [10] @ rest)) 16 u =
      (text_digest pre, True)"
    using hex_to_bin_16 [OF dig] by simp
  show ?thesis
    unfolding decode_sums_def cpt option.case h1 prod.case drop36 Let_def iso_md5_start_ok sum.case pre self h2 td newline
    using md5 dig by simp
qed

text \<open>The first words of a tag: its type is recognized, and the number after \<open>pos=\<close> is found.\<close>

lemma find_magic:
  assumes "1 \<le> mode" "mode \<le> 4" and "m = 0 \<or> m = mode"
  shows "find (\<lambda>i. starts_with (tag_magic mode @ rest) (tag_magic i)) (if m > 0 then [m] else [1, 2, 3, 4]) = Some mode"
proof -
  have ne: "\<not> starts_with (tag_magic 2 @ rest) (tag_magic 1)" "\<not> starts_with (tag_magic 3 @ rest) (tag_magic 1)"
    "\<not> starts_with (tag_magic 4 @ rest) (tag_magic 1)" "\<not> starts_with (tag_magic 3 @ rest) (tag_magic 2)"
    "\<not> starts_with (tag_magic 4 @ rest) (tag_magic 2)" "\<not> starts_with (tag_magic 4 @ rest) (tag_magic 3)"
    by (simp_all add: tag_magic_def bytes_of_def char_byte_def)
  consider "mode = 1" | "mode = 2" | "mode = 3" | "mode = 4" using assms(1,2) by linarith
  then show ?thesis using assms(3) ne by cases (elim disjE; simp; fail)+
qed

lemma bytes_of_blank [simp]: "bytes_of (CHR '' '' # s) = 32 # bytes_of s"
  by (simp add: bytes_of_def char_byte_def)

lemma length_u32_text: "length (u32_text x) \<le> 10"
proof -
  have "unat x < 2 ^ LENGTH(32)" by (rule unsigned_less)
  then show ?thesis using length_dec_digits [of 10 "unat x"] by (simp add: u32_text_def)
qed

lemma length_tag_head:
  assumes "mode \<le> 4" and "length (clone_digest (checksum_ctx t)) = 16"
  shows "length (tag_head t mode) \<le> 170"
proof -
  obtain pos st sz where range: "tag_range t mode = (pos, st, sz)" by (cases "tag_range t mode") auto
  have "length (tag_next t mode) \<le> 26"
    using length_u32_text [THEN order_trans, of 11] length_u32_text [THEN order_trans, of 20] by (simp add: tag_next_def)
  then show ?thesis
    using assms length_tag_magic [of mode] length_u32_text [of pos] length_u32_text [of st] length_u32_text [of sz]
    by (simp add: tag_head_def range)
qed

lemma length_tag_text:
  assumes "mode \<le> 4" and "length (clone_digest (checksum_ctx t)) = 16"
  shows "length (tag_text t mode) \<le> 210"
  using length_tag_head [OF assms] text_digest_md5 [of "tag_head t mode"]
  by (simp add: tag_text_def Let_def length_md5_digest)

lemma key_range_start:
  "strstr (u32_text x @ 32 # bytes_of ''range_start='' @ r) (bytes_of ''range_start='') = Some (bytes_of ''range_start='' @ r)"
  by (rule strstr_after_number) (simp_all add: bytes_of_def char_byte_def)

definition tag_infos :: "ecma119_target \<Rightarrow> nat \<Rightarrow> tag_info" where
  "tag_infos t mode =
     (case tag_range t mode of (pos, start, sz) \<Rightarrow>
        \<lparr>ti_type = mode, ti_pos = pos, ti_start = start, ti_size = sz,
         ti_next = (if mode = 2 then checksum_tree_tag_pos t else if mode = 3 then checksum_tag_pos t
                    else if mode = 4 then ms_block t else 0),
         ti_md5 = clone_digest (checksum_ctx t)\<rparr>)"

lemma decode_tag_text:
  assumes mode: "1 \<le> mode" "mode \<le> 4" and flag: "flag AND 255 = 0 \<or> flag AND 255 = mode"
    and scan: "scans_decimals scan_lf" and md5: "length (clone_digest (checksum_ctx t)) = 16"
  shows "iso_util_decode_md5_tag scan_lf (tag_text t mode @ rest) flag u ti = (Inr 1, tag_infos t mode)"
proof -
  obtain pos st sz where range: "tag_range t mode = (pos, st, sz)" by (cases "tag_range t mode") auto
  define head where "head = tag_head t mode"

  define ss where "ss = bytes_of '' self='' @ iso_util_bin_to_hex (text_digest head) @ [10] @ rest"
  define m5 where "m5 = bytes_of ''md5='' @ iso_util_bin_to_hex (clone_digest (checksum_ctx t)) @ ss"
  define nx where "nx = tag_next t mode @ 32 # m5"
  define rs where "rs = bytes_of ''range_size='' @ u32_text sz @ nx"
  define rg where "rg = bytes_of ''range_start='' @ u32_text st @ 32 # rs"
  define ps where "ps = bytes_of ''pos='' @ u32_text pos @ 32 # rg"
  have data: "tag_text t mode @ rest = tag_magic mode @ 32 # ps"
    by (simp add: tag_text_def Let_def tag_head_def range head_def ss_def m5_def nx_def rs_def rg_def ps_def)
  have head_data: "tag_text t mode @ rest = head @ ss"
    by (simp add: tag_text_def Let_def head_def ss_def)
  have hs: "tag_magic mode @ 32 # ps = head @ ss" using data head_data by simp
  have find1: "find (\<lambda>i. starts_with (tag_magic mode @ 32 # ps) (tag_magic i))
      (if 0 < flag AND 255 then [flag AND 255] else [1, 2, 3, 4]) = Some mode"
    by (rule find_magic [OF mode flag])
  have m4: "\<not> 4 < flag AND 255" using mode flag by auto
  have dec: "iso_util_dec_to_uint32 scan_lf (u32_text x @ 32 # r) = Some x" for x r
    by (rule dec_to_uint32_text [OF scan])
  have start: "scan_key scan_lf (u32_text pos @ 32 # rg) ''range_start='' = Some (st, rg)"
    unfolding rg_def by (rule scan_key_text [OF scan key_range_start])
  obtain nxw where nxw: "nx = 32 # nxw" by (cases nx) (auto simp: nx_def tag_next_def split: if_splits)
  have sz: "scan_key scan_lf rg ''range_size='' = Some (sz, rs)"
    unfolding rg_def rs_def nxw by (rule scan_key_text [OF scan key_range_size])
  have len: "length head < 2 ^ 30" using length_tag_head [OF mode(2) md5] by (simp add: head_def)
  have d1: "drop (length (tag_magic mode) + 1) (tag_magic mode @ 32 # ps) = ps" by simp
  have d2: "starts_with ps (bytes_of ''pos='')" by (simp add: ps_def)
  have d3: "drop 4 ps = u32_text pos @ 32 # rg" by (simp add: ps_def)
  have fin: "decode_sums (head @ ss) cpt u ti' = (Inr 1, ti'\<lparr>ti_md5 := clone_digest (checksum_ctx t)\<rparr>)"
    if "strstr cpt (bytes_of ''md5='') = Some m5" for cpt ti'
    by (rule decode_sums_text [OF md5 len that [unfolded m5_def] refl ss_def])
  have "iso_util_decode_md5_tag scan_lf (tag_magic mode @ 32 # ps) flag u ti =
     (let ti3 = ti\<lparr>ti_next := 0, ti_type := mode, ti_pos := pos, ti_start := st, ti_size := sz\<rparr>
      in if mode = 2 \<or> mode = 3 \<or> mode = 4
         then case scan_key scan_lf rs (if mode = 4 then ''session_start='' else ''next='') of
                None \<Rightarrow> (Inr 0, ti3)
              | Some (n, c3) \<Rightarrow> decode_sums (head @ ss) c3 u (ti3\<lparr>ti_next := n\<rparr>)
         else decode_sums (head @ ss) rs u ti3)"
    using m4 unfolding hs [symmetric]
    by (simp only: iso_util_decode_md5_tag_def Let_def find1 d1 d2 d3 dec start sz option.case prod.case
        if_False not_True_eq_False)


  note decoded = this
  consider "mode = 1" | "mode = 4" | "mode = 2 \<or> mode = 3" using mode by linarith
  then show ?thesis
  proof cases
    case 1
    have "strstr rs (bytes_of ''md5='') = Some m5"
      using key_md5 [of "''range_size=''" sz] 1 by (simp add: rs_def nx_def tag_next_def m5_def)
    from fin [OF this] show ?thesis using decoded range data 1 by (simp add: tag_infos_def Let_def)
  next
    case 2
    have nx4: "nx = 32 # bytes_of ''session_start='' @ u32_text (ms_block t) @ 32 # m5"
      using 2 by (simp add: nx_def tag_next_def)
    have "scan_key scan_lf rs ''session_start='' = Some (ms_block t, bytes_of ''session_start='' @ u32_text (ms_block t) @ 32 # m5)"
      unfolding rs_def nx4 by (rule scan_key_text [OF scan key_session_start])
    moreover have "strstr (bytes_of ''session_start='' @ u32_text (ms_block t) @ 32 # m5) (bytes_of ''md5='') = Some m5"
      unfolding m5_def by (rule key_md5) simp
    ultimately show ?thesis using decoded fin range data 2 by (simp add: tag_infos_def Let_def)
  next
    case 3
    define x where "x = (if mode = 2 then checksum_tree_tag_pos t else checksum_tag_pos t)"
    have nx3: "nx = 32 # bytes_of ''next='' @ u32_text x @ 32 # m5"
      using 3 by (auto simp: nx_def tag_next_def x_def)
    have "scan_key scan_lf rs ''next='' = Some (x, bytes_of ''next='' @ u32_text x @ 32 # m5)"
      unfolding rs_def nx3 by (rule scan_key_text [OF scan key_next])
    moreover have "strstr (bytes_of ''next='' @ u32_text x @ 32 # m5) (bytes_of ''md5='') = Some m5"
      unfolding m5_def by (rule key_md5) simp
    moreover have "mode \<noteq> 4" using 3 by auto
    ultimately show ?thesis using decoded fin range data 3 by (auto simp: tag_infos_def Let_def x_def)
  qed
qed

section \<open>Properties\<close>

lemma tag_block_text: "\<exists>rest. tag_block (s @ line) = s @ rest"
  by (simp add: tag_block_def)

lemma iso_write_takes:
  "fst (iso_write ring_ret t buf) = Inr r \<Longrightarrow> written (snd (iso_write ring_ret t buf)) = written t @ buf"
  by (auto simp: iso_write_def Let_def split: if_splits sum.splits)


lemma compute_holds:
  "md5_holds c m \<Longrightarrow> length s < 2 ^ 31 \<Longrightarrow> \<exists>c'. iso_md5_compute (Some c) s = (Inr 1, Some c') \<and> md5_holds c' (m @ s)"
  using md5_update_holds [of c m s] by (auto simp: iso_md5_compute_Some)

lemma length_postext:
  "pos < 10 ^ 13 \<Longrightarrow>
     length (if pos \<ge> 1000000000 then dec_digits (pos div 1000000000) @ zero_pad 9 (pos mod 1000000000)
             else dec_digits pos) \<le> 13"
  using length_dec_digits [of 4 "pos div 1000000000"] length_dec_digits [of 9 pos] length_zero_pad [of 9 "pos mod 1000000000"]
  by (auto simp: less_mult_imp_div_less)

lemma scdbackup_line:
  assumes w: "iso_md5_write_scdbackup_tag t s = (s1, t1)" and parm: "length (scdbackup_tag_parm t) < 100"
    and s: "length s \<le> 250" and ctx: "checksum_ctx t = Some c" "md5_holds c m"
  shows "\<exists>line. s1 = s @ line" and "length s1 \<le> 1000" and "written t1 = written t"
proof -
  obtain c' where c': "iso_md5_compute (Some c) s = (Inr 1, Some c')" "md5_holds c' (m @ s)"
    using compute_holds [OF ctx(2), of s] s by auto
  define pos where "pos = unat (checksum_tag_pos t) * 2048 + length s"
  define postext where "postext = bytes_of (if pos \<ge> 1000000000
      then dec_digits (pos div 1000000000) @ zero_pad 9 (pos mod 1000000000) else dec_digits pos)"
  define rec_text where
    "rec_text = scdbackup_tag_parm t @ [32] @ postext @ [32] @ iso_util_bin_to_hex (md5_digest (m @ s))"
  have "unat (checksum_tag_pos t) < 2 ^ LENGTH(32)" by (rule unsigned_less)
  then have "pos < 10 ^ 13" using s by (simp add: pos_def)
  then have lp: "length postext \<le> 13" using length_postext [of pos] by (simp add: postext_def)
  then have lr: "length rec_text < 160" using parm by (simp add: rec_text_def length_md5_digest)
  then have ld: "length (dec_digits (length rec_text)) \<le> 3" using length_dec_digits [of 3 "length rec_text"] by simp
  have s1: "s1 = s @ bytes_of ''scdbackup_checksum_tag_v0.1 '' @ postext @ [32] @
      bytes_of (dec_digits (length rec_text)) @ [32] @ rec_text @ [32] @ iso_util_bin_to_hex (text_digest rec_text) @ [10]"
    using w clone_digest_holds [OF c'(2)]
    by (auto simp: iso_md5_write_scdbackup_tag_def Let_def ctx c'(1) pos_def postext_def rec_text_def)
  then show "\<exists>line. s1 = s @ line" by blast
  show "written t1 = written t" using w by (auto simp: iso_md5_write_scdbackup_tag_def Let_def)
  have "length (text_digest rec_text) = 16"
    using text_digest_md5 [of rec_text] lr by (simp add: length_md5_digest)
  then show "length s1 \<le> 1000" using s1 lp lr ld s by simp
qed

lemma write_tag_result:
  assumes w: "iso_md5_write_tag ring_ret t mode = (Inr r, t')" and mode: "mode \<in> {1, 2, 3}"
    and ctx: "checksum_ctx t = Some c" "md5_holds c m" and parm: "length (scdbackup_tag_parm t) < 100"
  obtains rest where "written t' = written t @ tag_text t mode @ rest" "length (tag_text t mode @ rest) = 2048"
proof -
  define s where "s = tag_text t mode"
  have md5: "length (clone_digest (checksum_ctx t)) = 16"
    using clone_digest_holds [OF ctx(2)] ctx(1) by (simp add: length_md5_digest)
  have s: "length s \<le> 210" using length_tag_text [OF _ md5, of mode] mode by (auto simp: s_def)
  have m: "mode AND 255 = mode" "mode \<noteq> 0" "mode \<le> 4" "mode \<noteq> 4" using mode by auto
  obtain s1 t1 where st: "(if mode = 1 \<and> scdbackup_tag_parm t \<noteq> [] \<and> ms_block t = 0
      then iso_md5_write_scdbackup_tag t s else (s, t)) = (s1, t1)" by fastforce
  have s1: "\<exists>line. s1 = s @ line" "length s1 \<le> 1000" "written t1 = written t"
    using st scdbackup_line [OF _ parm _ ctx, of s s1 t1] s by (auto split: if_splits)
  obtain x where x: "iso_write ring_ret t1 (tag_block s1) = (x, t')" "\<exists>r. x = Inr r"
    using w m s1 st [unfolded s_def]
    by (auto simp: iso_md5_write_tag_def Let_def s_def split: sum.splits prod.splits)
  have "written t' = written t1 @ tag_block s1"
    using iso_write_takes [of ring_ret t1 "tag_block s1"] x by auto
  moreover obtain line where "s1 = s @ line" using s1(1) by blast
  ultimately have "written t' = written t @ s @ (line @ replicate (2048 - length s1) 0)"
    and "length (s @ (line @ replicate (2048 - length s1) 0)) = 2048"
    using s1(2,3) by (simp_all add: tag_block_def)
  then show thesis using that unfolding s_def by blast
qed

text \<open>C22: A tag that \<open>iso_md5_write_tag\<close> writes is one block of 2048 bytes behind what was written
  before, and \<open>iso_util_decode_md5_tag\<close> recognizes it: it returns 1 and delivers the type, the
  position, the range and the next tag that the writer had, and the MD5 of the data that went
  through the writer's checksum context.\<close>

theorem iso_md5_write_tag_roundtrip:
  assumes "iso_md5_write_tag ring_ret t mode = (Inr r, t')" and "mode \<in> {1, 2, 3}"
    and "checksum_ctx t = Some c" "md5_holds c m" and "length (scdbackup_tag_parm t) < 100"
    and "scans_decimals scan_lf"
  shows "\<exists>block. written t' = written t @ block \<and> length block = 2048 \<and>
     iso_util_decode_md5_tag scan_lf block 0 u ti =
       (Inr 1, \<lparr>ti_type = mode, ti_pos = fst (tag_range t mode), ti_start = fst (snd (tag_range t mode)),
          ti_size = snd (snd (tag_range t mode)),
          ti_next = (if mode = 1 then 0 else if mode = 2 then checksum_tree_tag_pos t else checksum_tag_pos t),
          ti_md5 = md5_digest m\<rparr>)"
proof -
  obtain rest where rest: "written t' = written t @ tag_text t mode @ rest" "length (tag_text t mode @ rest) = 2048"
    by (rule write_tag_result [OF assms(1-5)])
  have md5: "clone_digest (checksum_ctx t) = md5_digest m" using clone_digest_holds [OF assms(4)] assms(3) by simp
  have "iso_util_decode_md5_tag scan_lf (tag_text t mode @ rest) 0 u ti = (Inr 1, tag_infos t mode)"
    by (rule decode_tag_text) (use assms md5 in \<open>auto simp: length_md5_digest\<close>)
  moreover have "tag_infos t mode =
      \<lparr>ti_type = mode, ti_pos = fst (tag_range t mode), ti_start = fst (snd (tag_range t mode)),
        ti_size = snd (snd (tag_range t mode)),
        ti_next = (if mode = 1 then 0 else if mode = 2 then checksum_tree_tag_pos t else checksum_tag_pos t),
        ti_md5 = md5_digest m\<rparr>"
    using assms(2) md5 by (auto simp: tag_infos_def split_beta)
  ultimately show ?thesis using rest by metis
qed

lemma match_iff: "length a = 16 \<Longrightarrow> length b = 16 \<Longrightarrow> iso_md5_match a b \<longleftrightarrow> a = b"
  by (auto simp: iso_md5_match_def list_eq_iff_nth_eq)

lemma decode_sums_ok:
  "decode_sums data cpt u ti = (Inr 1, ti') \<Longrightarrow> length (ti_md5 ti') = 16 \<and> ti_type ti' = ti_type ti"
  by (auto simp: decode_sums_def Let_def split: option.splits sum.splits prod.splits if_splits)

lemma find_in: "find P xs = Some x \<Longrightarrow> x \<in> set xs"
  by (auto simp: find_Some_iff)

lemma decode_tag_ok:
  assumes "iso_util_decode_md5_tag scan_lf data flag u ti0 = (Inr 1, ti)"
  shows "ti_type ti \<in> {1..4} \<and> length (ti_md5 ti) = 16"
proof -
  have "i \<in> {1..4}"
    if "find (\<lambda>i. starts_with data (tag_magic i)) (if 0 < flag AND 255 then [flag AND 255] else [1, 2, 3, 4]) = Some i"
      "\<not> 4 < flag AND 255" for i
    using that(2) find_in [OF that(1)] by (auto split: if_splits)
  then show ?thesis using assms
    by (auto simp only: iso_util_decode_md5_tag_def Let_def dest!: decode_sums_ok split: option.splits prod.splits if_splits) simp_all
qed

lemma eval_written:
  assumes "iso_md5_write_tag ring_ret t mode = (Inr r, t')" and "mode \<in> {1, 2, 3}"
    and "checksum_ctx t = Some c" "md5_holds c m" and "length (scdbackup_tag_parm t) < 100"
    and "scans_decimals scan_lf" and "md5_holds rc m'" and "bit (desired :: nat) mode"
  shows "iso_util_eval_md5_tag scan_lf (drop (length (written t)) (written t')) desired lba rc start u ti =
    ((if lba = fst (tag_range t mode) \<and> start = fst (snd (tag_range t mode))
     then if md5_digest m' = md5_digest m then Inr 1 else Inl ISO_MD5_TAG_MISMATCH
     else if lba \<noteq> fst (tag_range t mode) \<and> mode = 2 \<and> lba < 32 \<and>
             start = fst (snd (tag_range t mode)) - (fst (tag_range t mode) - lba)
     then Inl ISO_MD5_TAG_COPIED else Inl ISO_MD5_TAG_MISPLACED),
     mode, if mode = 1 then 0 else if mode = 2 then checksum_tree_tag_pos t else checksum_tag_pos t)"
proof -
  obtain rest where rest: "written t' = written t @ tag_text t mode @ rest" "length (tag_text t mode @ rest) = 2048"
    by (rule write_tag_result [OF assms(1-5)])
  have md5: "clone_digest (checksum_ctx t) = md5_digest m" using clone_digest_holds [OF assms(4)] assms(3) by simp
  define i where "i = tag_infos t mode"
  obtain pos st sz where range: "tag_range t mode = (pos, st, sz)" by (cases "tag_range t mode") auto
  have dec: "iso_util_decode_md5_tag scan_lf (tag_text t mode @ rest) 0 u ti' = (Inr 1, i)" for ti'
    unfolding i_def by (rule decode_tag_text) (use assms md5 in \<open>auto simp: length_md5_digest\<close>)
  have info: "ti_type i = mode" "ti_pos i = pos" "ti_start i = st" "ti_md5 i = md5_digest m"
    "ti_next i = (if mode = 1 then 0 else if mode = 2 then checksum_tree_tag_pos t else checksum_tag_pos t)"
    using md5 assms(2) by (auto simp: i_def tag_infos_def range)
  have "iso_md5_match (md5_digest m') (md5_digest m) \<longleftrightarrow> md5_digest m' = md5_digest m"
    by (simp add: match_iff length_md5_digest)
  moreover have "drop (length (written t)) (written t') = tag_text t mode @ rest" by (simp add: rest)
  moreover have "\<not> mode > 30" using assms(2) by auto
  ultimately show ?thesis using assms(8) md5_final_digest [OF assms(7)] unfolding range fst_conv snd_conv
    by (auto simp: iso_util_eval_md5_tag_def dec info iso_md5_clone_ok iso_md5_end_Some)
qed

text \<open>C23: What \<open>iso_util_eval_md5_tag\<close> says of a tag that \<open>iso_md5_write_tag\<close> wrote. A reader that
  looks at the block at the tag's own address, with a checksum that began at the start of the range,
  gets 1 exactly when the data it read have the digest of the data that were written, and
  \<open>ISO_MD5_TAG_MISMATCH\<close> otherwise. At another address, or with a checksum from another start, the tag
  is reported as misplaced or copied.\<close>

theorem iso_util_eval_md5_tag_written:
  assumes "iso_md5_write_tag ring_ret t mode = (Inr r, t')" and "mode \<in> {1, 2, 3}"
    and "checksum_ctx t = Some c" "md5_holds c m" and "length (scdbackup_tag_parm t) < 100"
    and "scans_decimals scan_lf" and "md5_holds rc m'" and "bit (desired :: nat) mode"
  shows "fst (iso_util_eval_md5_tag scan_lf (drop (length (written t)) (written t')) desired lba rc start u ti) =
    (if lba = fst (tag_range t mode) \<and> start = fst (snd (tag_range t mode))
     then if md5_digest m' = md5_digest m then Inr 1 else Inl ISO_MD5_TAG_MISMATCH
     else if lba \<noteq> fst (tag_range t mode) \<and> mode = 2 \<and> lba < 32 \<and>
             start = fst (snd (tag_range t mode)) - (fst (tag_range t mode) - lba)
     then Inl ISO_MD5_TAG_COPIED else Inl ISO_MD5_TAG_MISPLACED)"
  unfolding eval_written [OF assms] fst_conv by (rule refl)

text \<open>C24: \<open>iso_util_eval_md5_tag\<close> returns 1 only for an intact tag of a desired type, at its own
  address, whose range starts where the reader's checksum started and whose MD5 is the one of the
  data that the reader has seen.\<close>

theorem iso_util_eval_md5_tag_sound:
  assumes "iso_util_eval_md5_tag scan_lf block desired lba ctx start u ti0 = (Inr 1, ty, nxt)"
    and "md5_holds ctx m"
  shows "\<exists>ti. iso_util_decode_md5_tag scan_lf block 0 u (ti0\<lparr>ti_type := 0\<rparr>) = (Inr 1, ti) \<and>
     ty = ti_type ti \<and> nxt = ti_next ti \<and> bit desired ty \<and> ty \<in> {1..4} \<and>
     ti_pos ti = lba \<and> ti_start ti = start \<and> ti_md5 ti = md5_digest m"
proof -
  obtain d ti where dec: "iso_util_decode_md5_tag scan_lf block 0 u (ti0\<lparr>ti_type := 0\<rparr>) = (d, ti)" by fastforce
  have d: "d = Inr 1" using assms(1) by (auto simp: iso_util_eval_md5_tag_def dec split: if_splits)
  have ti: "ti_type ti \<in> {1..4} \<and> length (ti_md5 ti) = 16"
    using dec d by (intro decode_tag_ok) simp
  have "iso_md5_match (md5_digest m) (ti_md5 ti) \<longleftrightarrow> md5_digest m = ti_md5 ti"
    using ti by (simp add: match_iff length_md5_digest)
  then show ?thesis using assms(1) dec d ti md5_final_digest [OF assms(2)]
    by (auto simp: iso_util_eval_md5_tag_def iso_md5_clone_ok iso_md5_end_Some split: if_splits)
qed

text \<open>A scanner that reads the digits in front, for the witnesses.\<close>

definition decimal_scanner :: "byte list \<Rightarrow> rat" where
  "decimal_scanner bs = of_nat (foldl (\<lambda>v b. 10 * v + (unat b - 48)) 0 (takeWhile (\<lambda>b. 48 \<le> b \<and> b \<le> 57) bs))"

lemma decimal_scanner_decimals: "scans_decimals decimal_scanner"
proof -
  have "takeWhile (\<lambda>b. 48 \<le> b \<and> b \<le> 57) (bytes_of (dec_digits n) @ 32 # rest) = bytes_of (dec_digits n)"
    (is ?tw) and "foldl (\<lambda>v b. 10 * v + (unat b - 48)) 0 (bytes_of (dec_digits n)) = n" (is ?fold)
    if "n < 2 ^ 32" for n rest
  proof -
    define x where "x = (of_nat n :: u32)"
    have x: "u32_text x = bytes_of (dec_digits n)"
      using that by (simp add: u32_text_def x_def unsigned_of_nat take_bit_nat_eq_self)
    show ?tw using digit_byte [of _ x] unfolding x by (subst takeWhile_append2) auto
    have "foldl (\<lambda>v b. 10 * v + (unat b - 48)) a (bytes_of s) = foldl (\<lambda>v c. 10 * v + (of_char c - 48)) a s" for a s
      by (induction s arbitrary: a) (simp_all add: bytes_of_def unat_char_byte)
    then show ?fold using digits_value_dec [of n] by (simp add: digits_value_def)
  qed
  then show ?thesis by (simp add: scans_decimals_def decimal_scanner_def)
qed

text \<open>A session of which two blocks have been written, about to write its superblock tag.\<close>

definition example_target :: ecma119_target where
  "example_target =
     \<lparr>total_size = 1000000, bytes_written = 4096, percent_written = 0, written = replicate 4096 7,
      checksum_ctx = Some (md5_update (md5_init md5_fresh) (replicate 4096 7)), checksum_counter = 4096,
      checksum_range_start = 16, checksum_range_size = 470, checksum_tag_pos = 486, checksum_sb_tag_pos = 18,
      checksum_tree_tag_pos = 90, checksum_rlsb_tag_pos = 0, ms_block = 0, scdbackup_tag_parm = [],
      scdbackup_tag_written = None, opts_overwrite = None\<rparr>"

lemma example_holds:
  "checksum_ctx example_target = Some (md5_update (md5_init md5_fresh) (replicate 4096 7))"
  "md5_holds (md5_update (md5_init md5_fresh) (replicate 4096 7)) (replicate 4096 7)"
  "length (scdbackup_tag_parm example_target) < 100"
  using md5_update_holds [OF md5_init_holds [of md5_fresh], of "replicate 4096 7"]
  by (simp_all add: example_target_def md5_fresh_def)

lemma example_write:
  "iso_md5_write_tag (\<lambda>t buf. Inr 1) example_target 2 =
     (Inr 1, snd (iso_md5_write_tag (\<lambda>t buf. Inr 1) example_target 2))"
proof -
  have "length (tag_block (tag_text example_target 2)) = 2048"
    using length_tag_text [of 2 example_target] example_holds(1) clone_digest_holds [OF example_holds(2)]
    by (simp add: tag_block_def length_md5_digest)
  then show ?thesis by (simp add: iso_md5_write_tag_def Let_def iso_write_def example_target_def)
qed

lemma example_range: "tag_range example_target 2 = (18, 16, 2)"
  by (simp add: tag_range_def example_target_def)

theorem iso_md5_write_tag_roundtrip_witness:
  "\<exists>block. written (snd (iso_md5_write_tag (\<lambda>t buf. Inr 1) example_target 2)) = replicate 4096 7 @ block \<and>
     length block = 2048 \<and>
     iso_util_decode_md5_tag decimal_scanner block 0 0 \<lparr>ti_type = 0, ti_pos = 0, ti_start = 0, ti_size = 0, ti_next = 0, ti_md5 = []\<rparr> =
       (Inr 1, \<lparr>ti_type = 2, ti_pos = 18, ti_start = 16, ti_size = 2, ti_next = 90, ti_md5 = md5_digest (replicate 4096 7)\<rparr>)"
  using iso_md5_write_tag_roundtrip [OF example_write _ example_holds decimal_scanner_decimals,
      of 0 "\<lparr>ti_type = 0, ti_pos = 0, ti_start = 0, ti_size = 0, ti_next = 0, ti_md5 = []\<rparr>"]
  by (simp add: example_range) (simp add: example_target_def)

theorem iso_util_eval_md5_tag_written_witness:
  "fst (iso_util_eval_md5_tag decimal_scanner
     (drop 4096 (written (snd (iso_md5_write_tag (\<lambda>t buf. Inr 1) example_target 2)))) 4 18
     (md5_update (md5_init md5_fresh) (replicate 4096 7)) 16 0
     \<lparr>ti_type = 0, ti_pos = 0, ti_start = 0, ti_size = 0, ti_next = 0, ti_md5 = []\<rparr>) = Inr 1"
  using iso_util_eval_md5_tag_written [OF example_write _ example_holds decimal_scanner_decimals example_holds(2),
      of 4 18 16 0 "\<lparr>ti_type = 0, ti_pos = 0, ti_start = 0, ti_size = 0, ti_next = 0, ti_md5 = []\<rparr>"]
  by (simp add: example_range bit_simps) (simp add: example_target_def)

theorem iso_util_eval_md5_tag_sound_witness:
  "\<exists>ti. iso_util_decode_md5_tag decimal_scanner
       (drop (length (written example_target)) (written (snd (iso_md5_write_tag (\<lambda>t buf. Inr 1) example_target 2)))) 0 0
       \<lparr>ti_type = 0, ti_pos = 0, ti_start = 0, ti_size = 0, ti_next = 0, ti_md5 = []\<rparr> = (Inr 1, ti) \<and>
     ti_pos ti = 18 \<and> ti_start ti = 16 \<and> ti_md5 ti = md5_digest (replicate 4096 7)"
proof -
  let ?ti = "\<lparr>ti_type = 0, ti_pos = 0, ti_start = 0, ti_size = 0, ti_next = 0, ti_md5 = []\<rparr>"
  have "iso_util_eval_md5_tag decimal_scanner
     (drop (length (written example_target)) (written (snd (iso_md5_write_tag (\<lambda>t buf. Inr 1) example_target 2)))) 4 18
     (md5_update (md5_init md5_fresh) (replicate 4096 7)) 16 0 ?ti = (Inr 1, 2, checksum_tree_tag_pos example_target)"
    using eval_written [OF example_write _ example_holds decimal_scanner_decimals example_holds(2), of 4 18 16 0 ?ti]
    by (simp add: example_range bit_simps)
  from iso_util_eval_md5_tag_sound [OF this example_holds(2)] show ?thesis by auto
qed

end
