(* ===== verification/WriteOpts.thy ===== *)
theory WriteOpts
  imports Names DateTime UtilText
begin

text \<open>
  The write options, \<open>IsoWriteOpts\<close> of \<open>libisofs/ecma119.h\<close>, and the functions
  \<open>iso_write_opts_*\<close> of \<open>libisofs/ecma119.c\<close> that create, change, copy and release them. A bit field
  of one bit is a \<open>bool\<close>, a wider one the number it holds. Of a pointer that the options own it
  is modelled whether it is NULL, points to allocated memory, or dangles; a call that releases or
  reads memory that is already released has no defined result and yields \<open>None\<close>. libjte is left out.
\<close>

section \<open>The options\<close>

datatype managed = MNull | MOwned "byte list" | MDangling

text \<open>\<open>free\<close> of a pointer is defined, and what \<open>strdup\<close> returns for a C string.\<close>

definition free_ok :: "managed \<Rightarrow> bool" where
  "free_ok p \<longleftrightarrow> p \<noteq> MDangling"

definition c_strdup :: "byte list \<Rightarrow> bool \<Rightarrow> managed" where
  "c_strdup s mem = (if mem then MOwned (takeWhile (\<lambda>b. b \<noteq> 0) s @ [0]) else MNull)"

definition ISO_UNTRANSLATED_NAMES_MAX :: int where
  "ISO_UNTRANSLATED_NAMES_MAX = 92"

definition ISO_MAX_PARTITIONS :: nat where
  "ISO_MAX_PARTITIONS = 8"

definition ISO_DISC_LABEL_SIZE :: nat where
  "ISO_DISC_LABEL_SIZE = 129"

text \<open>The options in three parts: names and standards (on top of those that the names of the ECMA-119
  tree depend on), attributes and session, boot and partitions.\<close>

record standard_opts = name_opts +
  will_cancel :: bool
  rockridge :: bool
  joliet :: bool
  iso1999 :: bool
  hfsplus :: bool
  fat :: bool
  aaip :: bool
  always_gmt :: bool
  omit_version_numbers :: nat
  allow_deep_paths :: bool
  allow_longer_paths :: bool
  relaxed_vol_atts :: bool
  joliet_longer_paths :: bool
  joliet_long_names :: bool
  joliet_utf16 :: bool
  rrip_version_1_10 :: bool
  rrip_1_10_px_ino :: bool
  hardlinks :: bool
  aaip_susp_1_10 :: bool
  dir_rec_mtime :: nat
  rr_reloc_dir :: managed
  rr_reloc_flags :: nat

record session_opts = standard_opts +
  md5_session_checksum :: bool
  md5_file_checksums :: nat
  sort_files :: bool
  replace_dir_mode :: nat
  replace_file_mode :: nat
  replace_uid :: nat
  replace_gid :: nat
  dir_mode :: u32
  file_mode :: u32
  default_uid :: u32
  default_gid :: u32
  old_empty :: bool
  replace_timestamps :: nat
  timestamp :: int
  output_charset :: managed
  appendable :: bool
  ms_block :: u32
  overwrite :: "byte list option"
  fifo_size :: nat
  data_start_lba :: u32
  scdbackup_tag_parm :: "byte list"
  scdbackup_tag_written :: "byte list option"

record write_opts = session_opts +
  system_area_data :: managed
  system_area_size :: nat
  system_area_options :: nat
  vol_creation_time :: int
  vol_modification_time :: int
  vol_expiration_time :: int
  vol_effective_time :: int
  vol_uuid :: "byte list"
  partition_offset :: u32
  partition_secs_per_head :: int
  partition_heads_per_cyl :: int
  tail_blocks :: u32
  prep_partition :: managed
  prep_part_flag :: nat
  efi_boot_partition :: managed
  efi_boot_part_flag :: nat
  appended_partitions :: "managed list"
  appended_part_types :: "byte list"
  appended_part_flags :: "nat list"
  appended_part_type_guids :: "byte list list"
  appended_part_gpt_flags :: "byte list"
  appended_as_gpt :: bool
  appended_as_apm :: bool
  part_like_isohybrid :: bool
  iso_mbr_part_type :: int
  iso_gpt_type_guid :: "byte list"
  iso_gpt_flag :: nat
  ascii_disc_label :: "byte list"
  hfsp_serial_number :: "byte list"
  hfsp_block_size :: int
  apm_block_size :: int
  gpt_disk_guid :: "byte list"
  gpt_disk_guid_mode :: nat

text \<open>The setting after \<open>calloc\<close> and the assignments of \<open>iso_write_opts_new\<close>.\<close>

definition profile_opts :: "int \<Rightarrow> write_opts" where
  "profile_opts profile =
     \<lparr>untranslated_name_len = 0, max_37_char_filenames = False, iso_level = (if profile = 0 then 1 else if profile = 1 then 3 else 2),
      allow_dir_id_ext = False, allow_full_ascii = False, allow_lowercase = False,
      allow_7bit_ascii = False, no_force_dots = 0, will_cancel = False,
      rockridge = profile \<noteq> 0, joliet = profile = 2, iso1999 = False,
      hfsplus = False, fat = False, aaip = False,
      always_gmt = profile = 2, omit_version_numbers = 0, allow_deep_paths = False,
      allow_longer_paths = False, relaxed_vol_atts = False, joliet_longer_paths = False,
      joliet_long_names = False, joliet_utf16 = False, rrip_version_1_10 = False,
      rrip_1_10_px_ino = False, hardlinks = False, aaip_susp_1_10 = False,
      dir_rec_mtime = 0, rr_reloc_dir = MNull, rr_reloc_flags = 0,
      md5_session_checksum = False, md5_file_checksums = 0, sort_files = True,
      replace_dir_mode = of_bool (profile = 2), replace_file_mode = of_bool (profile = 2), replace_uid = of_bool (profile = 2),
      replace_gid = of_bool (profile = 2), dir_mode = 0, file_mode = 0,
      default_uid = 0, default_gid = 0, old_empty = False,
      replace_timestamps = of_bool (profile = 2), timestamp = 0, output_charset = MNull,
      appendable = False, ms_block = 0, overwrite = None,
      fifo_size = 1024, data_start_lba = 0, scdbackup_tag_parm = [],
      scdbackup_tag_written = None, system_area_data = MNull, system_area_size = 0,
      system_area_options = 0, vol_creation_time = 0, vol_modification_time = 0,
      vol_expiration_time = 0, vol_effective_time = 0, vol_uuid = replicate 17 0,
      partition_offset = 0, partition_secs_per_head = 0, partition_heads_per_cyl = 0,
      tail_blocks = 0, prep_partition = MNull, prep_part_flag = 0,
      efi_boot_partition = MNull, efi_boot_part_flag = 0, appended_partitions = replicate 8 MNull,
      appended_part_types = replicate 8 0, appended_part_flags = replicate 8 0, appended_part_type_guids = replicate 8 (replicate 16 0),
      appended_part_gpt_flags = replicate 8 0, appended_as_gpt = False, appended_as_apm = False,
      part_like_isohybrid = False, iso_mbr_part_type = - 1, iso_gpt_type_guid = replicate 16 0,
      iso_gpt_flag = 0, ascii_disc_label = replicate 129 0, hfsp_serial_number = replicate 8 0,
      hfsp_block_size = 0, apm_block_size = 0, gpt_disk_guid = replicate 16 0,
      gpt_disk_guid_mode = 0\<rparr>"

definition iso_write_opts_new :: "bool \<Rightarrow> bool \<Rightarrow> int \<Rightarrow> (iso_error + int) \<times> write_opts option" where
  "iso_write_opts_new opts_ptr mem profile =
     (if \<not> opts_ptr then (Inl ISO_NULL_POINTER, None)
      else if profile < 0 \<or> profile > 2 then (Inl ISO_WRONG_ARG_VALUE, None)
      else if \<not> mem then (Inl ISO_OUT_OF_MEM, None)
      else (Inr 1, Some (profile_opts profile)))"

section \<open>Setting options\<close>

text \<open>Most setters begin with a test for NULL.\<close>

type_synonym setter_result = "(iso_error + int) \<times> write_opts option"

definition set_opt :: "(write_opts \<Rightarrow> write_opts) \<Rightarrow> write_opts option \<Rightarrow> setter_result" where
  "set_opt f opts = (case opts of None \<Rightarrow> (Inl ISO_NULL_POINTER, None) | Some w \<Rightarrow> (Inr 1, Some (f w)))"

definition set_opt_if :: "bool \<Rightarrow> (write_opts \<Rightarrow> write_opts) \<Rightarrow> write_opts option \<Rightarrow> setter_result" where
  "set_opt_if valid f opts =
     (case opts of
        None \<Rightarrow> (Inl ISO_NULL_POINTER, None)
      | Some w \<Rightarrow> if \<not> valid then (Inl ISO_WRONG_ARG_VALUE, Some w) else (Inr 1, Some (f w)))"

definition iso_write_opts_set_will_cancel :: "int \<Rightarrow> write_opts option \<Rightarrow> setter_result" where
  "iso_write_opts_set_will_cancel enable = set_opt (\<lambda>w. w\<lparr>will_cancel := enable \<noteq> 0\<rparr>)"

definition iso_write_opts_set_rockridge :: "int \<Rightarrow> write_opts option \<Rightarrow> setter_result" where
  "iso_write_opts_set_rockridge enable = set_opt (\<lambda>w. w\<lparr>rockridge := enable \<noteq> 0\<rparr>)"

definition iso_write_opts_set_joliet :: "int \<Rightarrow> write_opts option \<Rightarrow> setter_result" where
  "iso_write_opts_set_joliet enable = set_opt (\<lambda>w. w\<lparr>joliet := enable \<noteq> 0\<rparr>)"

definition iso_write_opts_set_hfsplus :: "int \<Rightarrow> write_opts option \<Rightarrow> setter_result" where
  "iso_write_opts_set_hfsplus enable = set_opt (\<lambda>w. w\<lparr>hfsplus := enable \<noteq> 0\<rparr>)"

definition iso_write_opts_set_fat :: "int \<Rightarrow> write_opts option \<Rightarrow> setter_result" where
  "iso_write_opts_set_fat enable = set_opt (\<lambda>w. w\<lparr>fat := enable \<noteq> 0\<rparr>)"

definition iso_write_opts_set_iso1999 :: "int \<Rightarrow> write_opts option \<Rightarrow> setter_result" where
  "iso_write_opts_set_iso1999 enable = set_opt (\<lambda>w. w\<lparr>iso1999 := enable \<noteq> 0\<rparr>)"

definition iso_write_opts_set_hardlinks :: "int \<Rightarrow> write_opts option \<Rightarrow> setter_result" where
  "iso_write_opts_set_hardlinks enable = set_opt (\<lambda>w. w\<lparr>hardlinks := enable \<noteq> 0\<rparr>)"

definition iso_write_opts_set_aaip :: "int \<Rightarrow> write_opts option \<Rightarrow> setter_result" where
  "iso_write_opts_set_aaip enable = set_opt (\<lambda>w. w\<lparr>aaip := enable \<noteq> 0\<rparr>)"

definition iso_write_opts_set_old_empty :: "int \<Rightarrow> write_opts option \<Rightarrow> setter_result" where
  "iso_write_opts_set_old_empty enable = set_opt (\<lambda>w. w\<lparr>old_empty := enable \<noteq> 0\<rparr>)"

definition iso_write_opts_set_allow_dir_id_ext :: "int \<Rightarrow> write_opts option \<Rightarrow> setter_result" where
  "iso_write_opts_set_allow_dir_id_ext enable = set_opt (\<lambda>w. w\<lparr>allow_dir_id_ext := enable \<noteq> 0\<rparr>)"

definition iso_write_opts_set_allow_deep_paths :: "int \<Rightarrow> write_opts option \<Rightarrow> setter_result" where
  "iso_write_opts_set_allow_deep_paths enable = set_opt (\<lambda>w. w\<lparr>allow_deep_paths := enable \<noteq> 0\<rparr>)"

definition iso_write_opts_set_allow_longer_paths :: "int \<Rightarrow> write_opts option \<Rightarrow> setter_result" where
  "iso_write_opts_set_allow_longer_paths enable = set_opt (\<lambda>w. w\<lparr>allow_longer_paths := enable \<noteq> 0\<rparr>)"

definition iso_write_opts_set_max_37_char_filenames :: "int \<Rightarrow> write_opts option \<Rightarrow> setter_result" where
  "iso_write_opts_set_max_37_char_filenames enable = set_opt (\<lambda>w. w\<lparr>max_37_char_filenames := enable \<noteq> 0\<rparr>)"

definition iso_write_opts_set_allow_lowercase :: "int \<Rightarrow> write_opts option \<Rightarrow> setter_result" where
  "iso_write_opts_set_allow_lowercase enable = set_opt (\<lambda>w. w\<lparr>allow_lowercase := enable \<noteq> 0\<rparr>)"

definition iso_write_opts_set_allow_full_ascii :: "int \<Rightarrow> write_opts option \<Rightarrow> setter_result" where
  "iso_write_opts_set_allow_full_ascii enable = set_opt (\<lambda>w. w\<lparr>allow_full_ascii := enable \<noteq> 0\<rparr>)"

definition iso_write_opts_set_allow_7bit_ascii :: "int \<Rightarrow> write_opts option \<Rightarrow> setter_result" where
  "iso_write_opts_set_allow_7bit_ascii enable = set_opt (\<lambda>w. w\<lparr>allow_7bit_ascii := enable \<noteq> 0\<rparr>)"

definition iso_write_opts_set_relaxed_vol_atts :: "int \<Rightarrow> write_opts option \<Rightarrow> setter_result" where
  "iso_write_opts_set_relaxed_vol_atts enable = set_opt (\<lambda>w. w\<lparr>relaxed_vol_atts := enable \<noteq> 0\<rparr>)"

definition iso_write_opts_set_joliet_longer_paths :: "int \<Rightarrow> write_opts option \<Rightarrow> setter_result" where
  "iso_write_opts_set_joliet_longer_paths enable = set_opt (\<lambda>w. w\<lparr>joliet_longer_paths := enable \<noteq> 0\<rparr>)"

definition iso_write_opts_set_joliet_long_names :: "int \<Rightarrow> write_opts option \<Rightarrow> setter_result" where
  "iso_write_opts_set_joliet_long_names enable = set_opt (\<lambda>w. w\<lparr>joliet_long_names := enable \<noteq> 0\<rparr>)"

definition iso_write_opts_set_joliet_utf16 :: "int \<Rightarrow> write_opts option \<Rightarrow> setter_result" where
  "iso_write_opts_set_joliet_utf16 enable = set_opt (\<lambda>w. w\<lparr>joliet_utf16 := enable \<noteq> 0\<rparr>)"

definition iso_write_opts_set_rrip_version_1_10 :: "int \<Rightarrow> write_opts option \<Rightarrow> setter_result" where
  "iso_write_opts_set_rrip_version_1_10 enable = set_opt (\<lambda>w. w\<lparr>rrip_version_1_10 := enable \<noteq> 0\<rparr>)"

definition iso_write_opts_set_rrip_1_10_px_ino :: "int \<Rightarrow> write_opts option \<Rightarrow> setter_result" where
  "iso_write_opts_set_rrip_1_10_px_ino enable = set_opt (\<lambda>w. w\<lparr>rrip_1_10_px_ino := enable \<noteq> 0\<rparr>)"

definition iso_write_opts_set_aaip_susp_1_10 :: "int \<Rightarrow> write_opts option \<Rightarrow> setter_result" where
  "iso_write_opts_set_aaip_susp_1_10 enable = set_opt (\<lambda>w. w\<lparr>aaip_susp_1_10 := enable \<noteq> 0\<rparr>)"

definition iso_write_opts_set_sort_files :: "int \<Rightarrow> write_opts option \<Rightarrow> setter_result" where
  "iso_write_opts_set_sort_files enable = set_opt (\<lambda>w. w\<lparr>sort_files := enable \<noteq> 0\<rparr>)"

definition iso_write_opts_set_always_gmt :: "int \<Rightarrow> write_opts option \<Rightarrow> setter_result" where
  "iso_write_opts_set_always_gmt enable = set_opt (\<lambda>w. w\<lparr>always_gmt := enable \<noteq> 0\<rparr>)"

definition iso_write_opts_set_appendable :: "int \<Rightarrow> write_opts option \<Rightarrow> setter_result" where
  "iso_write_opts_set_appendable enable = set_opt (\<lambda>w. w\<lparr>appendable := enable \<noteq> 0\<rparr>)"

definition iso_write_opts_set_iso_level :: "int \<Rightarrow> write_opts option \<Rightarrow> setter_result" where
  "iso_write_opts_set_iso_level level =
     set_opt_if (\<not> (level \<noteq> 1 \<and> level \<noteq> 2 \<and> level \<noteq> 3)) (\<lambda>w. w\<lparr>iso_level := nat level\<rparr>)"

definition iso_write_opts_set_untranslated_name_len :: "int \<Rightarrow> write_opts option \<Rightarrow> setter_result" where
  "iso_write_opts_set_untranslated_name_len len opts =
     (case opts of
        None \<Rightarrow> (Inl ISO_NULL_POINTER, None)
      | Some w \<Rightarrow>
          if len = -1 then (Inr ISO_UNTRANSLATED_NAMES_MAX, Some (w\<lparr>untranslated_name_len := nat ISO_UNTRANSLATED_NAMES_MAX\<rparr>))
          else if len = 0 then (Inr 0, Some (w\<lparr>untranslated_name_len := 0\<rparr>))
          else if len > ISO_UNTRANSLATED_NAMES_MAX \<or> len < 0 then (Inl ISO_WRONG_ARG_VALUE, Some w)
          else (Inr len, Some (w\<lparr>untranslated_name_len := nat len\<rparr>)))"

definition iso_write_opts_set_omit_version_numbers :: "int \<Rightarrow> write_opts option \<Rightarrow> setter_result" where
  "iso_write_opts_set_omit_version_numbers omit = set_opt (\<lambda>w. w\<lparr>omit_version_numbers := nat (omit AND 3)\<rparr>)"

definition iso_write_opts_set_no_force_dots :: "int \<Rightarrow> write_opts option \<Rightarrow> setter_result" where
  "iso_write_opts_set_no_force_dots no = set_opt (\<lambda>w. w\<lparr>no_force_dots := nat (no AND 3)\<rparr>)"

definition iso_write_opts_set_dir_rec_mtime :: "int \<Rightarrow> write_opts option \<Rightarrow> setter_result" where
  "iso_write_opts_set_dir_rec_mtime allow =
     set_opt (\<lambda>w. w\<lparr>dir_rec_mtime :=
       nat ((if allow < 0 then 1
             else if allow AND 2 ^ 14 \<noteq> 0 then allow AND NOT 1
             else if allow AND 6 \<noteq> 0 then allow OR 1 else allow) AND 7)\<rparr>)"

text \<open>\<open>same\<close> says that \<open>name\<close> is the stored pointer itself.\<close>

definition iso_write_opts_set_rr_reloc ::
  "bool \<Rightarrow> bool \<Rightarrow> byte list option \<Rightarrow> int \<Rightarrow> write_opts \<Rightarrow> ((iso_error + int) \<times> write_opts) option" where
  "iso_write_opts_set_rr_reloc mem same name flags w =
     (if same then Some (Inr 1, w\<lparr>rr_reloc_flags := nat (flags AND 1)\<rparr>)
      else if \<not> free_ok (rr_reloc_dir w) then None
      else let p = (case name of None \<Rightarrow> MNull | Some s \<Rightarrow> c_strdup s mem);
               w1 = w\<lparr>rr_reloc_dir := p\<rparr>
           in if name \<noteq> None \<and> p = MNull then Some (Inl ISO_OUT_OF_MEM, w1)
              else Some (Inr 1, w1\<lparr>rr_reloc_flags := nat (flags AND 1)\<rparr>))"

definition iso_write_opts_set_record_md5 :: "int \<Rightarrow> int \<Rightarrow> write_opts \<Rightarrow> (iso_error + int) \<times> write_opts" where
  "iso_write_opts_set_record_md5 session files w =
     (Inr 1, w\<lparr>md5_session_checksum := session AND 1 \<noteq> 0, md5_file_checksums := nat (files AND 3)\<rparr>)"

text \<open>A word of the scdbackup tag: at most \<open>n\<close> characters, with white space replaced.\<close>

definition tag_word :: "nat \<Rightarrow> byte list \<Rightarrow> byte list" where
  "tag_word n s =
     (let word = map (\<lambda>b. if isspace b then 95 else b) (take n (takeWhile (\<lambda>b. b \<noteq> 0) s))
      in if word = [] then [95] else word)"

definition iso_write_opts_set_scdbackup_tag ::
  "byte list \<Rightarrow> byte list \<Rightarrow> byte list option \<Rightarrow> write_opts \<Rightarrow> (iso_error + int) \<times> write_opts" where
  "iso_write_opts_set_scdbackup_tag name time tag_written w =
     (Inr 1, w\<lparr>scdbackup_tag_parm := tag_word 80 name @ [32] @ tag_word 18 time,
               scdbackup_tag_written := map_option (\<lambda>buf. buf[0 := 0]) tag_written\<rparr>)"

definition iso_write_opts_set_replace_mode ::
  "int \<Rightarrow> int \<Rightarrow> int \<Rightarrow> int \<Rightarrow> write_opts option \<Rightarrow> setter_result" where
  "iso_write_opts_set_replace_mode dmode fmode uid gid =
     set_opt_if (\<not> (dmode < 0 \<or> dmode > 2) \<and> \<not> (fmode < 0 \<or> fmode > 2) \<and> \<not> (uid < 0 \<or> uid > 2) \<and> \<not> (gid < 0 \<or> gid > 2))
       (\<lambda>w. w\<lparr>replace_dir_mode := nat dmode, replace_file_mode := nat fmode,
              replace_uid := nat uid, replace_gid := nat gid\<rparr>)"

definition iso_write_opts_set_default_dir_mode :: "u32 \<Rightarrow> write_opts option \<Rightarrow> setter_result" where
  "iso_write_opts_set_default_dir_mode v = set_opt (\<lambda>w. w\<lparr>dir_mode := v\<rparr>)"

definition iso_write_opts_set_default_file_mode :: "u32 \<Rightarrow> write_opts option \<Rightarrow> setter_result" where
  "iso_write_opts_set_default_file_mode v = set_opt (\<lambda>w. w\<lparr>file_mode := v\<rparr>)"

definition iso_write_opts_set_default_uid :: "u32 \<Rightarrow> write_opts option \<Rightarrow> setter_result" where
  "iso_write_opts_set_default_uid v = set_opt (\<lambda>w. w\<lparr>default_uid := v\<rparr>)"

definition iso_write_opts_set_default_gid :: "u32 \<Rightarrow> write_opts option \<Rightarrow> setter_result" where
  "iso_write_opts_set_default_gid v = set_opt (\<lambda>w. w\<lparr>default_gid := v\<rparr>)"

definition iso_write_opts_set_ms_block :: "u32 \<Rightarrow> write_opts option \<Rightarrow> setter_result" where
  "iso_write_opts_set_ms_block v = set_opt (\<lambda>w. w\<lparr>ms_block := v\<rparr>)"

definition iso_write_opts_set_replace_timestamps :: "int \<Rightarrow> write_opts option \<Rightarrow> setter_result" where
  "iso_write_opts_set_replace_timestamps replace =
     set_opt_if (\<not> (replace < 0 \<or> replace > 2)) (\<lambda>w. w\<lparr>replace_timestamps := nat replace\<rparr>)"

definition iso_write_opts_set_default_timestamp :: "int \<Rightarrow> write_opts option \<Rightarrow> setter_result" where
  "iso_write_opts_set_default_timestamp t = set_opt (\<lambda>w. w\<lparr>timestamp := t\<rparr>)"

text \<open>The old text is not released, and a failure of \<open>strdup\<close> is not noticed.\<close>

definition iso_write_opts_set_output_charset ::
  "bool \<Rightarrow> byte list option \<Rightarrow> write_opts option \<Rightarrow> setter_result" where
  "iso_write_opts_set_output_charset mem charset =
     set_opt (\<lambda>w. w\<lparr>output_charset := (case charset of None \<Rightarrow> MNull | Some s \<Rightarrow> c_strdup s mem)\<rparr>)"

definition iso_write_opts_set_overwrite_buf :: "byte list option \<Rightarrow> write_opts option \<Rightarrow> setter_result" where
  "iso_write_opts_set_overwrite_buf buf = set_opt (\<lambda>w. w\<lparr>overwrite := buf\<rparr>)"

definition iso_write_opts_set_fifo_size :: "nat \<Rightarrow> write_opts option \<Rightarrow> setter_result" where
  "iso_write_opts_set_fifo_size sz = set_opt_if (\<not> sz < 32) (\<lambda>w. w\<lparr>fifo_size := sz\<rparr>)"

definition iso_write_opts_get_data_start :: "write_opts \<Rightarrow> iso_error + u32" where
  "iso_write_opts_get_data_start w =
     (if data_start_lba w = 0 then Inl ISO_ERROR else Inr (data_start_lba w))"

section \<open>Boot and partition options\<close>

definition iso_write_opts_set_system_area ::
  "bool \<Rightarrow> byte list option \<Rightarrow> int \<Rightarrow> int \<Rightarrow> write_opts \<Rightarrow> ((iso_error + int) \<times> write_opts) option" where
  "iso_write_opts_set_system_area mem data options flag w =
     (let finish = (\<lambda>w1. Some (Inr 1, if flag AND 4 = 0 then w1\<lparr>system_area_options := nat (options AND 0x3ffff)\<rparr> else w1))
      in if data = None \<or> flag AND 1 \<noteq> 0
         then if \<not> free_ok (system_area_data w) then None
              else finish (w\<lparr>system_area_data := MNull, system_area_size := 0\<rparr>)
         else if flag AND 2 = 0
         then if system_area_data w = MNull \<and> \<not> mem then Some (Inl ISO_OUT_OF_MEM, w)
              else if system_area_data w = MDangling then None
              else finish (w\<lparr>system_area_data := MOwned (take 32768 (the data)), system_area_size := 32768\<rparr>)
         else finish w)"

definition iso_write_opts_set_pvd_times ::
  "int \<Rightarrow> int \<Rightarrow> int \<Rightarrow> int \<Rightarrow> byte list \<Rightarrow> write_opts \<Rightarrow> (iso_error + int) \<times> write_opts" where
  "iso_write_opts_set_pvd_times creation modification expiration effective uuid w =
     (let text16 = take 16 (takeWhile (\<lambda>b. b \<noteq> 0) uuid)
      in (Inr 1, w\<lparr>vol_creation_time := creation, vol_modification_time := modification,
                   vol_expiration_time := expiration, vol_effective_time := effective,
                   vol_uuid := text16 @ replicate (17 - length text16) 0\<rparr>))"

definition iso_write_opts_set_part_offset ::
  "u32 \<Rightarrow> int \<Rightarrow> int \<Rightarrow> write_opts \<Rightarrow> (iso_error + int) \<times> write_opts" where
  "iso_write_opts_set_part_offset block_offset_2k secs heads w =
     (if block_offset_2k > 0 \<and> block_offset_2k < 16 then (Inl ISO_PART_OFFST_TOO_SMALL, w)
      else (Inr 1, w\<lparr>partition_offset := block_offset_2k, partition_secs_per_head := secs,
                     partition_heads_per_cyl := heads\<rparr>))"

definition iso_write_opts_attach_jte :: "write_opts \<Rightarrow> (iso_error + int) \<times> write_opts" where
  "iso_write_opts_attach_jte w = (Inl ISO_LIBJTE_NOT_ENABLED, w)"

definition iso_write_opts_detach_jte :: "write_opts \<Rightarrow> (iso_error + int) \<times> write_opts" where
  "iso_write_opts_detach_jte w = (Inl ISO_LIBJTE_NOT_ENABLED, w)"

definition iso_write_opts_set_tail_blocks :: "u32 \<Rightarrow> write_opts \<Rightarrow> (iso_error + int) \<times> write_opts" where
  "iso_write_opts_set_tail_blocks n w = (Inr 1, w\<lparr>tail_blocks := n\<rparr>)"

text \<open>Replacing a path: the old one is released; with a NULL path that is all, and the pointer is not
  reset. The result tells whether a new path was stored.\<close>

definition replace_path :: "bool \<Rightarrow> byte list option \<Rightarrow> managed \<Rightarrow> ((iso_error + bool) \<times> managed) option" where
  "replace_path mem path p =
     (if \<not> free_ok p then None
      else case path of
             None \<Rightarrow> Some (Inr False, if p = MNull then MNull else MDangling)
           | Some s \<Rightarrow>
               let q = c_strdup s mem
               in if q = MNull then Some (Inl ISO_OUT_OF_MEM, q) else Some (Inr True, q))"

definition iso_write_opts_set_prep_img ::
  "bool \<Rightarrow> byte list option \<Rightarrow> int \<Rightarrow> write_opts \<Rightarrow> ((iso_error + int) \<times> write_opts) option" where
  "iso_write_opts_set_prep_img mem path flag w =
     (case replace_path mem path (prep_partition w) of
        None \<Rightarrow> None
      | Some (Inl e, q) \<Rightarrow> Some (Inl e, w\<lparr>prep_partition := q\<rparr>)
      | Some (Inr stored, q) \<Rightarrow>
          Some (Inr 1, if stored then w\<lparr>prep_partition := q, prep_part_flag := nat (flag AND 1)\<rparr>
                       else w\<lparr>prep_partition := q\<rparr>))"

definition iso_write_opts_set_efi_bootp ::
  "bool \<Rightarrow> byte list option \<Rightarrow> int \<Rightarrow> write_opts \<Rightarrow> ((iso_error + int) \<times> write_opts) option" where
  "iso_write_opts_set_efi_bootp mem path flag w =
     (case replace_path mem path (efi_boot_partition w) of
        None \<Rightarrow> None
      | Some (Inl e, q) \<Rightarrow> Some (Inl e, w\<lparr>efi_boot_partition := q\<rparr>)
      | Some (Inr stored, q) \<Rightarrow>
          Some (Inr 1, if stored then w\<lparr>efi_boot_partition := q, efi_boot_part_flag := nat (flag AND 1)\<rparr>
                       else w\<lparr>efi_boot_partition := q\<rparr>))"

definition iso_write_opts_set_partition_img ::
  "bool \<Rightarrow> int \<Rightarrow> byte \<Rightarrow> byte list option \<Rightarrow> int \<Rightarrow> write_opts \<Rightarrow> ((iso_error + int) \<times> write_opts) option" where
  "iso_write_opts_set_partition_img mem partition_number partition_type path flag w =
     (if partition_number < 1 \<or> partition_number > int ISO_MAX_PARTITIONS then Some (Inl ISO_BAD_PARTITION_NO, w)
      else let i = nat (partition_number - 1); set_path = (\<lambda>q. w\<lparr>appended_partitions := (appended_partitions w)[i := q]\<rparr>)
           in case replace_path mem path (appended_partitions w ! i) of
                None \<Rightarrow> None
              | Some (Inl e, q) \<Rightarrow> Some (Inl e, set_path q)
              | Some (Inr stored, q) \<Rightarrow>
                  Some (Inr 1, if stored
                               then (set_path q)\<lparr>appended_part_types := (appended_part_types w)[i := partition_type],
                                                 appended_part_flags := (appended_part_flags w)[i := nat (flag AND 1)]\<rparr>
                               else set_path q))"

definition iso_write_opts_set_part_type_guid ::
  "int \<Rightarrow> byte list \<Rightarrow> bool \<Rightarrow> write_opts \<Rightarrow> (iso_error + int) \<times> write_opts" where
  "iso_write_opts_set_part_type_guid partition_number guid valid w =
     (if partition_number < 1 \<or> partition_number > int ISO_MAX_PARTITIONS then (Inl ISO_BAD_PARTITION_NO, w)
      else let i = nat (partition_number - 1); flags = appended_part_gpt_flags w ! i
           in (Inr 1, w\<lparr>appended_part_type_guids :=
                          (if valid then (appended_part_type_guids w)[i := take 16 guid] else appended_part_type_guids w),
                        appended_part_gpt_flags :=
                          (appended_part_gpt_flags w)[i := (if valid then flags OR 1 else flags AND NOT 1)]\<rparr>))"

definition iso_write_opts_set_appended_as_gpt :: "int \<Rightarrow> write_opts \<Rightarrow> (iso_error + int) \<times> write_opts" where
  "iso_write_opts_set_appended_as_gpt gpt w = (Inr 1, w\<lparr>appended_as_gpt := gpt \<noteq> 0\<rparr>)"

definition iso_write_opts_set_appended_as_apm :: "int \<Rightarrow> write_opts \<Rightarrow> (iso_error + int) \<times> write_opts" where
  "iso_write_opts_set_appended_as_apm apm w = (Inr 1, w\<lparr>appended_as_apm := apm \<noteq> 0\<rparr>)"

definition iso_write_opts_set_part_like_isohybrid :: "int \<Rightarrow> write_opts \<Rightarrow> (iso_error + int) \<times> write_opts" where
  "iso_write_opts_set_part_like_isohybrid alike w = (Inr 1, w\<lparr>part_like_isohybrid := alike \<noteq> 0\<rparr>)"

definition iso_write_opts_set_iso_mbr_part_type :: "int \<Rightarrow> write_opts \<Rightarrow> (iso_error + int) \<times> write_opts" where
  "iso_write_opts_set_iso_mbr_part_type part_type w =
     (Inr 1, w\<lparr>iso_mbr_part_type := (if part_type < -1 \<or> part_type > 255 then -1 else part_type)\<rparr>)"

definition iso_write_opts_set_iso_type_guid ::
  "byte list \<Rightarrow> bool \<Rightarrow> write_opts \<Rightarrow> (iso_error + int) \<times> write_opts" where
  "iso_write_opts_set_iso_type_guid guid valid w =
     (Inr 1, w\<lparr>iso_gpt_type_guid := (if valid then take 16 guid else iso_gpt_type_guid w),
               iso_gpt_flag := nat (int (iso_gpt_flag w) AND NOT 1 OR of_bool valid)\<rparr>)"

text \<open>\<open>strncpy\<close> to a buffer of 129 bytes, whose last byte is then set to NUL.\<close>

definition iso_write_opts_set_disc_label :: "byte list \<Rightarrow> write_opts \<Rightarrow> (iso_error + int) \<times> write_opts" where
  "iso_write_opts_set_disc_label label w =
     (let s = take (ISO_DISC_LABEL_SIZE - 1) (takeWhile (\<lambda>b. b \<noteq> 0) label)
      in (Inr 1, w\<lparr>ascii_disc_label := s @ replicate (ISO_DISC_LABEL_SIZE - length s) 0\<rparr>))"

definition iso_write_opts_set_hfsp_serial_number :: "byte list \<Rightarrow> write_opts \<Rightarrow> (iso_error + int) \<times> write_opts" where
  "iso_write_opts_set_hfsp_serial_number serial w = (Inr 1, w\<lparr>hfsp_serial_number := take 8 serial\<rparr>)"

definition iso_write_opts_set_hfsp_block_size :: "int \<Rightarrow> int \<Rightarrow> write_opts \<Rightarrow> (iso_error + int) \<times> write_opts" where
  "iso_write_opts_set_hfsp_block_size hfsp apm w =
     (if hfsp \<noteq> 0 \<and> hfsp \<noteq> 512 \<and> hfsp \<noteq> 2048 then (Inl ISO_BOOT_HFSP_BAD_BSIZE, w)
      else let w1 = w\<lparr>hfsp_block_size := hfsp\<rparr>
           in if apm \<noteq> 0 \<and> apm \<noteq> 512 \<and> apm \<noteq> 2048 then (Inl ISO_BOOT_HFSP_BAD_BSIZE, w1)
              else (Inr 1, w1\<lparr>apm_block_size := apm\<rparr>))"

definition iso_write_opts_set_gpt_guid :: "byte list \<Rightarrow> int \<Rightarrow> write_opts \<Rightarrow> (iso_error + int) \<times> write_opts" where
  "iso_write_opts_set_gpt_guid guid mode w =
     (if mode < 0 \<or> mode > 2 then (Inl ISO_BAD_GPT_GUID_MODE, w)
      else (Inr 1, w\<lparr>gpt_disk_guid_mode := nat mode,
                     gpt_disk_guid := (if mode = 1 then take 16 guid else gpt_disk_guid w)\<rparr>))"

section \<open>Releasing and copying\<close>

text \<open>\<open>iso_write_opts_free\<close> is defined if no managed pointer dangles.\<close>

definition iso_write_opts_free :: "write_opts option \<Rightarrow> unit option" where
  "iso_write_opts_free opts =
     (case opts of
        None \<Rightarrow> Some ()
      | Some w \<Rightarrow>
          if free_ok (output_charset w) \<and> free_ok (rr_reloc_dir w) \<and> free_ok (system_area_data w) \<and>
             free_ok (prep_partition w) \<and> free_ok (efi_boot_partition w) \<and> list_all free_ok (appended_partitions w)
          then Some () else None)"

text \<open>\<open>iso_clone_mem\<close> on a managed pointer; \<open>None\<close> if it reads released memory.\<close>

definition clone_ptr :: "managed \<Rightarrow> nat \<Rightarrow> bool \<Rightarrow> (iso_error + managed) option" where
  "clone_ptr p sz mem =
     (case p of
        MDangling \<Rightarrow> None
      | MNull \<Rightarrow> Some (Inr MNull)
      | MOwned s \<Rightarrow>
          (case iso_clone_mem (Some s) sz mem of
             (Inl e, _) \<Rightarrow> Some (Inl e)
           | (Inr _, None) \<Rightarrow> Some (Inr MNull)
           | (Inr _, Some s') \<Rightarrow> Some (Inr (MOwned s'))))"

fun clone_ptrs :: "(managed \<times> nat) list \<Rightarrow> bool list \<Rightarrow> (iso_error + managed list) option" where
  "clone_ptrs ((p, sz) # ps) mems =
     (case clone_ptr p sz (hd mems) of
        None \<Rightarrow> None
      | Some (Inl e) \<Rightarrow> Some (Inl ISO_OUT_OF_MEM)
      | Some (Inr q) \<Rightarrow>
          (case clone_ptrs ps (tl mems) of
             Some (Inr qs) \<Rightarrow> Some (Inr (q # qs))
           | r \<Rightarrow> r))"
| "clone_ptrs [] mems = Some (Inr [])"

text \<open>\<open>mem\<close> says whether the struct can be allocated, \<open>mems\<close> which of the copies can.\<close>

definition iso_write_opts_clone ::
  "bool \<Rightarrow> bool list \<Rightarrow> write_opts \<Rightarrow> ((iso_error + int) \<times> write_opts option) option" where
  "iso_write_opts_clone mem mems w =
     (case iso_write_opts_new True mem 0 of
        (Inl e, _) \<Rightarrow> Some (Inl e, None)
      | (Inr _, _) \<Rightarrow>
          (case clone_ptrs ([(output_charset w, 0), (rr_reloc_dir w, 0), (system_area_data w, system_area_size w),
                             (prep_partition w, 0), (efi_boot_partition w, 0)] @
                            map (\<lambda>p. (p, 0)) (appended_partitions w)) mems of
             None \<Rightarrow> None
           | Some (Inl e) \<Rightarrow> Some (Inl e, None)
           | Some (Inr qs) \<Rightarrow>
               Some (Inr 1, Some (w\<lparr>output_charset := qs ! 0, rr_reloc_dir := qs ! 1, system_area_data := qs ! 2,
                                    prep_partition := qs ! 3, efi_boot_partition := qs ! 4,
                                    appended_partitions := drop 5 qs\<rparr>))))"

section \<open>What options can become\<close>

text \<open>A managed text is a C string in memory of its own.\<close>

definition text_ok :: "managed \<Rightarrow> bool" where
  "text_ok p = (case p of MOwned s \<Rightarrow> s \<noteq> [] \<and> last s = 0 \<and> 0 \<notin> set (butlast s) | _ \<Rightarrow> True)"

definition area_ok :: "managed \<Rightarrow> nat \<Rightarrow> bool" where
  "area_ok p sz = (case p of MNull \<Rightarrow> sz = 0 | MOwned s \<Rightarrow> sz = 32768 \<and> length s = 32768 | MDangling \<Rightarrow> False)"

text \<open>The ranges of the options.\<close>

definition standard_ok :: "write_opts \<Rightarrow> bool" where
  "standard_ok w \<longleftrightarrow>
     iso_level w \<in> {1, 2, 3} \<and> int (untranslated_name_len w) \<le> ISO_UNTRANSLATED_NAMES_MAX \<and>
     omit_version_numbers w < 4 \<and> no_force_dots w < 4 \<and> dir_rec_mtime w < 8 \<and> rr_reloc_flags w < 2 \<and>
     text_ok (rr_reloc_dir w) \<and> rr_reloc_dir w \<noteq> MDangling"

definition session_ok :: "write_opts \<Rightarrow> bool" where
  "session_ok w \<longleftrightarrow>
     md5_file_checksums w < 4 \<and> replace_dir_mode w \<le> 2 \<and> replace_file_mode w \<le> 2 \<and> replace_uid w \<le> 2 \<and>
     replace_gid w \<le> 2 \<and> replace_timestamps w \<le> 2 \<and> 32 \<le> fifo_size w \<and> length (scdbackup_tag_parm w) < 100 \<and>
     text_ok (output_charset w) \<and> output_charset w \<noteq> MDangling"

definition boot_ok :: "write_opts \<Rightarrow> bool" where
  "boot_ok w \<longleftrightarrow>
     area_ok (system_area_data w) (system_area_size w) \<and> system_area_options w < 2 ^ 18 \<and>
     length (vol_uuid w) = 17 \<and> last (vol_uuid w) = 0 \<and> (partition_offset w = 0 \<or> 16 \<le> partition_offset w) \<and>
     text_ok (prep_partition w) \<and> prep_part_flag w < 2 \<and> text_ok (efi_boot_partition w) \<and> efi_boot_part_flag w < 2 \<and>
     length (appended_partitions w) = 8 \<and> list_all text_ok (appended_partitions w) \<and>
     length (appended_part_types w) = 8 \<and> length (appended_part_flags w) = 8 \<and> length (appended_part_gpt_flags w) = 8 \<and>
     length (appended_part_type_guids w) = 8 \<and> list_all (\<lambda>g. length g = 16) (appended_part_type_guids w) \<and>
     iso_mbr_part_type w \<in> {-1..255} \<and> length (iso_gpt_type_guid w) = 16 \<and> iso_gpt_flag w < 2 \<and>
     length (ascii_disc_label w) = 129 \<and> last (ascii_disc_label w) = 0 \<and> length (hfsp_serial_number w) = 8 \<and>
     hfsp_block_size w \<in> {0, 512, 2048} \<and> apm_block_size w \<in> {0, 512, 2048} \<and>
     length (gpt_disk_guid w) = 16 \<and> gpt_disk_guid_mode w \<le> 2"

definition opts_ok :: "write_opts \<Rightarrow> bool" where
  "opts_ok w \<longleftrightarrow> standard_ok w \<and> session_ok w \<and> boot_ok w"

lemmas opts_ok_defs = opts_ok_def standard_ok_def session_ok_def boot_ok_def

text \<open>The pointers that may dangle.\<close>

definition paths_live :: "write_opts \<Rightarrow> bool" where
  "paths_live w \<longleftrightarrow>
     prep_partition w \<noteq> MDangling \<and> efi_boot_partition w \<noteq> MDangling \<and> MDangling \<notin> set (appended_partitions w)"

text \<open>The setters of one \<open>int\<close> and of one \<open>uint32_t\<close> that test for NULL, and those of one argument that
  do not.\<close>

definition int_setters :: "(int \<Rightarrow> write_opts option \<Rightarrow> setter_result) list" where
  "int_setters =
     [iso_write_opts_set_will_cancel, iso_write_opts_set_rockridge, iso_write_opts_set_joliet,
      iso_write_opts_set_hfsplus, iso_write_opts_set_fat, iso_write_opts_set_iso1999,
      iso_write_opts_set_hardlinks, iso_write_opts_set_aaip, iso_write_opts_set_old_empty,
      iso_write_opts_set_allow_dir_id_ext, iso_write_opts_set_allow_deep_paths, iso_write_opts_set_allow_longer_paths,
      iso_write_opts_set_max_37_char_filenames, iso_write_opts_set_allow_lowercase, iso_write_opts_set_allow_full_ascii,
      iso_write_opts_set_allow_7bit_ascii, iso_write_opts_set_relaxed_vol_atts, iso_write_opts_set_joliet_longer_paths,
      iso_write_opts_set_joliet_long_names, iso_write_opts_set_joliet_utf16, iso_write_opts_set_rrip_version_1_10,
      iso_write_opts_set_rrip_1_10_px_ino, iso_write_opts_set_aaip_susp_1_10, iso_write_opts_set_sort_files,
      iso_write_opts_set_always_gmt, iso_write_opts_set_appendable, iso_write_opts_set_iso_level,
      iso_write_opts_set_untranslated_name_len, iso_write_opts_set_omit_version_numbers, iso_write_opts_set_no_force_dots,
      iso_write_opts_set_dir_rec_mtime, iso_write_opts_set_replace_timestamps, iso_write_opts_set_default_timestamp]"

definition u32_setters :: "(u32 \<Rightarrow> write_opts option \<Rightarrow> setter_result) list" where
  "u32_setters =
     [iso_write_opts_set_default_dir_mode, iso_write_opts_set_default_file_mode, iso_write_opts_set_default_uid,
      iso_write_opts_set_default_gid, iso_write_opts_set_ms_block]"

definition plain_setters :: "(int \<Rightarrow> write_opts \<Rightarrow> (iso_error + int) \<times> write_opts) list" where
  "plain_setters =
     [iso_write_opts_set_appended_as_gpt, iso_write_opts_set_appended_as_apm, iso_write_opts_set_part_like_isohybrid,
      iso_write_opts_set_iso_mbr_part_type]"

text \<open>One call of a setter; \<open>null_paths\<close> tells whether the three setters of paths get NULL. Arrays have
  the size that the prototypes name.\<close>

inductive opts_step :: "bool \<Rightarrow> write_opts \<Rightarrow> write_opts \<Rightarrow> bool" for null_paths where
  int_setter: "f \<in> set int_setters \<Longrightarrow> f x (Some w) = (r, Some w') \<Longrightarrow> opts_step null_paths w w'"
| u32_setter: "f \<in> set u32_setters \<Longrightarrow> f v (Some w) = (r, Some w') \<Longrightarrow> opts_step null_paths w w'"
| plain_setter: "f \<in> set plain_setters \<Longrightarrow> f x w = (r, w') \<Longrightarrow> opts_step null_paths w w'"
| rr_reloc: "iso_write_opts_set_rr_reloc mem same name flags w = Some (r, w') \<Longrightarrow> opts_step null_paths w w'"
| record_md5: "iso_write_opts_set_record_md5 session files w = (r, w') \<Longrightarrow> opts_step null_paths w w'"
| scdbackup_tag: "iso_write_opts_set_scdbackup_tag name time tag w = (r, w') \<Longrightarrow> opts_step null_paths w w'"
| replace_mode: "iso_write_opts_set_replace_mode d f u g (Some w) = (r, Some w') \<Longrightarrow> opts_step null_paths w w'"
| output_charset: "iso_write_opts_set_output_charset mem cs (Some w) = (r, Some w') \<Longrightarrow> opts_step null_paths w w'"
| overwrite_buf: "iso_write_opts_set_overwrite_buf buf (Some w) = (r, Some w') \<Longrightarrow> opts_step null_paths w w'"
| fifo_size: "iso_write_opts_set_fifo_size n (Some w) = (r, Some w') \<Longrightarrow> opts_step null_paths w w'"
| system_area: "data \<noteq> None \<longrightarrow> length (the data) = 32768 \<Longrightarrow>
    iso_write_opts_set_system_area mem data options flag w = Some (r, w') \<Longrightarrow> opts_step null_paths w w'"
| pvd_times: "iso_write_opts_set_pvd_times c m e f uuid w = (r, w') \<Longrightarrow> opts_step null_paths w w'"
| part_offset: "iso_write_opts_set_part_offset off s h w = (r, w') \<Longrightarrow> opts_step null_paths w w'"
| tail_blocks: "iso_write_opts_set_tail_blocks v w = (r, w') \<Longrightarrow> opts_step null_paths w w'"
| prep_img: "path \<noteq> None \<or> null_paths \<Longrightarrow>
    iso_write_opts_set_prep_img mem path flag w = Some (r, w') \<Longrightarrow> opts_step null_paths w w'"
| efi_bootp: "path \<noteq> None \<or> null_paths \<Longrightarrow>
    iso_write_opts_set_efi_bootp mem path flag w = Some (r, w') \<Longrightarrow> opts_step null_paths w w'"
| partition_img: "path \<noteq> None \<or> null_paths \<Longrightarrow>
    iso_write_opts_set_partition_img mem n ty path flag w = Some (r, w') \<Longrightarrow> opts_step null_paths w w'"
| part_type_guid: "length guid = 16 \<Longrightarrow>
    iso_write_opts_set_part_type_guid n guid valid w = (r, w') \<Longrightarrow> opts_step null_paths w w'"
| iso_type_guid: "length guid = 16 \<Longrightarrow>
    iso_write_opts_set_iso_type_guid guid valid w = (r, w') \<Longrightarrow> opts_step null_paths w w'"
| disc_label: "iso_write_opts_set_disc_label label w = (r, w') \<Longrightarrow> opts_step null_paths w w'"
| hfsp_serial: "length serial = 8 \<Longrightarrow>
    iso_write_opts_set_hfsp_serial_number serial w = (r, w') \<Longrightarrow> opts_step null_paths w w'"
| hfsp_block_size: "iso_write_opts_set_hfsp_block_size hb ab w = (r, w') \<Longrightarrow> opts_step null_paths w w'"
| gpt_guid: "length guid = 16 \<Longrightarrow> iso_write_opts_set_gpt_guid guid mode w = (r, w') \<Longrightarrow> opts_step null_paths w w'"

inductive opts_reachable :: "bool \<Rightarrow> write_opts \<Rightarrow> bool" for null_paths where
  created: "iso_write_opts_new True True profile = (Inr 1, Some w) \<Longrightarrow> opts_reachable null_paths w"
| stepped: "opts_reachable null_paths w \<Longrightarrow> opts_step null_paths w w' \<Longrightarrow> opts_reachable null_paths w'"
| cloned: "opts_reachable null_paths w \<Longrightarrow> iso_write_opts_clone mem mems w = Some (Inr 1, Some w') \<Longrightarrow>
    opts_reachable null_paths w'"

section \<open>The setters keep the ranges\<close>

lemma c_strdup_ok [simp]: "text_ok (c_strdup s mem)" "c_strdup s mem \<noteq> MDangling"
  by (auto simp: c_strdup_def text_ok_def dest: set_takeWhileD)

lemma text_ok_simps [simp]: "text_ok MNull" "text_ok MDangling"
  by (simp_all add: text_ok_def)

lemma opt_strdup_ok [simp]:
  "text_ok (case cs of None \<Rightarrow> MNull | Some s \<Rightarrow> c_strdup s mem)"
  "(case cs of None \<Rightarrow> MNull | Some s \<Rightarrow> c_strdup s mem) \<noteq> MDangling"
  by (cases cs; simp)+

lemma nat_mask_less: "0 \<le> m \<Longrightarrow> m < int n \<Longrightarrow> nat (x AND m) < n"
  using AND_upper2 [of m x] by linarith

lemma mask_bounds [simp]:
  "nat (x AND 1) < 2" "nat (x AND 3) < 4" "nat (x AND 7) < 8" "nat (x AND 0x3ffff) < 262144"
  by (rule nat_mask_less; simp)+

lemma set_opt_Some [simp]: "set_opt f (Some w) = (Inr 1, Some (f w))"
  by (simp add: set_opt_def)

lemma set_opt_if_Some [simp]:
  "set_opt_if valid f (Some w) = (if valid then (Inr 1, Some (f w)) else (Inl ISO_WRONG_ARG_VALUE, Some w))"
  by (simp add: set_opt_if_def)

lemmas int_setter_defs =
  iso_write_opts_set_will_cancel_def iso_write_opts_set_rockridge_def iso_write_opts_set_joliet_def
  iso_write_opts_set_hfsplus_def iso_write_opts_set_fat_def iso_write_opts_set_iso1999_def
  iso_write_opts_set_hardlinks_def iso_write_opts_set_aaip_def iso_write_opts_set_old_empty_def
  iso_write_opts_set_allow_dir_id_ext_def iso_write_opts_set_allow_deep_paths_def iso_write_opts_set_allow_longer_paths_def
  iso_write_opts_set_max_37_char_filenames_def iso_write_opts_set_allow_lowercase_def iso_write_opts_set_allow_full_ascii_def
  iso_write_opts_set_allow_7bit_ascii_def iso_write_opts_set_relaxed_vol_atts_def iso_write_opts_set_joliet_longer_paths_def
  iso_write_opts_set_joliet_long_names_def iso_write_opts_set_joliet_utf16_def iso_write_opts_set_rrip_version_1_10_def
  iso_write_opts_set_rrip_1_10_px_ino_def iso_write_opts_set_aaip_susp_1_10_def iso_write_opts_set_sort_files_def
  iso_write_opts_set_always_gmt_def iso_write_opts_set_appendable_def iso_write_opts_set_iso_level_def
  iso_write_opts_set_untranslated_name_len_def iso_write_opts_set_omit_version_numbers_def iso_write_opts_set_no_force_dots_def
  iso_write_opts_set_dir_rec_mtime_def iso_write_opts_set_replace_timestamps_def iso_write_opts_set_default_timestamp_def

definition opts_kept :: "write_opts \<Rightarrow> write_opts \<Rightarrow> bool" where
  "opts_kept w w' \<longleftrightarrow>
     (standard_ok w \<longrightarrow> standard_ok w') \<and> (session_ok w \<longrightarrow> session_ok w') \<and> (boot_ok w \<longrightarrow> boot_ok w')"

lemmas opts_kept_defs = opts_kept_def standard_ok_def session_ok_def boot_ok_def paths_live_def ISO_UNTRANSLATED_NAMES_MAX_def

lemma int_setter_ok:
  assumes "f \<in> set int_setters" and "f x (Some w) = (r, Some w')"
  shows "opts_kept w w' \<and> (paths_live w \<longrightarrow> paths_live w')"
  using assms unfolding int_setters_def list.set insert_iff empty_iff
  by (elim disjE FalseE; clarsimp simp: int_setter_defs opts_kept_defs split: if_splits) auto

lemma u32_setter_ok:
  assumes "f \<in> set u32_setters" and "f x (Some w) = (r, Some w')"
  shows "opts_kept w w' \<and> (paths_live w \<longrightarrow> paths_live w')"
  using assms unfolding u32_setters_def list.set insert_iff empty_iff
  by (elim disjE FalseE; clarsimp simp: iso_write_opts_set_default_dir_mode_def iso_write_opts_set_default_file_mode_def
      iso_write_opts_set_default_uid_def iso_write_opts_set_default_gid_def iso_write_opts_set_ms_block_def opts_kept_defs)

lemma plain_setter_ok:
  assumes "f \<in> set plain_setters" and "f x w = (r, w')"
  shows "opts_kept w w' \<and> (paths_live w \<longrightarrow> paths_live w')"
  using assms unfolding plain_setters_def list.set insert_iff empty_iff
  by (elim disjE FalseE; clarsimp simp: iso_write_opts_set_appended_as_gpt_def iso_write_opts_set_appended_as_apm_def
      iso_write_opts_set_part_like_isohybrid_def iso_write_opts_set_iso_mbr_part_type_def opts_kept_defs)

lemma length_tag_word: "0 < n \<Longrightarrow> length (tag_word n s) \<le> n"
  by (simp add: tag_word_def Let_def)

lemma standard_setters_ok:
  "iso_write_opts_set_rr_reloc mem same name flags w = Some (r, w') \<Longrightarrow> opts_kept w w' \<and> (paths_live w \<longrightarrow> paths_live w')"
  by (cases name; clarsimp simp: iso_write_opts_set_rr_reloc_def Let_def opts_kept_defs split: if_splits)

lemma session_setters_ok:
  "iso_write_opts_set_record_md5 session files w = (r, w') \<Longrightarrow> opts_kept w w' \<and> (paths_live w \<longrightarrow> paths_live w')"
  "iso_write_opts_set_scdbackup_tag name time tag w = (r, w') \<Longrightarrow> opts_kept w w' \<and> (paths_live w \<longrightarrow> paths_live w')"
  "iso_write_opts_set_replace_mode d f u g (Some w) = (r, Some w') \<Longrightarrow> opts_kept w w' \<and> (paths_live w \<longrightarrow> paths_live w')"
  "iso_write_opts_set_output_charset mem cs (Some w) = (r, Some w') \<Longrightarrow> opts_kept w w' \<and> (paths_live w \<longrightarrow> paths_live w')"
  "iso_write_opts_set_overwrite_buf buf (Some w) = (r, Some w') \<Longrightarrow> opts_kept w w' \<and> (paths_live w \<longrightarrow> paths_live w')"
  "iso_write_opts_set_fifo_size n (Some w) = (r, Some w') \<Longrightarrow> opts_kept w w' \<and> (paths_live w \<longrightarrow> paths_live w')"
  using length_tag_word [of 80 name] length_tag_word [of 18 time]
  by (clarsimp simp: iso_write_opts_set_record_md5_def iso_write_opts_set_scdbackup_tag_def iso_write_opts_set_replace_mode_def
      iso_write_opts_set_output_charset_def iso_write_opts_set_overwrite_buf_def iso_write_opts_set_fifo_size_def
      opts_kept_defs nat_le_iff split: if_splits; fail)+

lemma replace_path_ok:
  "replace_path mem path p = Some (r, q) \<Longrightarrow> text_ok q \<and> (path \<noteq> None \<longrightarrow> q \<noteq> MDangling)"
  by (cases path) (auto simp: replace_path_def Let_def split: if_splits)

lemma list_all_update: "list_all P xs \<Longrightarrow> P y \<Longrightarrow> list_all P (xs[i := y])"
  using set_update_subset_insert [of xs i y] by (auto simp: list_all_iff)

lemma notin_update: "x \<notin> set xs \<Longrightarrow> x \<noteq> y \<Longrightarrow> x \<notin> set (xs[i := y])"
  using set_update_subset_insert [of xs i y] by auto

lemma gpt_flag_ok [simp]:
  "f < 2 \<Longrightarrow> nat (int f AND - 2 OR 1) < 2" "f < 2 \<Longrightarrow> nat (int f AND - 2) < 2"
  by (cases "f = 0"; auto simp: less_Suc_eq numeral_2_eq_2)+

lemma area_ok_simps [simp]: "area_ok MNull n \<longleftrightarrow> n = 0" "area_ok (MOwned s) n \<longleftrightarrow> n = 32768 \<and> length s = 32768"
  by (simp_all add: area_ok_def)

lemma boot_setters_ok:
  "data \<noteq> None \<longrightarrow> length (the data) = 32768 \<Longrightarrow>
     iso_write_opts_set_system_area mem data options flag w = Some (r, w') \<Longrightarrow> opts_kept w w' \<and> (paths_live w \<longrightarrow> paths_live w')"
  "iso_write_opts_set_pvd_times c m e f uuid w = (r, w') \<Longrightarrow> opts_kept w w' \<and> (paths_live w \<longrightarrow> paths_live w')"
  "iso_write_opts_set_part_offset off s h w = (r, w') \<Longrightarrow> opts_kept w w' \<and> (paths_live w \<longrightarrow> paths_live w')"
  "iso_write_opts_set_tail_blocks v w = (r, w') \<Longrightarrow> opts_kept w w' \<and> (paths_live w \<longrightarrow> paths_live w')"
  by (clarsimp simp: iso_write_opts_set_system_area_def iso_write_opts_set_pvd_times_def iso_write_opts_set_part_offset_def
      iso_write_opts_set_tail_blocks_def Let_def opts_kept_defs not_le not_less split: if_splits; fail)+

lemma path_setters_ok:
  "iso_write_opts_set_prep_img mem path flag w = Some (r, w') \<Longrightarrow>
     opts_kept w w' \<and> (path \<noteq> None \<longrightarrow> paths_live w \<longrightarrow> paths_live w')"
  "iso_write_opts_set_efi_bootp mem path flag w = Some (r, w') \<Longrightarrow>
     opts_kept w w' \<and> (path \<noteq> None \<longrightarrow> paths_live w \<longrightarrow> paths_live w')"
  "iso_write_opts_set_partition_img mem n ty path flag w = Some (r, w') \<Longrightarrow>
     opts_kept w w' \<and> (path \<noteq> None \<longrightarrow> paths_live w \<longrightarrow> paths_live w')"
  by (clarsimp simp: iso_write_opts_set_prep_img_def iso_write_opts_set_efi_bootp_def iso_write_opts_set_partition_img_def
      Let_def opts_kept_defs list_all_update notin_update dest!: replace_path_ok
      split: if_splits option.splits sum.splits; fail)+

lemma guid_setters_ok:
  "length guid = 16 \<Longrightarrow> iso_write_opts_set_part_type_guid n guid valid w = (r, w') \<Longrightarrow>
     opts_kept w w' \<and> (paths_live w \<longrightarrow> paths_live w')"
  "length guid = 16 \<Longrightarrow> iso_write_opts_set_iso_type_guid guid valid w = (r, w') \<Longrightarrow>
     opts_kept w w' \<and> (paths_live w \<longrightarrow> paths_live w')"
  "length guid = 16 \<Longrightarrow> iso_write_opts_set_gpt_guid guid mode w = (r, w') \<Longrightarrow>
     opts_kept w w' \<and> (paths_live w \<longrightarrow> paths_live w')"
  "iso_write_opts_set_disc_label label w = (r, w') \<Longrightarrow> opts_kept w w' \<and> (paths_live w \<longrightarrow> paths_live w')"
  "length serial = 8 \<Longrightarrow> iso_write_opts_set_hfsp_serial_number serial w = (r, w') \<Longrightarrow>
     opts_kept w w' \<and> (paths_live w \<longrightarrow> paths_live w')"
  "iso_write_opts_set_hfsp_block_size hb ab w = (r, w') \<Longrightarrow> opts_kept w w' \<and> (paths_live w \<longrightarrow> paths_live w')"
  by (clarsimp simp: iso_write_opts_set_part_type_guid_def iso_write_opts_set_iso_type_guid_def iso_write_opts_set_gpt_guid_def
      iso_write_opts_set_disc_label_def iso_write_opts_set_hfsp_serial_number_def iso_write_opts_set_hfsp_block_size_def
      ISO_DISC_LABEL_SIZE_def Let_def opts_kept_defs nat_le_iff list_all_update split: if_splits; fail)+

lemma opts_step_ok:
  assumes "opts_step null_paths w w'"
  shows "opts_kept w w' \<and> (\<not> null_paths \<longrightarrow> paths_live w \<longrightarrow> paths_live w')"
  using assms
proof cases
  case prep_img then show ?thesis using path_setters_ok(1) by blast
next
  case system_area then show ?thesis using boot_setters_ok(1) by blast
next
  case part_type_guid then show ?thesis using guid_setters_ok(1) by blast
next
  case iso_type_guid then show ?thesis using guid_setters_ok(2) by blast
next
  case gpt_guid then show ?thesis using guid_setters_ok(3) by blast
next
  case hfsp_serial then show ?thesis using guid_setters_ok(5) by blast
next
  case efi_bootp then show ?thesis using path_setters_ok(2) by blast
next
  case partition_img then show ?thesis using path_setters_ok(3) by blast
qed (blast dest: int_setter_ok u32_setter_ok plain_setter_ok standard_setters_ok session_setters_ok boot_setters_ok(2-4)
    guid_setters_ok(4,6))+

lemma profile_opts_ok: "opts_ok (profile_opts p)" "paths_live (profile_opts p)"
  by (simp_all add: opts_ok_defs profile_opts_def paths_live_def list_all_iff ISO_UNTRANSLATED_NAMES_MAX_def)

lemma iso_write_opts_new_Some:
  "iso_write_opts_new True mem p = (r, Some w) \<Longrightarrow> w = profile_opts p"
  by (auto simp: iso_write_opts_new_def split: if_splits)

section \<open>Copying\<close>

lemma take_text: "text_ok (MOwned s) \<Longrightarrow> take (Suc (length (takeWhile (\<lambda>b. b \<noteq> 0) s))) s = s"
proof -
  assume ok: "text_ok (MOwned s)"
  then obtain t where s: "s = t @ [0]" by (cases s rule: rev_cases) (auto simp: text_ok_def)
  with ok have "takeWhile (\<lambda>b. b \<noteq> 0) s = t" by (auto simp: text_ok_def takeWhile_append)
  then show ?thesis by (simp add: s)
qed

lemma clone_text: "text_ok p \<Longrightarrow> clone_ptr p 0 mem = Some (Inr q) \<Longrightarrow> q = p"
  by (cases p) (auto simp: clone_ptr_def Let_def take_text split: if_splits)

lemma clone_area: "area_ok p n \<Longrightarrow> clone_ptr p n mem = Some (Inr q) \<Longrightarrow> q = p"
  by (cases p) (auto simp: clone_ptr_def Let_def split: if_splits)

lemma clone_ptrs_same:
  "clone_ptrs ps mems = Some (Inr qs) \<Longrightarrow> list_all (\<lambda>(p, n). (n = 0 \<and> text_ok p) \<or> area_ok p n) ps \<Longrightarrow> qs = map fst ps"
  by (induction ps mems arbitrary: qs rule: clone_ptrs.induct)
    (auto split: option.splits sum.splits dest: clone_text clone_area)

lemma iso_write_opts_clone_same:
  assumes "opts_ok w" and "iso_write_opts_clone mem mems w = Some (Inr r, Some w')"
  shows "w' = w"
proof -
  have len: "length (appended_partitions w) = 8" and ok: "list_all text_ok (appended_partitions w)"
    using assms(1) by (simp_all add: opts_ok_defs)
  obtain qs where qs: "clone_ptrs ([(output_charset w, 0), (rr_reloc_dir w, 0), (system_area_data w, system_area_size w),
        (prep_partition w, 0), (efi_boot_partition w, 0)] @ map (\<lambda>p. (p, 0)) (appended_partitions w)) mems = Some (Inr qs)"
    and w': "w' = w\<lparr>output_charset := qs ! 0, rr_reloc_dir := qs ! 1, system_area_data := qs ! 2,
        prep_partition := qs ! 3, efi_boot_partition := qs ! 4, appended_partitions := drop 5 qs\<rparr>"
    using assms(2) by (auto simp: iso_write_opts_clone_def split: sum.splits option.splits prod.splits)
  have "qs = [output_charset w, rr_reloc_dir w, system_area_data w, prep_partition w, efi_boot_partition w] @
      appended_partitions w"
    using clone_ptrs_same [OF qs] assms(1) ok by (auto simp: opts_ok_defs list_all_iff comp_def)
  then show ?thesis by (simp add: w')
qed

lemma clone_ptr_defined: "p \<noteq> MDangling \<Longrightarrow> clone_ptr p n True = Some (Inr (case p of MOwned s \<Rightarrow> MOwned
    (take (if n = 0 then length (takeWhile (\<lambda>b. b \<noteq> 0) s) + 1 else n) s) | _ \<Rightarrow> MNull))"
  by (cases p) (simp_all add: clone_ptr_def Let_def)

lemma clone_ptrs_defined:
  "list_all (\<lambda>(p, n). p \<noteq> MDangling) ps \<Longrightarrow> length ps \<le> k \<Longrightarrow> \<exists>qs. clone_ptrs ps (replicate k True) = Some (Inr qs)"
proof (induction ps arbitrary: k)
  case (Cons x ps)
  obtain p n where x: "x = (p, n)" by fastforce
  obtain k' where k: "k = Suc k'" using Cons.prems(2) by (cases k) auto
  obtain qs where "clone_ptrs ps (replicate k' True) = Some (Inr qs)" using Cons by (auto simp: k)
  then show ?case using Cons.prems(1) by (simp add: x k clone_ptr_defined)
qed simp

lemma reachable_ok: "opts_reachable np w \<Longrightarrow> opts_ok w \<and> (\<not> np \<longrightarrow> paths_live w)"
proof (induction rule: opts_reachable.induct)
  case (created p w)
  then show ?case using profile_opts_ok iso_write_opts_new_Some [of True p _ w] by auto
next
  case (stepped w w')
  then show ?case using opts_step_ok [of np w w'] by (auto simp: opts_ok_def opts_kept_def)
next
  case (cloned w mem mems w')
  then show ?case using iso_write_opts_clone_same [of w mem mems 1 w'] by auto
qed

section \<open>Properties\<close>


text \<open>C26: As long as the setters of partition paths do not get NULL, no call of the options meets
  released memory: releasing the options is defined, the setters of paths are defined, and a copy made
  by \<open>iso_write_opts_clone\<close> with enough memory has the same options.\<close>

theorem write_opts_memory_safe:
  assumes "opts_reachable False w"
  shows "iso_write_opts_free (Some w) = Some () \<and>
    iso_write_opts_set_prep_img mem path flag w \<noteq> None \<and> iso_write_opts_set_efi_bootp mem path flag w \<noteq> None \<and>
    iso_write_opts_set_partition_img mem n ty path flag w \<noteq> None \<and>
    iso_write_opts_set_rr_reloc mem same path flag w \<noteq> None \<and>
    iso_write_opts_set_system_area mem path options flag w \<noteq> None \<and>
    iso_write_opts_clone True (replicate 13 True) w = Some (Inr 1, Some w)"
proof -
  have ok: "opts_ok w" and live: "paths_live w" using reachable_ok [OF assms] by simp_all
  have others: "output_charset w \<noteq> MDangling" "rr_reloc_dir w \<noteq> MDangling" "system_area_data w \<noteq> MDangling"
    and len: "length (appended_partitions w) = 8"
    using ok by (auto simp: opts_ok_def standard_ok_def session_ok_def boot_ok_def area_ok_def)
  have replace: "replace_path mem path p \<noteq> None" if "p \<noteq> MDangling" for p
    using that by (simp add: replace_path_def free_ok_def Let_def split: option.split)
  have part: "appended_partitions w ! nat (n - 1) \<noteq> MDangling" if "\<not> n < 1" "\<not> 8 < n"
  proof -
    have "nat (n - 1) < length (appended_partitions w)" using that len by simp
    from nth_mem [OF this] live show ?thesis unfolding paths_live_def by metis
  qed
  have "iso_write_opts_free (Some w) = Some ()"
    using live others by (auto simp: iso_write_opts_free_def free_ok_def paths_live_def list_all_iff)
  moreover have "iso_write_opts_set_prep_img mem path flag w \<noteq> None"
    using replace [of "prep_partition w"] live
    by (auto simp: iso_write_opts_set_prep_img_def paths_live_def split: option.split sum.split)
  moreover have "iso_write_opts_set_efi_bootp mem path flag w \<noteq> None"
    using replace [of "efi_boot_partition w"] live
    by (auto simp: iso_write_opts_set_efi_bootp_def paths_live_def split: option.split sum.split)
  moreover have "iso_write_opts_set_partition_img mem n ty path flag w \<noteq> None"
  proof (cases "n < 1 \<or> 8 < n")
    case False
    then have "replace_path mem path (appended_partitions w ! nat (n - 1)) \<noteq> None" by (intro replace part) auto
    with False show ?thesis
      by (auto simp: iso_write_opts_set_partition_img_def ISO_MAX_PARTITIONS_def Let_def split: option.split sum.split)
  qed (auto simp: iso_write_opts_set_partition_img_def ISO_MAX_PARTITIONS_def)
  moreover have "iso_write_opts_set_rr_reloc mem same path flag w \<noteq> None"
    using others by (simp add: iso_write_opts_set_rr_reloc_def free_ok_def Let_def)
  moreover have "iso_write_opts_set_system_area mem path options flag w \<noteq> None"
    using others by (simp add: iso_write_opts_set_system_area_def free_ok_def Let_def)
  moreover have "iso_write_opts_clone True (replicate 13 True) w = Some (Inr 1, Some w)"
  proof -
    let ?ps = "[(output_charset w, 0), (rr_reloc_dir w, 0), (system_area_data w, system_area_size w),
        (prep_partition w, 0), (efi_boot_partition w, 0)] @ map (\<lambda>p. (p, 0)) (appended_partitions w)"
    have "list_all (\<lambda>(p, n). p \<noteq> MDangling) ?ps" using live others by (auto simp: paths_live_def list_all_iff)
    from clone_ptrs_defined [OF this, of 13] obtain qs where "clone_ptrs ?ps (replicate 13 True) = Some (Inr qs)"
      using len by auto
    then have "\<exists>w'. iso_write_opts_clone True (replicate 13 True) w = Some (Inr 1, Some w')"
      by (simp add: iso_write_opts_clone_def iso_write_opts_new_def del: clone_ptrs.simps)
    then show ?thesis using iso_write_opts_clone_same [OF ok] by auto
  qed
  ultimately show ?thesis by blast
qed

text \<open>C27: \<open>iso_write_opts_set_prep_img\<close> (like its siblings for the EFI and the appended partitions)
  releases the old path on a NULL argument but keeps the pointer: after that, the next setting of
  the path and the release of the options both free the memory a second time.\<close>

theorem null_path_double_free:
  assumes "prep_partition w = MOwned s"
  shows "\<exists>w'. iso_write_opts_set_prep_img mem None flag w = Some (Inr 1, w') \<and>
    prep_partition w' = MDangling \<and> iso_write_opts_free (Some w') = None \<and>
    iso_write_opts_set_prep_img mem2 path2 flag2 w' = None"
  using assms
  by (simp add: iso_write_opts_set_prep_img_def replace_path_def free_ok_def iso_write_opts_free_def)

text \<open>Witnesses: the options of profile 1 with a PReP partition.\<close>

definition prep_opts :: write_opts where
  "prep_opts = snd (the (iso_write_opts_set_prep_img True (Some [97]) 1 (profile_opts 1)))"

lemma prep_opts_set:
  "iso_write_opts_set_prep_img True (Some [97]) 1 (profile_opts 1) = Some (Inr 1, prep_opts)"
  "prep_partition prep_opts = MOwned [97, 0]"
  by (simp_all add: prep_opts_def iso_write_opts_set_prep_img_def replace_path_def free_ok_def profile_opts_def c_strdup_def
      Let_def)

lemma prep_opts_reachable: "opts_reachable np prep_opts"
proof (rule opts_reachable.stepped)
  show "opts_reachable np (profile_opts 1)"
    by (rule opts_reachable.created [of 1]) (simp add: iso_write_opts_new_def)
  show "opts_step np (profile_opts 1) prep_opts"
    by (rule opts_step.prep_img [OF _ prep_opts_set(1)]) simp
qed


theorem write_opts_memory_safe_witness:
  "iso_write_opts_free (Some prep_opts) = Some () \<and> iso_write_opts_set_prep_img True None 0 prep_opts \<noteq> None \<and>
   iso_write_opts_clone True (replicate 13 True) prep_opts = Some (Inr 1, Some prep_opts)"
  using write_opts_memory_safe [OF prep_opts_reachable, of True None 0] by blast

theorem null_path_double_free_witness:
  "\<exists>w'. iso_write_opts_set_prep_img True None 0 prep_opts = Some (Inr 1, w') \<and> prep_partition w' = MDangling \<and>
     iso_write_opts_free (Some w') = None \<and> iso_write_opts_set_prep_img True (Some [98]) 0 w' = None"
  by (rule null_path_double_free [OF prep_opts_set(2)])

end
