(* ===== verification/NodeTree.thy ===== *)
theory NodeTree
  imports UtilText Names
begin

text \<open>
  The tree of \<open>IsoNode\<close> objects that an application builds: \<open>libisofs/node.c\<close> over the structs of
  \<open>libisofs/node.h\<close>. A store maps the addresses of the nodes in use to the nodes; access to an address
  that is not in use is undefined and yields \<open>None\<close>. The linked list of the children of a directory is
  a list of addresses. Iterators are in the registry as long as they exist, so the registry holds them.
  Streams and the data of extended information are released outside of the model.
\<close>

section \<open>Nodes, iterators, the store\<close>

type_synonym addr = nat

record iso_node =
  n_ref :: int
  n_type :: iso_node_type
  n_name :: string
  n_mode :: u32
  n_uid :: u32
  n_gid :: u32
  n_atime :: int
  n_mtime :: int
  n_ctime :: int
  n_hidden :: int
  n_parent :: "addr option"
  n_xinfo :: "(nat \<times> nat) list"
  n_children :: "addr list"
  n_count :: u64
  n_weight :: "int \<times> bool"

record dir_iter =
  it_dir :: addr
  it_pos :: "addr option"
  it_next :: bool

record node_store =
  ns_nodes :: "addr \<rightharpoonup> iso_node"
  ns_iters :: "(nat \<times> dir_iter) list"

definition put_node :: "node_store \<Rightarrow> addr \<Rightarrow> iso_node \<Rightarrow> node_store" where
  "put_node s a nd = s\<lparr>ns_nodes := (ns_nodes s)(a \<mapsto> nd)\<rparr>"

text \<open>Members of a node that the invariant says is in use.\<close>

definition node_at :: "node_store \<Rightarrow> addr \<Rightarrow> iso_node" where
  "node_at s a = the (ns_nodes s a)"

section \<open>References\<close>

definition iso_node_ref :: "node_store \<Rightarrow> addr \<Rightarrow> node_store option" where
  "iso_node_ref s a =
     (case ns_nodes s a of None \<Rightarrow> None | Some nd \<Rightarrow> Some (put_node s a (nd\<lparr>n_ref := n_ref nd + 1\<rparr>)))"

text \<open>Releasing a node of which the last reference is gone: its children lose their parent.\<close>

definition free_node :: "node_store \<Rightarrow> addr \<Rightarrow> node_store" where
  "free_node s a =
     s\<lparr>ns_nodes := (\<lambda>b. if b = a then None
                        else if b \<in> set (n_children (node_at s a))
                             then map_option (\<lambda>nd. nd\<lparr>n_parent := None\<rparr>) (ns_nodes s b)
                             else ns_nodes s b)\<rparr>"

text \<open>\<open>iso_node_unref\<close> with the recursion over the children of a released directory as a list of the
  nodes still to be treated, in their order.\<close>

partial_function (option) unref_todo :: "addr list \<Rightarrow> node_store \<Rightarrow> node_store option" where
  "unref_todo todo s =
     (case todo of
        [] \<Rightarrow> Some s
      | a # rest \<Rightarrow>
          (case ns_nodes s a of
             None \<Rightarrow> None
           | Some nd \<Rightarrow>
               if n_ref nd - 1 = 0
               then unref_todo ((if n_type nd = LIBISO_DIR then n_children nd else []) @ rest) (free_node s a)
               else unref_todo rest (put_node s a (nd\<lparr>n_ref := n_ref nd - 1\<rparr>))))"

definition iso_node_unref :: "node_store \<Rightarrow> addr option \<Rightarrow> node_store option" where
  "iso_node_unref s node = (case node of None \<Rightarrow> Some s | Some a \<Rightarrow> unref_todo [a] s)"

section \<open>Extended information\<close>

text \<open>The list of pairs of a processing function and its data; \<open>mem\<close> says whether \<open>malloc\<close> succeeds.\<close>

definition iso_node_add_xinfo :: "bool \<Rightarrow> iso_node option \<Rightarrow> nat option \<Rightarrow> nat \<Rightarrow> (iso_error + nat) \<times> iso_node option" where
  "iso_node_add_xinfo mem node func data =
     (case (node, func) of
        (Some nd, Some p) \<Rightarrow>
          if \<exists>i \<in> set (n_xinfo nd). fst i = p then (Inr 0, Some nd)
          else if \<not> mem then (Inl ISO_OUT_OF_MEM, Some nd)
          else (Inr 1, Some (nd\<lparr>n_xinfo := (p, data) # n_xinfo nd\<rparr>))
      | _ \<Rightarrow> (Inl ISO_NULL_POINTER, node))"

fun xinfo_unlink :: "nat \<Rightarrow> (nat \<times> nat) list \<Rightarrow> (nat \<times> nat) list option" where
  "xinfo_unlink p [] = None"
| "xinfo_unlink p (i # is) = (if fst i = p then Some is else map_option (Cons i) (xinfo_unlink p is))"

definition iso_node_remove_xinfo :: "iso_node option \<Rightarrow> nat option \<Rightarrow> (iso_error + nat) \<times> iso_node option" where
  "iso_node_remove_xinfo node func =
     (case (node, func) of
        (Some nd, Some p) \<Rightarrow>
          (case xinfo_unlink p (n_xinfo nd) of
             None \<Rightarrow> (Inr 0, Some nd)
           | Some is \<Rightarrow> (Inr 1, Some (nd\<lparr>n_xinfo := is\<rparr>)))
      | _ \<Rightarrow> (Inl ISO_NULL_POINTER, node))"

definition iso_node_get_xinfo :: "iso_node option \<Rightarrow> nat option \<Rightarrow> (iso_error + nat) \<times> nat option" where
  "iso_node_get_xinfo node func =
     (case (node, func) of
        (Some nd, Some p) \<Rightarrow>
          (case map_of (n_xinfo nd) p of None \<Rightarrow> (Inr 0, None) | Some d \<Rightarrow> (Inr 1, Some d))
      | _ \<Rightarrow> (Inl ISO_NULL_POINTER, None))"

definition iso_node_remove_all_xinfo :: "iso_node \<Rightarrow> iso_node" where
  "iso_node_remove_all_xinfo nd = nd\<lparr>n_xinfo := []\<rparr>"

text \<open>\<open>iso_node_clone_xinfo\<close>: the copies are put in front one by one and the list is reverted at the end.
  \<open>cloner\<close> gives the copying function of a processing function, if it has one;
  if it has none, the copies made so far stay.\<close>

fun clone_xinfo_loop ::
  "(nat \<Rightarrow> (nat \<Rightarrow> iso_error + nat) option) \<Rightarrow> (nat \<times> nat) list \<Rightarrow> (nat \<times> nat) list \<Rightarrow>
     (iso_error + nat) \<times> (nat \<times> nat) list" where
  "clone_xinfo_loop cloner [] acc = (Inr 1, rev acc)"
| "clone_xinfo_loop cloner ((p, d) # is) acc =
     (case cloner p of
        None \<Rightarrow> (Inl ISO_XINFO_NO_CLONE, acc)
      | Some f \<Rightarrow>
          (case f d of
             Inl e \<Rightarrow> (Inl e, [])
           | Inr d' \<Rightarrow> clone_xinfo_loop cloner is (if \<exists>i \<in> set acc. fst i = p then acc else (p, d') # acc)))"

definition iso_node_clone_xinfo ::
  "(nat \<Rightarrow> (nat \<Rightarrow> iso_error + nat) option) \<Rightarrow> iso_node \<Rightarrow> iso_node \<Rightarrow> (iso_error + nat) \<times> iso_node" where
  "iso_node_clone_xinfo cloner from_node to_node =
     (case clone_xinfo_loop cloner (n_xinfo from_node) [] of (ret, is) \<Rightarrow> (ret, to_node\<lparr>n_xinfo := is\<rparr>))"

section \<open>Attributes\<close>

text \<open>Without the adjustment of an ACL.\<close>

definition iso_node_set_perms_internal :: "iso_node \<Rightarrow> u32 \<Rightarrow> iso_node" where
  "iso_node_set_perms_internal nd mode = nd\<lparr>n_mode := (n_mode nd AND S_IFMT) OR (mode AND NOT S_IFMT)\<rparr>"

definition iso_node_get_permissions :: "iso_node \<Rightarrow> u32" where
  "iso_node_get_permissions nd = n_mode nd AND NOT S_IFMT"

definition iso_node_set_hidden :: "node_store \<Rightarrow> addr \<Rightarrow> int \<Rightarrow> node_store option" where
  "iso_node_set_hidden s a hide_attrs =
     (case ns_nodes s a of
        None \<Rightarrow> None
      | Some nd \<Rightarrow> if n_parent nd \<noteq> Some a then Some (put_node s a (nd\<lparr>n_hidden := hide_attrs\<rparr>)) else Some s)"

section \<open>Names\<close>

definition LIBISOFS_NODE_NAME_MAX :: nat where "LIBISOFS_NODE_NAME_MAX = 255"
definition LIBISOFS_NODE_PATH_MAX :: nat where "LIBISOFS_NODE_PATH_MAX = 1024"

definition iso_node_is_valid_name :: "string option \<Rightarrow> iso_error + nat" where
  "iso_node_is_valid_name name =
     (case name of
        None \<Rightarrow> Inl ISO_NULL_POINTER
      | Some s \<Rightarrow>
          if s = [] then Inl ISO_RR_NAME_RESERVED
          else if length s > LIBISOFS_NODE_NAME_MAX then Inl ISO_RR_NAME_TOO_LONG
          else if s = ''.'' \<or> s = ''..'' then Inl ISO_RR_NAME_RESERVED
          else if CHR ''/'' \<in> set s then Inl ISO_RR_NAME_RESERVED
          else Inr 1)"

text \<open>\<open>strtok_r\<close> with \<open>/\<close>: the non-empty parts between the slashes.\<close>

fun path_components :: "string \<Rightarrow> string \<Rightarrow> string list" where
  "path_components [] acc = (if acc = [] then [] else [acc])"
| "path_components (c # cs) acc =
     (if c = CHR ''/'' then (if acc = [] then path_components cs [] else acc # path_components cs [])
      else path_components cs (acc @ [c]))"

fun check_components :: "string list \<Rightarrow> iso_error + nat" where
  "check_components [] = Inr 1"
| "check_components (c # cs) =
     (if c \<noteq> ''.'' \<and> c \<noteq> ''..''
      then (case iso_node_is_valid_name (Some c) of Inl e \<Rightarrow> Inl e | Inr _ \<Rightarrow> check_components cs)
      else check_components cs)"

definition iso_node_is_valid_link_dest :: "string option \<Rightarrow> bool \<Rightarrow> iso_error + nat" where
  "iso_node_is_valid_link_dest dest mem =
     (case dest of
        None \<Rightarrow> Inl ISO_NULL_POINTER
      | Some d \<Rightarrow>
          if d = [] then Inl ISO_RR_NAME_RESERVED
          else if length d > LIBISOFS_NODE_PATH_MAX then Inl ISO_RR_PATH_TOO_LONG
          else if d = ''/'' then Inr 1
          else if \<not> mem then Inl ISO_OUT_OF_MEM
          else check_components (path_components d []))"

section \<open>New nodes\<close>

text \<open>What \<open>calloc\<close> and the common assignments leave; the caller stores it at a fresh address.\<close>

definition new_node :: "iso_node_type \<Rightarrow> string \<Rightarrow> u32 \<Rightarrow> iso_node" where
  "new_node ty name mode =
     \<lparr>n_ref = 1, n_type = ty, n_name = name, n_mode = mode, n_uid = 0, n_gid = 0, n_atime = 0, n_mtime = 0,
      n_ctime = 0, n_hidden = 0, n_parent = None, n_xinfo = [], n_children = [], n_count = 0, n_weight = (0, False)\<rparr>"

text \<open>\<open>fresh\<close> is the address that the allocation yields, if it succeeds; \<open>now\<close> is what \<open>iso_nowtime\<close>
  gives.\<close>

definition iso_node_new_root :: "node_store \<Rightarrow> addr option \<Rightarrow> int \<Rightarrow> (iso_error + nat) \<times> node_store" where
  "iso_node_new_root s fresh now =
     (case fresh of
        None \<Rightarrow> (Inl ISO_OUT_OF_MEM, s)
      | Some a \<Rightarrow>
          (Inr 1, put_node s a ((new_node LIBISO_DIR [] (S_IFDIR OR 0x16d))
                    \<lparr>n_atime := now, n_ctime := now, n_mtime := now, n_parent := Some a\<rparr>)))"

definition new_named :: "node_store \<Rightarrow> addr option \<Rightarrow> string option \<Rightarrow> iso_node_type \<Rightarrow> u32 \<Rightarrow> (iso_error + nat) \<times> node_store" where
  "new_named s fresh name ty mode =
     (case iso_node_is_valid_name name of
        Inl e \<Rightarrow> (Inl e, s)
      | Inr _ \<Rightarrow>
          (case fresh of
             None \<Rightarrow> (Inl ISO_OUT_OF_MEM, s)
           | Some a \<Rightarrow> (Inr 1, put_node s a (new_node ty (the name) mode))))"

definition iso_node_new_dir :: "node_store \<Rightarrow> addr option \<Rightarrow> string option \<Rightarrow> (iso_error + nat) \<times> node_store" where
  "iso_node_new_dir s fresh name = new_named s fresh name LIBISO_DIR S_IFDIR"

definition iso_node_new_file ::
  "node_store \<Rightarrow> addr option \<Rightarrow> string option \<Rightarrow> bool \<Rightarrow> (iso_error + nat) \<times> node_store" where
  "iso_node_new_file s fresh name has_stream =
     (if \<not> has_stream then (Inl ISO_NULL_POINTER, s) else new_named s fresh name LIBISO_FILE S_IFREG)"

definition iso_node_new_symlink ::
  "node_store \<Rightarrow> addr option \<Rightarrow> string option \<Rightarrow> string option \<Rightarrow> bool \<Rightarrow> (iso_error + nat) \<times> node_store" where
  "iso_node_new_symlink s fresh name dest mem =
     (if name = None \<or> dest = None then (Inl ISO_NULL_POINTER, s)
      else case iso_node_is_valid_name name of
             Inl e \<Rightarrow> (Inl e, s)
           | Inr _ \<Rightarrow>
               (case iso_node_is_valid_link_dest dest mem of
                  Inl e \<Rightarrow> (Inl e, s)
                | Inr _ \<Rightarrow> new_named s fresh name LIBISO_SYMLINK S_IFLNK))"

definition iso_node_new_special ::
  "node_store \<Rightarrow> addr option \<Rightarrow> string option \<Rightarrow> u32 \<Rightarrow> (iso_error + nat) \<times> node_store" where
  "iso_node_new_special s fresh name mode =
     (if name = None then (Inl ISO_NULL_POINTER, s)
      else if mode AND S_IFMT = S_IFLNK \<or> mode AND S_IFMT = S_IFREG \<or> mode AND S_IFMT = S_IFDIR
      then (Inl ISO_WRONG_ARG_VALUE, s)
      else new_named s fresh name LIBISO_SPECIAL mode)"

section \<open>Directories\<close>

datatype iso_replace_mode =
  ISO_REPLACE_NEVER | ISO_REPLACE_ALWAYS | ISO_REPLACE_IF_SAME_TYPE |
  ISO_REPLACE_IF_SAME_TYPE_AND_NEWER | ISO_REPLACE_IF_NEWER

text \<open>The position in the list of children where the loop of \<open>iso_dir_find\<close> stops.\<close>

definition iso_dir_find :: "node_store \<Rightarrow> addr \<Rightarrow> string \<Rightarrow> nat" where
  "iso_dir_find s dir name =
     length (takeWhile (\<lambda>c. strcmp (n_name (node_at s c)) name < 0) (n_children (node_at s dir)))"

definition child_here :: "node_store \<Rightarrow> addr \<Rightarrow> nat \<Rightarrow> string \<Rightarrow> bool" where
  "child_here s dir pos name \<longleftrightarrow>
     pos < length (n_children (node_at s dir)) \<and> strcmp (n_name (node_at s (n_children (node_at s dir) ! pos))) name = 0"

definition iso_dir_exists :: "node_store \<Rightarrow> addr \<Rightarrow> string \<Rightarrow> bool \<times> nat" where
  "iso_dir_exists s dir name = (let pos = iso_dir_find s dir name in (child_here s dir pos name, pos))"

definition iso_dir_get_node :: "node_store \<Rightarrow> addr option \<Rightarrow> string option \<Rightarrow> ((iso_error + int) \<times> addr option) option" where
  "iso_dir_get_node s dir name =
     (case (dir, name) of
        (Some d, Some nm) \<Rightarrow>
          if ns_nodes s d = None then None
          else (case iso_dir_exists s d nm of
                  (True, pos) \<Rightarrow> Some (Inr 1, Some (n_children (node_at s d) ! pos))
                | (False, pos) \<Rightarrow> Some (Inr 0, None))
      | _ \<Rightarrow> Some (Inl ISO_NULL_POINTER, None))"

text \<open>A return value of type \<open>int\<close> for a count of type \<open>size_t\<close>.\<close>

definition as_int :: "u64 \<Rightarrow> int" where
  "as_int n = sint (ucast n :: u32)"

definition may_replace :: "iso_replace_mode \<Rightarrow> iso_node \<Rightarrow> iso_node \<Rightarrow> bool" where
  "may_replace replace old node =
     (case replace of
        ISO_REPLACE_NEVER \<Rightarrow> False
      | ISO_REPLACE_IF_NEWER \<Rightarrow> \<not> n_mtime old \<ge> n_mtime node
      | ISO_REPLACE_IF_SAME_TYPE_AND_NEWER \<Rightarrow>
          \<not> n_mtime old \<ge> n_mtime node \<and> n_mode node AND S_IFMT = n_mode old AND S_IFMT
      | ISO_REPLACE_IF_SAME_TYPE \<Rightarrow> n_mode node AND S_IFMT = n_mode old AND S_IFMT
      | ISO_REPLACE_ALWAYS \<Rightarrow> True)"

definition set_parent :: "node_store \<Rightarrow> addr \<Rightarrow> addr option \<Rightarrow> node_store" where
  "set_parent s a p = put_node s a ((node_at s a)\<lparr>n_parent := p\<rparr>)"

definition set_dir_children :: "node_store \<Rightarrow> addr \<Rightarrow> addr list \<Rightarrow> node_store" where
  "set_dir_children s d cs = put_node s d ((node_at s d)\<lparr>n_children := cs\<rparr>)"

definition set_count :: "node_store \<Rightarrow> addr \<Rightarrow> u64 \<Rightarrow> node_store" where
  "set_count s d n = put_node s d ((node_at s d)\<lparr>n_count := n\<rparr>)"

text \<open>When a node is replaced, the pointers of the directory and of the new node are set here before the
  old node is released; nothing in between depends on them.\<close>

definition iso_dir_insert ::
  "node_store \<Rightarrow> addr \<Rightarrow> addr \<Rightarrow> nat \<Rightarrow> iso_replace_mode \<Rightarrow> ((iso_error + int) \<times> node_store) option" where
  "iso_dir_insert s dir node pos replace =
     (let cs = n_children (node_at s dir)
      in if child_here s dir pos (n_name (node_at s node))
         then let old = cs ! pos
              in if \<not> may_replace replace (node_at s old) (node_at s node)
                 then Some (Inl ISO_NODE_NAME_NOT_UNIQUE, s)
                 else case iso_node_unref
                             (set_parent (set_dir_children (set_parent s old None) dir (cs[pos := node])) node (Some dir))
                             (Some old) of
                        None \<Rightarrow> None
                      | Some s1 \<Rightarrow>
                          if ns_nodes s1 dir = None then None
                          else Some (Inr (as_int (n_count (node_at s1 dir))), s1)
         else let s1 = set_parent (set_dir_children s dir (take pos cs @ node # drop pos cs)) node (Some dir);
                  s2 = set_count s1 dir (n_count (node_at s1 dir) + 1)
              in Some (Inr (as_int (n_count (node_at s2 dir))), s2))"

definition iso_dir_add_node ::
  "node_store \<Rightarrow> addr option \<Rightarrow> addr option \<Rightarrow> iso_replace_mode \<Rightarrow> ((iso_error + int) \<times> node_store) option" where
  "iso_dir_add_node s dir child replace =
     (case (dir, child) of
        (Some d, Some c) \<Rightarrow>
          if d = c then Some (Inl ISO_WRONG_ARG_VALUE, s)
          else if ns_nodes s d = None \<or> ns_nodes s c = None then None
          else if n_parent (node_at s c) \<noteq> None then Some (Inl ISO_NODE_ALREADY_ADDED, s)
          else iso_dir_insert s d c (iso_dir_find s d (n_name (node_at s c))) replace
      | _ \<Rightarrow> Some (Inl ISO_NULL_POINTER, s))"

definition iso_dir_get_children_count :: "node_store \<Rightarrow> addr option \<Rightarrow> iso_error + int" where
  "iso_dir_get_children_count s dir =
     (case dir of None \<Rightarrow> Inl ISO_NULL_POINTER | Some d \<Rightarrow> Inr (as_int (n_count (node_at s d))))"

section \<open>Iterators\<close>

definition get_iter :: "node_store \<Rightarrow> nat \<Rightarrow> dir_iter" where
  "get_iter s i = the (map_of (ns_iters s) i)"

definition put_iter :: "node_store \<Rightarrow> nat \<Rightarrow> dir_iter \<Rightarrow> node_store" where
  "put_iter s i it = s\<lparr>ns_iters := map (\<lambda>(j, jt). if j = i then (j, it) else (j, jt)) (ns_iters s)\<rparr>"

text \<open>\<open>next\<close> of a node: its successor among the children of its parent; it is NULL outside of a
  directory.\<close>

fun succ_in :: "addr list \<Rightarrow> addr \<Rightarrow> addr option" where
  "succ_in (x # y # xs) a = (if x = a then Some y else succ_in (y # xs) a)"
| "succ_in _ a = None"

definition node_next :: "node_store \<Rightarrow> addr \<Rightarrow> addr option" where
  "node_next s a =
     (case n_parent (node_at s a) of None \<Rightarrow> None | Some d \<Rightarrow> succ_in (n_children (node_at s d)) a)"

definition iso_dir_get_children :: "node_store \<Rightarrow> addr option \<Rightarrow> nat option \<Rightarrow> ((iso_error + nat) \<times> node_store) option" where
  "iso_dir_get_children s dir fresh =
     (case dir of
        None \<Rightarrow> Some (Inl ISO_NULL_POINTER, s)
      | Some d \<Rightarrow>
          (case fresh of
             None \<Rightarrow> Some (Inl ISO_OUT_OF_MEM, s)
           | Some i \<Rightarrow>
               map_option (Pair (Inr 1))
                 (iso_node_ref (s\<lparr>ns_iters := (i, \<lparr>it_dir = d, it_pos = None, it_next = False\<rparr>) # ns_iters s\<rparr>) d)))"

definition iter_next :: "node_store \<Rightarrow> nat \<Rightarrow> ((iso_error + nat) \<times> addr option \<times> node_store) option" where
  "iter_next s i =
     (let it = (get_iter s i)\<lparr>it_next := False\<rparr>; s0 = put_iter s i it;
          arrive = (\<lambda>s1 p. case iso_node_ref s1 p of
                      None \<Rightarrow> None
                    | Some s2 \<Rightarrow> Some (Inr 1, Some p, put_iter s2 i (it\<lparr>it_pos := Some p, it_next := True\<rparr>)))
      in case it_pos it of
           None \<Rightarrow>
             (case n_children (node_at s (it_dir it)) of
                [] \<Rightarrow> Some (Inr 0, None, s0)
              | p # _ \<Rightarrow> arrive s0 p)
         | Some pos \<Rightarrow>
             if n_parent (node_at s pos) \<noteq> Some (it_dir it) then Some (Inl ISO_ERROR, None, s0)
             else (case node_next s pos of
                     None \<Rightarrow> Some (Inr 0, None, s0)
                   | Some p \<Rightarrow>
                       (case iso_node_unref s0 (Some pos) of
                          None \<Rightarrow> None
                        | Some s1 \<Rightarrow> if ns_nodes s1 pos = None then None else arrive s1 p)))"

definition iter_has_next :: "node_store \<Rightarrow> nat \<Rightarrow> bool" where
  "iter_has_next s i =
     (case it_pos (get_iter s i) of
        None \<Rightarrow> n_children (node_at s (it_dir (get_iter s i))) \<noteq> []
      | Some pos \<Rightarrow> node_next s pos \<noteq> None)"

text \<open>\<open>iso_dir_iter_free\<close>: unregister, then release the position and the directory.\<close>

definition iso_dir_iter_free :: "node_store \<Rightarrow> nat \<Rightarrow> node_store option" where
  "iso_dir_iter_free s i =
     (let it = get_iter s i
      in case iso_node_unref (s\<lparr>ns_iters := filter (\<lambda>(j, _). j \<noteq> i) (ns_iters s)\<rparr>) (it_pos it) of
           None \<Rightarrow> None
         | Some s1 \<Rightarrow> iso_node_unref s1 (Some (it_dir it)))"

text \<open>An iterator at the node steps back before the node leaves the directory. The node is unlinked
  here already.\<close>

fun pred_in :: "addr list \<Rightarrow> addr \<Rightarrow> addr option" where
  "pred_in (x # y # xs) a = (if x = a then None else if y = a then Some x else pred_in (y # xs) a)"
| "pred_in _ a = None"

definition iter_notify_child_taken :: "nat \<Rightarrow> addr \<Rightarrow> node_store \<Rightarrow> node_store option" where
  "iter_notify_child_taken i node s =
     (let it = get_iter s i; cs = n_children (node_at s (it_dir it))
      in if it_pos it \<noteq> Some node \<or> node \<notin> set cs then Some s
         else case iso_node_unref s (Some node) of
                None \<Rightarrow> None
              | Some s1 \<Rightarrow>
                  let s2 = set_dir_children s1 (it_dir it) (remove1 node cs)
                  in case pred_in cs node of
                       None \<Rightarrow> Some (put_iter s2 i (it\<lparr>it_pos := None\<rparr>))
                     | Some p \<Rightarrow> iso_node_ref (put_iter s2 i (it\<lparr>it_pos := Some p\<rparr>)) p)"

fun notify_loop :: "nat list \<Rightarrow> addr \<Rightarrow> node_store \<Rightarrow> node_store option" where
  "notify_loop [] node s = Some s"
| "notify_loop (i # is) node s =
     (if Some (it_dir (get_iter s i)) = n_parent (node_at s node)
      then (case iter_notify_child_taken i node s of None \<Rightarrow> None | Some s1 \<Rightarrow> notify_loop is node s1)
      else notify_loop is node s)"

definition iso_notify_dir_iters :: "node_store \<Rightarrow> addr \<Rightarrow> node_store option" where
  "iso_notify_dir_iters s node = notify_loop (map fst (ns_iters s)) node s"

definition iso_node_take :: "node_store \<Rightarrow> addr option \<Rightarrow> ((iso_error + int) \<times> node_store) option" where
  "iso_node_take s node =
     (case node of
        None \<Rightarrow> Some (Inl ISO_NULL_POINTER, s)
      | Some a \<Rightarrow>
          if ns_nodes s a = None then None
          else case n_parent (node_at s a) of
                 None \<Rightarrow> Some (Inl ISO_NODE_NOT_ADDED_TO_DIR, s)
               | Some dir \<Rightarrow>
                   (case iso_notify_dir_iters s a of
                      None \<Rightarrow> None
                    | Some s1 \<Rightarrow>
                        let s2 = set_dir_children s1 dir (remove1 a (n_children (node_at s1 dir)));
                            s3 = set_parent s2 a None
                        in Some (Inr 1, set_count s3 dir (n_count (node_at s3 dir) - 1))))"

definition iso_node_remove :: "node_store \<Rightarrow> addr option \<Rightarrow> ((iso_error + int) \<times> node_store) option" where
  "iso_node_remove s node =
     (case iso_node_take s node of
        Some (Inr r, s1) \<Rightarrow> map_option (Pair (Inr r)) (iso_node_unref s1 node)
      | other \<Rightarrow> other)"

definition iter_take :: "node_store \<Rightarrow> nat \<Rightarrow> ((iso_error + int) \<times> node_store) option" where
  "iter_take s i =
     (let it = get_iter s i
      in if \<not> it_next it then Some (Inl ISO_ERROR, s)
         else if it_pos it = None then Some (Inl ISO_ASSERT_FAILURE, s)
         else iso_node_take (put_iter s i (it\<lparr>it_next := False\<rparr>)) (it_pos it))"

definition iter_remove :: "node_store \<Rightarrow> nat \<Rightarrow> ((iso_error + int) \<times> node_store) option" where
  "iter_remove s i =
     (case iter_take s i of
        Some (Inr r, s1) \<Rightarrow> map_option (Pair (Inr r)) (iso_node_unref s1 (it_pos (get_iter s i)))
      | other \<Rightarrow> other)"

section \<open>Renaming\<close>

definition truncated :: "nat \<Rightarrow> string \<Rightarrow> iso_error + string" where
  "truncated len name =
     (case iso_truncate_rr_name 1 len (bytes_of name) of
        (Inl e, _) \<Rightarrow> Inl e
      | (Inr _, bs) \<Rightarrow> Inr (map (\<lambda>b. char_of (unat b)) bs))"

text \<open>\<open>mem\<close> says whether \<open>strdup\<close> succeeds.\<close>

definition iso_node_set_name_trunc ::
  "node_store \<Rightarrow> bool \<Rightarrow> addr \<Rightarrow> string \<Rightarrow> int \<Rightarrow> ((iso_error + int) \<times> node_store) option" where
  "iso_node_set_name_trunc s mem a in_name truncate_length =
     (if ns_nodes s a = None then None
      else if n_parent (node_at s a) = Some a then Some (Inl ISO_WRONG_ARG_VALUE, s)
      else if truncate_length \<ge> 64 \<and> \<not> mem then Some (Inl ISO_OUT_OF_MEM, s)
      else case (if truncate_length \<ge> 64 then truncated (nat truncate_length) in_name else Inr in_name) of
             Inl e \<Rightarrow> Some (Inl e, s)
           | Inr name \<Rightarrow>
               (case iso_node_is_valid_name (Some name) of
                  Inl e \<Rightarrow> Some (Inl e, s)
                | Inr _ \<Rightarrow>
                    (case (case n_parent (node_at s a) of
                             None \<Rightarrow> Some (Inr 0, None)
                           | Some dir \<Rightarrow> iso_dir_get_node s (Some dir) (Some name)) of
                       None \<Rightarrow> None
                     | Some (found, _) \<Rightarrow>
                         if found = Inr 1 then Some (Inl ISO_NODE_NAME_NOT_UNIQUE, s)
                         else if \<not> mem then Some (Inl ISO_OUT_OF_MEM, s)
                         else let s1 = put_node s a ((node_at s a)\<lparr>n_name := name\<rparr>)
                              in case n_parent (node_at s a) of
                                   None \<Rightarrow> Some (Inr 1, s1)
                                 | Some dir \<Rightarrow>
                                     (case iso_node_take s1 (Some a) of
                                        None \<Rightarrow> None
                                      | Some (_, s2) \<Rightarrow>
                                          (case iso_dir_add_node s2 (Some dir) (Some a) ISO_REPLACE_NEVER of
                                             None \<Rightarrow> None
                                           | Some (Inl e, s3) \<Rightarrow> Some (Inl e, s3)
                                           | Some (Inr _, s3) \<Rightarrow> Some (Inr 1, s3))))))"

definition iso_node_set_name :: "node_store \<Rightarrow> bool \<Rightarrow> addr \<Rightarrow> string \<Rightarrow> ((iso_error + int) \<times> node_store) option" where
  "iso_node_set_name s mem a name = iso_node_set_name_trunc s mem a name 0"


end
