(* ===== verification/NodeStore.thy ===== *)
theory NodeStore
  imports NodeTree
begin

text \<open>
  The invariant of the store of \<open>NodeTree\<close> and what keeps it: references (\<open>iso_node_ref\<close>,
  \<open>iso_node_unref\<close> with its recursion), a node leaving a directory (\<open>detach\<close>) and entering one
  (\<open>attach\<close>).
\<close>

section \<open>What a store must be\<close>

definition in_use :: "node_store \<Rightarrow> addr \<Rightarrow> bool" where
  "in_use s a \<longleftrightarrow> ns_nodes s a \<noteq> None"

abbreviation parent_of :: "node_store \<Rightarrow> addr \<Rightarrow> addr option" where
  "parent_of s a \<equiv> n_parent (node_at s a)"

abbreviation kids :: "node_store \<Rightarrow> addr \<Rightarrow> addr list" where
  "kids s a \<equiv> n_children (node_at s a)"

abbreviation name_of :: "node_store \<Rightarrow> addr \<Rightarrow> string" where
  "name_of s a \<equiv> n_name (node_at s a)"

text \<open>The parent relation without the loop at a root.\<close>

definition child_of :: "node_store \<Rightarrow> (addr \<times> addr) set" where
  "child_of s = {(c, d). in_use s c \<and> parent_of s c = Some d \<and> c \<noteq> d}"

text \<open>The references that a node needs: one from its directory, and those of the iterators.\<close>

definition owner :: "node_store \<Rightarrow> addr \<Rightarrow> nat" where
  "owner s a = of_bool (a \<in> Domain (child_of s))"

definition iter_refs :: "node_store \<Rightarrow> addr \<Rightarrow> nat" where
  "iter_refs s a =
     length (filter (\<lambda>(_, it). it_dir it = a) (ns_iters s)) + length (filter (\<lambda>(_, it). it_pos it = Some a) (ns_iters s))"

definition dir_ok :: "node_store \<Rightarrow> addr \<Rightarrow> bool" where
  "dir_ok s a \<longleftrightarrow>
     (n_type (node_at s a) \<noteq> LIBISO_DIR \<longrightarrow> kids s a = []) \<and>
     sorted_wrt (\<lambda>x y. name_of s x < name_of s y) (kids s a) \<and>
     (\<forall>c \<in> set (kids s a). (c, a) \<in> child_of s) \<and>
     (\<forall>d. (a, d) \<in> child_of s \<longrightarrow> in_use s d \<and> a \<in> set (kids s d)) \<and>
     n_count (node_at s a) = of_nat (length (kids s a))"

text \<open>\<open>todo\<close> holds the references that are about to be released.\<close>

definition store_ok :: "addr list \<Rightarrow> node_store \<Rightarrow> bool" where
  "store_ok todo s \<longleftrightarrow>
     finite {a. in_use s a} \<and> distinct (map fst (ns_iters s)) \<and> acyclic (child_of s) \<and>
     (\<forall>a. in_use s a \<longrightarrow> dir_ok s a) \<and>
     (\<forall>a. in_use s a \<longrightarrow> 1 \<le> n_ref (node_at s a)) \<and>
     (\<forall>a. int (owner s a + iter_refs s a + count_list todo a) \<le> (if in_use s a then n_ref (node_at s a) else 0))"

lemma in_use_Some: "in_use s a \<Longrightarrow> ns_nodes s a = Some (node_at s a)"
  by (auto simp: in_use_def node_at_def)

lemma store_okD:
  assumes "store_ok todo s"
  shows "finite {a. in_use s a}" "distinct (map fst (ns_iters s))" "acyclic (child_of s)"
    "in_use s a \<Longrightarrow> dir_ok s a" "in_use s a \<Longrightarrow> 1 \<le> n_ref (node_at s a)"
    "int (owner s a + iter_refs s a + count_list todo a) \<le> (if in_use s a then n_ref (node_at s a) else 0)"
  using assms by (auto simp: store_ok_def)

lemma dir_okD:
  assumes "dir_ok s a"
  shows "n_type (node_at s a) \<noteq> LIBISO_DIR \<Longrightarrow> kids s a = []"
    "sorted_wrt (\<lambda>x y. name_of s x < name_of s y) (kids s a)"
    "c \<in> set (kids s a) \<Longrightarrow> (c, a) \<in> child_of s"
    "(a, d) \<in> child_of s \<Longrightarrow> in_use s d \<and> a \<in> set (kids s d)"
    "n_count (node_at s a) = of_nat (length (kids s a))"
  using assms by (auto simp: dir_ok_def)

lemma child_ofD: "(c, d) \<in> child_of s \<Longrightarrow> in_use s c \<and> parent_of s c = Some d \<and> c \<noteq> d"
  by (auto simp: child_of_def)

lemma sorted_wrt_distinct: "sorted_wrt (\<lambda>x y. f x < f y) xs \<Longrightarrow> distinct xs" for f :: "'a \<Rightarrow> 'b::order"
  by (induction xs) auto

lemma distinct_kids: "dir_ok s a \<Longrightarrow> distinct (kids s a)"
  by (rule sorted_wrt_distinct [OF dir_okD(2)])

text \<open>What a release may change: nodes below the released ones disappear or lose their parent.\<close>

definition like_node :: "iso_node \<Rightarrow> iso_node \<Rightarrow> bool" where
  "like_node nd nd' \<longleftrightarrow> nd'\<lparr>n_ref := 0, n_parent := None\<rparr> = nd\<lparr>n_ref := 0, n_parent := None\<rparr>"

lemma like_nodeD:
  assumes "like_node nd nd'"
  shows "n_children nd' = n_children nd" "n_name nd' = n_name nd" "n_type nd' = n_type nd" "n_count nd' = n_count nd"
  using arg_cong [OF assms [unfolded like_node_def], of n_children] arg_cong [OF assms [unfolded like_node_def], of n_name]
    arg_cong [OF assms [unfolded like_node_def], of n_type] arg_cong [OF assms [unfolded like_node_def], of n_count]
  by simp_all

lemma like_node_simps [simp]:
  "like_node nd nd" "like_node nd (nd\<lparr>n_ref := r\<rparr>)" "like_node nd (nd\<lparr>n_parent := p\<rparr>)"
  by (simp_all add: like_node_def)

lemma like_node_trans: "like_node x y \<Longrightarrow> like_node y z \<Longrightarrow> like_node x z"
  by (simp add: like_node_def)

definition shrunk :: "addr set \<Rightarrow> node_store \<Rightarrow> node_store \<Rightarrow> bool" where
  "shrunk A s s' \<longleftrightarrow>
     ns_iters s' = ns_iters s \<and> child_of s' \<subseteq> child_of s \<and>
     (\<forall>b. in_use s' b \<longrightarrow> in_use s b \<and>
        like_node (node_at s b) (node_at s' b)) \<and>
     (\<forall>b. in_use s b \<longrightarrow> (\<forall>a \<in> A. (b, a) \<notin> (child_of s)\<^sup>*) \<longrightarrow> in_use s' b \<and> node_at s' b = node_at s b)"

section \<open>Releasing references\<close>

lemma in_use_put [simp]: "in_use (put_node s a nd) b \<longleftrightarrow> b = a \<or> in_use s b"
  by (simp add: in_use_def put_node_def)

lemma node_at_put [simp]: "node_at (put_node s a nd) b = (if b = a then nd else node_at s b)"
  by (simp add: node_at_def put_node_def)

lemma iters_put [simp]: "ns_iters (put_node s a nd) = ns_iters s"
  by (simp add: put_node_def)

lemma iter_refs_cong: "ns_iters s' = ns_iters s \<Longrightarrow> iter_refs s' a = iter_refs s a"
  by (simp add: iter_refs_def)

lemma in_use_free [simp]: "in_use (free_node s a) b \<longleftrightarrow> b \<noteq> a \<and> in_use s b"
  by (simp add: in_use_def free_node_def)

lemma iters_free [simp]: "ns_iters (free_node s a) = ns_iters s"
  by (simp add: free_node_def)

lemma node_at_free:
  "in_use s b \<Longrightarrow> b \<noteq> a \<Longrightarrow>
     node_at (free_node s a) b = (if b \<in> set (kids s a) then (node_at s b)\<lparr>n_parent := None\<rparr> else node_at s b)"
  by (auto simp: in_use_def node_at_def free_node_def)

lemma child_of_unique: "(c, x) \<in> child_of s \<Longrightarrow> (c, y) \<in> child_of s \<Longrightarrow> x = y"
  by (auto simp: child_of_def)

text \<open>A change of references only.\<close>

definition set_ref :: "node_store \<Rightarrow> addr \<Rightarrow> int \<Rightarrow> node_store" where
  "set_ref s a n = put_node s a ((node_at s a)\<lparr>n_ref := n\<rparr>)"

lemma set_ref_simps [simp]:
  "ns_iters (set_ref s a n) = ns_iters s"
  "in_use (set_ref s a n) b \<longleftrightarrow> b = a \<or> in_use s b"
  "node_at (set_ref s a n) b = (if b = a then (node_at s a)\<lparr>n_ref := n\<rparr> else node_at s b)"
  by (simp_all add: set_ref_def)

lemma set_ref_child_of [simp]: "in_use s a \<Longrightarrow> child_of (set_ref s a n) = child_of s"
  by (auto simp: child_of_def split: if_splits)

lemma set_ref_owner [simp]: "in_use s a \<Longrightarrow> owner (set_ref s a n) b = owner s b"
  by (simp add: owner_def)

lemma set_ref_iter_refs [simp]: "iter_refs (set_ref s a n) b = iter_refs s b"
  by (simp add: iter_refs_def)

lemma set_ref_dir_ok [simp]:
  assumes "in_use s a"
  shows "dir_ok (set_ref s a n) b = dir_ok s b"
proof -
  have f: "n_type (node_at (set_ref s a n) x) = n_type (node_at s x)" "kids (set_ref s a n) x = kids s x"
    "name_of (set_ref s a n) x = name_of s x" "n_count (node_at (set_ref s a n) x) = n_count (node_at s x)"
    "in_use (set_ref s a n) x = in_use s x" for x
    using assms by (simp_all only: set_ref_simps) auto
  show ?thesis unfolding dir_ok_def f using assms by simp
qed

lemma set_ref_store_ok:
  assumes "store_ok todo s" and "in_use s a" and "1 \<le> n"
    and "\<And>b. b \<noteq> a \<Longrightarrow> count_list todo' b \<le> count_list todo b"
    and "int (owner s a + iter_refs s a + count_list todo' a) \<le> n"
  shows "store_ok todo' (set_ref s a n)"
  unfolding store_ok_def
proof (intro conjI allI impI)
  note ok = store_okD [OF assms(1)]
  have "{b. in_use (set_ref s a n) b} = {b. in_use s b}" using assms(2) by auto
  then show "finite {b. in_use (set_ref s a n) b}" using ok(1) by simp
  show "distinct (map fst (ns_iters (set_ref s a n)))" "acyclic (child_of (set_ref s a n))"
    using ok(2,3) assms(2) by simp_all
  fix b
  show "dir_ok (set_ref s a n) b" if "in_use (set_ref s a n) b"
    using that ok(4) [of b] assms(2) by auto
  show "1 \<le> n_ref (node_at (set_ref s a n) b)" if "in_use (set_ref s a n) b"
    using that ok(5) [of b] assms(2,3) by auto
  show "int (owner (set_ref s a n) b + iter_refs (set_ref s a n) b + count_list todo' b) \<le>
      (if in_use (set_ref s a n) b then n_ref (node_at (set_ref s a n) b) else 0)"
    using ok(6) [of b] assms(2,5) assms(4) [of b] by (cases "b = a") (auto split: if_splits)
qed

lemma free_child_of: "child_of (free_node s a) = {(c, d) \<in> child_of s. c \<noteq> a \<and> c \<notin> set (kids s a)}"
  by (auto simp: child_of_def node_at_free split: if_splits)

lemma count_list_distinct: "distinct xs \<Longrightarrow> count_list xs x = of_bool (x \<in> set xs)"
  by (induction xs) auto

text \<open>The last reference of a node goes: its children, which lose their owner, are to be released.\<close>

lemma free_store_ok:
  assumes ok: "store_ok (a # rest) s" and a: "in_use s a" "n_ref (node_at s a) = 1"
  shows "store_ok (kids s a @ rest) (free_node s a)"
    and "(a, d) \<notin> child_of s"
proof -
  note sok = store_okD [OF ok]
  have zero: "owner s a = 0" "iter_refs s a = 0" "count_list rest a = 0" using sok(6) [of a] a by auto
  from zero(1) show no: "(a, d) \<notin> child_of s" for d by (auto simp: owner_def)
  have kid: "(c, a) \<in> child_of s" "in_use s c" "c \<noteq> a" if "c \<in> set (kids s a)" for c
    using dir_okD(3) [OF sok(4) [OF a(1)] that] child_ofD [of c a s] by auto
  have kid_of: "x = a" if "c \<in> set (kids s a)" "(c, x) \<in> child_of s" for c x
    by (rule child_of_unique [OF that(2) kid(1) [OF that(1)]])
  note dist = distinct_kids [OF sok(4) [OF a(1)]]
  show "store_ok (kids s a @ rest) (free_node s a)"
    unfolding store_ok_def
  proof (intro conjI allI impI)
    show "finite {b. in_use (free_node s a) b}" by (rule finite_subset [OF _ sok(1)]) auto
    show "distinct (map fst (ns_iters (free_node s a)))" using sok(2) by simp
    show "acyclic (child_of (free_node s a))" using sok(3) by (rule acyclic_subset) (auto simp: free_child_of)
    fix b
    show "1 \<le> n_ref (node_at (free_node s a) b)" if "in_use (free_node s a) b"
      using that sok(5) [of b] by (auto simp: node_at_free)
    show "int (owner (free_node s a) b + iter_refs (free_node s a) b + count_list (kids s a @ rest) b) \<le>
        (if in_use (free_node s a) b then n_ref (node_at (free_node s a) b) else 0)"
    proof (cases "b \<in> set (kids s a)")
      case True
      then have "owner s b = 1" using kid(1) by (auto simp: owner_def)
      moreover have "owner (free_node s a) b = 0" using True by (auto simp: owner_def free_child_of)
      ultimately show ?thesis using True sok(6) [of b] kid(2,3) [OF True] dist
        by (simp add: iter_refs_cong [of "free_node s a" s] count_list_distinct node_at_free)
    next
      case False
      have "owner (free_node s a) b \<le> owner s b" by (auto simp: owner_def free_child_of)
      then show ?thesis using False sok(6) [of b] zero dist
        by (auto simp: iter_refs_cong [of "free_node s a" s] count_list_distinct node_at_free split: if_splits)
    qed
    assume b: "in_use (free_node s a) b"
    then have b': "b \<noteq> a" "in_use s b" by auto
    note bok = sok(4) [OF b'(2)]
    have same: "kids (free_node s a) b = kids s b" "n_type (node_at (free_node s a) b) = n_type (node_at s b)"
      "n_count (node_at (free_node s a) b) = n_count (node_at s b)"
      using b' by (simp_all add: node_at_free)
    have in_kids: "c \<noteq> a \<and> c \<notin> set (kids s a) \<and> in_use s c" if "c \<in> set (kids s b)" for c
      using dir_okD(3) [OF bok that] no [of b] kid_of [of c b] b'(1) child_ofD [of c b s] by auto
    have nm: "name_of (free_node s a) c = name_of s c" if "c \<in> set (kids s b)" for c
      using in_kids [OF that] by (simp add: node_at_free)
    have "sorted_wrt (\<lambda>x y. name_of (free_node s a) x < name_of (free_node s a) y) (kids s b)"
      using dir_okD(2) [OF bok]
      by (rule sorted_wrt_mono_rel [rotated]) (simp add: nm)
    moreover have "(c, b) \<in> child_of (free_node s a)" if "c \<in> set (kids s b)" for c
      using in_kids [OF that] dir_okD(3) [OF bok that] by (simp add: free_child_of)
    moreover have "in_use (free_node s a) d \<and> b \<in> set (kids (free_node s a) d)" if "(b, d) \<in> child_of (free_node s a)" for d
    proof -
      have bd: "(b, d) \<in> child_of s" "b \<notin> set (kids s a)" using that by (auto simp: free_child_of)
      then show ?thesis using dir_okD(4) [OF bok bd(1)] by (cases "d = a") (auto simp: node_at_free)
    qed
    ultimately show "dir_ok (free_node s a) b" unfolding dir_ok_def same using dir_okD(1,5) [OF bok] by auto
  qed
qed

definition ref_sum :: "node_store \<Rightarrow> nat" where
  "ref_sum s = (\<Sum>a | in_use s a. nat (n_ref (node_at s a)))"

lemma ref_sum_remove: "finite {b. in_use s b} \<Longrightarrow> in_use s a \<Longrightarrow>
    ref_sum s = nat (n_ref (node_at s a)) + (\<Sum>b | in_use s b \<and> b \<noteq> a. nat (n_ref (node_at s b)))"
proof -
  assume f: "finite {b. in_use s b}" and a: "in_use s a"
  have "{b. in_use s b} = insert a {b. in_use s b \<and> b \<noteq> a}" using a by auto
  moreover have "finite {b. in_use s b \<and> b \<noteq> a}" by (rule finite_subset [OF _ f]) auto
  ultimately show ?thesis by (simp add: ref_sum_def)
qed

lemma ref_sum_free:
  "finite {b. in_use s b} \<Longrightarrow> in_use s a \<Longrightarrow> 1 \<le> n_ref (node_at s a) \<Longrightarrow> ref_sum (free_node s a) < ref_sum s"
proof -
  assume f: "finite {b. in_use s b}" and a: "in_use s a" "1 \<le> n_ref (node_at s a)"
  have "ref_sum (free_node s a) = (\<Sum>b | in_use s b \<and> b \<noteq> a. nat (n_ref (node_at s b)))"
    unfolding ref_sum_def by (rule sum.cong) (auto simp: node_at_free)
  then show ?thesis using ref_sum_remove [OF f a(1)] a(2) by simp
qed

lemma ref_sum_dec:
  "finite {b. in_use s b} \<Longrightarrow> in_use s a \<Longrightarrow> 0 \<le> n \<Longrightarrow> n < n_ref (node_at s a) \<Longrightarrow> ref_sum (set_ref s a n) < ref_sum s"
proof -
  assume f: "finite {b. in_use s b}" and a: "in_use s a" "0 \<le> n" "n < n_ref (node_at s a)"
  let ?R = "\<Sum>b | in_use s b \<and> b \<noteq> a. nat (n_ref (node_at s b))"
  have set: "{b. in_use (set_ref s a n) b} = {b. in_use s b}" using a by auto
  have "(\<Sum>b | in_use (set_ref s a n) b \<and> b \<noteq> a. nat (n_ref (node_at (set_ref s a n) b))) = ?R"
    by (rule sum.cong) auto
  moreover have "finite {b. in_use (set_ref s a n) b}" "in_use (set_ref s a n) a" using f set by simp_all
  from ref_sum_remove [OF this] have "ref_sum (set_ref s a n) = nat (n_ref (node_at (set_ref s a n) a)) +
      (\<Sum>b | in_use (set_ref s a n) b \<and> b \<noteq> a. nat (n_ref (node_at (set_ref s a n) b)))" .
  ultimately have "ref_sum (set_ref s a n) = nat n + ?R" by (simp only: set_ref_simps simp_thms if_True) simp
  then show ?thesis using ref_sum_remove [OF f a(1)] a(2,3) by linarith
qed

lemma shrunk_refl: "shrunk A s s"
  by (simp add: shrunk_def)

lemma shrunkD:
  assumes "shrunk A s s'"
  shows "ns_iters s' = ns_iters s" "child_of s' \<subseteq> child_of s"
    "in_use s' b \<Longrightarrow> in_use s b" "in_use s' b \<Longrightarrow> like_node (node_at s b) (node_at s' b)"
    "in_use s b \<Longrightarrow> \<forall>a \<in> A. (b, a) \<notin> (child_of s)\<^sup>* \<Longrightarrow> in_use s' b \<and> node_at s' b = node_at s b"
  using assms unfolding shrunk_def by blast+

lemma shrunk_trans:
  assumes 1: "shrunk A s s1" and 2: "shrunk B s1 s2"
    and below: "\<And>b. b \<in> B \<Longrightarrow> \<exists>a \<in> A. (b, a) \<in> (child_of s)\<^sup>*"
  shows "shrunk A s s2"
  unfolding shrunk_def
proof (intro conjI allI impI)
  show "ns_iters s2 = ns_iters s" using shrunkD(1) [OF 1] shrunkD(1) [OF 2] by simp
  show "child_of s2 \<subseteq> child_of s" using shrunkD(2) [OF 1] shrunkD(2) [OF 2] by blast
  fix b
  show "in_use s b" if "in_use s2 b" using that shrunkD(3) [OF 1] shrunkD(3) [OF 2] by blast
  show "like_node (node_at s b) (node_at s2 b)" if "in_use s2 b"
    using that shrunkD(3,4) [OF 2] shrunkD(4) [OF 1] like_node_trans by blast
  assume b: "in_use s b" and far: "\<forall>a \<in> A. (b, a) \<notin> (child_of s)\<^sup>*"
  have "(b, c) \<notin> (child_of s1)\<^sup>*" if c: "c \<in> B" for c
  proof
    assume "(b, c) \<in> (child_of s1)\<^sup>*"
    moreover have "(child_of s1)\<^sup>* \<subseteq> (child_of s)\<^sup>*" by (intro rtrancl_mono shrunkD(2) [OF 1])
    moreover obtain a where "a \<in> A" "(c, a) \<in> (child_of s)\<^sup>*" using below [OF c] by auto
    ultimately show False using far by (meson rtrancl_trans subsetD)
  qed
  moreover have "in_use s1 b" "node_at s1 b = node_at s b" using shrunkD(5) [OF 1 b far] by simp_all
  ultimately show "in_use s2 b" "node_at s2 b = node_at s b" using shrunkD(5) [OF 2, of b] by simp_all
qed

lemma free_shrunk:
  assumes "dir_ok s a"
  shows "shrunk {a} s (free_node s a)"
  unfolding shrunk_def
proof (intro conjI allI impI)
  fix b
  show "like_node (node_at s b) (node_at (free_node s a) b)" if "in_use (free_node s a) b"
    using that by (auto simp: node_at_free)
  assume b: "in_use s b" and far: "\<forall>x \<in> {a}. (b, x) \<notin> (child_of s)\<^sup>*"
  then have "b \<noteq> a" "b \<notin> set (kids s a)" using dir_okD(3) [OF assms] by auto
  then show "in_use (free_node s a) b" "node_at (free_node s a) b = node_at s b" using b by (auto simp: node_at_free)
qed (auto simp: free_child_of)

lemma set_ref_shrunk: "in_use s a \<Longrightarrow> shrunk {a} s (set_ref s a n)"
  by (auto simp: shrunk_def)

lemma shrunk_mono: "shrunk A s s' \<Longrightarrow> A \<subseteq> B \<Longrightarrow> shrunk B s s'"
  unfolding shrunk_def by blast

lemma unref_todo_ok:
  "store_ok (todo @ held) s \<Longrightarrow>
     \<exists>s'. unref_todo todo s = Some s' \<and> store_ok held s' \<and> shrunk (set todo) s s'"
proof (induction "ref_sum s" arbitrary: todo s rule: less_induct)
  case less
  show ?case
  proof (cases todo)
    case Nil
    then show ?thesis using less.prems by (auto simp: unref_todo.simps shrunk_refl)
  next
    case (Cons a rest)
    note ok = store_okD [OF less.prems]
    have a: "in_use s a" using ok(6) [of a] Cons by (auto split: if_splits)
    note one = ok(5) [OF a] and dok = ok(4) [OF a]
    have node: "ns_nodes s a = Some (node_at s a)" by (rule in_use_Some [OF a])
    show ?thesis
    proof (cases "n_ref (node_at s a) = 1")
      case True
      have kids: "(if n_type (node_at s a) = LIBISO_DIR then kids s a else []) = kids s a"
        using dir_okD(1) [OF dok] by simp
      have f: "store_ok ((kids s a @ rest) @ held) (free_node s a)"
        using free_store_ok(1) [of a "rest @ held" s] less.prems Cons a True by simp
      obtain s' where s': "unref_todo (kids s a @ rest) (free_node s a) = Some s'" "store_ok held s'"
        "shrunk (set (kids s a @ rest)) (free_node s a) s'"
        using less.hyps [OF ref_sum_free [OF ok(1) a one] f] by auto
      have "shrunk (set todo) s (free_node s a)" by (rule shrunk_mono [OF free_shrunk [OF dok]]) (simp add: Cons)
      then have "shrunk (set todo) s s'"
        by (rule shrunk_trans [OF _ s'(3)]) (use dir_okD(3) [OF dok] Cons in auto)
      then show ?thesis using s'(1,2) True Cons node kids by (subst unref_todo.simps) simp
    next
      case False
      let ?s = "set_ref s a (n_ref (node_at s a) - 1)"
      have "store_ok (rest @ held) ?s"
        by (rule set_ref_store_ok [OF less.prems a]) (use False one ok(6) [of a] Cons a in auto)
      then obtain s' where s': "unref_todo rest ?s = Some s'" "store_ok held s'" "shrunk (set rest) ?s s'"
        using less.hyps [OF ref_sum_dec [OF ok(1) a, of "n_ref (node_at s a) - 1"]] one by auto
      have "shrunk (set todo) s ?s" by (rule shrunk_mono [OF set_ref_shrunk [OF a]]) (simp add: Cons)
      then have "shrunk (set todo) s s'" by (rule shrunk_trans [OF _ s'(3)]) (use Cons in auto)
      then show ?thesis using s'(1,2) False Cons node by (subst unref_todo.simps) (simp add: set_ref_def)
    qed
  qed
qed

lemma unref_one:
  "store_ok (a # held) s \<Longrightarrow> \<exists>s'. iso_node_unref s (Some a) = Some s' \<and> store_ok held s' \<and> shrunk {a} s s'"
  using unref_todo_ok [of "[a]" held s] by (simp add: iso_node_unref_def)

lemma unref_shared:
  "in_use s a \<Longrightarrow> n_ref (node_at s a) \<noteq> 1 \<Longrightarrow>
     iso_node_unref s (Some a) = Some (set_ref s a (n_ref (node_at s a) - 1))"
  using in_use_Some [of s a] by (simp add: iso_node_unref_def unref_todo.simps set_ref_def)

lemma ref_one: "in_use s a \<Longrightarrow> iso_node_ref s a = Some (set_ref s a (n_ref (node_at s a) + 1))"
  using in_use_Some [of s a] by (simp add: iso_node_ref_def set_ref_def)

lemma ref_ok:
  assumes "store_ok held s" and "in_use s a"
  shows "store_ok (a # held) (set_ref s a (n_ref (node_at s a) + 1))"
  by (rule set_ref_store_ok [OF assms]) (use store_okD(5,6) [OF assms(1), of a] assms(2) in auto)

lemma dec_ok:
  assumes "store_ok (a # held) s" and "n_ref (node_at s a) \<noteq> 1"
  shows "store_ok held (set_ref s a (n_ref (node_at s a) - 1))"
proof -
  have a: "in_use s a" using store_okD(6) [OF assms(1), of a] by (auto split: if_splits)
  show ?thesis
    by (rule set_ref_store_ok [OF assms(1) a]) (use store_okD(5,6) [OF assms(1), of a] a assms(2) in auto)
qed

lemma held_weaken:
  assumes "store_ok (a # held) s"
  shows "store_ok held s"
proof -
  have "int (owner s b + iter_refs s b + count_list held b) \<le> (if in_use s b then n_ref (node_at s b) else 0)" for b
    using store_okD(6) [OF assms, of b] by (auto split: if_splits)
  then show ?thesis using assms unfolding store_ok_def by blast
qed

lemma held_in_use: "store_ok held s \<Longrightarrow> a \<in> set held \<Longrightarrow> in_use s a"
proof -
  assume ok: "store_ok held s" and a: "a \<in> set held"
  have "0 < count_list held a" using a by (induction held) auto
  then show ?thesis using store_okD(6) [OF ok, of a] by (auto split: if_splits)
qed

lemma held_perm: "store_ok held s \<Longrightarrow> mset held' = mset held \<Longrightarrow> store_ok held' s"
proof -
  assume ok: "store_ok held s" and m: "mset held' = mset held"
  have "count_list held' = count_list held" using m by (metis ext count_mset)
  then show ?thesis using ok by (simp add: store_ok_def)
qed

section \<open>Taking a node out and putting it in\<close>

definition detach :: "node_store \<Rightarrow> addr \<Rightarrow> addr \<Rightarrow> node_store" where
  "detach s dir a =
     (let s2 = set_dir_children s dir (remove1 a (kids s dir)); s3 = set_parent s2 a None
      in set_count s3 dir (n_count (node_at s3 dir) - 1))"

definition attach :: "node_store \<Rightarrow> addr \<Rightarrow> nat \<Rightarrow> addr \<Rightarrow> node_store" where
  "attach s dir pos c =
     (let s1 = set_parent (set_dir_children s dir (take pos (kids s dir) @ c # drop pos (kids s dir))) c (Some dir)
      in set_count s1 dir (n_count (node_at s1 dir) + 1))"

lemma node_at_detach:
  "a \<noteq> dir \<Longrightarrow> node_at (detach s dir a) b =
     (if b = dir then (node_at s dir)\<lparr>n_children := remove1 a (kids s dir), n_count := n_count (node_at s dir) - 1\<rparr>
      else if b = a then (node_at s a)\<lparr>n_parent := None\<rparr> else node_at s b)"
  by (simp add: detach_def Let_def set_dir_children_def set_parent_def set_count_def)

lemma in_use_detach [simp]: "in_use (detach s dir a) b \<longleftrightarrow> b = dir \<or> b = a \<or> in_use s b"
  by (auto simp: detach_def Let_def set_dir_children_def set_parent_def set_count_def)

lemma iters_detach [simp]: "ns_iters (detach s dir a) = ns_iters s"
  by (simp add: detach_def Let_def set_dir_children_def set_parent_def set_count_def)

lemma detach_child_of:
  assumes "(a, dir) \<in> child_of s" and "in_use s dir"
  shows "child_of (detach s dir a) = child_of s - {(a, dir)}"
  using child_ofD [OF assms(1)] assms(2) by (auto simp: child_of_def node_at_detach split: if_splits)

lemma sorted_wrt_remove1: "sorted_wrt P xs \<Longrightarrow> sorted_wrt P (remove1 x xs)"
  using set_remove1_subset by (induction xs) (auto dest: subsetD)

lemma detach_ok:
  assumes ok: "store_ok held s" and child: "(a, dir) \<in> child_of s"
  shows "store_ok (a # held) (detach s dir a)"
proof -
  note sok = store_okD [OF ok]
  have a: "in_use s a" "a \<noteq> dir" "parent_of s a = Some dir" using child_ofD [OF child] by auto
  have dir: "in_use s dir" "a \<in> set (kids s dir)" using dir_okD(4) [OF sok(4) [OF a(1)] child] by auto
  have uniq: "d = dir" if "(a, d) \<in> child_of s" for d by (rule child_of_unique [OF that child])
  have dist: "distinct (kids s dir)" by (rule distinct_kids [OF sok(4) [OF dir(1)]])
  note co = detach_child_of [OF child dir(1)]
  have nm: "name_of (detach s dir a) x = name_of s x" for x using a(2) by (simp add: node_at_detach)
  show ?thesis unfolding store_ok_def
  proof (intro conjI allI impI)
    have "{b. in_use (detach s dir a) b} = {b. in_use s b}" using a(1) dir(1) by auto
    then show "finite {b. in_use (detach s dir a) b}" using sok(1) by simp
    show "distinct (map fst (ns_iters (detach s dir a)))" using sok(2) by simp
    show "acyclic (child_of (detach s dir a))" using sok(3) by (rule acyclic_subset) (auto simp: co)
    fix b
    show "1 \<le> n_ref (node_at (detach s dir a) b)" if "in_use (detach s dir a) b"
      using that sok(5) [of b] a dir by (auto simp: node_at_detach)
    have "owner (detach s dir a) b = (if b = a then 0 else owner s b)"
      using uniq by (auto simp: owner_def co)
    moreover have "owner s a = 1" using child by (auto simp: owner_def)
    ultimately show "int (owner (detach s dir a) b + iter_refs (detach s dir a) b + count_list (a # held) b) \<le>
        (if in_use (detach s dir a) b then n_ref (node_at (detach s dir a) b) else 0)"
      using sok(6) [of b] a dir by (auto simp: node_at_detach iter_refs_cong [of "detach s dir a" s] split: if_splits)
    assume "in_use (detach s dir a) b"
    then have b: "in_use s b" using a dir by auto
    note bok = sok(4) [OF b]
    have kb: "kids (detach s dir a) b = remove1 a (kids s b)"
    proof (cases "b = dir")
      case False
      then have "a \<notin> set (kids s b)" using dir_okD(3) [OF bok] uniq by blast
      then show ?thesis using False a(2) by (simp add: node_at_detach remove1_idem)
    qed (simp add: node_at_detach a(2))
    have sub: "set (kids (detach s dir a) b) \<subseteq> set (kids s b)" unfolding kb by (rule set_remove1_subset)
    show "dir_ok (detach s dir a) b" unfolding dir_ok_def
    proof (intro conjI ballI allI impI)
      show "kids (detach s dir a) b = []" if "n_type (node_at (detach s dir a) b) \<noteq> LIBISO_DIR"
        using that dir_okD(1) [OF bok] a(2) unfolding kb by (auto simp: node_at_detach split: if_splits)
      show "sorted_wrt (\<lambda>x y. name_of (detach s dir a) x < name_of (detach s dir a) y) (kids (detach s dir a) b)"
        unfolding nm kb using dir_okD(2) [OF bok] by (rule sorted_wrt_remove1)
      show "(c, b) \<in> child_of (detach s dir a)" if "c \<in> set (kids (detach s dir a) b)" for c
        using that dir_okD(3) [OF bok, of c] distinct_kids [OF bok] by (auto simp: co kb)
      fix d
      assume bd: "(b, d) \<in> child_of (detach s dir a)"
      then show "in_use (detach s dir a) d" using dir_okD(4) [OF bok, of d] by (auto simp: co)
      have d: "in_use s d" "b \<in> set (kids s d)" "b \<noteq> a" using bd dir_okD(4) [OF bok, of d] uniq [of d] by (auto simp: co)
      then show "b \<in> set (kids (detach s dir a) d)" using a(2) by (auto simp: node_at_detach)
    next
      show "n_count (node_at (detach s dir a) b) = of_nat (length (kids (detach s dir a) b))"
        using dir_okD(5) [OF bok] a(2) dir(2) length_pos_if_in_set [OF dir(2)]
        by (auto simp: node_at_detach length_remove1 of_nat_diff Suc_le_eq)
    qed
  qed
qed

text \<open>The position that \<open>iso_dir_find\<close> delivers: smaller names before it, larger ones from it on, unless the
  name is there itself.\<close>

lemma strcmp_less [simp]: "strcmp s t < 0 \<longleftrightarrow> s < t"
  by (auto simp: strcmp_def)

lemma find_before: "x \<in> set (take (iso_dir_find s dir nm) (kids s dir)) \<Longrightarrow> name_of s x < nm"
  by (auto simp: iso_dir_find_def takeWhile_eq_take [symmetric] dest: set_takeWhileD)

lemma sorted_dropWhile:
  "sorted_wrt (\<lambda>x y. f x < f y) xs \<Longrightarrow> y \<in> set (dropWhile (\<lambda>x. f x < v) xs) \<Longrightarrow> v \<le> f y"
  for f :: "'a \<Rightarrow> 'b::linorder"
proof (induction xs)
  case (Cons x xs)
  then show ?case by (cases "f x < v") (auto intro: order_trans less_imp_le)
qed simp

lemma find_after:
  assumes "dir_ok s dir" and "\<not> child_here s dir (iso_dir_find s dir nm) nm"
    and "x \<in> set (drop (iso_dir_find s dir nm) (kids s dir))"
  shows "nm < name_of s x"
proof -
  let ?cs = "kids s dir" and ?pos = "iso_dir_find s dir nm"
  have drop: "drop ?pos ?cs = dropWhile (\<lambda>x. name_of s x < nm) ?cs"
    by (simp add: iso_dir_find_def dropWhile_eq_drop)
  obtain h t where ht: "drop ?pos ?cs = h # t" using assms(3) by (cases "drop ?pos ?cs") auto
  then have "?pos < length ?cs" by (metis drop_eq_Nil list.distinct(1) not_le)
  moreover from this ht have "?cs ! ?pos = h" by (metis Cons_nth_drop_Suc list.inject)
  ultimately have ne: "name_of s h \<noteq> nm" using assms(2) by (simp add: child_here_def)
  have "nm \<le> name_of s h" using sorted_dropWhile [OF dir_okD(2) [OF assms(1)], of h nm] ht drop by simp
  with ne have h: "nm < name_of s h" by auto
  have "sorted_wrt (\<lambda>x y. name_of s x < name_of s y) (h # t)"
    using dir_okD(2) [OF assms(1)] unfolding ht [symmetric] by (rule sorted_wrt_drop)
  then show ?thesis using assms(3) h ht by (auto intro: less_trans)
qed

lemma exists_iff:
  assumes "dir_ok s dir"
  shows "fst (iso_dir_exists s dir nm) \<longleftrightarrow> (\<exists>c \<in> set (kids s dir). name_of s c = nm)"
proof (cases "child_here s dir (iso_dir_find s dir nm) nm")
  case True
  then show ?thesis by (auto simp: iso_dir_exists_def Let_def child_here_def)
next
  case False
  have "name_of s c \<noteq> nm" if "c \<in> set (kids s dir)" for c
  proof -
    have "c \<in> set (take (iso_dir_find s dir nm) (kids s dir)) \<or> c \<in> set (drop (iso_dir_find s dir nm) (kids s dir))"
      using that by (metis append_take_drop_id Un_iff set_append)
    then show ?thesis using find_before [of c s dir nm] find_after [OF assms False, of c] by auto
  qed
  then show ?thesis using False by (auto simp: iso_dir_exists_def Let_def)
qed

lemma node_at_attach:
  "c \<noteq> dir \<Longrightarrow> node_at (attach s dir pos c) b =
     (if b = dir then (node_at s dir)\<lparr>n_children := take pos (kids s dir) @ c # drop pos (kids s dir),
                                     n_count := n_count (node_at s dir) + 1\<rparr>
      else if b = c then (node_at s c)\<lparr>n_parent := Some dir\<rparr> else node_at s b)"
  by (simp add: attach_def Let_def set_dir_children_def set_parent_def set_count_def)

lemma in_use_attach [simp]: "in_use (attach s dir pos c) b \<longleftrightarrow> b = dir \<or> b = c \<or> in_use s b"
  by (auto simp: attach_def Let_def set_dir_children_def set_parent_def set_count_def)

lemma iters_attach [simp]: "ns_iters (attach s dir pos c) = ns_iters s"
  by (simp add: attach_def Let_def set_dir_children_def set_parent_def set_count_def)

lemma attach_child_of:
  assumes "c \<noteq> dir" "in_use s c" "in_use s dir" "parent_of s c = None"
  shows "child_of (attach s dir pos c) = insert (c, dir) (child_of s)"
  using assms by (auto simp: child_of_def node_at_attach split: if_splits)

lemma attach_ok:
  assumes ok: "store_ok (c # held) s" and dir: "in_use s dir" "n_type (node_at s dir) = LIBISO_DIR"
    and c: "parent_of s c = None" "(dir, c) \<notin> (child_of s)\<^sup>*"
    and pos: "pos = iso_dir_find s dir (name_of s c)" "\<not> child_here s dir pos (name_of s c)"
  shows "store_ok held (attach s dir pos c)"
proof -
  note sok = store_okD [OF ok]
  have ne: "c \<noteq> dir" using c(2) by auto
  have cu: "in_use s c" using held_in_use [OF ok, of c] by simp
  note co = attach_child_of [OF ne cu dir(1) c(1)]
  have nochild: "(c, d) \<notin> child_of s" for d using c(1) by (auto simp: child_of_def)
  have nokid: "c \<notin> set (kids s b)" if "in_use s b" for b
    using dir_okD(3) [OF sok(4) [OF that], of c] nochild by auto
  have nm: "name_of (attach s dir pos c) x = name_of s x" for x using ne by (simp add: node_at_attach)
  note dok = sok(4) [OF dir(1)]
  show ?thesis unfolding store_ok_def
  proof (intro conjI allI impI)
    have "{b. in_use (attach s dir pos c) b} = {b. in_use s b}" using cu dir(1) by auto
    then show "finite {b. in_use (attach s dir pos c) b}" using sok(1) by simp
    show "distinct (map fst (ns_iters (attach s dir pos c)))" using sok(2) by simp
    show "acyclic (child_of (attach s dir pos c))" using sok(3) c(2) by (simp add: co)
    fix b
    show "1 \<le> n_ref (node_at (attach s dir pos c) b)" if "in_use (attach s dir pos c) b"
      using that sok(5) [of b] ne cu dir by (auto simp: node_at_attach)
    have "owner (attach s dir pos c) b = (if b = c then 1 else owner s b)" by (auto simp: owner_def co)
    moreover have "owner s c = 0" using nochild by (auto simp: owner_def)
    ultimately show "int (owner (attach s dir pos c) b + iter_refs (attach s dir pos c) b + count_list held b) \<le>
        (if in_use (attach s dir pos c) b then n_ref (node_at (attach s dir pos c) b) else 0)"
      using sok(6) [of b] ne cu dir by (auto simp: node_at_attach iter_refs_cong [of "attach s dir pos c" s] split: if_splits)
    assume "in_use (attach s dir pos c) b"
    then have b: "in_use s b" using cu dir by auto
    note bok = sok(4) [OF b]
    have kb: "kids (attach s dir pos c) b = (if b = dir then take pos (kids s dir) @ c # drop pos (kids s dir) else kids s b)"
      using ne by (simp add: node_at_attach)
    have setd: "set (take pos (kids s dir)) \<union> set (drop pos (kids s dir)) = set (kids s dir)"
      by (metis append_take_drop_id set_append)
    show "dir_ok (attach s dir pos c) b" unfolding dir_ok_def
    proof (intro conjI ballI allI impI)
      show "kids (attach s dir pos c) b = []" if "n_type (node_at (attach s dir pos c) b) \<noteq> LIBISO_DIR"
        using that dir_okD(1) [OF bok] ne dir(2) unfolding kb by (auto simp: node_at_attach split: if_splits)
      have "sorted_wrt (\<lambda>x y. name_of s x < name_of s y) (take pos (kids s dir) @ c # drop pos (kids s dir))"
        using sorted_wrt_take [OF dir_okD(2) [OF dok]] sorted_wrt_drop [OF dir_okD(2) [OF dok]]
          find_before [of _ s dir "name_of s c"] find_after [OF dok pos(2) [unfolded pos(1)]]
        unfolding pos(1) [symmetric] by (auto simp: sorted_wrt_append) (meson less_trans)
      then show "sorted_wrt (\<lambda>x y. name_of (attach s dir pos c) x < name_of (attach s dir pos c) y) (kids (attach s dir pos c) b)"
        unfolding nm kb using dir_okD(2) [OF bok] by simp
      show "(x, b) \<in> child_of (attach s dir pos c)" if "x \<in> set (kids (attach s dir pos c) b)" for x
        using that dir_okD(3) [OF bok, of x] setd by (auto simp: co kb split: if_splits)
      fix d
      assume bd: "(b, d) \<in> child_of (attach s dir pos c)"
      then show "in_use (attach s dir pos c) d" using dir_okD(4) [OF bok, of d] dir(1) by (auto simp: co)
      show "b \<in> set (kids (attach s dir pos c) d)"
        using bd dir_okD(4) [OF bok, of d] ne setd by (auto simp: co node_at_attach)
    next
      show "n_count (node_at (attach s dir pos c) b) = of_nat (length (kids (attach s dir pos c) b))"
      proof (cases "b = dir")
        case True
        have len: "length (kids (attach s dir pos c) b) = Suc (length (kids s dir))" unfolding kb using True by simp
        show ?thesis unfolding len using True dir_okD(5) [OF dok] ne by (simp add: node_at_attach)
      qed (use dir_okD(5) [OF bok] ne in \<open>auto simp: node_at_attach\<close>)
    qed
  qed
qed


end
