(* ===== verification/NodeOps.thy ===== *)
theory NodeOps
  imports NodeStore
begin

text \<open>
  The operations of \<open>libisofs/node.c\<close> on the invariant of \<open>NodeStore\<close>: adding and replacing, iterators,
  taking with the notification of iterators, creation, renaming; programs over the tree and the properties.
\<close>

section \<open>Adding a node\<close>

lemma store_eqI:
  assumes "ns_iters s = ns_iters s'" and "\<And>a. in_use s a = in_use s' a"
    and "\<And>a. in_use s a \<Longrightarrow> node_at s a = node_at s' a"
  shows "s = s'"
proof -
  have "ns_nodes s a = ns_nodes s' a" for a
    using assms(2,3) [of a] by (cases "ns_nodes s a"; cases "ns_nodes s' a") (auto simp: in_use_def node_at_def)
  then show ?thesis using assms(1) by (cases s; cases s') auto
qed

lemma swap_eq:
  assumes "distinct (kids s dir)" "pos < length (kids s dir)" "kids s dir ! pos = old" "old \<noteq> dir" "c \<noteq> dir" "c \<noteq> old"
    and "in_use s dir" "in_use s old"
  shows "set_parent (set_dir_children (set_parent s old None) dir ((kids s dir)[pos := c])) c (Some dir) =
    attach (detach s dir old) dir pos c"
proof -
  let ?cs = "kids s dir"
  have split: "?cs = take pos ?cs @ old # drop (Suc pos) ?cs" using assms(2,3) id_take_nth_drop by fastforce
  have notin: "old \<notin> set (take pos ?cs)" using assms(1) by (subst (asm) split) auto
  have rm: "remove1 old ?cs = take pos ?cs @ drop (Suc pos) ?cs"
    by (subst split) (simp add: remove1_append notin)
  have "take pos (remove1 old ?cs) @ c # drop pos (remove1 old ?cs) = ?cs[pos := c]"
    unfolding rm using assms(2) by (simp add: upd_conv_take_nth_drop)
  then show ?thesis using assms(4-8)
    by (intro store_eqI)
      (auto simp: node_at_attach node_at_detach set_parent_def set_dir_children_def attach_def detach_def Let_def set_count_def)
qed

definition dir_map :: "node_store \<Rightarrow> addr \<Rightarrow> string \<rightharpoonup> addr" where
  "dir_map s d = map_of (map (\<lambda>c. (name_of s c, c)) (kids s d))"

lemma dir_map_iff:
  assumes "dir_ok s d"
  shows "dir_map s d nm = Some c \<longleftrightarrow> c \<in> set (kids s d) \<and> name_of s c = nm"
proof -
  have "sorted_wrt (<) (map (name_of s) (kids s d))" using dir_okD(2) [OF assms] by (simp add: sorted_wrt_map)
  then have "distinct (map fst (map (\<lambda>c. (name_of s c, c)) (kids s d)))"
    using sorted_wrt_distinct [of id] by (simp add: comp_def)
  then show ?thesis by (auto simp: dir_map_def dest: map_of_SomeD)
qed

lemma dir_map_eqI:
  assumes "dir_ok s d" and "\<And>nm c. m nm = Some c \<longleftrightarrow> c \<in> set (kids s d) \<and> name_of s c = nm"
  shows "dir_map s d = m"
proof
  fix nm
  show "dir_map s d nm = m nm"
    using dir_map_iff [OF assms(1), of nm] assms(2) [of nm] by (cases "dir_map s d nm"; cases "m nm") auto
qed

lemma get_node_map:
  assumes "store_ok held s" and "in_use s d"
  shows "iso_dir_get_node s (Some d) (Some nm) =
    Some (case dir_map s d nm of None \<Rightarrow> (Inr 0, None) | Some c \<Rightarrow> (Inr 1, Some c))"
proof -
  have dok: "dir_ok s d" by (rule store_okD(4) [OF assms])
  obtain b pos where ex: "iso_dir_exists s d nm = (b, pos)" by fastforce
  show ?thesis
  proof (cases b)
    case True
    then have "pos < length (kids s d)" "name_of s (kids s d ! pos) = nm"
      using ex by (auto simp: iso_dir_exists_def Let_def child_here_def)
    then have "dir_map s d nm = Some (kids s d ! pos)" by (simp add: dir_map_iff [OF dok])
    then show ?thesis using ex True assms(2) by (simp add: iso_dir_get_node_def in_use_def)
  next
    case False
    then have "dir_map s d nm = None" using exists_iff [OF dok, of nm] ex dir_map_iff [OF dok, of nm] by (cases "dir_map s d nm") auto
    then show ?thesis using ex False assms(2) by (simp add: iso_dir_get_node_def in_use_def)
  qed
qed

text \<open>Replacing: \<open>old\<close> leaves, \<open>c\<close> takes its position.\<close>

lemma find_detached:
  assumes dok: "dir_ok s dir" and pos: "pos = iso_dir_find s dir nm" "pos < length (kids s dir)"
    and old: "old = kids s dir ! pos" "name_of s old = nm" "old \<noteq> dir"
  shows "kids (detach s dir old) dir = take pos (kids s dir) @ drop (Suc pos) (kids s dir)"
    and "pos = iso_dir_find (detach s dir old) dir nm"
    and "\<not> child_here (detach s dir old) dir pos nm"
proof -
  let ?cs = "kids s dir" and ?d = "detach s dir old"
  have split: "?cs = take pos ?cs @ old # drop (Suc pos) ?cs"
    using id_take_nth_drop [OF pos(2)] by (simp add: old(1))
  have notin: "old \<notin> set (take pos ?cs)" using distinct_kids [OF dok] by (subst (asm) split) auto
  show kd: "kids ?d dir = take pos ?cs @ drop (Suc pos) ?cs"
    using old(3) by (simp add: node_at_detach) (subst split, simp add: remove1_append notin)
  have nm: "name_of ?d x = name_of s x" for x using old(3) by (simp add: node_at_detach)
  have before: "name_of s x < nm" if "x \<in> set (take pos ?cs)" for x
    using that find_before [of x s dir nm] by (simp add: pos(1))
  have after: "nm < name_of s x" if "x \<in> set (drop (Suc pos) ?cs)" for x
    using dir_okD(2) [OF dok] that by (subst (asm) split) (auto simp: sorted_wrt_append old(2))
  have stop: "takeWhile (\<lambda>x. name_of s x < nm) (drop (Suc pos) ?cs) = []"
    using after by (cases "drop (Suc pos) ?cs") (auto dest: less_asym)
  have "takeWhile (\<lambda>x. name_of s x < nm) (take pos ?cs @ drop (Suc pos) ?cs) = take pos ?cs"
    using before stop by (subst takeWhile_append2) auto
  then show "pos = iso_dir_find ?d dir nm" using pos(2) by (simp add: iso_dir_find_def nm kd)
  show "\<not> child_here ?d dir pos nm"
  proof
    assume h: "child_here ?d dir pos nm"
    then have "0 < length (drop (Suc pos) ?cs)" "name_of s (drop (Suc pos) ?cs ! 0) = nm"
      using pos(2) by (auto simp: child_here_def nm kd nth_append)
    then show False using after [OF nth_mem] by fastforce
  qed
qed

lemma replace_ok:
  assumes ok: "store_ok (c # held) s" and dir: "in_use s dir" "n_type (node_at s dir) = LIBISO_DIR"
    and c: "parent_of s c = None" "(dir, c) \<notin> (child_of s)\<^sup>*"
    and pos: "pos = iso_dir_find s dir (name_of s c)" "pos < length (kids s dir)"
    and old: "old = kids s dir ! pos" "name_of s old = name_of s c"
  shows "\<exists>s'. iso_node_unref (attach (detach s dir old) dir pos c) (Some old) = Some s' \<and> store_ok held s' \<and>
    in_use s' dir \<and> dir_map s' dir = (dir_map s dir)(name_of s c \<mapsto> c)"
proof -
  note sok = store_okD [OF ok]
  note dok = sok(4) [OF dir(1)]
  have ne: "c \<noteq> dir" using c(2) by auto
  have cu: "in_use s c" using held_in_use [OF ok, of c] by simp
  have old_in: "old \<in> set (kids s dir)" using pos(2) old(1) by simp
  have child: "(old, dir) \<in> child_of s" by (rule dir_okD(3) [OF dok old_in])
  have o: "in_use s old" "old \<noteq> dir" "parent_of s old = Some dir" using child_ofD [OF child] by auto
  have co: "c \<noteq> old" using o(3) c(1) by auto
  let ?d = "detach s dir old" and ?s = "attach (detach s dir old) dir pos c"
  note fd = find_detached [OF dok pos old o(2)]
  have dok': "store_ok (c # old # held) ?d"
    by (rule held_perm [OF detach_ok [OF ok child]]) simp
  have d: "in_use ?d dir" "n_type (node_at ?d dir) = LIBISO_DIR" "parent_of ?d c = None" "name_of ?d c = name_of s c"
    "in_use ?d c"
    using dir o ne co c(1) cu by (simp_all add: node_at_detach)
  have cod: "child_of ?d = child_of s - {(old, dir)}" by (rule detach_child_of [OF child dir(1)])
  have sub: "(child_of ?d)\<^sup>* \<subseteq> (child_of s)\<^sup>*" by (rule rtrancl_mono) (auto simp: cod)
  then have nb: "(dir, c) \<notin> (child_of ?d)\<^sup>*" using c(2) by auto
  have sok': "store_ok (old # held) ?s"
    by (rule attach_ok [OF dok' d(1,2,3) nb]) (use fd(2,3) d(4) in simp_all)
  have cos: "child_of ?s = insert (c, dir) (child_of ?d)" by (rule attach_child_of [OF ne d(5) d(1) d(3)])
  have far: "(dir, old) \<notin> (child_of ?s)\<^sup>*"
  proof
    assume "(dir, old) \<in> (child_of ?s)\<^sup>*"
    then have "(dir, old) \<in> (child_of ?d)\<^sup>*" using nb unfolding cos by (auto simp: rtrancl_insert)
    then have "(dir, old) \<in> (child_of s)\<^sup>*" using sub by auto
    then have "(old, old) \<in> (child_of s)\<^sup>+" using child by (meson rtrancl_into_trancl2)
    then show False using sok(3) by (simp add: acyclic_def)
  qed
  obtain s' where s': "iso_node_unref ?s (Some old) = Some s'" "store_ok held s'" "shrunk {old} ?s s'"
    using unref_one [OF sok'] by auto
  have dir': "in_use s' dir" "node_at s' dir = node_at ?s dir" using shrunkD(5) [OF s'(3), of dir] far by simp_all
  note dok2 = store_okD(4) [OF s'(2) dir'(1)]
  have kids': "kids s' dir = take pos (kids s dir) @ c # drop (Suc pos) (kids s dir)"
    unfolding dir'(2) using ne pos(2) by (simp add: node_at_attach fd(1))
  have nm: "name_of s' x = name_of s x" if "x \<in> set (kids s' dir)" for x
  proof -
    have "in_use s' x" using dir_okD(3) [OF dok2 that] child_ofD by blast
    then have "name_of s' x = name_of ?s x" using like_nodeD(2) [OF shrunkD(4) [OF s'(3)]] by simp
    then show ?thesis using ne o(2) by (simp add: node_at_attach node_at_detach)
  qed
  have split: "kids s dir = take pos (kids s dir) @ old # drop (Suc pos) (kids s dir)"
    using id_take_nth_drop [OF pos(2)] by (simp add: old(1))
  have set': "set (kids s' dir) = insert c (set (kids s dir) - {old})"
    using distinct_kids [OF dok] unfolding kids' by (subst (asm) split, subst (3) split) auto
  have "dir_map s' dir = (dir_map s dir)(name_of s c \<mapsto> c)"
  proof (rule dir_map_eqI [OF dok2])
    fix k x
    have uniq: "y = old" if "y \<in> set (kids s dir)" "name_of s y = name_of s c" for y
      using dir_map_iff [OF dok, of "name_of s c" y] dir_map_iff [OF dok, of "name_of s c" old] that old_in old(2) by simp
    show "((dir_map s dir)(name_of s c \<mapsto> c)) k = Some x \<longleftrightarrow> x \<in> set (kids s' dir) \<and> name_of s' x = k"
    proof (cases "x \<in> set (kids s' dir)")
      case True
      then show ?thesis using nm [OF True] set' uniq dir_map_iff [OF dok, of k x] by auto
    next
      case False
      then show ?thesis using set' old(2) dir_map_iff [OF dok, of k x] by auto
    qed
  qed
  with s' dir' show ?thesis by auto
qed

text \<open>What \<open>iso_dir_add_node\<close> does, for a reference to \<open>c\<close> that the caller gives away.\<close>

lemma add_node_ok:
  assumes ok: "store_ok (c # held) s" and dir: "in_use s dir" "n_type (node_at s dir) = LIBISO_DIR"
    and c: "parent_of s c = None" "(dir, c) \<notin> (child_of s)\<^sup>*"
  shows "case dir_map s dir (name_of s c) of
      None \<Rightarrow> \<exists>n s'. iso_dir_add_node s (Some dir) (Some c) replace = Some (Inr n, s') \<and> store_ok held s' \<and> in_use s' dir \<and>
        dir_map s' dir = (dir_map s dir)(name_of s c \<mapsto> c)
    | Some old \<Rightarrow>
        if may_replace replace (node_at s old) (node_at s c)
        then \<exists>n s'. iso_dir_add_node s (Some dir) (Some c) replace = Some (Inr n, s') \<and> store_ok held s' \<and> in_use s' dir \<and>
          dir_map s' dir = (dir_map s dir)(name_of s c \<mapsto> c)
        else iso_dir_add_node s (Some dir) (Some c) replace = Some (Inl ISO_NODE_NAME_NOT_UNIQUE, s)"
proof -
  note sok = store_okD [OF ok]
  have ne: "c \<noteq> dir" "dir \<noteq> c" using c(2) by auto
  have cu: "in_use s c" using held_in_use [OF ok, of c] by simp
  note dok = sok(4) [OF dir(1)]
  have add: "iso_dir_add_node s (Some dir) (Some c) replace = iso_dir_insert s dir c (iso_dir_find s dir (name_of s c)) replace"
    using ne cu dir(1) c(1) by (auto simp: iso_dir_add_node_def in_use_def)
  let ?pos = "iso_dir_find s dir (name_of s c)"
  show ?thesis
  proof (cases "child_here s dir ?pos (name_of s c)")
    case False
    have none: "dir_map s dir (name_of s c) = None"
      using exists_iff [OF dok, of "name_of s c"] False dir_map_iff [OF dok, of "name_of s c"]
      by (cases "dir_map s dir (name_of s c)") (auto simp: iso_dir_exists_def Let_def)
    let ?s = "attach s dir ?pos c"
    have ok': "store_ok held ?s" by (rule attach_ok [OF ok dir c refl False])
    have "iso_dir_insert s dir c ?pos replace = Some (Inr (as_int (n_count (node_at ?s dir))), ?s)"
      using False by (simp add: iso_dir_insert_def Let_def attach_def)
    moreover have "dir_map ?s dir = (dir_map s dir)(name_of s c \<mapsto> c)"
    proof (rule dir_map_eqI)
      show "dir_ok ?s dir" by (rule store_okD(4) [OF ok']) simp
      fix nm x
      have "set (take ?pos (kids s dir)) \<union> set (drop ?pos (kids s dir)) = set (kids s dir)"
        by (metis append_take_drop_id set_append)
      then show "((dir_map s dir)(name_of s c \<mapsto> c)) nm = Some x \<longleftrightarrow> x \<in> set (kids ?s dir) \<and> name_of ?s x = nm"
        using ne none dir_map_iff [OF dok, of "name_of s c" x] dir_map_iff [OF dok, of nm x] by (auto simp: node_at_attach)
    qed
    ultimately show ?thesis using none ok' add by auto
  next
    case True
    define old where "old = kids s dir ! ?pos"
    have pos: "?pos < length (kids s dir)" and nm: "name_of s old = name_of s c"
      using True by (auto simp: child_here_def old_def)
    have old_in: "old \<in> set (kids s dir)" using pos by (simp add: old_def)
    have some: "dir_map s dir (name_of s c) = Some old" using dir_map_iff [OF dok] old_in nm by simp
    have child: "(old, dir) \<in> child_of s" by (rule dir_okD(3) [OF dok old_in])
    have old: "in_use s old" "old \<noteq> dir" "parent_of s old = Some dir" using child_ofD [OF child] by auto
    have co: "c \<noteq> old" using old(3) c(1) by auto
    show ?thesis
    proof (cases "may_replace replace (node_at s old) (node_at s c)")
      case False
      then show ?thesis using some True add by (simp add: iso_dir_insert_def Let_def old_def)
    next
      case may: True
      have sw: "set_parent (set_dir_children (set_parent s old None) dir ((kids s dir)[?pos := c])) c (Some dir) =
          attach (detach s dir old) dir ?pos c"
        by (rule swap_eq [OF distinct_kids [OF dok] pos]) (use old ne co dir cu in \<open>simp_all add: old_def\<close>)
      obtain s' where s': "iso_node_unref (attach (detach s dir old) dir ?pos c) (Some old) = Some s'" "store_ok held s'"
        "in_use s' dir" "dir_map s' dir = (dir_map s dir)(name_of s c \<mapsto> c)"
        using replace_ok [OF ok dir c refl pos old_def nm] by auto
      have "iso_dir_insert s dir c ?pos replace = Some (Inr (as_int (n_count (node_at s' dir))), s')"
        using True may s'(1,3) by (simp add: iso_dir_insert_def Let_def old_def [symmetric] sw in_use_def)
      then show ?thesis using some may s'(2-4) add by auto
    qed
  qed
qed

section \<open>Iterators and the references that they hold\<close>

abbreviation opt_list :: "'a option \<Rightarrow> 'a list" where
  "opt_list x \<equiv> (case x of None \<Rightarrow> [] | Some a \<Rightarrow> [a])"

lemma put_iter_simps [simp]:
  "ns_nodes (put_iter s i it) = ns_nodes s"
  "in_use (put_iter s i it) b = in_use s b"
  "node_at (put_iter s i it) b = node_at s b"
  "child_of (put_iter s i it) = child_of s"
  "owner (put_iter s i it) b = owner s b"
  "dir_ok (put_iter s i it) b = dir_ok s b"
  "map fst (ns_iters (put_iter s i it)) = map fst (ns_iters s)"
  by (auto simp: put_iter_def in_use_def node_at_def child_of_def owner_def dir_ok_def case_prod_beta)

lemma map_of_put_iter:
  "map_of (ns_iters (put_iter s i it)) j = (if j = i \<and> map_of (ns_iters s) i \<noteq> None then Some it else map_of (ns_iters s) j)"
proof -
  have "map_of (map (\<lambda>(k, jt). if k = i then (k, it) else (k, jt)) xs) j =
      (if j = i \<and> map_of xs i \<noteq> None then Some it else map_of xs j)" for xs :: "(nat \<times> dir_iter) list"
    by (induction xs) auto
  then show ?thesis by (simp add: put_iter_def)
qed

lemma get_put_iter [simp]: "map_of (ns_iters s) i = Some old \<Longrightarrow> get_iter (put_iter s i it) i = it"
  by (simp add: get_iter_def map_of_put_iter)

lemma get_iter_Some: "map_of (ns_iters s) i = Some it \<Longrightarrow> get_iter s i = it"
  by (simp add: get_iter_def)

lemma iter_refs_put:
  assumes "distinct (map fst (ns_iters s))" and "map_of (ns_iters s) i = Some old" and "it_dir it = it_dir old"
  shows "iter_refs (put_iter s i it) b + count_list (opt_list (it_pos old)) b =
    iter_refs s b + count_list (opt_list (it_pos it)) b"
proof -
  define rs where "rs xs = length (filter (\<lambda>(_, it). it_dir it = b) xs) + length (filter (\<lambda>(_, it). it_pos it = Some b) xs)"
    for xs :: "(nat \<times> dir_iter) list"
  define up where "up xs = map (\<lambda>(j, jt). if j = i then (j, it) else (j, jt)) xs" for xs :: "(nat \<times> dir_iter) list"
  have same: "up xs = xs" if "i \<notin> fst ` set xs" for xs
    using that unfolding up_def by (induction xs) auto
  have "rs (up xs) + count_list (opt_list (it_pos old)) b = rs xs + count_list (opt_list (it_pos it)) b"
    if "distinct (map fst xs)" "map_of xs i = Some old" for xs
    using that
  proof (induction xs)
    case (Cons x xs)
    obtain j jt where x: "x = (j, jt)" by (cases x)
    show ?case
    proof (cases "j = i")
      case True
      then have "up xs = xs" using Cons.prems(1) x by (intro same) auto
      then have "up (x # xs) = (i, it) # xs" using True x by (simp add: up_def)
      moreover have "jt = old" using Cons.prems(2) True x by simp
      ultimately show ?thesis using True x assms(3) by (auto simp: rs_def split: option.splits)
    next
      case False
      then have "up (x # xs) = x # up xs" using x by (simp add: up_def)
      then show ?thesis using Cons.IH Cons.prems False x by (simp add: rs_def)
    qed
  qed simp
  from this [OF assms(1,2)] show ?thesis by (simp add: rs_def up_def put_iter_def iter_refs_def)
qed

text \<open>An iterator that moves needs a spare reference to its new position and leaves the one to
  its old position spare.\<close>

lemma put_iter_ok:
  assumes ok: "store_ok held s" and "map_of (ns_iters s) i = Some old" "it_dir it = it_dir old"
    and less: "\<And>b. count_list (opt_list (it_pos it)) b + count_list held' b \<le>
      count_list (opt_list (it_pos old)) b + count_list held b"
  shows "store_ok held' (put_iter s i it)"
proof -
  note sok = store_okD [OF ok]
  have "int (owner s b + iter_refs (put_iter s i it) b + count_list held' b) \<le>
      (if in_use s b then n_ref (node_at s b) else 0)" for b
    using sok(6) [of b] iter_refs_put [OF sok(2) assms(2,3), of b] less [of b] by linarith
  moreover have "in_use (put_iter s i it) = in_use s" by (rule ext) simp
  ultimately show ?thesis using sok(1-5) unfolding store_ok_def by (simp only: put_iter_simps simp_thms) blast
qed

text \<open>A registered iterator: its directory and its position are in use.\<close>

lemma iter_in_use:
  assumes "store_ok held s" and "map_of (ns_iters s) i = Some it"
  shows "in_use s (it_dir it)" and "it_pos it = Some a \<Longrightarrow> 1 \<le> iter_refs s a"
    and "it_pos it = Some a \<Longrightarrow> in_use s a"
proof -
  have mem: "(i, it) \<in> set (ns_iters s)" by (rule map_of_SomeD [OF assms(2)])
  have d: "0 < length (filter (\<lambda>(_, jt). it_dir jt = it_dir it) (ns_iters s))"
    using mem by (auto simp: length_greater_0_conv filter_empty_conv)
  have p: "0 < length (filter (\<lambda>(_, jt). it_pos jt = Some a) (ns_iters s))" if "it_pos it = Some a" for a
    using mem that by (auto simp: length_greater_0_conv filter_empty_conv)
  have used: "in_use s b" if "0 < iter_refs s b" for b
    using that store_okD(6) [OF assms(1), of b] by (auto split: if_splits)
  have "0 < iter_refs s (it_dir it)" using d unfolding iter_refs_def by linarith
  then show "in_use s (it_dir it)" by (rule used)
  show refs: "1 \<le> iter_refs s a" if "it_pos it = Some a" for a using p [OF that] unfolding iter_refs_def by linarith
  show "in_use s a" if "it_pos it = Some a" for a using refs [OF that] used by simp
qed

lemma shared_at:
  assumes "store_ok held s" and "map_of (ns_iters s) i = Some it" "it_pos it = Some a" "a \<in> Domain (child_of s)"
  shows "n_ref (node_at s a) \<noteq> 1"
proof -
  have "owner s a = 1" using assms(4) by (simp add: owner_def)
  then show ?thesis
    using iter_in_use(2,3) [OF assms(1,2,3)] store_okD(6) [OF assms(1), of a] by auto
qed
lemma put_iter_put_iter [simp]: "put_iter (put_iter s i it) i it' = put_iter s i it'"
proof -
  have "(\<lambda>(j, jt). if j = i then (j, it') else (j, jt)) \<circ> (\<lambda>(j, jt). if j = i then (j, it) else (j, jt)) =
      (\<lambda>(j, jt). if j = i then (j, it') else (j, jt))"
    by (auto simp: fun_eq_iff)
  then show ?thesis by (simp add: put_iter_def)
qed

lemma put_iter_set_ref: "put_iter (set_ref s a n) i it = set_ref (put_iter s i it) a n"
  by (simp add: put_iter_def set_ref_def put_node_def node_at_def)

lemma put_iter_keep: "store_ok held s \<Longrightarrow> map_of (ns_iters s) i = Some old \<Longrightarrow> it_dir it = it_dir old \<Longrightarrow>
    it_pos it = it_pos old \<Longrightarrow> store_ok held (put_iter s i it)"
  by (rule put_iter_ok) auto

text \<open>The move of an iterator from \<open>pos\<close> to \<open>p\<close>; the place of the references in the order of the calls
  does not matter, because other references to \<open>pos\<close> exist.\<close>

definition moved :: "node_store \<Rightarrow> nat \<Rightarrow> dir_iter \<Rightarrow> addr option \<Rightarrow> node_store" where
  "moved s i it pos =
     (let s1 = (case pos of None \<Rightarrow> s | Some a \<Rightarrow> set_ref s a (n_ref (node_at s a) - 1));
          s2 = (case it_pos it of None \<Rightarrow> s1 | Some p \<Rightarrow> set_ref s1 p (n_ref (node_at s1 p) + 1))
      in put_iter s2 i it)"

lemma moved_ok:
  assumes ok: "store_ok held s" and i: "map_of (ns_iters s) i = Some old" "it_dir it = it_dir old"
    and pos: "\<And>a. it_pos old = Some a \<Longrightarrow> a \<in> Domain (child_of s) \<and> it_pos it \<noteq> Some a"
    and new: "\<And>p. it_pos it = Some p \<Longrightarrow> in_use s p"
  shows "store_ok held (moved s i it (it_pos old))"
proof -
  let ?n = "old\<lparr>it_pos := None\<rparr>"
  let ?s0 = "put_iter s i ?n"
  have ok0: "store_ok (opt_list (it_pos old) @ held) ?s0"
    by (rule put_iter_ok [OF ok i(1)]) simp_all
  let ?s1 = "case it_pos old of None \<Rightarrow> ?s0 | Some a \<Rightarrow> set_ref ?s0 a (n_ref (node_at ?s0 a) - 1)"
  have ok1: "store_ok held ?s1"
  proof (cases "it_pos old")
    case (Some a)
    then have "n_ref (node_at s a) \<noteq> 1" using shared_at [OF ok i(1), of a] pos by blast
    then show ?thesis using dec_ok [of a held ?s0] ok0 Some by simp
  qed (use ok0 in simp)
  have used: "in_use ?s1 b = in_use s b" for b
    using iter_in_use(3) [OF ok i(1)] by (auto split: option.splits)
  have it1: "map_of (ns_iters ?s1) i = Some ?n"
    using i(1) by (auto simp: map_of_put_iter split: option.splits)
  show ?thesis
  proof (cases "it_pos it")
    case None
    have "moved s i it (it_pos old) = put_iter ?s1 i it"
      using None by (auto simp: moved_def put_iter_set_ref split: option.splits)
    moreover have "store_ok held (put_iter ?s1 i it)"
      by (rule put_iter_ok [OF ok1 it1]) (use i(2) None in simp_all)
    ultimately show ?thesis by simp
  next
    case (Some p)
    let ?s2 = "set_ref ?s1 p (n_ref (node_at ?s1 p) + 1)"
    have p: "in_use ?s1 p" using new [OF Some] used by simp
    have ok2: "store_ok (p # held) ?s2" by (rule ref_ok [OF ok1 p])
    have it2: "map_of (ns_iters ?s2) i = Some ?n" using it1 by (simp del: put_iter_simps)
    have "store_ok held (put_iter ?s2 i it)"
      by (rule put_iter_ok [OF ok2 it2]) (use i(2) Some in simp_all)
    moreover have "moved s i it (it_pos old) = put_iter ?s2 i it"
      using Some pos by (auto simp: moved_def put_iter_set_ref split: option.splits)
    ultimately show ?thesis by simp
  qed
qed

lemma moved_simps:
  assumes "\<And>a. pos = Some a \<Longrightarrow> in_use s a" and "\<And>p. it_pos it = Some p \<Longrightarrow> in_use s p"
  shows "in_use (moved s i it pos) b = in_use s b" "like_node (node_at s b) (node_at (moved s i it pos) b)"
    "parent_of (moved s i it pos) b = parent_of s b"
  using assms by (auto simp: moved_def Let_def like_node_def split: option.splits)

lemma moved_iter: "map_of (ns_iters (moved s i it pos)) j = map_of (ns_iters (put_iter s i it)) j"
  by (auto simp: moved_def Let_def map_of_put_iter split: option.splits)

section \<open>The next node\<close>

lemma succ_in_nth: "distinct xs \<Longrightarrow> k < length xs \<Longrightarrow>
    succ_in xs (xs ! k) = (if Suc k < length xs then Some (xs ! Suc k) else None)"
proof (induction xs arbitrary: k)
  case (Cons x xs)
  then show ?case
    by (cases xs; cases k) (auto simp: nth_Cons' dest: nth_mem)
qed simp

lemma succ_in_mem: "succ_in xs a = Some b \<Longrightarrow> b \<in> set xs"
  by (induction xs a rule: succ_in.induct) (auto split: if_splits)

lemma succ_in_ne: "distinct xs \<Longrightarrow> succ_in xs a = Some b \<Longrightarrow> a \<noteq> b"
  by (induction xs a rule: succ_in.induct) (auto split: if_splits)

text \<open>What \<open>iter_next\<close> does: it moves to the first child or to the successor of its position.\<close>

definition next_child :: "node_store \<Rightarrow> dir_iter \<Rightarrow> addr option" where
  "next_child s it =
     (case it_pos it of
        None \<Rightarrow> (case kids s (it_dir it) of [] \<Rightarrow> None | p # _ \<Rightarrow> Some p)
      | Some pos \<Rightarrow> succ_in (kids s (it_dir it)) pos)"

lemma next_child_mem: "next_child s it = Some p \<Longrightarrow> p \<in> set (kids s (it_dir it))"
  by (auto simp: next_child_def succ_in_mem split: option.splits list.splits)

lemma iter_next_eq:
  assumes ok: "store_ok held s" and i: "map_of (ns_iters s) i = Some it"
  shows "iter_next s i =
    (let s0 = put_iter s i (it\<lparr>it_next := False\<rparr>)
     in if \<exists>pos. it_pos it = Some pos \<and> parent_of s pos \<noteq> Some (it_dir it) then Some (Inl ISO_ERROR, None, s0)
        else case next_child s it of
               None \<Rightarrow> Some (Inr 0, None, s0)
             | Some p \<Rightarrow> Some (Inr 1, Some p, moved s i (it\<lparr>it_pos := Some p, it_next := True\<rparr>) (it_pos it)))"
proof -
  note sok = store_okD [OF ok]
  let ?s0 = "put_iter s i (it\<lparr>it_next := False\<rparr>)"
  have dir: "in_use s (it_dir it)" by (rule iter_in_use(1) [OF ok i])
  have kid: "in_use s p" if "p \<in> set (kids s (it_dir it))" for p
    using dir_okD(3) [OF sok(4) [OF dir] that] child_ofD by blast
  note get = get_iter_Some [OF i]
  show ?thesis
  proof (cases "it_pos it")
    case None
    show ?thesis
    proof (cases "kids s (it_dir it)")
      case (Cons p ps)
      then have "in_use ?s0 p" using kid by simp
      then show ?thesis using None Cons
        by (simp add: iter_next_def get next_child_def Let_def ref_one moved_def put_iter_set_ref)
    qed (use None in \<open>simp add: iter_next_def get next_child_def Let_def\<close>)
  next
    case (Some pos)
    show ?thesis
    proof (cases "parent_of s pos = Some (it_dir it)")
      case True
      have nx: "node_next s pos = succ_in (kids s (it_dir it)) pos" using True by (simp add: node_next_def)
      show ?thesis
      proof (cases "succ_in (kids s (it_dir it)) pos")
        case None
        then show ?thesis using Some True nx by (simp add: iter_next_def get next_child_def Let_def)
      next
        case p: (Some p)
        have pu: "in_use s p" by (rule kid [OF succ_in_mem [OF p]])
        have pos: "in_use s pos" by (rule iter_in_use(3) [OF ok i Some])
        have "pos \<noteq> it_dir it"
        proof
          assume e: "pos = it_dir it"
          have "succ_in xs a = None" if "a \<notin> set xs" for xs :: "addr list" and a
            using that by (induction xs a rule: succ_in.induct) auto
          then have "pos \<in> set (kids s (it_dir it))" using p by fastforce
          then have "(pos, it_dir it) \<in> child_of s" by (rule dir_okD(3) [OF sok(4) [OF dir]])
          then show False using e child_ofD by blast
        qed
        then have "(pos, it_dir it) \<in> child_of s" using True pos by (simp add: child_of_def)
        then have "n_ref (node_at s pos) \<noteq> 1" by (intro shared_at [OF ok i Some]) auto
        then have un: "iso_node_unref ?s0 (Some pos) = Some (set_ref ?s0 pos (n_ref (node_at s pos) - 1))"
          using unref_shared [of ?s0 pos] pos by simp
        have ne: "pos \<noteq> p" by (rule succ_in_ne [OF distinct_kids [OF sok(4) [OF dir]] p])
        have "ns_nodes (set_ref ?s0 pos (n_ref (node_at s pos) - 1)) pos \<noteq> None"
          by (simp add: set_ref_def put_node_def)
        then show ?thesis using Some True nx p un ne pu
          by (simp add: iter_next_def get next_child_def Let_def ref_one moved_def put_iter_set_ref)
      qed
    qed (use Some in \<open>simp add: iter_next_def get Let_def\<close>)
  qed
qed
section \<open>Taking a node\<close>

definition at_child :: "node_store \<Rightarrow> addr \<Rightarrow> addr \<Rightarrow> nat \<Rightarrow> bool" where
  "at_child s dir a i \<longleftrightarrow> it_dir (get_iter s i) = dir \<and> it_pos (get_iter s i) = Some a"

text \<open>The first iterator at the node, if any, steps back.\<close>

definition stepped :: "node_store \<Rightarrow> addr \<Rightarrow> addr \<Rightarrow> node_store" where
  "stepped s dir a =
     (case find (at_child s dir a) (map fst (ns_iters s)) of
        None \<Rightarrow> s
      | Some i \<Rightarrow> moved s i ((get_iter s i)\<lparr>it_pos := pred_in (kids s dir) a\<rparr>) (Some a))"

lemma pred_in_mem: "pred_in xs a = Some p \<Longrightarrow> p \<in> set xs"
  by (induction xs a rule: pred_in.induct) (auto split: if_splits)

lemma pred_in_ne: "distinct xs \<Longrightarrow> pred_in xs a = Some p \<Longrightarrow> p \<noteq> a"
  by (induction xs a rule: pred_in.induct) (auto split: if_splits)

lemma notify_loop_gone:
  "parent_of s a = Some dir \<Longrightarrow> a \<notin> set (kids s dir) \<Longrightarrow> notify_loop is a s = Some s"
  by (induction "is") (auto simp: iter_notify_child_taken_def Let_def)

lemma set_dir_children_simps [simp]:
  "node_at (set_dir_children s d cs) b = (if b = d then (node_at s d)\<lparr>n_children := cs\<rparr> else node_at s b)"
  "in_use (set_dir_children s d cs) b \<longleftrightarrow> b = d \<or> in_use s b"
  "ns_iters (set_dir_children s d cs) = ns_iters s"
  by (simp_all add: set_dir_children_def)

lemma iters_put_iter:
  "ns_iters (put_iter s i it) = map (\<lambda>(j, jt). if j = i then (j, it) else (j, jt)) (ns_iters s)"
  by (simp add: put_iter_def)

text \<open>What taking depends on; names do not matter.\<close>

definition linked :: "node_store \<Rightarrow> addr \<Rightarrow> addr \<Rightarrow> bool" where
  "linked s dir a \<longleftrightarrow>
     in_use s a \<and> a \<noteq> dir \<and> parent_of s a = Some dir \<and> in_use s dir \<and> a \<in> set (kids s dir) \<and> distinct (kids s dir) \<and>
     (\<forall>p \<in> set (kids s dir). in_use s p \<and> p \<noteq> dir) \<and>
     (\<forall>i it. map_of (ns_iters s) i = Some it \<longrightarrow> it_pos it = Some a \<longrightarrow> n_ref (node_at s a) \<noteq> 1)"

lemma store_ok_linked:
  assumes ok: "store_ok held s" and child: "(a, dir) \<in> child_of s"
  shows "linked s dir a"
proof -
  note sok = store_okD [OF ok]
  have a: "in_use s a" "a \<noteq> dir" "parent_of s a = Some dir" using child_ofD [OF child] by auto
  have dir: "in_use s dir" "a \<in> set (kids s dir)" using dir_okD(4) [OF sok(4) [OF a(1)] child] by auto
  note dok = sok(4) [OF dir(1)]
  have "in_use s p \<and> p \<noteq> dir" if "p \<in> set (kids s dir)" for p using dir_okD(3) [OF dok that] child_ofD by blast
  moreover have "n_ref (node_at s a) \<noteq> 1" if "map_of (ns_iters s) i = Some it" "it_pos it = Some a" for i it
    by (rule shared_at [OF ok that]) (use child in auto)
  ultimately show ?thesis using a dir distinct_kids [OF dok] by (auto simp: linked_def)
qed

lemma notify_one:
  assumes L: "linked s dir a"
    and i: "map_of (ns_iters s) i = Some it" "it_dir it = dir" "it_pos it = Some a"
  shows "\<exists>s1. iter_notify_child_taken i a s = Some s1 \<and> parent_of s1 a = Some dir \<and> a \<notin> set (kids s1 dir) \<and>
    detach s1 dir a = detach (moved s i (it\<lparr>it_pos := pred_in (kids s dir) a\<rparr>) (Some a)) dir a"
proof -
  have a: "in_use s a" "a \<noteq> dir" "parent_of s a = Some dir" using L by (auto simp: linked_def)
  have dir: "in_use s dir" "a \<in> set (kids s dir)" using L by (auto simp: linked_def)
  have dist: "distinct (kids s dir)" using L by (auto simp: linked_def)
  have gone: "a \<notin> set (remove1 a (kids s dir))" using dist by simp
  then have twice: "remove1 a (remove1 a (kids s dir)) = remove1 a (kids s dir)" by (rule remove1_idem)
  have "n_ref (node_at s a) \<noteq> 1" using L i(1,3) by (auto simp: linked_def)
  then have un: "iso_node_unref s (Some a) = Some (set_ref s a (n_ref (node_at s a) - 1))" by (rule unref_shared [OF a(1)])
  let ?s1 = "set_ref s a (n_ref (node_at s a) - 1)"
  let ?s2 = "set_dir_children ?s1 dir (remove1 a (kids s dir))"
  show ?thesis
  proof (cases "pred_in (kids s dir) a")
    case None
    let ?s3 = "put_iter ?s2 i (it\<lparr>it_pos := None\<rparr>)"
    have "iter_notify_child_taken i a s = Some ?s3"
      using i dir(2) un None get_iter_Some [OF i(1)] by (simp add: iter_notify_child_taken_def Let_def)
    moreover have "parent_of ?s3 a = Some dir" "a \<notin> set (kids ?s3 dir)"
      using a gone by simp_all
    moreover have "detach ?s3 dir a = detach (moved s i (it\<lparr>it_pos := None\<rparr>) (Some a)) dir a"
      using a dir(1) twice
      by (intro store_eqI)
        (auto simp: node_at_detach moved_def iters_put_iter Let_def)
    ultimately show ?thesis using None by auto
  next
    case (Some p)
    have p: "p \<in> set (kids s dir)" "p \<noteq> a" using pred_in_mem [OF Some] pred_in_ne [OF dist Some] by auto
    have pd: "in_use s p" "p \<noteq> dir" using L p(1) by (auto simp: linked_def)
    let ?s3 = "put_iter ?s2 i (it\<lparr>it_pos := Some p\<rparr>)"
    let ?s4 = "set_ref ?s3 p (n_ref (node_at s p) + 1)"
    have u3: "in_use ?s3 p" using pd(1) by simp
    have n3: "node_at ?s3 p = node_at s p" using p(2) pd(2) by simp
    have "iter_notify_child_taken i a s = Some ?s4"
      using i dir(2) un Some get_iter_Some [OF i(1)] ref_one [OF u3, unfolded n3]
      by (simp add: iter_notify_child_taken_def Let_def)
    moreover have "parent_of ?s4 a = Some dir" "a \<notin> set (kids ?s4 dir)"
      using a gone p(2) pd(2) by simp_all
    moreover have "detach ?s4 dir a = detach (moved s i (it\<lparr>it_pos := Some p\<rparr>) (Some a)) dir a"
      using a dir(1) twice p(2) pd
      by (intro store_eqI)
        (auto simp: node_at_detach moved_def iters_put_iter Let_def)
    ultimately show ?thesis using Some by auto
  qed
qed

lemma find_registered:
  "find (at_child s dir a) (map fst (ns_iters s)) = Some i \<Longrightarrow>
     \<exists>it. map_of (ns_iters s) i = Some it \<and> it_dir it = dir \<and> it_pos it = Some a"
proof -
  assume f: "find (at_child s dir a) (map fst (ns_iters s)) = Some i"
  then have m: "at_child s dir a i" "i \<in> fst ` set (ns_iters s)" by (auto simp: find_Some_iff)
  then obtain it where "map_of (ns_iters s) i = Some it" by (metis map_of_eq_None_iff not_None_eq)
  then show ?thesis using m(1) by (auto simp: at_child_def get_iter_def)
qed

lemma notify_loop_eq:
  assumes L: "linked s dir a"
  shows "set is \<subseteq> fst ` set (ns_iters s) \<Longrightarrow>
    case find (at_child s dir a) is of
      None \<Rightarrow> notify_loop is a s = Some s
    | Some i \<Rightarrow> \<exists>s1. notify_loop is a s = Some s1 \<and>
        detach s1 dir a = detach (moved s i ((get_iter s i)\<lparr>it_pos := pred_in (kids s dir) a\<rparr>) (Some a)) dir a"
proof (induction "is")
  case (Cons i "is")
  have par: "parent_of s a = Some dir" using L by (simp add: linked_def)
  obtain it where it: "map_of (ns_iters s) i = Some it" using Cons.prems by (metis insert_subset list.set(2) map_of_eq_None_iff not_None_eq)
  note get = get_iter_Some [OF it]
  show ?case
  proof (cases "at_child s dir a i")
    case True
    then have m: "it_dir it = dir" "it_pos it = Some a" by (auto simp: at_child_def get)
    obtain s1 where s1: "iter_notify_child_taken i a s = Some s1" "parent_of s1 a = Some dir" "a \<notin> set (kids s1 dir)"
      "detach s1 dir a = detach (moved s i (it\<lparr>it_pos := pred_in (kids s dir) a\<rparr>) (Some a)) dir a"
      using notify_one [OF L it m] by auto
    have "notify_loop (i # is) a s = Some s1"
      using s1(1) m(1) par get notify_loop_gone [OF s1(2,3)] by simp
    then show ?thesis using True s1(4) get by auto
  next
    case False
    then have loop: "notify_loop (i # is) a s = notify_loop is a s"
      using par get by (auto simp: at_child_def iter_notify_child_taken_def Let_def)
    have first: "find (at_child s dir a) (i # is) = find (at_child s dir a) is" using False by simp
    show ?thesis unfolding loop first using Cons by simp
  qed
qed simp

lemma take_eq:
  assumes L: "linked s dir a"
  shows "iso_node_take s (Some a) = Some (Inr 1, detach (stepped s dir a) dir a)"
proof -
  have a: "in_use s a" "parent_of s a = Some dir" using L by (auto simp: linked_def)
  have "set (map fst (ns_iters s)) \<subseteq> fst ` set (ns_iters s)" by simp
  note loop = notify_loop_eq [OF L this]
  have "\<exists>s1. iso_notify_dir_iters s a = Some s1 \<and> detach s1 dir a = detach (stepped s dir a) dir a"
    using loop by (auto simp: iso_notify_dir_iters_def stepped_def split: option.splits)
  then show ?thesis using a
    by (auto simp: iso_node_take_def detach_def [symmetric] Let_def in_use_def) (simp add: detach_def Let_def)
qed

lemma stepped_ok:
  assumes ok: "store_ok held s" and child: "(a, dir) \<in> child_of s"
  shows "store_ok held (stepped s dir a)"
    and "in_use (stepped s dir a) b = in_use s b" and "like_node (node_at s b) (node_at (stepped s dir a) b)"
    and "parent_of (stepped s dir a) b = parent_of s b" and "child_of (stepped s dir a) = child_of s"
proof -
  note sok = store_okD [OF ok]
  have a: "in_use s a" "parent_of s a = Some dir" using child_ofD [OF child] by auto
  have dir: "in_use s dir" using dir_okD(4) [OF sok(4) [OF a(1)] child] by auto
  note dok = sok(4) [OF dir]
  have pred: "in_use s p" if "pred_in (kids s dir) a = Some p" for p
    using dir_okD(3) [OF dok pred_in_mem [OF that]] child_ofD by blast
  show "store_ok held (stepped s dir a)"
  proof (cases "find (at_child s dir a) (map fst (ns_iters s))")
    case (Some i)
    obtain it where it: "map_of (ns_iters s) i = Some it" "it_dir it = dir" "it_pos it = Some a"
      using find_registered [OF Some] by auto
    have "store_ok held (moved s i (it\<lparr>it_pos := pred_in (kids s dir) a\<rparr>) (it_pos it))"
      by (rule moved_ok [OF ok it(1)])
        (use child it(3) pred pred_in_ne [OF distinct_kids [OF dok]] in auto)
    then show ?thesis using Some it get_iter_Some [OF it(1)] by (simp add: stepped_def)
  qed (use ok in \<open>simp add: stepped_def\<close>)
  have "in_use (stepped s dir a) b = in_use s b \<and> like_node (node_at s b) (node_at (stepped s dir a) b) \<and>
      parent_of (stepped s dir a) b = parent_of s b" for b
  proof (cases "find (at_child s dir a) (map fst (ns_iters s))")
    case (Some i)
    let ?it = "(get_iter s i)\<lparr>it_pos := pred_in (kids s dir) a\<rparr>"
    have "in_use (moved s i ?it (Some a)) b = in_use s b" "like_node (node_at s b) (node_at (moved s i ?it (Some a)) b)"
      "parent_of (moved s i ?it (Some a)) b = parent_of s b"
      by (rule moved_simps; use a(1) pred in simp)+
    then show ?thesis using Some by (simp add: stepped_def)
  qed (simp add: stepped_def)
  then show "in_use (stepped s dir a) b = in_use s b" "like_node (node_at s b) (node_at (stepped s dir a) b)"
    "parent_of (stepped s dir a) b = parent_of s b" "child_of (stepped s dir a) = child_of s"
    by (auto simp: child_of_def)
qed
lemma node_take_ok:
  assumes ok: "store_ok held s" and child: "(a, dir) \<in> child_of s"
  shows "\<exists>s'. iso_node_take s (Some a) = Some (Inr 1, s') \<and> store_ok (a # held) s' \<and> parent_of s' a = None \<and>
    child_of s' = child_of s - {(a, dir)} \<and> dir_map s' dir = (dir_map s dir)(name_of s a := None) \<and>
    (\<forall>b. in_use s' b = in_use s b) \<and> (\<forall>b. name_of s' b = name_of s b) \<and>
    (\<forall>b. n_type (node_at s' b) = n_type (node_at s b))"
proof -
  note sok = store_okD [OF ok] and st = stepped_ok [OF ok child]
  have a: "in_use s a" "a \<noteq> dir" "parent_of s a = Some dir" using child_ofD [OF child] by auto
  have dir: "in_use s dir" "a \<in> set (kids s dir)" using dir_okD(4) [OF sok(4) [OF a(1)] child] by auto
  let ?st = "stepped s dir a" and ?s = "detach (stepped s dir a) dir a"
  have child': "(a, dir) \<in> child_of ?st" using child st(5) by simp
  have ok': "store_ok (a # held) ?s" by (rule detach_ok [OF st(1) child'])
  note like = like_nodeD [OF st(3)]
  have used: "in_use ?s b = in_use s b" for b using a(1) dir(1) st(2) by auto
  have nm: "name_of ?s b = name_of s b" "n_type (node_at ?s b) = n_type (node_at s b)" for b
    using a(2) like by (simp_all add: node_at_detach)
  have kd: "kids ?s dir = remove1 a (kids s dir)" using a(2) like by (simp add: node_at_detach)
  have "dir_ok ?s dir" by (rule store_okD(4) [OF ok']) simp
  then have "dir_map ?s dir = (dir_map s dir)(name_of s a := None)"
  proof (rule dir_map_eqI)
    fix k x
    note dm = dir_map_iff [OF sok(4) [OF dir(1)]]
    have "a = x" if "x \<in> set (kids s dir)" "name_of s x = name_of s a"
      using dm [of "name_of s a" x] dm [of "name_of s a" a] that dir(2) by simp
    then show "((dir_map s dir)(name_of s a := None)) k = Some x \<longleftrightarrow> x \<in> set (kids ?s dir) \<and> name_of ?s x = k"
      unfolding kd nm using dm [of k x] distinct_kids [OF sok(4) [OF dir(1)]] by auto
  qed
  moreover have "child_of ?s = child_of s - {(a, dir)}"
    using detach_child_of [OF child'] st(2,5) dir(1) by simp
  moreover have "parent_of ?s a = None" using a(2) by (simp add: node_at_detach)
  ultimately show ?thesis using take_eq [OF store_ok_linked [OF ok child]] ok' used nm by auto
qed

section \<open>Creating nodes and iterators\<close>

lemma new_node_ok:
  assumes ok: "store_ok held s" and fresh: "\<not> in_use s a"
    and nd: "n_ref nd = 1" "n_children nd = []" "n_count nd = 0" "n_parent nd = None \<or> n_parent nd = Some a"
  shows "store_ok (a # held) (put_node s a nd)"
proof -
  note sok = store_okD [OF ok]
  let ?s = "put_node s a nd"
  have zero: "owner s a = 0" "iter_refs s a = 0" "count_list held a = 0" using sok(6) [of a] fresh by auto
  have co: "child_of ?s = child_of s" using fresh nd(4) by (auto simp: child_of_def split: if_splits)
  have kid: "c \<noteq> a" if "in_use s b" "c \<in> set (kids s b)" for b c
    using dir_okD(3) [OF sok(4) [OF that(1)] that(2)] child_ofD fresh by blast
  have par: "d \<noteq> a" if "in_use s b" "(b, d) \<in> child_of s" for b d
    using dir_okD(4) [OF sok(4) [OF that(1)] that(2)] fresh by blast
  show ?thesis unfolding store_ok_def
  proof (intro conjI allI impI)
    have "{b. in_use ?s b} = insert a {b. in_use s b}" by auto
    then show "finite {b. in_use ?s b}" using sok(1) by simp
    show "distinct (map fst (ns_iters ?s))" "acyclic (child_of ?s)" using sok(2,3) co by simp_all
    fix b
    show "1 \<le> n_ref (node_at ?s b)" if "in_use ?s b" using that sok(5) [of b] nd(1) by auto
    show "int (owner ?s b + iter_refs ?s b + count_list (a # held) b) \<le> (if in_use ?s b then n_ref (node_at ?s b) else 0)"
    proof -
      have "owner ?s b = owner s b" "iter_refs ?s b = iter_refs s b" by (simp_all add: owner_def co iter_refs_cong [of ?s s])
      then show ?thesis using sok(6) [of b] zero nd(1) by (cases "b = a"; cases "in_use s b") simp_all
    qed
    assume b: "in_use ?s b"
    show "dir_ok ?s b"
    proof (cases "b = a")
      case True
      have "(a, d) \<notin> child_of s" for d using fresh child_ofD by blast
      then show ?thesis using True nd(2,3) by (simp add: dir_ok_def co)
    next
      case False
      with b have bu: "in_use s b" by simp
      have "sorted_wrt (\<lambda>x y. name_of ?s x < name_of ?s y) (kids s b)"
        by (rule sorted_wrt_mono_rel [OF _ dir_okD(2) [OF sok(4) [OF bu]]]) (use kid [OF bu] in auto)
      then show ?thesis using dir_okD [OF sok(4) [OF bu]] False kid [OF bu] par [OF bu]
        by (auto simp: dir_ok_def co)
    qed
  qed
qed

lemma iters_ok:
  assumes ok: "store_ok held s" and "distinct (map fst its)"
    and less: "\<And>b. iter_refs (s\<lparr>ns_iters := its\<rparr>) b + count_list held' b \<le> iter_refs s b + count_list held b"
  shows "store_ok held' (s\<lparr>ns_iters := its\<rparr>)"
proof -
  let ?s = "s\<lparr>ns_iters := its\<rparr>"
  note sok = store_okD [OF ok]
  have same: "in_use ?s = in_use s" "node_at ?s = node_at s" "child_of ?s = child_of s"
    by (auto simp: in_use_def node_at_def child_of_def fun_eq_iff)
  have dirs: "dir_ok ?s b = dir_ok s b" "owner ?s b = owner s b" for b
    unfolding dir_ok_def owner_def same by auto
  have "int (owner s b + iter_refs ?s b + count_list held' b) \<le> (if in_use s b then n_ref (node_at s b) else 0)" for b
    using sok(6) [of b] less [of b] by linarith
  then show ?thesis unfolding store_ok_def same dirs using sok(1-5) assms(2) by simp
qed

lemma get_children_ok:
  assumes ok: "store_ok held s" and d: "in_use s d" and i: "i \<notin> fst ` set (ns_iters s)"
  shows "\<exists>s'. iso_dir_get_children s (Some d) (Some i) = Some (Inr 1, s') \<and> store_ok held s' \<and>
    ns_iters s' = (i, \<lparr>it_dir = d, it_pos = None, it_next = False\<rparr>) # ns_iters s \<and> (\<forall>b. kids s' b = kids s b)"
proof -
  let ?it = "\<lparr>it_dir = d, it_pos = None, it_next = False\<rparr>"
  let ?s = "set_ref s d (n_ref (node_at s d) + 1)"
  let ?s' = "?s\<lparr>ns_iters := (i, ?it) # ns_iters s\<rparr>"
  have ok1: "store_ok (d # held) ?s" by (rule ref_ok [OF ok d])
  note sok = store_okD [OF ok1]
  have "store_ok held ?s'"
    by (rule iters_ok [OF ok1]) (use i store_okD(2) [OF ok] in \<open>auto simp: iter_refs_def\<close>)
  moreover have "kids ?s' b = kids s b" for b by (simp add: node_at_def set_ref_def put_node_def)
  moreover have "iso_dir_get_children s (Some d) (Some i) = Some (Inr 1, ?s')"
    using in_use_Some [OF d] by (simp add: iso_dir_get_children_def iso_node_ref_def set_ref_def put_node_def)
  ultimately show ?thesis by auto
qed

lemma iter_free_ok:
  assumes ok: "store_ok held s" and i: "map_of (ns_iters s) i = Some it"
  shows "\<exists>s'. iso_dir_iter_free s i = Some s' \<and> store_ok held s'"
proof -
  let ?s = "s\<lparr>ns_iters := filter (\<lambda>(j, _). j \<noteq> i) (ns_iters s)\<rparr>"
  note sok = store_okD [OF ok]
  have refs: "iter_refs s b = iter_refs ?s b + count_list (opt_list (it_pos it) @ [it_dir it]) b" for b
  proof -
    have "length (filter P xs) = length (filter P (filter (\<lambda>(j, _). j \<noteq> i) xs)) + of_bool (P (i, it))"
      if "distinct (map fst xs)" "map_of xs i = Some it" for P and xs :: "(nat \<times> dir_iter) list"
      using that
    proof (induction xs)
      case (Cons x xs)
      have all: "filter (\<lambda>(j, _). j \<noteq> i) xs = xs" if "i \<notin> fst ` set xs" using that by (induction xs) auto
      obtain j jt where x: "x = (j, jt)" by (cases x)
      show ?case
      proof (cases "j = i")
        case True
        then show ?thesis using Cons.prems all x by (simp del: filter_filter)
      next
        case False
        then show ?thesis using Cons.IH Cons.prems x by (simp del: filter_filter)
      qed
    qed simp
    note one = this [OF sok(2) i]
    show ?thesis
      using one [of "\<lambda>(_, it). it_dir it = b"] one [of "\<lambda>(_, it). it_pos it = Some b"]
      unfolding iter_refs_def by (cases "it_pos it") (auto simp del: filter_filter)
  qed
  have ok1: "store_ok (opt_list (it_pos it) @ [it_dir it] @ held) ?s"
  proof (rule iters_ok [OF ok])
    show "distinct (map fst (filter (\<lambda>(j, _). j \<noteq> i) (ns_iters s)))" using sok(2) by (simp add: distinct_map_filter)
    show "iter_refs ?s b + count_list (opt_list (it_pos it) @ [it_dir it] @ held) b \<le> iter_refs s b + count_list held b" for b
      unfolding refs [of b] by (simp add: algebra_simps)
  qed
  have "\<exists>s1. iso_node_unref ?s (it_pos it) = Some s1 \<and> store_ok (it_dir it # held) s1"
  proof (cases "it_pos it")
    case (Some p)
    then show ?thesis using unref_one [of p "it_dir it # held" ?s] ok1 by auto
  qed (use ok1 in \<open>simp add: iso_node_unref_def\<close>)
  then obtain s1 where s1: "iso_node_unref ?s (it_pos it) = Some s1" "store_ok (it_dir it # held) s1" by auto
  then show ?thesis using unref_one [OF s1(2)] get_iter_Some [OF i] by (auto simp: iso_dir_iter_free_def Let_def)
qed
section \<open>Renaming and the tree\<close>

definition renamed :: "node_store \<Rightarrow> addr \<Rightarrow> string \<Rightarrow> node_store" where
  "renamed s a nm = put_node s a ((node_at s a)\<lparr>n_name := nm\<rparr>)"

lemma renamed_simps [simp]:
  "node_at (renamed s a nm) b = (if b = a then (node_at s a)\<lparr>n_name := nm\<rparr> else node_at s b)"
  "in_use (renamed s a nm) b \<longleftrightarrow> b = a \<or> in_use s b"
  "ns_iters (renamed s a nm) = ns_iters s"
  by (simp_all add: renamed_def)

lemma renamed_child_of [simp]: "in_use s a \<Longrightarrow> child_of (renamed s a nm) = child_of s"
  by (auto simp: child_of_def split: if_splits)

text \<open>A node outside of a directory may get any name.\<close>

lemma renamed_ok:
  assumes ok: "store_ok held s" and a: "in_use s a" "a \<notin> Domain (child_of s)"
  shows "store_ok held (renamed s a nm)"
proof -
  note sok = store_okD [OF ok]
  let ?s = "renamed s a nm"
  have kid: "c \<noteq> a" if "in_use s b" "c \<in> set (kids s b)" for b c
    using dir_okD(3) [OF sok(4) [OF that(1)] that(2)] a(2) by auto
  have used: "in_use ?s = in_use s" using a(1) by (auto simp: fun_eq_iff)
  have co: "child_of ?s = child_of s" using a(1) by simp
  have kids: "kids ?s b = kids s b" "n_type (node_at ?s b) = n_type (node_at s b)"
    "n_count (node_at ?s b) = n_count (node_at s b)" "n_ref (node_at ?s b) = n_ref (node_at s b)" for b
    by simp_all
  have refs: "owner ?s b = owner s b" "iter_refs ?s b = iter_refs s b" for b
    by (simp_all only: owner_def co iter_refs_cong [of ?s s] renamed_simps)
  have "dir_ok ?s b" if b: "in_use s b" for b
  proof -
    have "sorted_wrt (\<lambda>x y. name_of ?s x < name_of ?s y) (kids s b)"
      by (rule sorted_wrt_mono_rel [OF _ dir_okD(2) [OF sok(4) [OF b]]]) (use kid [OF b] in auto)
    then show ?thesis unfolding dir_ok_def kids co used using dir_okD [OF sok(4) [OF b]] by auto
  qed
  then show ?thesis unfolding store_ok_def used co refs kids
    using sok by (auto simp del: renamed_simps simp: renamed_simps(3))
qed

text \<open>\<open>iso_node_set_name_trunc\<close> sets the name before it takes the node out; the taking does not depend on it.\<close>

lemma renamed_take:
  assumes ok: "store_ok held s" and child: "(a, dir) \<in> child_of s"
  shows "iso_node_take (renamed s a nm) (Some a) = Some (Inr 1, renamed (detach (stepped s dir a) dir a) a nm)"
proof -
  have L: "linked s dir a" by (rule store_ok_linked [OF ok child])
  have L': "linked (renamed s a nm) dir a" using L by (auto simp: linked_def)
  have a: "a \<noteq> dir" "in_use s a" "in_use s dir" using L by (auto simp: linked_def)
  have at: "at_child (renamed s a nm) dir a = at_child s dir a" by (auto simp: at_child_def get_iter_def fun_eq_iff)
  have get: "get_iter (renamed s a nm) i = get_iter s i" for i by (simp add: get_iter_def)
  have pred: "in_use s p \<and> p \<noteq> a \<and> p \<noteq> dir" if "pred_in (kids s dir) a = Some p" for p
    using L pred_in_mem [OF that] pred_in_ne [OF _ that] by (auto simp: linked_def)
  have "detach (stepped (renamed s a nm) dir a) dir a = renamed (detach (stepped s dir a) dir a) a nm"
  proof (cases "find (at_child s dir a) (map fst (ns_iters s))")
    case None
    then show ?thesis using a
      by (intro store_eqI) (auto simp: stepped_def at node_at_detach)
  next
    case (Some i)
    then show ?thesis using a pred
      by (cases "pred_in (kids s dir) a"; intro store_eqI)
        (auto simp: stepped_def at get node_at_detach moved_def Let_def iters_put_iter)
  qed
  then show ?thesis using take_eq [OF L'] by simp
qed

lemma set_name_child:
  assumes ok: "store_ok held s" and child: "(a, dir) \<in> child_of s"
    and target: "(if truncate_length \<ge> 64 then truncated (nat truncate_length) in_name else Inr in_name) = Inr name"
    and valid: "iso_node_is_valid_name (Some name) = Inr n"
  shows "case dir_map s dir name of
      Some _ \<Rightarrow> iso_node_set_name_trunc s True a in_name truncate_length = Some (Inl ISO_NODE_NAME_NOT_UNIQUE, s)
    | None \<Rightarrow> \<exists>s'. iso_node_set_name_trunc s True a in_name truncate_length = Some (Inr 1, s') \<and> store_ok held s' \<and>
        in_use s' dir \<and> dir_map s' dir = (dir_map s dir)(name_of s a := None, name \<mapsto> a)"
proof -
  note sok = store_okD [OF ok]
  have a: "in_use s a" "a \<noteq> dir" "parent_of s a = Some dir" using child_ofD [OF child] by auto
  have dir: "in_use s dir" "a \<in> set (kids s dir)" using dir_okD(4) [OF sok(4) [OF a(1)] child] by auto
  have ty: "n_type (node_at s dir) = LIBISO_DIR" using dir_okD(1) [OF sok(4) [OF dir(1)]] dir(2) by fastforce
  note get = get_node_map [OF ok dir(1), of name]
  show ?thesis
  proof (cases "dir_map s dir name")
    case (Some x)
    have "iso_node_set_name_trunc s True a in_name truncate_length = Some (Inl ISO_NODE_NAME_NOT_UNIQUE, s)"
      using a target valid get Some in_use_Some [OF a(1)] unfolding iso_node_set_name_trunc_def by simp
    then show ?thesis using Some by simp
  next
    case None
    obtain s2 where s2: "iso_node_take s (Some a) = Some (Inr 1, s2)" "store_ok (a # held) s2" "parent_of s2 a = None"
      "child_of s2 = child_of s - {(a, dir)}" "dir_map s2 dir = (dir_map s dir)(name_of s a := None)"
      "\<forall>b. in_use s2 b = in_use s b" "\<forall>b. name_of s2 b = name_of s b"
      "\<forall>b. n_type (node_at s2 b) = n_type (node_at s b)"
      using node_take_ok [OF ok child] by auto
    have eq2: "s2 = detach (stepped s dir a) dir a" using take_eq [OF store_ok_linked [OF ok child]] s2(1) by simp
    let ?s1 = "renamed s a name" and ?s3 = "renamed s2 a name"
    have nodom: "a \<notin> Domain (child_of s2)" using s2(3) by (auto simp: child_of_def)
    have ok3: "store_ok (a # held) ?s3" by (rule renamed_ok [OF s2(2)]) (simp_all add: s2(6) a(1) nodom)
    have take: "iso_node_take ?s1 (Some a) = Some (Inr 1, ?s3)" using renamed_take [OF ok child] eq2 by simp
    have co3: "child_of ?s3 = child_of s - {(a, dir)}" using s2(4,6) a(1) by simp
    have nb: "(dir, a) \<notin> (child_of ?s3)\<^sup>*"
    proof
      assume "(dir, a) \<in> (child_of ?s3)\<^sup>*"
      moreover have "(child_of ?s3)\<^sup>* \<subseteq> (child_of s)\<^sup>*" by (rule rtrancl_mono) (auto simp: co3)
      ultimately have "(a, a) \<in> (child_of s)\<^sup>+" using child by (meson rtrancl_into_trancl2 subsetD)
      then show False using sok(3) by (simp add: acyclic_def)
    qed
    have d3: "in_use ?s3 dir" "n_type (node_at ?s3 dir) = LIBISO_DIR" "parent_of ?s3 a = None" "name_of ?s3 a = name"
      using s2 dir(1) ty a by simp_all
    have nk: "a \<notin> set (kids s2 dir)"
      using dir_okD(3) [OF store_okD(4) [OF s2(2)], of dir a] s2(6) dir(1) nodom by auto
    have map3: "dir_map ?s3 dir = dir_map s2 dir"
    proof -
      have "map (\<lambda>c. (name_of ?s3 c, c)) (kids ?s3 dir) = map (\<lambda>c. (name_of s2 c, c)) (kids s2 dir)"
        using nk a(2) by auto
      then show ?thesis unfolding dir_map_def by simp
    qed
    have free: "dir_map ?s3 dir (name_of ?s3 a) = None" using None map3 s2(5) by (simp only: d3(4)) simp
    obtain n s4 where s4: "iso_dir_add_node ?s3 (Some dir) (Some a) ISO_REPLACE_NEVER = Some (Inr n, s4)" "store_ok held s4"
      "in_use s4 dir" "dir_map s4 dir = (dir_map ?s3 dir)(name_of ?s3 a \<mapsto> a)"
      using add_node_ok [OF ok3 d3(1-3) nb, of ISO_REPLACE_NEVER] free by auto
    have "iso_node_set_name_trunc s True a in_name truncate_length = Some (Inr 1, s4)"
      using a target valid get None in_use_Some [OF a(1)] take s4(1)
      unfolding iso_node_set_name_trunc_def by (simp add: renamed_def Let_def)
    moreover have "dir_map s4 dir = (dir_map s dir)(name_of s a := None, name \<mapsto> a)"
      using s4(4) map3 s2(5) by (simp only: d3(4))
    ultimately show ?thesis using None s4(2,3) by auto
  qed
qed
lemma set_name_safe:
  assumes ok: "store_ok held s" and a: "in_use s a"
  shows "\<exists>r s'. iso_node_set_name_trunc s mem a in_name len = Some (r, s') \<and> store_ok held s'"
proof -
  note sok = store_okD [OF ok]
  note node = in_use_Some [OF a]
  let ?t = "if len \<ge> 64 then truncated (nat len) in_name else Inr in_name"
  consider "parent_of s a = Some a" | "len \<ge> 64" "\<not> mem" | e where "parent_of s a \<noteq> Some a" "\<not> (len \<ge> 64 \<and> \<not> mem)" "?t = Inl e"
    | name e where "parent_of s a \<noteq> Some a" "\<not> (len \<ge> 64 \<and> \<not> mem)" "?t = Inr name" "iso_node_is_valid_name (Some name) = Inl e"
    | name n where "parent_of s a \<noteq> Some a" "\<not> (len \<ge> 64 \<and> \<not> mem)" "?t = Inr name" "iso_node_is_valid_name (Some name) = Inr n"
    by (metis sum.exhaust)
  then show ?thesis
  proof cases
    case 5
    show ?thesis
    proof (cases "parent_of s a")
      case None
      have "a \<notin> Domain (child_of s)" using None by (auto simp: child_of_def)
      then have "store_ok held (renamed s a name)" by (rule renamed_ok [OF ok a])
      then show ?thesis using ok node 5 None
        unfolding iso_node_set_name_trunc_def by (cases mem) (simp_all add: renamed_def)
    next
      case (Some dir)
      then have child: "(a, dir) \<in> child_of s" using a 5(1) by (auto simp: child_of_def)
      show ?thesis
      proof (cases mem)
        case True
        then show ?thesis using set_name_child [OF ok child 5(3,4)] ok by (auto split: option.splits)
      next
        case False
        have "in_use s dir" using dir_okD(4) [OF sok(4) [OF a] child] by simp
        then show ?thesis using False ok node 5 Some get_node_map [OF ok, of dir name]
          unfolding iso_node_set_name_trunc_def by (auto split: option.splits)
      qed
    qed
  qed (use ok node in \<open>unfold iso_node_set_name_trunc_def, auto\<close>)
qed

section \<open>Programs over the tree\<close>

text \<open>The calls of an application, with the addresses that the allocations yield.\<close>

datatype tree_op =
  New_root addr int | New_dir addr string | New_file addr string | New_symlink addr string string |
  New_special addr string u32 | Ref addr | Unref addr | Add addr addr iso_replace_mode | Take addr | Remove addr |
  Rename addr string int bool | Children addr nat | Next nat | Free_iter nat | Iter_take nat | Iter_remove nat

definition created :: "addr \<Rightarrow> addr list \<Rightarrow> (iso_error + nat) \<times> node_store \<Rightarrow> (addr list \<times> node_store) option" where
  "created a held r = (case r of (Inr _, s) \<Rightarrow> Some (a # held, s) | (Inl _, s) \<Rightarrow> Some (held, s))"

definition called ::
  "addr list \<Rightarrow> addr list \<Rightarrow> ((iso_error + 'a) \<times> node_store) option \<Rightarrow> (addr list \<times> node_store) option" where
  "called good bad r =
     (case r of None \<Rightarrow> None | Some (Inr _, s) \<Rightarrow> Some (good, s) | Some (Inl _, s) \<Rightarrow> Some (bad, s))"

text \<open>A call on the references that the application holds and the store.\<close>

fun run_op :: "tree_op \<Rightarrow> addr list \<Rightarrow> node_store \<Rightarrow> (addr list \<times> node_store) option" where
  "run_op (New_root a now) held s = created a held (iso_node_new_root s (Some a) now)"
| "run_op (New_dir a nm) held s = created a held (iso_node_new_dir s (Some a) (Some nm))"
| "run_op (New_file a nm) held s = created a held (iso_node_new_file s (Some a) (Some nm) True)"
| "run_op (New_symlink a nm dest) held s = created a held (iso_node_new_symlink s (Some a) (Some nm) (Some dest) True)"
| "run_op (New_special a nm mode) held s = created a held (iso_node_new_special s (Some a) (Some nm) mode)"
| "run_op (Ref a) held s = map_option (Pair (a # held)) (iso_node_ref s a)"
| "run_op (Unref a) held s = map_option (Pair (remove1 a held)) (iso_node_unref s (Some a))"
| "run_op (Add d c r) held s = called (remove1 c held) held (iso_dir_add_node s (Some d) (Some c) r)"
| "run_op (Take a) held s = called (a # held) held (iso_node_take s (Some a))"
| "run_op (Remove a) held s = called held held (iso_node_remove s (Some a))"
| "run_op (Rename a nm len mem) held s = called held held (iso_node_set_name_trunc s mem a nm len)"
| "run_op (Children d i) held s = called held held (iso_dir_get_children s (Some d) (Some i))"
| "run_op (Next i) held s = map_option (\<lambda>(_, _, s'). (held, s')) (iter_next s i)"
| "run_op (Free_iter i) held s = map_option (Pair held) (iso_dir_iter_free s i)"
| "run_op (Iter_take i) held s = called (opt_list (it_pos (get_iter s i)) @ held) held (iter_take s i)"
| "run_op (Iter_remove i) held s = called held held (iter_remove s i)"

text \<open>What the documentation asks of the caller: addresses come from the tree or from held references, new
  addresses and iterators are fresh, a root is not taken out, no directory is put below itself.\<close>

definition not_root :: "node_store \<Rightarrow> addr \<Rightarrow> bool" where
  "not_root s a \<longleftrightarrow> parent_of s a \<noteq> Some a"

fun allowed :: "tree_op \<Rightarrow> addr list \<Rightarrow> node_store \<Rightarrow> bool" where
  "allowed (New_root a _) held s = (\<not> in_use s a)"
| "allowed (New_dir a _) held s = (\<not> in_use s a)"
| "allowed (New_file a _) held s = (\<not> in_use s a)"
| "allowed (New_symlink a _ _) held s = (\<not> in_use s a)"
| "allowed (New_special a _ _) held s = (\<not> in_use s a)"
| "allowed (Ref a) held s = in_use s a"
| "allowed (Unref a) held s = (a \<in> set held)"
| "allowed (Add d c _) held s =
     (in_use s d \<and> n_type (node_at s d) = LIBISO_DIR \<and> c \<in> set held \<and> (c = d \<or> (d, c) \<notin> (child_of s)\<^sup>*))"
| "allowed (Take a) held s = (in_use s a \<and> not_root s a)"
| "allowed (Remove a) held s = (in_use s a \<and> not_root s a)"
| "allowed (Rename a _ _ _) held s = in_use s a"
| "allowed (Children d i) held s = (in_use s d \<and> i \<notin> fst ` set (ns_iters s))"
| "allowed (Next i) held s = (i \<in> fst ` set (ns_iters s))"
| "allowed (Free_iter i) held s = (i \<in> fst ` set (ns_iters s))"
| "allowed (Iter_take i) held s = (i \<in> fst ` set (ns_iters s) \<and> pred_option (not_root s) (it_pos (get_iter s i)))"
| "allowed (Iter_remove i) held s = (i \<in> fst ` set (ns_iters s) \<and> pred_option (not_root s) (it_pos (get_iter s i)))"

definition empty_store :: node_store where
  "empty_store = \<lparr>ns_nodes = Map.empty, ns_iters = []\<rparr>"

inductive tree_reach :: "addr list \<Rightarrow> node_store \<Rightarrow> bool" where
  start: "tree_reach [] empty_store"
| step: "tree_reach held s \<Longrightarrow> allowed op held s \<Longrightarrow> run_op op held s = Some (held', s') \<Longrightarrow> tree_reach held' s'"

lemma take_safe:
  assumes ok: "store_ok held s" and a: "in_use s a" "not_root s a"
  shows "\<exists>r s'. iso_node_take s (Some a) = Some (r, s') \<and> (case r of Inr n \<Rightarrow> n = 1 \<and> store_ok (a # held) s' | Inl _ \<Rightarrow> s' = s)"
proof (cases "parent_of s a")
  case None
  then show ?thesis using in_use_Some [OF a(1)] by (simp add: iso_node_take_def)
next
  case (Some dir)
  then have "(a, dir) \<in> child_of s" using a by (auto simp: child_of_def not_root_def)
  from node_take_ok [OF ok this] show ?thesis by auto
qed

lemma remove_safe:
  assumes "store_ok held s" and "in_use s a" "not_root s a"
  shows "\<exists>r s'. iso_node_remove s (Some a) = Some (r, s') \<and> store_ok held s'"
proof -
  obtain r s1 where t: "iso_node_take s (Some a) = Some (r, s1)" "case r of Inr n \<Rightarrow> n = 1 \<and> store_ok (a # held) s1 | Inl _ \<Rightarrow> s1 = s"
    using take_safe [OF assms] by auto
  show ?thesis
  proof (cases r)
    case (Inr n)
    then show ?thesis using t unref_one [of a held s1] by (auto simp: iso_node_remove_def)
  qed (use t assms(1) in \<open>simp add: iso_node_remove_def\<close>)
qed

lemma new_named_safe:
  assumes "store_ok held s" and "\<not> in_use s a"
  shows "\<exists>held' s'. created a held (new_named s (Some a) (Some nm) ty mode) = Some (held', s') \<and> store_ok held' s'"
proof (cases "iso_node_is_valid_name (Some nm)")
  case (Inr n)
  have "store_ok (a # held) (put_node s a (new_node ty nm mode))"
    by (rule new_node_ok [OF assms]) (simp_all add: new_node_def)
  then show ?thesis using Inr by (simp add: new_named_def created_def)
qed (use assms(1) in \<open>simp add: new_named_def created_def\<close>)

lemma succ_in_from: "succ_in xs a = Some b \<Longrightarrow> a \<in> set xs"
  by (induction xs a rule: succ_in.induct) (auto split: if_splits)

lemma next_safe:
  assumes ok: "store_ok held s" and i: "map_of (ns_iters s) i = Some it"
  shows "\<exists>r p s'. iter_next s i = Some (r, p, s') \<and> store_ok held s'"
proof -
  let ?s0 = "put_iter s i (it\<lparr>it_next := False\<rparr>)"
  note sok = store_okD [OF ok]
  note dok = sok(4) [OF iter_in_use(1) [OF ok i]]
  have keep: "store_ok held ?s0" by (rule put_iter_keep [OF ok i]) simp_all
  show ?thesis
  proof (cases "\<exists>pos. it_pos it = Some pos \<and> parent_of s pos \<noteq> Some (it_dir it)")
    case True
    then show ?thesis using keep by (simp add: iter_next_eq [OF ok i] Let_def)
  next
    case False
    show ?thesis
    proof (cases "next_child s it")
      case None
      then show ?thesis using keep False by (simp add: iter_next_eq [OF ok i] Let_def)
    next
      case (Some p)
      have p: "(p, it_dir it) \<in> child_of s" by (rule dir_okD(3) [OF dok next_child_mem [OF Some]])
      let ?it = "it\<lparr>it_pos := Some p, it_next := True\<rparr>"
      have "store_ok held (moved s i ?it (it_pos it))"
      proof (rule moved_ok [OF ok i])
        fix a
        assume a: "it_pos it = Some a"
        then have par: "parent_of s a = Some (it_dir it)" using False by auto
        have succ: "succ_in (kids s (it_dir it)) a = Some p" using Some a by (simp add: next_child_def)
        have "a \<in> set (kids s (it_dir it))" by (rule succ_in_from [OF succ])
        then show "a \<in> Domain (child_of s) \<and> it_pos ?it \<noteq> Some a"
          using dir_okD(3) [OF dok] succ_in_ne [OF distinct_kids [OF dok] succ] by auto
      qed (use child_ofD [OF p] in auto)
      then show ?thesis using Some False by (auto simp: iter_next_eq [OF ok i] Let_def)
    qed
  qed
qed

lemma iter_take_safe:
  assumes ok: "store_ok held s" and i: "map_of (ns_iters s) i = Some it" and root: "pred_option (not_root s) (it_pos it)"
  shows "\<exists>r s'. iter_take s i = Some (r, s') \<and>
    (case r of Inr n \<Rightarrow> \<exists>p. it_pos it = Some p \<and> n = 1 \<and> store_ok (p # held) s' | Inl _ \<Rightarrow> store_ok held s')"
proof (cases "\<not> it_next it \<or> it_pos it = None")
  case True
  then show ?thesis using ok get_iter_Some [OF i] by (auto simp: iter_take_def Let_def)
next
  case False
  then obtain p where p: "it_pos it = Some p" by auto
  let ?s = "put_iter s i (it\<lparr>it_next := False\<rparr>)"
  have ok': "store_ok held ?s" by (rule put_iter_keep [OF ok i]) simp_all
  have "in_use ?s p" "not_root ?s p" using iter_in_use(3) [OF ok i p] root p by (simp_all add: not_root_def)
  from take_safe [OF ok' this] obtain r s' where t: "iso_node_take ?s (Some p) = Some (r, s')"
    "case r of Inr n \<Rightarrow> n = 1 \<and> store_ok (p # held) s' | Inl _ \<Rightarrow> s' = ?s" by auto
  have "iter_take s i = Some (r, s')" using False p t(1) get_iter_Some [OF i] by (simp add: iter_take_def Let_def)
  then show ?thesis using t(2) p ok' by (cases r) auto
qed

lemma iter_remove_safe:
  assumes ok: "store_ok held s" and i: "map_of (ns_iters s) i = Some it" and root: "pred_option (not_root s) (it_pos it)"
  shows "\<exists>r s'. iter_remove s i = Some (r, s') \<and> store_ok held s'"
proof -
  obtain r s1 where t: "iter_take s i = Some (r, s1)"
    "case r of Inr n \<Rightarrow> \<exists>p. it_pos it = Some p \<and> n = 1 \<and> store_ok (p # held) s1 | Inl _ \<Rightarrow> store_ok held s1"
    using iter_take_safe [OF assms] by auto
  show ?thesis
  proof (cases r)
    case (Inr n)
    then obtain p where p: "it_pos it = Some p" "store_ok (p # held) s1" using t(2) by auto
    then show ?thesis using t(1) Inr unref_one [OF p(2)] get_iter_Some [OF i] by (auto simp: iter_remove_def)
  qed (use t in \<open>simp add: iter_remove_def\<close>)
qed
lemma registered_iter: "i \<in> fst ` set (ns_iters s) \<Longrightarrow> \<exists>it. map_of (ns_iters s) i = Some it"
  by (metis map_of_eq_None_iff not_None_eq)

lemma add_safe:
  assumes ok: "store_ok held s" and al: "allowed (Add d c r) held s"
  shows "\<exists>held' s'. run_op (Add d c r) held s = Some (held', s') \<and> store_ok held' s'"
proof (cases "d = c \<or> parent_of s c \<noteq> None")
  case True
  have "in_use s c" using al held_in_use [OF ok, of c] by simp
  then show ?thesis using True ok al
    by (auto simp: iso_dir_add_node_def called_def in_use_def)
next
  case False
  have "store_ok (c # remove1 c held) s" by (rule held_perm [OF ok]) (use al in simp)
  from add_node_ok [OF this, of d r] show ?thesis using False al ok
    by (auto simp: called_def split: option.splits if_splits)
qed

lemma run_op_safe:
  assumes ok: "store_ok held s" and al: "allowed op held s"
  shows "\<exists>held' s'. run_op op held s = Some (held', s') \<and> store_ok held' s'"
proof (cases op)
  case (New_root a now)
  have "store_ok (a # held) (put_node s a ((new_node LIBISO_DIR [] (S_IFDIR OR 0x16d))
      \<lparr>n_atime := now, n_ctime := now, n_mtime := now, n_parent := Some a\<rparr>))"
    by (rule new_node_ok [OF ok]) (use al New_root in \<open>simp_all add: new_node_def\<close>)
  then show ?thesis using New_root by (simp add: iso_node_new_root_def created_def)
next
  case (New_dir a nm)
  then show ?thesis using new_named_safe [OF ok] al by (simp add: iso_node_new_dir_def)
next
  case (New_file a nm)
  then show ?thesis using new_named_safe [OF ok] al by (simp add: iso_node_new_file_def)
next
  case (New_symlink a nm dest)
  then show ?thesis using new_named_safe [OF ok, of a nm] al ok
    by (cases "iso_node_is_valid_name (Some nm)"; cases "iso_node_is_valid_link_dest (Some dest) True")
      (simp_all add: iso_node_new_symlink_def created_def)
next
  case (New_special a nm mode)
  then show ?thesis using new_named_safe [OF ok, of a nm] al ok
    by (simp add: iso_node_new_special_def) (simp add: created_def)
next
  case (Ref a)
  then show ?thesis using ref_one [of s a] ref_ok [OF ok, of a] al by simp
next
  case (Unref a)
  have "store_ok (a # remove1 a held) s" by (rule held_perm [OF ok]) (use al Unref in simp)
  from unref_one [OF this] show ?thesis using Unref by auto
next
  case (Add d c r)
  then show ?thesis using add_safe [OF ok] al by blast
next
  case (Take a)
  then obtain r s' where t: "iso_node_take s (Some a) = Some (r, s')"
    "case r of Inr n \<Rightarrow> n = 1 \<and> store_ok (a # held) s' | Inl _ \<Rightarrow> s' = s"
    using take_safe [OF ok, of a] al by auto
  then show ?thesis using Take ok by (cases r) (auto simp: called_def)
next
  case (Remove a)
  then obtain r s' where t: "iso_node_remove s (Some a) = Some (r, s')" "store_ok held s'"
    using remove_safe [OF ok, of a] al by auto
  then show ?thesis using Remove by (cases r) (auto simp: called_def)
next
  case (Rename a nm len mem)
  then obtain r s' where t: "iso_node_set_name_trunc s mem a nm len = Some (r, s')" "store_ok held s'"
    using set_name_safe [OF ok, of a mem nm len] al by auto
  then show ?thesis using Rename by (cases r) (auto simp: called_def)
next
  case (Children d i)
  then show ?thesis using get_children_ok [OF ok, of d i] al by (auto simp: called_def)
next
  case (Next i)
  then obtain it where "map_of (ns_iters s) i = Some it" using registered_iter [of i s] al by auto
  from next_safe [OF ok this] show ?thesis using Next by auto
next
  case (Free_iter i)
  then obtain it where "map_of (ns_iters s) i = Some it" using registered_iter [of i s] al by auto
  from iter_free_ok [OF ok this] show ?thesis using Free_iter by auto
next
  case (Iter_take i)
  then obtain it where it: "map_of (ns_iters s) i = Some it" using registered_iter [of i s] al by auto
  have "pred_option (not_root s) (it_pos it)" using al Iter_take get_iter_Some [OF it] by simp
  from iter_take_safe [OF ok it this] obtain r s' where t: "iter_take s i = Some (r, s')"
    "case r of Inr n \<Rightarrow> \<exists>p. it_pos it = Some p \<and> n = 1 \<and> store_ok (p # held) s' | Inl _ \<Rightarrow> store_ok held s'" by auto
  then show ?thesis using Iter_take get_iter_Some [OF it] by (cases r) (auto simp: called_def)
next
  case (Iter_remove i)
  then obtain it where it: "map_of (ns_iters s) i = Some it" using registered_iter [of i s] al by auto
  have "pred_option (not_root s) (it_pos it)" using al Iter_remove get_iter_Some [OF it] by simp
  from iter_remove_safe [OF ok it this] obtain r s' where t: "iter_remove s i = Some (r, s')" "store_ok held s'" by auto
  then show ?thesis using Iter_remove by (cases r) (auto simp: called_def)
qed

lemma empty_store_ok: "store_ok [] empty_store"
  by (simp add: store_ok_def empty_store_def in_use_def child_of_def acyclic_def owner_def iter_refs_def)

lemma tree_reach_ok: "tree_reach held s \<Longrightarrow> store_ok held s"
proof (induction rule: tree_reach.induct)
  case start
  show ?case by (rule empty_store_ok)
next
  case (step held s op held' s')
  then show ?case using run_op_safe [of held s op] by auto
qed

section \<open>Iteration\<close>

text \<open>The loop of a caller over \<open>iso_dir_iter_next\<close>: what it visits.\<close>

fun iterate :: "nat \<Rightarrow> node_store \<Rightarrow> nat \<Rightarrow> addr list option" where
  "iterate 0 s i = None"
| "iterate (Suc n) s i =
     (case iter_next s i of
        Some (Inr _, Some p, s') \<Rightarrow> map_option (Cons p) (iterate n s' i)
      | Some (Inr _, None, s') \<Rightarrow> Some []
      | _ \<Rightarrow> None)"

text \<open>The loop that removes each child that it visits.\<close>

fun drain :: "nat \<Rightarrow> node_store \<Rightarrow> nat \<Rightarrow> node_store option" where
  "drain 0 s i = None"
| "drain (Suc n) s i =
     (case iter_next s i of
        Some (Inr _, Some p, s') \<Rightarrow> (case iter_remove s' i of Some (Inr _, s'') \<Rightarrow> drain n s'' i | _ \<Rightarrow> None)
      | Some (Inr _, None, s') \<Rightarrow> Some s'
      | _ \<Rightarrow> None)"

lemma next_step:
  assumes ok: "store_ok held s" and i: "map_of (ns_iters s) i = Some it"
    and par: "\<And>pos. it_pos it = Some pos \<Longrightarrow> parent_of s pos = Some (it_dir it)"
    and p: "next_child s it = Some p"
  shows "\<exists>s'. iter_next s i = Some (Inr 1, Some p, s') \<and> store_ok held s' \<and>
    map_of (ns_iters s') = (map_of (ns_iters s))(i \<mapsto> it\<lparr>it_pos := Some p, it_next := True\<rparr>) \<and>
    map fst (ns_iters s') = map fst (ns_iters s) \<and>
    (\<forall>b. kids s' b = kids s b) \<and> (\<forall>b. parent_of s' b = parent_of s b) \<and> (\<forall>b. in_use s' b = in_use s b)"
proof -
  let ?it = "it\<lparr>it_pos := Some p, it_next := True\<rparr>"
  let ?s = "moved s i ?it (it_pos it)"
  have eq: "iter_next s i = Some (Inr 1, Some p, ?s)"
    using par p by (auto simp: iter_next_eq [OF ok i] Let_def)
  have pu: "in_use s p"
    using dir_okD(3) [OF store_okD(4) [OF ok iter_in_use(1) [OF ok i]] next_child_mem [OF p]] child_ofD by blast
  have m: "in_use ?s b = in_use s b" "like_node (node_at s b) (node_at ?s b)" "parent_of ?s b = parent_of s b" for b
    by (rule moved_simps; use iter_in_use(3) [OF ok i] pu in simp)+
  have "store_ok held ?s" using next_safe [OF ok i] eq by auto
  moreover have "map_of (ns_iters ?s) = (map_of (ns_iters s))(i \<mapsto> ?it)"
    using i by (auto simp: moved_iter map_of_put_iter fun_eq_iff)
  moreover have "map fst (ns_iters ?s) = map fst (ns_iters s)"
    by (auto simp: moved_def Let_def put_iter_set_ref split: option.splits)
  ultimately show ?thesis using eq m(1,3) like_nodeD(1) [OF m(2)] by auto
qed
lemma iterate_rest:
  assumes "store_ok held s" and "map_of (ns_iters s) i = Some it"
    and "k \<le> length (kids s (it_dir it))"
    and "it_pos it = (if k = 0 then None else Some (kids s (it_dir it) ! (k - 1)))"
  shows "iterate (Suc (length (kids s (it_dir it)) - k)) s i = Some (drop k (kids s (it_dir it)))"
  using assms
proof (induction "length (kids s (it_dir it)) - k" arbitrary: k s it)
  case 0
  note ok = 0(2) and i = 0(3)
  let ?cs = "kids s (it_dir it)"
  have k: "k = length ?cs" using 0 by simp
  note dok = store_okD(4) [OF ok iter_in_use(1) [OF ok i]]
  have par: "\<not> (\<exists>pos. it_pos it = Some pos \<and> parent_of s pos \<noteq> Some (it_dir it))"
  proof (cases "k = 0")
    case False
    then have "kids s (it_dir it) ! (k - 1) \<in> set ?cs" using k by simp
    then show ?thesis using dir_okD(3) [OF dok] child_ofD 0(5) False by fastforce
  qed (use 0(5) in simp)
  have "next_child s it = None"
  proof (cases "k = 0")
    case False
    then show ?thesis using succ_in_nth [OF distinct_kids [OF dok], of "k - 1"] k 0(5) by (simp add: next_child_def)
  qed (use 0(5) k in \<open>simp add: next_child_def\<close>)
  then show ?case using k par by (auto simp: iter_next_eq [OF ok i] Let_def)
next
  case (Suc n)
  note ok = Suc(3) and i = Suc(4)
  let ?cs = "kids s (it_dir it)"
  have k: "k < length ?cs" using Suc(2) by simp
  note dok = store_okD(4) [OF ok iter_in_use(1) [OF ok i]]
  have par: "parent_of s pos = Some (it_dir it)" if "it_pos it = Some pos" for pos
  proof -
    have "pos \<in> set ?cs" using Suc(6) that k by (auto split: if_splits)
    then show ?thesis using dir_okD(3) [OF dok] child_ofD by blast
  qed
  have p: "next_child s it = Some (?cs ! k)"
  proof (cases "k = 0")
    case True
    then show ?thesis using Suc(6) k by (cases ?cs) (simp_all add: next_child_def)
  next
    case False
    then show ?thesis using succ_in_nth [OF distinct_kids [OF dok], of "k - 1"] k Suc(6) by (simp add: next_child_def)
  qed
  let ?it = "it\<lparr>it_pos := Some (?cs ! k), it_next := True\<rparr>"
  obtain s' where s': "iter_next s i = Some (Inr 1, Some (?cs ! k), s')" "store_ok held s'"
    "map_of (ns_iters s') = (map_of (ns_iters s))(i \<mapsto> ?it)" "\<forall>b. kids s' b = kids s b"
    using next_step [OF ok i par p] by auto
  have "iterate (Suc (length (kids s' (it_dir ?it)) - Suc k)) s' i = Some (drop (Suc k) (kids s' (it_dir ?it)))"
    by (rule Suc(1)) (use s' k Suc(2) in auto)
  then show ?case using s'(1,4) k by (simp add: Suc_diff_Suc Cons_nth_drop_Suc del: iterate.simps(2)) (simp add: Cons_nth_drop_Suc)
qed

text \<open>The iterator at the first child, alone in its directory: removing the child.\<close>

lemma drain_one:
  assumes ok: "store_ok held s" and i: "map_of (ns_iters s) i = Some it" and pos: "it_pos it = Some c" "it_next it"
    and kids: "kids s (it_dir it) = c # cs"
    and alone: "\<And>j jt. map_of (ns_iters s) j = Some jt \<Longrightarrow> it_dir jt = it_dir it \<Longrightarrow> j = i"
  shows "\<exists>s'. iter_remove s i = Some (Inr 1, s') \<and> store_ok held s' \<and>
    map_of (ns_iters s') = (map_of (ns_iters s))(i \<mapsto> it\<lparr>it_pos := None, it_next := False\<rparr>) \<and>
    kids s' (it_dir it) = cs"
proof -
  let ?d = "it_dir it" and ?s0 = "put_iter s i (it\<lparr>it_next := False\<rparr>)"
  have ok0: "store_ok held ?s0" by (rule put_iter_keep [OF ok i]) simp_all
  note sok = store_okD [OF ok]
  note dok = sok(4) [OF iter_in_use(1) [OF ok i]]
  have child: "(c, ?d) \<in> child_of s" by (rule dir_okD(3) [OF dok]) (simp add: kids)
  then have child0: "(c, ?d) \<in> child_of ?s0" by simp
  have at: "at_child ?s0 ?d c i" using i pos(1) by (simp add: at_child_def)
  have reg: "i \<in> set (map fst (ns_iters ?s0))" using map_of_SomeD [OF i] by force
  have "find (at_child ?s0 ?d c) (map fst (ns_iters ?s0)) = Some i"
  proof -
    obtain j where j: "find (at_child ?s0 ?d c) (map fst (ns_iters ?s0)) = Some j"
      using at reg by (metis find_None_iff not_None_eq)
    then obtain jt where jt: "map_of (ns_iters ?s0) j = Some jt" "it_dir jt = ?d" using find_registered by blast
    have "j = i"
    proof (cases "j = i")
      case False
      then show ?thesis using jt alone [of j jt] by (simp add: map_of_put_iter)
    qed
    then show ?thesis using j by simp
  qed
  moreover have "pred_in (kids ?s0 ?d) c = None" using kids distinct_kids [OF dok] by (cases cs) auto
  ultimately have st: "stepped ?s0 ?d c = moved ?s0 i (it\<lparr>it_next := False, it_pos := None\<rparr>) (Some c)"
    using i by (simp add: stepped_def)
  let ?s1 = "detach (stepped ?s0 ?d c) ?d c"
  have take: "iso_node_take ?s0 (Some c) = Some (Inr 1, ?s1)" by (rule take_eq [OF store_ok_linked [OF ok0 child0]])
  have ok1: "store_ok (c # held) ?s1" and ch1: "child_of ?s1 = child_of s - {(c, ?d)}"
    using node_take_ok [OF ok0 child0] take by auto
  have cd: "c \<noteq> ?d" using child_ofD [OF child] by simp
  have far: "(?d, c) \<notin> (child_of ?s1)\<^sup>*"
  proof
    assume "(?d, c) \<in> (child_of ?s1)\<^sup>*"
    moreover have "(child_of ?s1)\<^sup>* \<subseteq> (child_of s)\<^sup>*" by (rule rtrancl_mono) (auto simp: ch1)
    ultimately have "(c, c) \<in> (child_of s)\<^sup>+" using child by (meson rtrancl_into_trancl2 subsetD)
    then show False using sok(3) by (simp add: acyclic_def)
  qed
  obtain s2 where s2: "iso_node_unref ?s1 (Some c) = Some s2" "store_ok held s2" "shrunk {c} ?s1 s2"
    using unref_one [OF ok1] by auto
  have "node_at s2 ?d = node_at ?s1 ?d" using shrunkD(5) [OF s2(3), of ?d] far by simp
  then have "kids s2 ?d = cs"
    using cd kids like_nodeD(1) [OF stepped_ok(3) [OF ok0 child0, of ?d]] by (simp add: node_at_detach)
  moreover have "iter_take s i = Some (Inr 1, ?s1)" using take pos get_iter_Some [OF i] by (simp add: iter_take_def Let_def)
  then have "iter_remove s i = Some (Inr 1, s2)" using s2(1) pos(1) get_iter_Some [OF i] by (simp add: iter_remove_def)
  moreover have "map_of (ns_iters s2) = (map_of (ns_iters s))(i \<mapsto> it\<lparr>it_pos := None, it_next := False\<rparr>)"
    using i by (auto simp: shrunkD(1) [OF s2(3)] st moved_iter map_of_put_iter fun_eq_iff)
  ultimately show ?thesis using s2(2) by auto
qed

lemma drain_rest:
  assumes "store_ok held s" and "map_of (ns_iters s) i = Some it" and "it_pos it = None"
    and "\<And>j jt. map_of (ns_iters s) j = Some jt \<Longrightarrow> it_dir jt = it_dir it \<Longrightarrow> j = i"
    and "kids s (it_dir it) = cs"
  shows "\<exists>s'. drain (Suc (length cs)) s i = Some s' \<and> store_ok held s' \<and> kids s' (it_dir it) = []"
  using assms
proof (induction cs arbitrary: s it)
  case Nil
  have "next_child s it = None" using Nil(3,5) by (simp add: next_child_def)
  then have "iter_next s i = Some (Inr 0, None, put_iter s i (it\<lparr>it_next := False\<rparr>))"
    using Nil(3) by (simp add: iter_next_eq [OF Nil(1,2)] Let_def)
  then show ?case using Nil(5) put_iter_keep [OF Nil(1,2), of "it\<lparr>it_next := False\<rparr>"] by simp
next
  case (Cons c cs)
  note ok = Cons.prems(1) and i = Cons.prems(2)
  have p: "next_child s it = Some c" using Cons.prems by (simp add: next_child_def)
  let ?it = "it\<lparr>it_pos := Some c, it_next := True\<rparr>"
  have par: "parent_of s pos = Some (it_dir it)" if "it_pos it = Some pos" for pos using that Cons.prems(3) by simp
  obtain s1 where s1: "iter_next s i = Some (Inr 1, Some c, s1)" "store_ok held s1"
    "map_of (ns_iters s1) = (map_of (ns_iters s))(i \<mapsto> ?it)" "\<forall>b. kids s1 b = kids s b"
    using next_step [OF ok i par p] by auto
  have i1: "map_of (ns_iters s1) i = Some ?it" using s1(3) by simp
  have alone: "\<And>j jt. map_of (ns_iters s1) j = Some jt \<Longrightarrow> it_dir jt = it_dir ?it \<Longrightarrow> j = i"
  proof -
    fix j jt
    assume "map_of (ns_iters s1) j = Some jt" "it_dir jt = it_dir ?it"
    then show "j = i" using s1(3) Cons.prems(4) [of j jt] by (auto split: if_splits)
  qed
  have "\<exists>s2. iter_remove s1 i = Some (Inr 1, s2) \<and> store_ok held s2 \<and>
      map_of (ns_iters s2) = (map_of (ns_iters s1))(i \<mapsto> ?it\<lparr>it_pos := None, it_next := False\<rparr>) \<and>
      kids s2 (it_dir ?it) = cs"
  proof (rule drain_one [OF s1(2) i1])
    show "it_pos ?it = Some c" "it_next ?it" "kids s1 (it_dir ?it) = c # cs" using s1(4) Cons.prems(5) by simp_all
    show "j = i" if "map_of (ns_iters s1) j = Some jt" "it_dir jt = it_dir ?it" for j jt by (rule alone [OF that])
  qed
  then obtain s2 where s2: "iter_remove s1 i = Some (Inr 1, s2)" "store_ok held s2"
    "map_of (ns_iters s2) = (map_of (ns_iters s1))(i \<mapsto> ?it\<lparr>it_pos := None, it_next := False\<rparr>)"
    "kids s2 (it_dir it) = cs"
    by auto
  have "\<exists>s'. drain (Suc (length cs)) s2 i = Some s' \<and> store_ok held s' \<and>
      kids s' (it_dir (?it\<lparr>it_pos := None, it_next := False\<rparr>)) = []"
  proof (rule Cons.IH [OF s2(2)])
    fix j jt
    assume "map_of (ns_iters s2) j = Some jt" "it_dir jt = it_dir (?it\<lparr>it_pos := None, it_next := False\<rparr>)"
    then show "j = i" using s2(3) s1(3) Cons.prems(4) [of j jt] by (auto split: if_splits)
  qed (use s2 in auto)
  then show ?case using s1(1) s2(1) by simp
qed
section \<open>Properties\<close>

text \<open>Small stores for the examples: a root with two files, and a third file outside.\<close>

definition demo_node :: "iso_node_type \<Rightarrow> string \<Rightarrow> addr option \<Rightarrow> addr list \<Rightarrow> iso_node" where
  "demo_node ty nm p cs = (new_node ty nm 0)\<lparr>n_parent := p, n_children := cs, n_count := of_nat (length cs)\<rparr>"

definition demo :: node_store where
  "demo = \<lparr>ns_nodes = [0 \<mapsto> demo_node LIBISO_DIR [] (Some 0) [1, 2], 1 \<mapsto> demo_node LIBISO_FILE ''a'' (Some 0) [],
      2 \<mapsto> demo_node LIBISO_FILE ''b'' (Some 0) [], 3 \<mapsto> demo_node LIBISO_FILE ''b'' None []], ns_iters = []\<rparr>"

lemma demo_simps:
  "in_use demo a \<longleftrightarrow> a \<in> {0, 1, 2, 3}"
  "node_at demo 0 = demo_node LIBISO_DIR [] (Some 0) [1, 2]" "node_at demo (Suc 0) = demo_node LIBISO_FILE ''a'' (Some 0) []"
  "node_at demo 2 = demo_node LIBISO_FILE ''b'' (Some 0) []" "node_at demo 3 = demo_node LIBISO_FILE ''b'' None []"
  "ns_iters demo = []"
  by (auto simp: in_use_def node_at_def demo_def)

lemma demo_node_simps:
  "n_ref (demo_node ty nm p cs) = 1" "n_type (demo_node ty nm p cs) = ty" "n_name (demo_node ty nm p cs) = nm"
  "n_parent (demo_node ty nm p cs) = p" "n_children (demo_node ty nm p cs) = cs"
  "n_count (demo_node ty nm p cs) = of_nat (length cs)"
  by (simp_all add: demo_node_def new_node_def)

lemma demo_child_of: "child_of demo = {(1, 0), (2, 0)}"
  by (auto simp: child_of_def demo_simps demo_node_simps)

lemma demo_acyclic: "acyclic (child_of demo)"
proof -
  have "acyclic (less_than\<inverse>)" using wf_acyclic [OF wf_less_than] by (simp add: acyclic_converse)
  then show ?thesis by (rule acyclic_subset) (auto simp: demo_child_of)
qed

lemma demo_ok: "store_ok [3, 0] demo"
proof -
  have "{a. in_use demo a} = {0, 1, 2, 3}" by (auto simp: demo_simps)
  then have "finite {a. in_use demo a}" by simp
  moreover have "dir_ok demo a" if "in_use demo a" for a
    using that by (auto simp: dir_ok_def demo_simps demo_node_simps demo_child_of)
  moreover have "1 \<le> n_ref (node_at demo a)" if "in_use demo a" for a
    using that by (auto simp: demo_simps demo_node_simps)
  moreover have "int (owner demo a + iter_refs demo a + count_list [3, 0] a) \<le> (if in_use demo a then n_ref (node_at demo a) else 0)" for a
    by (auto simp: owner_def iter_refs_def demo_simps demo_node_simps demo_child_of)
  ultimately show ?thesis using demo_acyclic by (simp add: store_ok_def demo_simps)
qed

text \<open>C28: in every state that a program over the tree can reach, each further call that keeps to the
  documented rules (addresses of nodes in use, references that the caller holds, no root taken out, no
  directory put below itself) returns, touches no released node, and leaves a tree in order: each node of a
  directory has that directory as its parent and the other way round, names are unique and sorted, the counts
  of children agree, no directory is below itself, and each node has at least the references that its
  directory, the iterators and the application hold. The recursion of \<open>iso_node_unref\<close> ends.\<close>

theorem tree_ops_safe:
  assumes "tree_reach held s" and "allowed op held s"
  shows "\<exists>held' s'. run_op op held s = Some (held', s') \<and> store_ok held' s'"
  by (rule run_op_safe [OF tree_reach_ok [OF assms(1)] assms(2)])

lemma tree_ops_safe_witness:
  "\<exists>held' s'. run_op (New_root 0 7) [] empty_store = Some (held', s') \<and> store_ok held' s'"
  by (rule tree_ops_safe [OF tree_reach.start]) (simp add: empty_store_def in_use_def)



text \<open>C30: renaming a node in a directory: if another node has the name, it fails and nothing changes;
  otherwise look-ups of the old name fail, look-ups of the new name deliver the node, and all others are
  as before. The name is the given one, or what \<open>iso_truncate_rr_name\<close> makes of it.\<close>

theorem iso_node_set_name_map:
  assumes "store_ok held s" and "(a, dir) \<in> child_of s"
    and "(if truncate_length \<ge> 64 then truncated (nat truncate_length) in_name else Inr in_name) = Inr name"
    and "iso_node_is_valid_name (Some name) = Inr n"
  shows "if \<exists>x. iso_dir_get_node s (Some dir) (Some name) = Some (Inr 1, Some x)
    then iso_node_set_name_trunc s True a in_name truncate_length = Some (Inl ISO_NODE_NAME_NOT_UNIQUE, s)
    else \<exists>s'. iso_node_set_name_trunc s True a in_name truncate_length = Some (Inr 1, s') \<and> store_ok held s' \<and>
      (\<forall>nm. iso_dir_get_node s' (Some dir) (Some nm) =
         (if nm = name then Some (Inr 1, Some a) else if nm = name_of s a then Some (Inr 0, None)
          else iso_dir_get_node s (Some dir) (Some nm)))"
proof -
  have dir: "in_use s dir" using dir_okD(4) [OF store_okD(4) [OF assms(1)] assms(2)] child_ofD [OF assms(2)] by blast
  note old = get_node_map [OF assms(1) dir]
  have new: "\<forall>nm. iso_dir_get_node s' (Some dir) (Some nm) =
      (if nm = name then Some (Inr 1, Some a) else if nm = name_of s a then Some (Inr 0, None)
       else iso_dir_get_node s (Some dir) (Some nm))"
    if "store_ok held s'" "in_use s' dir" "dir_map s' dir = (dir_map s dir)(name_of s a := None, name \<mapsto> a)" for s'
    using old get_node_map [OF that(1,2)] that(3) by auto
  show ?thesis using set_name_child [OF assms] old [of name] new by (cases "dir_map s dir name") auto
qed

lemma iso_node_set_name_map_witness:
  "if \<exists>x. iso_dir_get_node demo (Some 0) (Some ''c'') = Some (Inr 1, Some x)
    then iso_node_set_name_trunc demo True 1 ''c'' 0 = Some (Inl ISO_NODE_NAME_NOT_UNIQUE, demo)
    else \<exists>s'. iso_node_set_name_trunc demo True 1 ''c'' 0 = Some (Inr 1, s') \<and> store_ok [3, 0] s' \<and>
      (\<forall>nm. iso_dir_get_node s' (Some 0) (Some nm) =
         (if nm = ''c'' then Some (Inr 1, Some 1) else if nm = name_of demo 1 then Some (Inr 0, None)
          else iso_dir_get_node demo (Some 0) (Some nm)))"
  by (rule iso_node_set_name_map [OF demo_ok, where n = 1])
    (simp_all add: demo_child_of iso_node_is_valid_name_def LIBISOFS_NODE_NAME_MAX_def)

text \<open>C31: a new iterator visits exactly the children of the directory, in the order of their names, and
  then ends.\<close>

theorem iterate_visits_children:
  assumes "store_ok held s" and "in_use s d" and "i \<notin> fst ` set (ns_iters s)"
  shows "\<exists>s'. iso_dir_get_children s (Some d) (Some i) = Some (Inr 1, s') \<and>
    iterate (Suc (length (kids s d))) s' i = Some (kids s d)"
proof -
  obtain s' where s': "iso_dir_get_children s (Some d) (Some i) = Some (Inr 1, s')" "store_ok held s'"
    "ns_iters s' = (i, \<lparr>it_dir = d, it_pos = None, it_next = False\<rparr>) # ns_iters s" "kids s' d = kids s d"
    using get_children_ok [OF assms] by auto
  have s'_eq: "map_of (ns_iters s') i = Some \<lparr>it_dir = d, it_pos = None, it_next = False\<rparr>" "kids s' d = kids s d"
    using s'(3,4) by simp_all
  from iterate_rest [OF s'(2) s'_eq(1), of 0] show ?thesis using s'(1) s'_eq(2) by simp
qed

lemma iterate_visits_children_witness:
  "\<exists>s'. iso_dir_get_children demo (Some 0) (Some 9) = Some (Inr 1, s') \<and>
    iterate (Suc (length (kids demo 0))) s' 9 = Some (kids demo 0)"
  by (rule iterate_visits_children [OF demo_ok]) (simp_all add: demo_simps)

text \<open>C32: removing each child while iterating, with the only iterator of the directory, leaves it empty:
  the removal moves the iterator so that no child is skipped.\<close>

theorem drain_empties:
  assumes "store_ok held s" and "in_use s d" and "i \<notin> fst ` set (ns_iters s)"
    and "list_all (\<lambda>(_, it). it_dir it \<noteq> d) (ns_iters s)"
  shows "\<exists>s1 s2. iso_dir_get_children s (Some d) (Some i) = Some (Inr 1, s1) \<and>
    drain (Suc (length (kids s d))) s1 i = Some s2 \<and> store_ok held s2 \<and> kids s2 d = []"
proof -
  obtain s' where s': "iso_dir_get_children s (Some d) (Some i) = Some (Inr 1, s')" "store_ok held s'"
    and eq: "ns_iters s' = (i, \<lparr>it_dir = d, it_pos = None, it_next = False\<rparr>) # ns_iters s" "kids s' d = kids s d"
    using get_children_ok [OF assms(1-3)] by auto
  let ?it = "\<lparr>it_dir = d, it_pos = None, it_next = False\<rparr>"
  have "\<exists>s2. drain (Suc (length (kids s d))) s' i = Some s2 \<and> store_ok held s2 \<and> kids s2 (it_dir ?it) = []"
  proof (rule drain_rest [OF s'(2)])
    fix j jt
    assume "map_of (ns_iters s') j = Some jt" "it_dir jt = it_dir ?it"
    then show "j = i" using assms(4) by (auto simp: eq list_all_iff split: if_splits dest: map_of_SomeD)
  qed (use eq in simp_all)
  then show ?thesis using s'(1) by auto
qed

lemma drain_empties_witness:
  "\<exists>s1 s2. iso_dir_get_children demo (Some 0) (Some 9) = Some (Inr 1, s1) \<and>
    drain (Suc (length (kids demo 0))) s1 9 = Some s2 \<and> store_ok [3, 0] s2 \<and> kids s2 0 = []"
  by (rule drain_empties [OF demo_ok]) (simp_all add: demo_simps)

end
