(* ===== verification/Susp.thy ===== *)
theory Susp
  imports Bytes
begin

text \<open>
  System Use fields (SUSP) of directory records: the containers of \<open>libisofs/rockridge.c\<close> that collect the
  fields of a node (\<open>susp_append\<close>, \<open>susp_append_ce\<close>, \<open>susp_add_CE\<close>, \<open>susp_update_CE_sizes\<close>) and write
  them (\<open>rrip_write_susp_fields\<close>, \<open>rrip_write_ce_fields\<close>), and the iterator of
  \<open>libisofs/rockridge_read.c\<close> that reads them back over the chain of Continuation Areas. Allocations
  succeed; the counters of bytes in the Continuation Area are natural numbers.
\<close>

section \<open>Collecting the fields\<close>

definition ISO_CE_ENTRY_SIZE :: nat where "ISO_CE_ENTRY_SIZE = 28"

record susp_info =
  susp_fields :: "byte list list"
  suf_len :: nat
  ce_block :: u32
  ce_len :: nat
  ce_susp_fields :: "byte list list"
  current_ce_start :: nat

text \<open>The byte 2 of a field is its length.\<close>

definition field_len :: "byte list \<Rightarrow> nat" where
  "field_len f = unat (f ! 2)"

definition is_CE :: "byte list \<Rightarrow> bool" where
  "is_CE f \<longleftrightarrow> f ! 0 = 0x43 \<and> f ! 1 = 0x45"

definition susp_make_CE :: "u32 \<Rightarrow> u32 \<Rightarrow> u32 \<Rightarrow> u32 \<Rightarrow> byte list" where
  "susp_make_CE eff_partition_offset block_offset byte_offset sz =
     iso_bb (iso_bb (iso_bb ([0x43, 0x45, 28, 1] @ replicate 24 0) 4 (block_offset - eff_partition_offset) 4) 12 byte_offset 4)
       20 sz 4"

definition susp_append :: "susp_info \<Rightarrow> byte list \<Rightarrow> susp_info" where
  "susp_append info data =
     info\<lparr>susp_fields := susp_fields info @ [data], suf_len := suf_len info + field_len data\<rparr>"

definition round_up :: "nat \<Rightarrow> nat" where
  "round_up n = (if n mod BLOCK_SIZE \<noteq> 0 then n + (BLOCK_SIZE - n mod BLOCK_SIZE) else n)"

definition ce_crossing :: "susp_info \<Rightarrow> byte list \<Rightarrow> bool" where
  "ce_crossing info data \<longleftrightarrow>
     data ! 0 \<noteq> 0 \<and> (ce_len info + field_len data + ISO_CE_ENTRY_SIZE - 1) div BLOCK_SIZE \<noteq> ce_len info div BLOCK_SIZE"

definition susp_append_ce :: "u32 \<Rightarrow> susp_info \<Rightarrow> byte list \<Rightarrow> susp_info" where
  "susp_append_ce eff_partition_offset info data =
     (let crossing = ce_crossing info data;
          pad = (crossing \<and> (ce_len info + ISO_CE_ENTRY_SIZE) mod BLOCK_SIZE \<noteq> 0);
          info1 = (if crossing
                   then info\<lparr>ce_susp_fields := ce_susp_fields info @
                               [susp_make_CE eff_partition_offset
                                  (ce_block info + of_nat (ce_len info div BLOCK_SIZE + 1)) 0 2048],
                             ce_len := ce_len info + ISO_CE_ENTRY_SIZE\<rparr>
                   else info);
          info2 = (if pad
                   then info1\<lparr>ce_susp_fields := ce_susp_fields info1 @ [[0]], ce_len := round_up (ce_len info1)\<rparr>
                   else info1)
      in info2\<lparr>ce_susp_fields := ce_susp_fields info2 @ [data],
               ce_len := (if data ! 0 = 0 then round_up (ce_len info2) else ce_len info2 + field_len data)\<rparr>)"

definition susp_add_CE :: "u32 \<Rightarrow> nat \<Rightarrow> susp_info \<Rightarrow> susp_info" where
  "susp_add_CE eff_partition_offset n info =
     susp_append info
       (susp_make_CE eff_partition_offset (ce_block info + of_nat (ce_len info div BLOCK_SIZE))
          (of_nat (ce_len info mod BLOCK_SIZE)) (of_nat n))"

section \<open>Sizes of the Continuation Areas\<close>

text \<open>\<open>curr_ce\<close> points to a CE field among the fields of the directory record or of the Continuation Area.\<close>

datatype ce_place = In_sua nat | In_ca nat

fun set_CE_size :: "susp_info \<Rightarrow> ce_place \<Rightarrow> nat \<Rightarrow> susp_info" where
  "set_CE_size info (In_sua i) n =
     info\<lparr>susp_fields := (susp_fields info)[i := iso_bb (susp_fields info ! i) 20 (of_nat n) 4]\<rparr>"
| "set_CE_size info (In_ca i) n =
     info\<lparr>ce_susp_fields := (ce_susp_fields info)[i := iso_bb (ce_susp_fields info ! i) 20 (of_nat n) 4]\<rparr>"

fun update_loop :: "nat list \<Rightarrow> susp_info \<Rightarrow> ce_place \<Rightarrow> nat \<Rightarrow> susp_info" where
  "update_loop [] info curr_ce curr_pos =
     (if curr_pos > 0 then set_CE_size info curr_ce (curr_pos mod BLOCK_SIZE) else info)"
| "update_loop (i # is) info curr_ce curr_pos =
     (let f = ce_susp_fields info ! i
      in if f ! 0 = 0 then update_loop is info curr_ce 0
         else let n = (curr_pos + field_len f) mod BLOCK_SIZE
              in if is_CE f
                 then update_loop is (set_CE_size info curr_ce (if n = 0 then BLOCK_SIZE else n)) (In_ca i) n
                 else update_loop is info curr_ce n)"

fun find_CE :: "byte list list \<Rightarrow> nat \<Rightarrow> nat option" where
  "find_CE [] i = None"
| "find_CE (f # fs) i = (if is_CE f then Some i else find_CE fs (i + 1))"

definition susp_update_CE_sizes :: "susp_info \<Rightarrow> iso_error + susp_info" where
  "susp_update_CE_sizes info =
     (if susp_fields info = [] \<or> length (ce_susp_fields info) - current_ce_start info = 0 then Inr info
      else case find_CE (susp_fields info) 0 of
             None \<Rightarrow> Inl ISO_ASSERT_FAILURE
           | Some i \<Rightarrow> Inr (update_loop [current_ce_start info..<length (ce_susp_fields info)] info (In_sua i) 0))"

section \<open>Writing\<close>

definition rrip_write_susp_fields :: "susp_info \<Rightarrow> byte list \<Rightarrow> nat \<Rightarrow> byte list \<times> susp_info" where
  "rrip_write_susp_fields info buf p =
     (if susp_fields info = [] then (buf, info)
      else case susp_update_CE_sizes info of
             Inl e \<Rightarrow> (buf, info)
           | Inr info1 \<Rightarrow>
               (fst (foldl (\<lambda>(b, q) f. (buf_put b q (take (field_len f) f), q + field_len f)) (buf, p) (susp_fields info1)),
                info1\<lparr>susp_fields := [], suf_len := 0\<rparr>))"

text \<open>The buffers that \<open>rrip_write_ce_fields\<close> hands to \<open>iso_write\<close>.\<close>

fun ce_chunks :: "byte list list \<Rightarrow> nat \<Rightarrow> byte list list" where
  "ce_chunks [] written = []"
| "ce_chunks (f # fs) written =
     (if f ! 0 = 0
      then let pad_size = BLOCK_SIZE - written mod BLOCK_SIZE
           in if pad_size = BLOCK_SIZE then ce_chunks fs written
              else replicate pad_size 0 # ce_chunks fs (written + pad_size)
      else take (field_len f) f # ce_chunks fs (written + field_len f))"

definition rrip_write_ce_fields :: "susp_info \<Rightarrow> byte list list" where
  "rrip_write_ce_fields info =
     (if ce_susp_fields info = [] then []
      else let i = BLOCK_SIZE - ce_len info mod BLOCK_SIZE
           in ce_chunks (ce_susp_fields info) 0 @ (if i < BLOCK_SIZE then [replicate i 0] else []))"

section \<open>Reading\<close>

text \<open>\<open>base\<close> is the memory from the address of that name on. \<open>Bad_access\<close> stands for an access outside
  of it.\<close>

record susp_iterator =
  base :: "byte list"
  pos :: nat
  area_size :: int
  fs_blocks :: u32
  next_ce_block :: u32
  next_ce_off :: u32
  next_ce_len :: u32

datatype sue_result = Sue "byte list" | No_more | Sue_error iso_error | Bad_access

definition susp_iter_new :: "byte list \<Rightarrow> u32 \<Rightarrow> nat \<Rightarrow> susp_iterator" where
  "susp_iter_new rec blocks len_skp =
     (let len_dr = unat (rec ! 0); len_fi = unat (rec ! 32); pad = (len_fi + 1) mod 2
      in \<lparr>base = drop (33 + len_fi + pad) rec, pos = len_skp, area_size = int len_dr - int len_fi - 33 - int pad,
          fs_blocks = blocks, next_ce_block = 0, next_ce_off = 0, next_ce_len = 0\<rparr>)"

definition ISO_SUSP_MAX_CE_BYTES :: u32 where "ISO_SUSP_MAX_CE_BYTES = 0x100000"

definition susp_sig :: "byte list \<Rightarrow> char \<Rightarrow> char \<Rightarrow> bool" where
  "susp_sig entry a b \<longleftrightarrow> entry ! 0 = char_byte a \<and> entry ! 1 = char_byte b"

text \<open>The blocks of the next Continuation Area, one after the other.\<close>

fun read_blocks :: "(u32 \<Rightarrow> iso_error + byte list) \<Rightarrow> u32 \<Rightarrow> nat \<Rightarrow> iso_error + byte list" where
  "read_blocks read_block b 0 = Inr []"
| "read_blocks read_block b (Suc n) =
     (case read_block b of
        Inl e \<Rightarrow> Inl e
      | Inr bs \<Rightarrow> (case read_blocks read_block (b + 1) n of Inl e \<Rightarrow> Inl e | Inr rest \<Rightarrow> Inr (bs @ rest)))"

definition load_area :: "(u32 \<Rightarrow> iso_error + byte list) \<Rightarrow> susp_iterator \<Rightarrow> iso_error + susp_iterator" where
  "load_area read_block it =
     (let skipped_blocks = next_ce_off it div 2048; skipped_bytes = skipped_blocks * 2048;
          nblocks = (next_ce_off it - skipped_bytes + next_ce_len it + 2048 - 1) div 2048
      in if nblocks = 0 \<or> next_ce_len it > ISO_SUSP_MAX_CE_BYTES then Inl ISO_SUSP_WRONG_CE_SIZE
         else if unat (next_ce_block it) + unat skipped_blocks + unat nblocks > unat (fs_blocks it)
         then Inl ISO_SUSP_WRONG_CE_SIZE
         else case read_blocks read_block (next_ce_block it + skipped_blocks) (unat nblocks) of
                Inl e \<Rightarrow> Inl e
              | Inr buffer \<Rightarrow>
                  Inr (it\<lparr>base := drop (unat (next_ce_off it - skipped_bytes)) buffer, pos := 0,
                          area_size := int (unat (next_ce_len it)), next_ce_len := 0\<rparr>))"

text \<open>The call with \<open>flag\<close> bit0 on the first entry of the root directory.\<close>

definition looks_like_susp :: "susp_iterator \<Rightarrow> bool option" where
  "looks_like_susp it =
     (if area_size it < 7 then Some False
      else if length (base it) < pos it + 3 then None
      else let entry = drop (pos it) (base it)
           in Some (susp_sig entry CHR ''S'' CHR ''P'' \<and> field_len entry \<ge> 7))"

partial_function (option) susp_iter_next ::
  "(u32 \<Rightarrow> iso_error + byte list) \<Rightarrow> susp_iterator \<Rightarrow> bool \<Rightarrow> (sue_result \<times> susp_iterator) option" where
  "susp_iter_next read_block it is_first =
     (if is_first \<and> looks_like_susp it = None then Some (Bad_access, it)
      else if is_first \<and> looks_like_susp it = Some False then Some (No_more, it)
      else if int (pos it) + 4 \<le> area_size it \<and> length (base it) < pos it + 3 then Some (Bad_access, it)
      else let at_end = (int (pos it) + 4 > area_size it \<or> susp_sig (drop (pos it) (base it)) CHR ''S'' CHR ''T'')
           in if at_end \<and> next_ce_len it = 0 then Some (No_more, it)
              else case (if at_end then load_area read_block it else Inr it) of
                     Inl e \<Rightarrow> Some (Sue_error e, it)
                   | Inr it1 \<Rightarrow>
                       let entry = drop (pos it1) (base it1)
                       in if length entry < 3 then Some (Bad_access, it1)
                          else if field_len entry = 0 then Some (Sue_error ISO_WRONG_RR, it1)
                          else let it2 = it1\<lparr>pos := pos it1 + field_len entry\<rparr>
                               in if is_CE entry
                                  then if next_ce_len it2 \<noteq> 0 then susp_iter_next read_block it2 False
                                       else if length entry < 28 then Some (Bad_access, it2)
                                       else susp_iter_next read_block
                                              (it2\<lparr>next_ce_block := fst (iso_read_bb entry 4 4),
                                                   next_ce_off := fst (iso_read_bb entry 12 4),
                                                   next_ce_len := fst (iso_read_bb entry 20 4)\<rparr>) False
                                  else if susp_sig entry CHR ''P'' CHR ''D'' then susp_iter_next read_block it2 False
                                  else Some (Sue (take (field_len entry) entry), it2))"

text \<open>The loop of a caller that collects all fields.\<close>

partial_function (option) susp_read_all ::
  "(u32 \<Rightarrow> iso_error + byte list) \<Rightarrow> susp_iterator \<Rightarrow> (byte list list \<times> sue_result) option" where
  "susp_read_all read_block it =
     (case susp_iter_next read_block it False of
        None \<Rightarrow> None
      | Some (Sue f, it1) \<Rightarrow> Option.bind (susp_read_all read_block it1) (\<lambda>(fs, r). Some (f # fs, r))
      | Some (r, it1) \<Rightarrow> Some ([], r))"

section \<open>What ends up in the Continuation Area\<close>

text \<open>Fields that the iterator hands out: no padding, no CE, no terminator.\<close>

definition plain :: "byte list \<Rightarrow> bool" where
  "plain f \<longleftrightarrow> 4 \<le> length f \<and> length f = field_len f \<and> f ! 0 \<noteq> 0 \<and> \<not> is_CE f \<and>
     \<not> susp_sig f CHR ''P'' CHR ''D'' \<and> \<not> susp_sig f CHR ''S'' CHR ''T''"

lemma plainD:
  assumes "plain f"
  shows "4 \<le> length f" "field_len f = length f" "f ! 0 \<noteq> 0" "\<not> is_CE f" "length f \<le> 255"
proof -
  show "4 \<le> length f" "field_len f = length f" "f ! 0 \<noteq> 0" "\<not> is_CE f" using assms by (auto simp: plain_def)
  have "unat (f ! 2) < 2 ^ LENGTH(8)" by (rule unsigned_less)
  then show "length f \<le> 255" using assms by (simp add: plain_def field_len_def)
qed

text \<open>\<open>crosses w n\<close>: a field of \<open>n\<close> bytes at the offset \<open>w\<close> leaves no room for a CE in its block.\<close>

definition crosses :: "nat \<Rightarrow> nat \<Rightarrow> bool" where
  "crosses w n \<longleftrightarrow> 2048 \<le> w mod 2048 + n + 27"

definition next_block :: "nat \<Rightarrow> nat" where
  "next_block w = 2048 * (w div 2048 + 1)"

lemma crosses_div: "(w + n + 28 - 1) div 2048 \<noteq> w div 2048 \<longleftrightarrow> crosses w n"
proof -
  have "w + n + 28 - 1 = (w mod 2048 + n + 27) + 2048 * (w div 2048)" using mult_div_mod_eq [of 2048 w] by linarith
  then have "(w + n + 28 - 1) div 2048 = (w mod 2048 + n + 27) div 2048 + w div 2048" by (simp only: div_mult_self2)
  then show ?thesis by (auto simp: crosses_def div_eq_0_iff not_le)
qed

lemma next_block_simps [simp]: "next_block w mod 2048 = 0" "next_block w div 2048 = Suc (w div 2048)"
  by (simp_all add: next_block_def)

lemma next_block_eq: "next_block w = w + (2048 - w mod 2048)"
proof -
  have "2048 * (q + 1) = w + (2048 - r)" if "2048 * q + r = w" "r < 2048" for q r :: nat
    using that by arith
  from this [of "w div 2048" "w mod 2048"] show ?thesis by (simp add: next_block_def)
qed

lemma round_up_room:
  assumes "w mod 2048 \<le> 2020"
  shows "round_up (w + 28) = next_block w"
    and "(w + 28) mod 2048 = 0 \<longleftrightarrow> w mod 2048 = 2020"
proof -
  have m: "(w + 28) mod 2048 = (if w mod 2048 = 2020 then 0 else w mod 2048 + 28)"
    using assms by (auto simp: mod_add_eq [of w 2048 28, symmetric] mod_add_left_eq [of w 2048 28, symmetric])
  then show "(w + 28) mod 2048 = 0 \<longleftrightarrow> w mod 2048 = 2020" by simp
  show "round_up (w + 28) = next_block w"
    using assms by (auto simp: round_up_def BLOCK_SIZE_def m next_block_eq)
qed

text \<open>The fields that \<open>susp_append_ce\<close> adds, with the sizes of the areas: \<open>area w fs\<close> is the size of the area
  that begins at the offset \<open>w\<close> and \<open>emit sizes\<close> the list of fields, the CE with the right sizes or with the
  provisional ones.\<close>

fun area :: "nat \<Rightarrow> byte list list \<Rightarrow> nat" where
  "area w [] = 0"
| "area w (f # fs) = (if crosses w (length f) then 28 else length f + area (w + length f) fs)"

fun emit :: "u32 \<Rightarrow> bool \<Rightarrow> nat \<Rightarrow> byte list list \<Rightarrow> byte list list" where
  "emit blk fin w [] = []"
| "emit blk fin w (f # fs) =
     (if crosses w (length f)
      then susp_make_CE 0 (blk + of_nat (w div 2048 + 1)) 0
             (of_nat (if fin then area (next_block w) (f # fs) else 2048)) #
           (if w mod 2048 = 2020 then [] else [[0]]) @ f # emit blk fin (next_block w + length f) fs
      else f # emit blk fin (w + length f) fs)"

fun end_of :: "nat \<Rightarrow> byte list list \<Rightarrow> nat" where
  "end_of w [] = w"
| "end_of w (f # fs) = end_of ((if crosses w (length f) then next_block w else w) + length f) fs"

lemma not_crosses_room: "\<not> crosses w n \<Longrightarrow> (w + n) mod 2048 = w mod 2048 + n \<and> (w + n) mod 2048 \<le> 2020"
proof -
  assume a: "\<not> crosses w n"
  have "(w mod 2048 + n) mod 2048 = w mod 2048 + n" using a by (intro mod_less) (simp add: crosses_def)
  then have "(w + n) mod 2048 = w mod 2048 + n" by (simp add: mod_add_left_eq)
  then show ?thesis using a by (simp add: crosses_def)
qed

lemma fresh_no_crossing: "length f \<le> 255 \<Longrightarrow> w mod 2048 = 0 \<Longrightarrow> \<not> crosses w (length f)"
  by (simp add: crosses_def)

lemma end_of_room: "list_all plain fs \<Longrightarrow> w mod 2048 \<le> 2020 \<Longrightarrow> end_of w fs mod 2048 \<le> 2020"
proof (induction fs arbitrary: w)
  case (Cons f fs)
  have f: "length f \<le> 255" using Cons.prems(1) plainD(5) by simp
  let ?w = "(if crosses w (length f) then next_block w else w)"
  have "\<not> crosses ?w (length f)" using fresh_no_crossing [OF f] by simp
  then have "(?w + length f) mod 2048 \<le> 2020" using not_crosses_room by blast
  then show ?case using Cons.IH [of "?w + length f"] Cons.prems by simp
qed simp

lemma append_ce_step:
  assumes "plain f" and "ce_len info mod 2048 \<le> 2020"
  shows "ce_susp_fields (susp_append_ce eff info f) = ce_susp_fields info @ emit (ce_block info - eff) False (ce_len info) [f]"
    and "ce_len (susp_append_ce eff info f) = end_of (ce_len info) [f]"
    and "susp_fields (susp_append_ce eff info f) = susp_fields info" "ce_block (susp_append_ce eff info f) = ce_block info"
    and "suf_len (susp_append_ce eff info f) = suf_len info"
    and "current_ce_start (susp_append_ce eff info f) = current_ce_start info"
proof -
  note p = plainD [OF assms(1)]
  have c: "ce_crossing info f = crosses (ce_len info) (length f)"
    using crosses_div [of "ce_len info" "length f"] p by (simp add: ce_crossing_def ISO_CE_ENTRY_SIZE_def BLOCK_SIZE_def)
  have e: "susp_make_CE eff (ce_block info + of_nat (Suc n)) 0 2048 =
      susp_make_CE 0 (ce_block info - eff + of_nat (Suc n)) 0 2048" for n
    by (simp add: susp_make_CE_def algebra_simps)
  note r = round_up_room [OF assms(2)]
  show "ce_susp_fields (susp_append_ce eff info f) = ce_susp_fields info @ emit (ce_block info - eff) False (ce_len info) [f]"
    using r e [of "ce_len info div 2048"]
    by (auto simp: susp_append_ce_def Let_def c ISO_CE_ENTRY_SIZE_def BLOCK_SIZE_def)
  have nb: "next_block (ce_len info) = ce_len info + 28" if "ce_len info mod 2048 = 2020"
    using that by (simp add: next_block_eq)
  show "ce_len (susp_append_ce eff info f) = end_of (ce_len info) [f]"
    using r p nb by (auto simp: susp_append_ce_def Let_def c ISO_CE_ENTRY_SIZE_def BLOCK_SIZE_def)
qed (simp_all add: susp_append_ce_def Let_def)

lemma emit_append: "emit blk fin w (fs @ gs) = emit blk fin w fs @ emit blk fin (end_of w fs) gs" if "\<not> fin"
  using that by (induction fs arbitrary: w) auto

lemma append_ce_all:
  assumes "list_all plain fs" and "ce_len info mod 2048 \<le> 2020"
  shows "ce_susp_fields (foldl (susp_append_ce eff) info fs) =
      ce_susp_fields info @ emit (ce_block info - eff) False (ce_len info) fs"
    and "ce_len (foldl (susp_append_ce eff) info fs) = end_of (ce_len info) fs"
    and "susp_fields (foldl (susp_append_ce eff) info fs) = susp_fields info"
    and "ce_block (foldl (susp_append_ce eff) info fs) = ce_block info"
    and "suf_len (foldl (susp_append_ce eff) info fs) = suf_len info"
    and "current_ce_start (foldl (susp_append_ce eff) info fs) = current_ce_start info"
proof -
  have "ce_susp_fields (foldl (susp_append_ce eff) info fs) =
      ce_susp_fields info @ emit (ce_block info - eff) False (ce_len info) fs \<and>
    ce_len (foldl (susp_append_ce eff) info fs) = end_of (ce_len info) fs \<and>
    susp_fields (foldl (susp_append_ce eff) info fs) = susp_fields info \<and>
    ce_block (foldl (susp_append_ce eff) info fs) = ce_block info \<and>
    suf_len (foldl (susp_append_ce eff) info fs) = suf_len info \<and>
    current_ce_start (foldl (susp_append_ce eff) info fs) = current_ce_start info"
    using assms
  proof (induction fs arbitrary: info)
    case (Cons f fs)
    have p: "plain f" "list_all plain fs" using Cons.prems(1) by auto
    note st = append_ce_step [OF p(1) Cons.prems(2), of eff]
    have "ce_len (susp_append_ce eff info f) mod 2048 \<le> 2020"
      using end_of_room [of "[f]" "ce_len info"] p(1) Cons.prems(2) st(2) by simp
    from Cons.IH [OF p(2) this] show ?case using st emit_append [of False _ _ "[f]" fs] by simp
  qed simp
  then show "ce_susp_fields (foldl (susp_append_ce eff) info fs) =
      ce_susp_fields info @ emit (ce_block info - eff) False (ce_len info) fs"
    "ce_len (foldl (susp_append_ce eff) info fs) = end_of (ce_len info) fs"
    "susp_fields (foldl (susp_append_ce eff) info fs) = susp_fields info"
    "ce_block (foldl (susp_append_ce eff) info fs) = ce_block info"
    "suf_len (foldl (susp_append_ce eff) info fs) = suf_len info"
    "current_ce_start (foldl (susp_append_ce eff) info fs) = current_ce_start info"
    by blast+
qed

section \<open>The sizes of the areas\<close>

lemma susp_make_CE_eq:
  "susp_make_CE eff b w n = [0x43, 0x45, 28, 1] @ bb_bytes (b - eff) 4 @ bb_bytes w 4 @ bb_bytes n 4"
proof -
  have z: "replicate 24 (0::byte) = replicate 8 0 @ replicate 8 0 @ replicate 8 0" by (simp add: replicate_add [symmetric])
  let ?h = "[0x43, 0x45, 28, 1] :: byte list"
  have 1: "iso_bb (?h @ replicate 24 0) 4 (b - eff) 4 = ?h @ bb_bytes (b - eff) 4 @ replicate 8 0 @ replicate 8 0"
    by (rule iso_bb_at [of _ _ "replicate 8 0"]) (simp_all add: z)
  have 2: "iso_bb (?h @ bb_bytes (b - eff) 4 @ replicate 8 0 @ replicate 8 0) 12 w 4 =
      (?h @ bb_bytes (b - eff) 4) @ bb_bytes w 4 @ replicate 8 0"
    by (rule iso_bb_at [of _ _ "replicate 8 0"]) simp_all
  have 3: "iso_bb ((?h @ bb_bytes (b - eff) 4) @ bb_bytes w 4 @ replicate 8 0) 20 n 4 =
      (?h @ bb_bytes (b - eff) 4 @ bb_bytes w 4) @ bb_bytes n 4 @ []"
    by (rule iso_bb_at [of _ _ "replicate 8 0"]) simp_all
  show ?thesis unfolding susp_make_CE_def 1 2 3 by simp
qed

lemma CE_simps [simp]:
  "length (susp_make_CE eff b w n) = 28" "field_len (susp_make_CE eff b w n) = 28" "is_CE (susp_make_CE eff b w n)"
  "susp_make_CE eff b w n ! 0 \<noteq> 0"
  by (simp_all add: susp_make_CE_eq field_len_def is_CE_def)

lemma CE_set [simp]: "iso_bb (susp_make_CE eff b w n) 20 m 4 = susp_make_CE eff b w m"
proof -
  let ?h = "[0x43, 0x45, 28, 1] :: byte list"
  have "iso_bb (?h @ bb_bytes (b - eff) 4 @ bb_bytes w 4 @ bb_bytes n 4) 20 m 4 =
      (?h @ bb_bytes (b - eff) 4 @ bb_bytes w 4) @ bb_bytes m 4 @ []"
    by (rule iso_bb_at [of _ _ "bb_bytes n 4"]) simp_all
  then show ?thesis by (simp add: susp_make_CE_eq)
qed

lemma CE_read:
  "iso_read_bb (susp_make_CE eff b w n @ ys) 4 4 = (b - eff, False)"
  "iso_read_bb (susp_make_CE eff b w n @ ys) 12 4 = (w, False)"
  "iso_read_bb (susp_make_CE eff b w n @ ys) 20 4 = (n, False)"
proof -
  let ?h = "[0x43, 0x45, 28, 1] :: byte list"
  show "iso_read_bb (susp_make_CE eff b w n @ ys) 4 4 = (b - eff, False)"
    by (rule iso_read_bb_at [of _ ?h _ "bb_bytes w 4 @ bb_bytes n 4 @ ys"]) (simp_all add: susp_make_CE_eq)
  show "iso_read_bb (susp_make_CE eff b w n @ ys) 12 4 = (w, False)"
    by (rule iso_read_bb_at [of _ "?h @ bb_bytes (b - eff) 4" _ "bb_bytes n 4 @ ys"]) (simp_all add: susp_make_CE_eq)
  show "iso_read_bb (susp_make_CE eff b w n @ ys) 20 4 = (n, False)"
    by (rule iso_read_bb_at [of _ "?h @ bb_bytes (b - eff) 4 @ bb_bytes w 4" _ ys]) (simp_all add: susp_make_CE_eq)
qed

text \<open>The first area ends exactly at the end of its block, with its CE but without padding.\<close>

fun exact_end :: "nat \<Rightarrow> byte list list \<Rightarrow> bool" where
  "exact_end w [] = False"
| "exact_end w (f # fs) = (if crosses w (length f) then w mod 2048 = 2020 else exact_end (w + length f) fs)"

lemma area_room: "list_all plain fs \<Longrightarrow> w mod 2048 \<le> 2020 \<Longrightarrow> w mod 2048 + area w fs \<le> 2048"
proof (induction fs arbitrary: w)
  case (Cons f fs)
  show ?case
  proof (cases "crosses w (length f)")
    case False
    from not_crosses_room [OF this] have r: "(w + length f) mod 2048 = w mod 2048 + length f" "(w + length f) mod 2048 \<le> 2020"
      by auto
    from Cons.IH [OF _ r(2)] show ?thesis using Cons.prems(1) False r(1) by simp
  qed (use Cons.prems in simp)
qed simp

lemma area_pos: "list_all plain fs \<Longrightarrow> fs \<noteq> [] \<Longrightarrow> 0 < area w fs"
  using plainD(1) by (cases fs) fastforce+

text \<open>Where \<open>curr_ce\<close> may point to: a CE in front of the fields that the loop still treats.\<close>

fun set_place :: "byte list list \<Rightarrow> byte list list \<Rightarrow> ce_place \<Rightarrow> nat \<Rightarrow> byte list list \<times> byte list list" where
  "set_place ss cs (In_sua i) n = (ss[i := iso_bb (ss ! i) 20 (of_nat n) 4], cs)"
| "set_place ss cs (In_ca i) n = (ss, cs[i := iso_bb (cs ! i) 20 (of_nat n) 4])"

fun place_ok :: "nat \<Rightarrow> ce_place \<Rightarrow> bool" where
  "place_ok n (In_sua i) = True"
| "place_ok n (In_ca i) = (i < n)"

lemma set_CE_size_place:
  "set_CE_size info pl n =
     info\<lparr>susp_fields := fst (set_place (susp_fields info) (ce_susp_fields info) pl n),
          ce_susp_fields := snd (set_place (susp_fields info) (ce_susp_fields info) pl n)\<rparr>"
  by (cases pl) auto

lemma set_place_append:
  "place_ok (length cs) pl \<Longrightarrow> set_place ss (cs @ ds) pl n = (fst (set_place ss cs pl n), snd (set_place ss cs pl n) @ ds)"
  "length (snd (set_place ss cs pl n)) = length cs"
  by (cases pl; simp add: list_update_append nth_append)+

lemma update_loop_emit:
  assumes "list_all plain fs" and "w mod 2048 \<le> 2020" and "cp \<le> w mod 2048"
    and "cp = w mod 2048 \<or> \<not> exact_end w fs" and "place_ok (length P) pl" and "0 < cp + area w fs"
    and "ce_susp_fields info = P @ emit blk False w fs"
  shows "update_loop [length P..<length (ce_susp_fields info)] info pl cp =
    info\<lparr>susp_fields := fst (set_place (susp_fields info) P pl (cp + area w fs)),
         ce_susp_fields := snd (set_place (susp_fields info) P pl (cp + area w fs)) @ emit blk True w fs\<rparr>"
  using assms
proof (induction fs arbitrary: w cp P pl info)
  case Nil
  then have "cp mod 2048 = cp" by simp
  then show ?case using Nil by (cases pl) (simp_all add: BLOCK_SIZE_def)
next
  case (Cons f fs)
  have f: "plain f" "list_all plain fs" using Cons.prems(1) by auto
  note p = plainD [OF f(1)]
  show ?case
  proof (cases "crosses w (length f)")
    case False
    have room: "(w + length f) mod 2048 = w mod 2048 + length f" "(w + length f) mod 2048 \<le> 2020"
      using not_crosses_room [OF False] by auto
    have em: "ce_susp_fields info = (P @ [f]) @ emit blk False (w + length f) fs" using Cons.prems(7) False by simp
    have idx: "[length P..<length (ce_susp_fields info)] = length P # [length (P @ [f])..<length (ce_susp_fields info)]"
      by (subst upt_conv_Cons) (simp_all add: em)
    have at: "ce_susp_fields info ! length P = f" by (simp add: em nth_append)
    have cp: "(cp + field_len f) mod BLOCK_SIZE = cp + length f"
      using room Cons.prems(3) p(2) by (simp add: BLOCK_SIZE_def)
    have ok: "place_ok (length (P @ [f])) pl" using Cons.prems(5) by (cases pl) auto
    have ih: "update_loop [length (P @ [f])..<length (ce_susp_fields info)] info pl (cp + length f) =
      info\<lparr>susp_fields := fst (set_place (susp_fields info) (P @ [f]) pl (cp + length f + area (w + length f) fs)),
         ce_susp_fields := snd (set_place (susp_fields info) (P @ [f]) pl (cp + length f + area (w + length f) fs)) @
           emit blk True (w + length f) fs\<rparr>"
    proof (rule Cons.IH [OF f(2) room(2) _ _ ok _ em])
      show "cp + length f \<le> (w + length f) mod 2048" using room(1) Cons.prems(3) by simp
      show "cp + length f = (w + length f) mod 2048 \<or> \<not> exact_end (w + length f) fs"
        using Cons.prems(4) False room(1) by auto
      show "0 < cp + length f + area (w + length f) fs" using p(1) by linarith
    qed
    have "update_loop [length P..<length (ce_susp_fields info)] info pl cp =
        update_loop [length (P @ [f])..<length (ce_susp_fields info)] info pl (cp + length f)"
      unfolding idx update_loop.simps Let_def at cp using p(3,4) by (simp del: update_loop.simps)
    then show ?thesis unfolding ih using False set_place_append(1) [OF Cons.prems(5), of "susp_fields info" "[f]"]
      by (simp add: add.assoc)
  next
    case True
    let ?w = "next_block w"
    let ?CE = "susp_make_CE 0 (blk + of_nat (w div 2048 + 1)) 0 2048"
    let ?CE' = "susp_make_CE 0 (blk + of_nat (w div 2048 + 1)) 0 (of_nat (area ?w (f # fs)))"
    define pad where "pad = (if w mod 2048 = 2020 then [] else [[0 :: byte]])"
    have em: "ce_susp_fields info = P @ ?CE # pad @ f # emit blk False (?w + length f) fs"
      using Cons.prems(7) True by (simp add: pad_def)
    have nc: "\<not> crosses ?w (length f)" by (rule fresh_no_crossing [OF p(5)]) simp
    have room: "(?w + length f) mod 2048 = length f" "(?w + length f) mod 2048 \<le> 2020"
      using not_crosses_room [OF nc] by auto
    let ?n = "(cp + 28) mod 2048"
    have n: "?n = (if cp = 2020 then 0 else cp + 28)" using Cons.prems(2,3) by auto
    have sz: "(if ?n = 0 then 2048 else ?n) = cp + 28" using n by auto
    let ?i1 = "set_CE_size info pl (cp + 28)"
    define ss where "ss = fst (set_place (susp_fields info) P pl (cp + 28))"
    define cs where "cs = snd (set_place (susp_fields info) P pl (cp + 28))"
    have i1: "susp_fields ?i1 = ss" "ce_susp_fields ?i1 = cs @ ?CE # pad @ f # emit blk False (?w + length f) fs"
      using set_place_append(1) [OF Cons.prems(5), of "susp_fields info" "?CE # pad @ f # emit blk False (?w + length f) fs" "cp + 28"]
      by (simp_all add: set_CE_size_place em ss_def cs_def)
    have lcs: "length cs = length P" by (simp add: cs_def set_place_append(2))
    have len: "length (ce_susp_fields ?i1) = length (ce_susp_fields info)" by (simp only: i1(2)) (simp add: em lcs)
    define Q where "Q = cs @ ?CE # pad @ [f]"
    have ce1: "ce_susp_fields ?i1 = Q @ emit blk False (?w + length f) fs" by (simp add: i1(2) Q_def)
    have ih: "update_loop [length Q..<length (ce_susp_fields ?i1)] ?i1 (In_ca (length P)) (length f) =
      ?i1\<lparr>susp_fields := fst (set_place (susp_fields ?i1) Q (In_ca (length P)) (length f + area (?w + length f) fs)),
         ce_susp_fields := snd (set_place (susp_fields ?i1) Q (In_ca (length P)) (length f + area (?w + length f) fs)) @
           emit blk True (?w + length f) fs\<rparr>"
      by (rule Cons.IH [OF f(2) room(2) _ _ _ _ ce1]) (use room(1) p(1) lcs in \<open>auto simp: Q_def\<close>)
    have at0: "ce_susp_fields info ! length P = ?CE" by (simp add: em nth_append)
    have "update_loop [length P..<length (ce_susp_fields info)] info pl cp =
        update_loop [length P + 1..<length (ce_susp_fields info)] ?i1 (In_ca (length P)) ?n"
    proof -
      have idx: "[length P..<length (ce_susp_fields info)] = length P # [length P + 1..<length (ce_susp_fields info)]"
        by (subst upt_conv_Cons) (simp_all add: em)
      show ?thesis unfolding idx update_loop.simps Let_def at0
        by (simp only: CE_simps simp_thms if_True if_False BLOCK_SIZE_def sz)
    qed
    also have "\<dots> = update_loop [length P + 1 + length pad..<length (ce_susp_fields ?i1)] ?i1 (In_ca (length P)) 0"
    proof (cases "w mod 2048 = 2020")
      case True
      then have "cp = w mod 2048" using Cons.prems(4) \<open>crosses w (length f)\<close> by auto
      then show ?thesis using True n len by (simp add: pad_def)
    next
      case False
      have idx: "[length P + 1..<length (ce_susp_fields info)] = (length P + 1) # [length P + 2..<length (ce_susp_fields info)]"
        by (subst upt_conv_Cons) (simp_all add: em pad_def False)
      have "ce_susp_fields ?i1 ! (length P + 1) = [0]"
        using False by (simp add: i1(2) nth_append lcs pad_def)
      then show ?thesis unfolding idx update_loop.simps Let_def using False len by (simp add: pad_def del: update_loop.simps)
    qed
    also have "\<dots> = update_loop [length Q..<length (ce_susp_fields ?i1)] ?i1 (In_ca (length P)) (length f)"
    proof -
      have idx: "[length P + 1 + length pad..<length (ce_susp_fields ?i1)] =
          (length P + 1 + length pad) # [length Q..<length (ce_susp_fields ?i1)]"
        by (subst upt_conv_Cons) (simp_all add: i1(2) Q_def lcs)
      have at: "ce_susp_fields ?i1 ! (length P + 1 + length pad) = f"
        by (simp add: i1(2) nth_append lcs)
      have "(0 + field_len f) mod BLOCK_SIZE = length f" using p(2,5) by (simp add: BLOCK_SIZE_def)
      then show ?thesis unfolding idx update_loop.simps Let_def at using p(3,4) by (simp del: update_loop.simps)
    qed
    finally have eq: "update_loop [length P..<length (ce_susp_fields info)] info pl cp =
      update_loop [length Q..<length (ce_susp_fields ?i1)] ?i1 (In_ca (length P)) (length f)" .
    have ar: "length f + area (?w + length f) fs = area ?w (f # fs)" using nc by simp
    have "snd (set_place ss Q (In_ca (length P)) (area ?w (f # fs))) = cs @ ?CE' # pad @ [f]"
      by (simp add: Q_def list_update_append nth_append lcs del: area.simps)
    then show ?thesis unfolding eq ih ar i1(1)
      using True by (simp add: set_CE_size_place ss_def cs_def pad_def del: area.simps(2)) (simp add: ss_def cs_def)
  qed
qed

section \<open>The bytes of the Continuation Area\<close>

fun flow :: "u32 \<Rightarrow> nat \<Rightarrow> byte list list \<Rightarrow> byte list" where
  "flow blk w [] = []"
| "flow blk w (f # fs) =
     (if crosses w (length f)
      then susp_make_CE 0 (blk + of_nat (w div 2048 + 1)) 0 (of_nat (area (next_block w) (f # fs))) @
           replicate (next_block w - (w + 28)) 0 @ f @ flow blk (next_block w + length f) fs
      else f @ flow blk (w + length f) fs)"

definition ca_field :: "byte list \<Rightarrow> bool" where
  "ca_field f \<longleftrightarrow> f ! 0 = 0 \<or> field_len f = length f"

lemma ce_chunks_append:
  "list_all ca_field fs \<Longrightarrow> ce_chunks (fs @ gs) w = ce_chunks fs w @ ce_chunks gs (w + length (concat (ce_chunks fs w)))"
proof (induction fs arbitrary: w)
  case (Cons f fs)
  show ?case
  proof (cases "f ! 0 = 0")
    case True
    define p where "p = BLOCK_SIZE - w mod BLOCK_SIZE"
    show ?thesis using True Cons.IH [of "w + p"] Cons.IH [of w] Cons.prems
      by (simp add: Let_def p_def [symmetric] add.assoc)
  next
    case False
    then show ?thesis using Cons by (simp add: ca_field_def add.assoc)
  qed
qed simp

lemma next_block_room: "w mod 2048 \<le> 2020 \<Longrightarrow> w + 28 \<le> next_block w"
  by (simp add: next_block_eq)

lemma chunks_emit:
  "list_all plain fs \<Longrightarrow> w mod 2048 \<le> 2020 \<Longrightarrow>
     concat (ce_chunks (emit blk True w fs) w) = flow blk w fs \<and> w + length (flow blk w fs) = end_of w fs"
proof (induction fs arbitrary: w)
  case (Cons f fs)
  have f: "plain f" "list_all plain fs" using Cons.prems(1) by auto
  note p = plainD [OF f(1)]
  show ?case
  proof (cases "crosses w (length f)")
    case False
    with not_crosses_room have r: "(w + length f) mod 2048 \<le> 2020" by blast
    show ?thesis using Cons.IH [OF f(2) r] False p by (simp add: add.assoc)
  next
    case True
    have nc: "\<not> crosses (next_block w) (length f)" by (rule fresh_no_crossing [OF p(5)]) simp
    with not_crosses_room have r: "(next_block w + length f) mod 2048 \<le> 2020" by blast
    note nb = next_block_room [OF Cons.prems(2)]
    note rr = round_up_room [OF Cons.prems(2)]
    show ?thesis
    proof (cases "w mod 2048 = 2020")
      case full: True
      then have "next_block w = w + 28" by (simp add: next_block_eq)
      then show ?thesis using Cons.IH [OF f(2) r] True full p by (simp add: add.assoc)
    next
      case False
      define d where "d = BLOCK_SIZE - (w + 28) mod BLOCK_SIZE"
      have m: "(w + 28) mod BLOCK_SIZE \<noteq> 0" using rr(2) False by (simp add: BLOCK_SIZE_def)
      then have "d \<noteq> BLOCK_SIZE" by (simp add: d_def BLOCK_SIZE_def)
      moreover have "next_block w = w + 28 + d" using rr(1) m by (simp add: round_up_def d_def)
      ultimately show ?thesis using Cons.IH [OF f(2) r] True False p
        by (simp add: Let_def d_def [symmetric] add.assoc)
    qed
  qed
qed simp

lemma emit_ca_field: "list_all plain fs \<Longrightarrow> list_all ca_field (emit blk fin w fs)"
  by (induction fs arbitrary: w) (auto simp: ca_field_def dest: plainD(2))

section \<open>Steps of the iterator\<close>

lemma next_end: "int (pos it) + 4 > area_size it \<Longrightarrow> next_ce_len it = 0 \<Longrightarrow>
    susp_iter_next rb it False = Some (No_more, it)"
  by (subst susp_iter_next.simps) simp

lemma sig_append: "2 \<le> length f \<Longrightarrow> susp_sig (f @ rest) a b = susp_sig f a b" "2 \<le> length f \<Longrightarrow> is_CE (f @ rest) = is_CE f"
  by (auto simp: susp_sig_def is_CE_def nth_append)

lemma len_append: "3 \<le> length f \<Longrightarrow> field_len (f @ rest) = field_len f"
  by (simp add: field_len_def nth_append)

lemma drop_length: "drop n xs = ys \<Longrightarrow> ys \<noteq> [] \<Longrightarrow> length xs = n + length ys"
  by (metis drop_eq_Nil2 length_drop le_add_diff_inverse linorder_linear)

lemma next_plain:
  assumes "plain f" and "drop (pos it) (base it) = f @ rest" and "int (pos it) + int (length f) \<le> area_size it"
  shows "susp_iter_next rb it False = Some (Sue f, it\<lparr>pos := pos it + length f\<rparr>)"
proof -
  note p = plainD [OF assms(1)]
  have "length (base it) = pos it + length (f @ rest)" by (rule drop_length [OF assms(2)]) (use p in auto)
  moreover have "f \<noteq> []" using p(1) by auto
  moreover have "\<not> susp_sig f CHR ''S'' CHR ''T''" "\<not> susp_sig f CHR ''P'' CHR ''D''" using assms(1) by (auto simp: plain_def)
  ultimately show ?thesis using assms(2,3) p
    by (subst susp_iter_next.simps) (simp add: sig_append len_append Let_def)
qed

lemma next_CE:
  assumes "drop (pos it) (base it) = susp_make_CE 0 b o' n @ rest" and "int (pos it) + 28 \<le> area_size it" and "next_ce_len it = 0"
  shows "susp_iter_next rb it False =
    susp_iter_next rb (it\<lparr>pos := pos it + 28, next_ce_block := b, next_ce_off := o', next_ce_len := n\<rparr>) False"
proof -
  have "length (base it) = pos it + length (susp_make_CE 0 b o' n @ rest)"
    by (rule drop_length [OF assms(1)]) (simp add: susp_make_CE_eq)
  moreover have "\<not> susp_sig (susp_make_CE 0 b o' n) CHR ''S'' CHR ''T''"
    by (simp add: susp_sig_def susp_make_CE_eq char_byte_def)
  ultimately show ?thesis using assms
    by (subst susp_iter_next.simps) (simp add: sig_append len_append Let_def CE_read)
qed

lemma next_load:
  assumes "int (pos it) + 4 > area_size it" and "next_ce_len it \<noteq> 0" and "load_area rb it = Inr it1"
    and "int (pos it1) + 4 \<le> area_size it1" "pos it1 + 3 \<le> length (base it1)"
    and "\<not> susp_sig (drop (pos it1) (base it1)) CHR ''S'' CHR ''T''"
  shows "susp_iter_next rb it False = susp_iter_next rb it1 False"
  using assms by (subst (1 2) susp_iter_next.simps) simp

lemma load_ok:
  assumes off: "next_ce_off it = of_nat o'" "o' < 2048" and n: "next_ce_len it = of_nat n" "0 < n" "o' + n \<le> 2048"
    and blk: "rb (next_ce_block it) = Inr bs" "unat (next_ce_block it) + 1 \<le> unat (fs_blocks it)"
  shows "load_area rb it =
    Inr (it\<lparr>base := drop o' bs, pos := 0, area_size := int n, next_ce_len := 0\<rparr>)"
proof -
  have uo: "unat (of_nat o' :: u32) = o'" using off(2) by (simp add: unsigned_of_nat take_bit_nat_eq_self)
  have un: "unat (of_nat n :: u32) = n" using n by (simp add: unsigned_of_nat take_bit_nat_eq_self)
  have sk: "(of_nat o' :: u32) div 2048 = 0"
    by (rule unsigned_word_eqI [where 'a = nat]) (simp add: unat_div uo off(2))
  have "unat (of_nat o' + of_nat n + 2048 - 1 :: u32) = o' + n + 2047"
  proof -
    have "(of_nat o' + of_nat n + 2048 - 1 :: u32) = of_nat (o' + n + 2047)" by simp
    then show ?thesis using n by (simp add: unsigned_of_nat take_bit_nat_eq_self del: of_nat_add)
  qed
  then have "unat ((of_nat o' + of_nat n + 2048 - 1 :: u32) div 2048) = 1"
    using n by (simp add: unat_div)
  then have nb: "(of_nat o' + of_nat n + 2048 - 1 :: u32) div 2048 = 1" by (intro unsigned_word_eqI [where 'a = nat]) simp
  have le: "\<not> (of_nat n :: u32) > ISO_SUSP_MAX_CE_BYTES"
    using n by (simp add: ISO_SUSP_MAX_CE_BYTES_def word_less_nat_alt un)
  have nb': "(of_nat o' - 0 * 2048 + of_nat n + 2048 - 1 :: u32) div 2048 = 1"
    by (simp only: mult_zero_left diff_0_right nb)
  show ?thesis using blk le unfolding load_area_def Let_def off(1) n(1) sk nb' by (simp add: uo un)
qed

section \<open>Reading a Continuation Area\<close>

text \<open>The image holds the area \<open>W\<close> from the block \<open>blk\<close> on.\<close>

definition ca_image :: "(u32 \<Rightarrow> iso_error + byte list) \<Rightarrow> u32 \<Rightarrow> byte list \<Rightarrow> u32 \<Rightarrow> bool" where
  "ca_image rb blk W blocks \<longleftrightarrow>
     (\<forall>k. 2048 * k < length W \<longrightarrow> rb (blk + of_nat k) = Inr (take 2048 (drop (2048 * k) W)) \<and>
        unat (blk + of_nat k) + 1 \<le> unat blocks)"

lemma load_block:
  assumes img: "ca_image rb blk W (fs_blocks it)" and it: "next_ce_block it = blk + of_nat (w div 2048)"
    "next_ce_off it = of_nat (w mod 2048)" "next_ce_len it = of_nat n"
    and n: "0 < n" "w mod 2048 + n \<le> 2048" and W: "w < length W"
  shows "load_area rb it = Inr (it\<lparr>base := take (2048 - w mod 2048) (drop w W), pos := 0, area_size := int n, next_ce_len := 0\<rparr>)"
proof -
  have le: "2048 * (w div 2048) < length W" using W mult_div_mod_eq [of 2048 w] by linarith
  then have blk: "rb (next_ce_block it) = Inr (take 2048 (drop (2048 * (w div 2048)) W))"
    "unat (next_ce_block it) + 1 \<le> unat (fs_blocks it)"
    using img unfolding ca_image_def it(1) by blast+
  have "drop (w mod 2048) (take 2048 (drop (2048 * (w div 2048)) W)) = take (2048 - w mod 2048) (drop w W)"
    by (simp add: drop_take add.commute)
  moreover have "w mod 2048 < 2048" by simp
  ultimately show ?thesis using load_ok [of it "w mod 2048" n rb "take 2048 (drop (2048 * (w div 2048)) W)", OF it(2) _ it(3) n blk] by simp
qed

lemma read_all_Sue: "susp_iter_next rb it False = Some (Sue f, it1) \<Longrightarrow>
    susp_read_all rb it1 = Some (fs, r) \<Longrightarrow> susp_read_all rb it = Some (f # fs, r)"
  by (subst susp_read_all.simps) simp

lemma read_all_next: "susp_iter_next rb it False = susp_iter_next rb it1 False \<Longrightarrow> susp_read_all rb it = susp_read_all rb it1"
  by (subst (1 2) susp_read_all.simps) simp

lemma read_plain:
  assumes "plain f" and "drop (pos it) (base it) = f @ rest" and "int (pos it) + int (length f) \<le> area_size it"
    and "susp_read_all rb (it\<lparr>pos := pos it + length f\<rparr>) = Some (fs, r)"
  shows "susp_read_all rb it = Some (f # fs, r)"
  by (rule read_all_Sue [OF next_plain [OF assms(1-3)] assms(4)])

lemma take_prefix: "xs = ys @ zs \<Longrightarrow> length ys \<le> n \<Longrightarrow> take n xs = ys @ take (n - length ys) zs"
  by simp

lemma read_flow:
  assumes "list_all plain fs" and "w mod 2048 \<le> 2020" and "drop w W = flow blk w fs @ tail"
    and "ca_image rb blk W (fs_blocks it)"
    and "drop (pos it) (base it) = take (2048 - w mod 2048) (drop w W)"
    and "area_size it = int (pos it + area w fs)" and "next_ce_len it = 0"
  shows "susp_read_all rb it = Some (fs, No_more)"
  using assms
proof (induction fs arbitrary: w it)
  case Nil
  then have "susp_iter_next rb it False = Some (No_more, it)" by (intro next_end) simp_all
  then show ?case by (subst susp_read_all.simps) simp
next
  case (Cons f fs)
  have f: "plain f" "list_all plain fs" using Cons.prems(1) by auto
  note p = plainD [OF f(1)]
  text \<open>The field comes next.\<close>
  have here: "susp_read_all rb jt = Some (f # fs, No_more)"
    if nc: "\<not> crosses v (length f)" and D: "drop v W = (f @ flow blk (v + length f) fs) @ tail"
      and img: "ca_image rb blk W (fs_blocks jt)" and B: "drop (pos jt) (base jt) = take (2048 - v mod 2048) (drop v W)"
      and sz: "area_size jt = int (pos jt + (length f + area (v + length f) fs))" "next_ce_len jt = 0" for v jt
  proof -
    have room: "(v + length f) mod 2048 = v mod 2048 + length f" "(v + length f) mod 2048 \<le> 2020"
      using not_crosses_room [OF nc] by auto
    have B': "drop (pos jt) (base jt) = f @ take (2048 - v mod 2048 - length f) (flow blk (v + length f) fs @ tail)"
      unfolding B D using room by simp
    have D': "drop (v + length f) W = flow blk (v + length f) fs @ tail"
    proof -
      have "drop (v + length f) W = drop (length f) (drop v W)" by (simp add: add.commute)
      then show ?thesis by (simp add: D)
    qed
    have "drop (pos jt + length f) (base jt) = drop (length f) (drop (pos jt) (base jt))" by (simp add: add.commute)
    then have B2: "drop (pos jt + length f) (base jt) = take (2048 - (v + length f) mod 2048) (drop (v + length f) W)"
      unfolding B' D' room(1) by simp
    have "susp_read_all rb (jt\<lparr>pos := pos jt + length f\<rparr>) = Some (fs, No_more)"
      by (rule Cons.IH [OF f(2) room(2) D']) (use img B2 sz in simp_all)
    then show ?thesis by (intro read_plain [OF f(1) B']) (use sz in simp_all)
  qed
  show ?case
  proof (cases "crosses w (length f)")
    case False
    show ?thesis by (rule here [OF False]) (use Cons.prems False in simp_all)
  next
    case True
    let ?w = "next_block w" and ?n = "area (next_block w) (f # fs)"
    let ?CE = "susp_make_CE 0 (blk + of_nat (w div 2048 + 1)) 0 (of_nat ?n)"
    have nc: "\<not> crosses ?w (length f)" by (rule fresh_no_crossing [OF p(5)]) simp
    have D: "drop w W = ?CE @ replicate (?w - (w + 28)) 0 @ f @ flow blk (?w + length f) fs @ tail"
      using Cons.prems(3) True by simp
    have nb: "w + 28 \<le> ?w" by (rule next_block_room [OF Cons.prems(2)])
    have D': "drop ?w W = (f @ flow blk (?w + length f) fs) @ tail"
    proof -
      have "drop ?w W = drop (?w - w) (drop w W)" using nb by simp
      also have "?w - w = 28 + (?w - (w + 28))" using nb by simp
      also have "drop (28 + (?w - (w + 28))) (drop w W) = f @ flow blk (?w + length f) fs @ tail"
        unfolding D by simp
      finally show ?thesis by simp
    qed
    have B: "drop (pos it) (base it) = ?CE @ take (2048 - w mod 2048 - 28) (drop 28 (drop w W))"
      unfolding Cons.prems(5) D using Cons.prems(2) by simp
    have sz: "area_size it = int (pos it + 28)" using Cons.prems(6) True by simp
    let ?it1 = "it\<lparr>pos := pos it + 28, next_ce_block := blk + of_nat (w div 2048 + 1), next_ce_off := 0, next_ce_len := of_nat ?n\<rparr>"
    have 1: "susp_iter_next rb it False = susp_iter_next rb ?it1 False"
      by (rule next_CE [OF B]) (use sz Cons.prems(7) in simp_all)
    have n: "0 < ?n" "?w mod 2048 + ?n \<le> 2048"
      using area_pos [OF Cons.prems(1), of ?w] area_room [OF Cons.prems(1), of ?w] by simp_all
    have W: "?w < length W"
    proof -
      have "drop ?w W \<noteq> []" unfolding D' using p(1) by auto
      then show ?thesis by simp
    qed
    let ?it2 = "?it1\<lparr>base := take (2048 - ?w mod 2048) (drop ?w W), pos := 0, area_size := int ?n, next_ce_len := 0\<rparr>"
    have 2: "load_area rb ?it1 = Inr ?it2"
      by (rule load_block [OF _ _ _ _ n W]) (use Cons.prems(4) in simp_all)
    have B2: "take (2048 - ?w mod 2048) (drop ?w W) = f @ take (2048 - length f) (flow blk (?w + length f) fs @ tail)"
      unfolding D' using p(5) by simp
    have n0: "(of_nat ?n :: u32) \<noteq> 0"
      using n by (simp add: word_unat_eq_iff unsigned_of_nat take_bit_nat_eq_self)
    have an: "?n = length f + area (?w + length f) fs" using nc by simp
    have 3: "susp_iter_next rb ?it1 False = susp_iter_next rb ?it2 False"
    proof (rule next_load [OF _ _ 2])
      show "\<not> susp_sig (drop (pos ?it2) (base ?it2)) CHR ''S'' CHR ''T''"
        using f(1) p(1) unfolding plain_def by (simp only: B2) (simp add: B2 sig_append)
      show "int (pos ?it2) + 4 \<le> area_size ?it2" using p(1) unfolding an by simp
      have "3 \<le> length (take (2048 - ?w mod 2048) (drop ?w W))" unfolding B2 using p(1) by simp
      then show "pos ?it2 + 3 \<le> length (base ?it2)" by simp
    qed (use sz n0 in simp_all)
    have "susp_read_all rb ?it2 = Some (f # fs, No_more)"
      by (rule here [OF nc D']) (use Cons.prems(4) an in simp_all)
    then show ?thesis using read_all_next [OF 1] read_all_next [OF 3] by simp
  qed
qed

section \<open>The nodes of a directory\<close>

text \<open>What \<open>rrip_get_susp_fields\<close> does with the containers for one node: fields of the directory record, a CE
  with the predicted size if there are fields for the Continuation Area, more fields of the record, and the
  fields of the Continuation Area.\<close>

type_synonym susp_node = "byte list list \<times> nat \<times> byte list list \<times> byte list list"

definition collect_node :: "u32 \<Rightarrow> susp_info \<Rightarrow> susp_node \<Rightarrow> susp_info" where
  "collect_node eff info nd =
     (case nd of (sua1, predicted, sua2, ca) \<Rightarrow>
        let info0 = info\<lparr>current_ce_start := length (ce_susp_fields info)\<rparr>;
            info1 = foldl susp_append info0 sua1;
            info2 = (if ca = [] then info1 else susp_add_CE eff predicted info1);
            info3 = foldl susp_append info2 sua2
        in foldl (susp_append_ce eff) info3 ca)"

definition node_fields :: "susp_node \<Rightarrow> byte list list" where
  "node_fields nd = (case nd of (sua1, predicted, sua2, ca) \<Rightarrow> sua1 @ sua2 @ ca)"

text \<open>The System Use areas of the records of a directory, padded to an even size.\<close>

fun write_nodes :: "u32 \<Rightarrow> susp_info \<Rightarrow> susp_node list \<Rightarrow> byte list list \<times> susp_info" where
  "write_nodes eff info [] = ([], info)"
| "write_nodes eff info (nd # nds) =
     (let info1 = collect_node eff info nd;
          (buf, info2) = rrip_write_susp_fields info1 (replicate (suf_len info1 + suf_len info1 mod 2) 0) 0;
          (bufs, info3) = write_nodes eff info2 nds
      in (buf # bufs, info3))"

definition new_susp_info :: "u32 \<Rightarrow> susp_info" where
  "new_susp_info b =
     \<lparr>susp_fields = [], suf_len = 0, ce_block = b, ce_len = 0, ce_susp_fields = [], current_ce_start = 0\<rparr>"

definition area_iter :: "byte list \<Rightarrow> u32 \<Rightarrow> susp_iterator" where
  "area_iter buf blocks =
     \<lparr>base = buf, pos = 0, area_size = int (length buf), fs_blocks = blocks,
      next_ce_block = 0, next_ce_off = 0, next_ce_len = 0\<rparr>"

text \<open>The iterator over the System Use area of a directory record; \<open>behind\<close> is the memory behind the record.\<close>

definition record_iter :: "byte list \<Rightarrow> byte list \<Rightarrow> u32 \<Rightarrow> susp_iterator" where
  "record_iter buf behind blocks = (area_iter buf blocks)\<lparr>base := buf @ behind\<rparr>"

fun ends_ok :: "nat \<Rightarrow> susp_node list \<Rightarrow> bool" where
  "ends_ok w [] = True"
| "ends_ok w ((sua1, predicted, sua2, ca) # nds) =
     ((w mod 2048 = 0 \<or> \<not> exact_end w ca) \<and> ends_ok (end_of w ca) nds)"

lemma append_all:
  "susp_fields (foldl susp_append info fs) = susp_fields info @ fs"
  "suf_len (foldl susp_append info fs) = suf_len info + sum_list (map field_len fs)"
  "ce_block (foldl susp_append info fs) = ce_block info" "ce_len (foldl susp_append info fs) = ce_len info"
  "ce_susp_fields (foldl susp_append info fs) = ce_susp_fields info"
  "current_ce_start (foldl susp_append info fs) = current_ce_start info"
  by (induction fs arbitrary: info) (auto simp: susp_append_def)

lemma sum_field_len: "list_all (\<lambda>f. field_len f = length f) fs \<Longrightarrow> sum_list (map field_len fs) = length (concat fs)"
  by (induction fs) auto

lemma put_fields:
  "list_all (\<lambda>f. field_len f = length f) fs \<Longrightarrow> p + length (concat fs) \<le> length buf \<Longrightarrow>
     foldl (\<lambda>(b, q) f. (buf_put b q (take (field_len f) f), q + field_len f)) (buf, p) fs =
     (buf_put buf p (concat fs), p + length (concat fs))"
proof (induction fs arbitrary: buf p)
  case (Cons f fs)
  then show ?case using buf_put_twice [of p f "concat fs" buf] by (simp add: add.assoc)
qed simp

lemma find_CE_at: "list_all (\<lambda>f. \<not> is_CE f) fs \<Longrightarrow> is_CE c \<Longrightarrow> find_CE (fs @ c # gs) i = Some (i + length fs)"
  by (induction fs arbitrary: i) auto

lemma find_CE_none: "list_all (\<lambda>f. \<not> is_CE f) fs \<Longrightarrow> find_CE fs i = None"
  by (induction fs arbitrary: i) auto

definition CE_of :: "u32 \<Rightarrow> nat \<Rightarrow> byte list list \<Rightarrow> byte list list" where
  "CE_of blk w ca =
     (if ca = [] then [] else [susp_make_CE 0 (blk + of_nat (w div 2048)) (of_nat (w mod 2048)) (of_nat (area w ca))])"

lemma plain_lens: "list_all plain fs \<Longrightarrow> list_all (\<lambda>f. field_len f = length f) fs"
  "list_all plain fs \<Longrightarrow> list_all (\<lambda>f. \<not> is_CE f) fs"
  by (auto simp: list_all_iff dest: plainD)

lemma write_node:
  fixes info :: susp_info and eff :: u32 and n :: nat
  assumes inv: "susp_fields info = []" "suf_len info = 0" "ce_len info mod 2048 \<le> 2020"
    and pl: "list_all plain sua1" "list_all plain sua2" "list_all plain ca"
    and ends: "ce_len info mod 2048 = 0 \<or> \<not> exact_end (ce_len info) ca"
  defines "blk \<equiv> ce_block info - eff"
  defines "S \<equiv> concat (sua1 @ CE_of blk (ce_len info) ca @ sua2)"
  defines "i1 \<equiv> collect_node eff info (sua1, n, sua2, ca)"
  shows "suf_len i1 = length S"
    and "\<exists>i2. rrip_write_susp_fields i1 (replicate (suf_len i1 + suf_len i1 mod 2) 0) 0 =
        (S @ replicate (length S mod 2) 0, i2) \<and>
      susp_fields i2 = [] \<and> suf_len i2 = 0 \<and> ce_block i2 = ce_block info \<and> ce_len i2 = end_of (ce_len info) ca \<and>
      ce_susp_fields i2 = ce_susp_fields info @ emit blk True (ce_len info) ca"
proof -
  let ?w = "ce_len info" and ?m = "length (ce_susp_fields info)"
  define pro where "pro m = susp_make_CE 0 (blk + of_nat (?w div 2048)) (of_nat (?w mod 2048)) (of_nat m)" for m
  define mid where "mid m = (if ca = [] then [] else [pro m])" for m
  have ce: "susp_make_CE eff (ce_block info + of_nat (?w div 2048)) x y = susp_make_CE 0 (blk + of_nat (?w div 2048)) x y" for x y
    by (simp add: susp_make_CE_eq blk_def algebra_simps)
  note ap = append_ce_all [OF pl(3)]
  define i3 where "i3 = foldl susp_append (if ca = [] then foldl susp_append (info\<lparr>current_ce_start := ?m\<rparr>) sua1
    else susp_add_CE eff n (foldl susp_append (info\<lparr>current_ce_start := ?m\<rparr>) sua1)) sua2"
  have i3: "susp_fields i3 = sua1 @ mid n @ sua2" "ce_len i3 = ?w" "ce_block i3 = ce_block info"
    "ce_susp_fields i3 = ce_susp_fields info" "current_ce_start i3 = ?m"
    using ce inv(1)
    by (simp_all add: i3_def append_all susp_add_CE_def susp_append_def mid_def pro_def BLOCK_SIZE_def)
  have sl3: "suf_len i3 = length (concat (sua1 @ mid n @ sua2))"
    using inv(2) sum_field_len [OF plain_lens(1) [OF pl(1)]] sum_field_len [OF plain_lens(1) [OF pl(2)]]
    by (simp add: i3_def append_all susp_add_CE_def susp_append_def mid_def pro_def ce)
  have i1: "i1 = foldl (susp_append_ce eff) i3 ca" by (simp add: i1_def collect_node_def i3_def Let_def)
  have f1: "susp_fields i1 = sua1 @ mid n @ sua2" "ce_len i1 = end_of ?w ca" "ce_block i1 = ce_block info"
    "ce_susp_fields i1 = ce_susp_fields info @ emit blk False ?w ca" "current_ce_start i1 = ?m"
    "suf_len i1 = length (concat (sua1 @ mid n @ sua2))"
    using ap [of i3 eff] i3 sl3 inv(3) by (simp_all add: i1 blk_def)
  have lmid: "length (concat (mid m)) = length (concat (CE_of blk ?w ca))" for m by (simp add: mid_def pro_def CE_of_def)
  show len: "suf_len i1 = length S" using f1(6) lmid by (simp add: S_def)
  have put: "fst (foldl (\<lambda>(b, q) f. (buf_put b q (take (field_len f) f), q + field_len f))
      (replicate (suf_len i1 + suf_len i1 mod 2) 0, 0) (sua1 @ CE_of blk ?w ca @ sua2)) = S @ replicate (length S mod 2) 0"
  proof -
    have "list_all (\<lambda>f. field_len f = length f) (sua1 @ CE_of blk ?w ca @ sua2)"
      using plain_lens(1) [OF pl(1)] plain_lens(1) [OF pl(2)] by (simp add: CE_of_def)
    from put_fields [OF this, of 0 "replicate (suf_len i1 + suf_len i1 mod 2) 0"]
    show ?thesis unfolding S_def [symmetric] len by (simp add: buf_put_def)
  qed
  show "\<exists>i2. rrip_write_susp_fields i1 (replicate (suf_len i1 + suf_len i1 mod 2) 0) 0 =
        (S @ replicate (length S mod 2) 0, i2) \<and>
      susp_fields i2 = [] \<and> suf_len i2 = 0 \<and> ce_block i2 = ce_block info \<and> ce_len i2 = end_of ?w ca \<and>
      ce_susp_fields i2 = ce_susp_fields info @ emit blk True ?w ca"
  proof (cases "ca = []")
    case True
    then have "susp_fields i1 = sua1 @ CE_of blk ?w ca @ sua2" "susp_update_CE_sizes i1 = Inr i1"
      using f1 by (simp_all add: mid_def CE_of_def susp_update_CE_sizes_def)
    then show ?thesis using put f1 True len
      by (cases "susp_fields i1 = []") (auto simp: rrip_write_susp_fields_def S_def)
  next
    case False
    have find: "find_CE (susp_fields i1) 0 = Some (length sua1)"
      using find_CE_at [OF plain_lens(2) [OF pl(1)], of "pro n" sua2 0] False by (simp add: f1(1) mid_def pro_def)
    have emne: "emit blk False ?w ca \<noteq> []" using False by (cases ca) auto
    have a: "0 < area ?w ca" by (rule area_pos [OF pl(3) False])
    have exact: "0 = ?w mod 2048 \<or> \<not> exact_end ?w ca" using ends by auto
    have upd: "susp_update_CE_sizes i1 = Inr (i1\<lparr>susp_fields := sua1 @ CE_of blk ?w ca @ sua2,
        ce_susp_fields := ce_susp_fields info @ emit blk True ?w ca\<rparr>)"
    proof -
      have "update_loop [?m..<length (ce_susp_fields i1)] i1 (In_sua (length sua1)) 0 =
        i1\<lparr>susp_fields := fst (set_place (susp_fields i1) (ce_susp_fields info) (In_sua (length sua1)) (0 + area ?w ca)),
           ce_susp_fields := snd (set_place (susp_fields i1) (ce_susp_fields info) (In_sua (length sua1)) (0 + area ?w ca)) @
             emit blk True ?w ca\<rparr>"
        by (rule update_loop_emit [OF pl(3) inv(3) _ exact _ _ f1(4)]) (use a in simp_all)
      moreover have "fst (set_place (susp_fields i1) (ce_susp_fields info) (In_sua (length sua1)) (0 + area ?w ca)) =
          sua1 @ CE_of blk ?w ca @ sua2"
        using False by (simp add: f1(1) mid_def pro_def CE_of_def list_update_append nth_append)
      ultimately show ?thesis using find emne False
        by (simp add: susp_update_CE_sizes_def f1(1,4,5) mid_def)
    qed
    have "susp_fields i1 \<noteq> []" using False by (simp add: f1(1) mid_def)
    then have "rrip_write_susp_fields i1 (replicate (suf_len i1 + suf_len i1 mod 2) 0) 0 =
        (S @ replicate (length S mod 2) 0, i1\<lparr>susp_fields := [], suf_len := 0,
           ce_susp_fields := ce_susp_fields info @ emit blk True ?w ca\<rparr>)"
      using upd put by (simp add: rrip_write_susp_fields_def del: foldl_append)
    then show ?thesis using f1(2,3) by simp
  qed
qed

lemma read_prefix:
  "list_all plain fs \<Longrightarrow> drop (pos it) (base it) = concat fs @ rest \<Longrightarrow>
     int (pos it) + int (length (concat fs)) \<le> area_size it \<Longrightarrow>
     susp_read_all rb (it\<lparr>pos := pos it + length (concat fs)\<rparr>) = Some (gs, r) \<Longrightarrow>
     susp_read_all rb it = Some (fs @ gs, r)"
proof (induction fs arbitrary: it)
  case (Cons f fs)
  let ?it = "it\<lparr>pos := pos it + length f\<rparr>"
  have d: "drop (pos it) (base it) = f @ concat fs @ rest" using Cons.prems(2) by simp
  have "drop (pos it + length f) (base it) = drop (length f) (drop (pos it) (base it))" by (simp add: add.commute)
  then have "drop (pos ?it) (base ?it) = concat fs @ rest" by (simp add: d)
  moreover have "int (pos ?it) + int (length (concat fs)) \<le> area_size ?it" using Cons.prems(3) by simp
  moreover have "susp_read_all rb (?it\<lparr>pos := pos ?it + length (concat fs)\<rparr>) = Some (gs, r)"
    using Cons.prems(4) by (simp add: add.assoc)
  ultimately have "susp_read_all rb ?it = Some (fs @ gs, r)" by (intro Cons.IH) (use Cons.prems(1) in simp_all)
  then have "susp_read_all rb it = Some (f # fs @ gs, r)"
    by (intro read_plain [OF _ d]) (use Cons.prems(1,3) in simp_all)
  then show ?case by simp
qed simp

lemma flow_start:
  assumes "list_all plain ca" and "ca \<noteq> []" and "w mod 2048 \<le> 2020"
  shows "\<exists>g rest. flow blk w ca = g @ rest \<and> 4 \<le> length g \<and> w mod 2048 + length g \<le> 2048 \<and>
    \<not> susp_sig g CHR ''S'' CHR ''T''" and "4 \<le> area w ca"
proof -
  obtain f fs where ca: "ca = f # fs" using assms(2) by (cases ca) auto
  have f: "plain f" using assms(1) ca by simp
  note p = plainD [OF f]
  show "4 \<le> area w ca" using p(1) by (simp add: ca)
  show "\<exists>g rest. flow blk w ca = g @ rest \<and> 4 \<le> length g \<and> w mod 2048 + length g \<le> 2048 \<and>
    \<not> susp_sig g CHR ''S'' CHR ''T''"
  proof (cases "crosses w (length f)")
    case True
    let ?C = "susp_make_CE 0 (blk + of_nat (w div 2048 + 1)) 0 (of_nat (area (next_block w) (f # fs)))"
    have "\<not> susp_sig ?C CHR ''S'' CHR ''T''" by (simp add: susp_sig_def susp_make_CE_eq char_byte_def)
    moreover have "flow blk w ca = ?C @ (replicate (next_block w - (w + 28)) 0 @ f @ flow blk (next_block w + length f) fs)"
      using True by (simp add: ca)
    ultimately show ?thesis using assms(3) by (intro exI [of _ ?C] exI) auto
  next
    case False
    then have "flow blk w ca = f @ flow blk (w + length f) fs" by (simp add: ca)
    moreover have "\<not> susp_sig f CHR ''S'' CHR ''T''" using f by (simp add: plain_def)
    moreover have "w mod 2048 + length f \<le> 2048" using False by (simp add: crosses_def)
    ultimately show ?thesis using p(1) by (intro exI [of _ f] exI) auto
  qed
qed

lemma read_node:
  assumes pl: "list_all plain sua1" "list_all plain sua2" "list_all plain ca" and w: "w mod 2048 \<le> 2020"
    and W: "drop w W = flow blk w ca @ tail" "ca_image rb blk W blocks"
    and buf: "buf = concat (sua1 @ CE_of blk w ca @ sua2) @ zs" "length zs \<le> 3"
  shows "susp_read_all rb (record_iter buf behind blocks) = Some (sua1 @ sua2 @ ca, No_more)"
proof (cases "ca = []")
  case True
  have "susp_read_all rb (record_iter buf behind blocks) = Some ((sua1 @ sua2) @ [], No_more)"
  proof (rule read_prefix)
    show "list_all plain (sua1 @ sua2)" using pl by simp
    show "drop (pos (record_iter buf behind blocks)) (base (record_iter buf behind blocks)) = concat (sua1 @ sua2) @ zs @ behind"
      using True by (simp add: buf CE_of_def record_iter_def area_iter_def)
    let ?it = "(record_iter buf behind blocks)\<lparr>pos := pos (record_iter buf behind blocks) + length (concat (sua1 @ sua2))\<rparr>"
    have "susp_iter_next rb ?it False = Some (No_more, ?it)"
      by (rule next_end) (use True buf in \<open>simp_all add: record_iter_def area_iter_def CE_of_def\<close>)
    then show "susp_read_all rb ?it = Some ([], No_more)" by (subst susp_read_all.simps) simp
  qed (use True in \<open>simp add: buf CE_of_def record_iter_def area_iter_def\<close>)
  then show ?thesis using True by simp
next
  case False
  let ?n = "area w ca" and ?l1 = "length (concat sua1)" and ?l2 = "length (concat sua2)"
  let ?CE = "susp_make_CE 0 (blk + of_nat (w div 2048)) (of_nat (w mod 2048)) (of_nat ?n)"
  have b: "buf = concat sua1 @ ?CE @ concat sua2 @ zs" using False buf by (simp add: CE_of_def)
  define it0 where "it0 = record_iter buf behind blocks"
  define it1 where "it1 = it0\<lparr>pos := ?l1\<rparr>"
  define it2 where "it2 = it0\<lparr>pos := ?l1 + 28, next_ce_block := blk + of_nat (w div 2048), next_ce_off := of_nat (w mod 2048),
    next_ce_len := of_nat ?n\<rparr>"
  define it3 where "it3 = it2\<lparr>pos := ?l1 + 28 + ?l2\<rparr>"
  define it4 where "it4 = it3\<lparr>base := take (2048 - w mod 2048) (drop w W), pos := 0, area_size := int ?n, next_ce_len := 0\<rparr>"
  have 0: "pos it0 = 0" "base it0 = buf @ behind" "area_size it0 = int (length buf)" "fs_blocks it0 = blocks" "next_ce_len it0 = 0"
    by (simp_all add: it0_def record_iter_def area_iter_def)
  have n: "0 < ?n" "w mod 2048 + ?n \<le> 2048" using area_pos [OF pl(3) False] area_room [OF pl(3) w] by simp_all
  obtain g rest where g: "flow blk w ca = g @ rest" "4 \<le> length g" "w mod 2048 + length g \<le> 2048"
    "\<not> susp_sig g CHR ''S'' CHR ''T''" and n4: "4 \<le> ?n"
    using flow_start(1) [OF pl(3) False w, of blk] flow_start(2) [OF pl(3) False w] by blast
  have lW: "w < length W"
  proof -
    have "drop w W \<noteq> []" unfolding W(1) g(1) using g(2) by auto
    then show ?thesis by simp
  qed
  have load: "load_area rb it3 = Inr it4" unfolding it4_def
    by (rule load_block [OF _ _ _ _ n lW]) (use W(2) 0 in \<open>simp_all add: it3_def it2_def\<close>)
  have base4: "take (2048 - w mod 2048) (drop w W) = g @ take (2048 - w mod 2048 - length g) (rest @ tail)"
    unfolding W(1) g(1) using g(3) by simp
  have "susp_iter_next rb it3 False = susp_iter_next rb it4 False"
  proof (rule next_load [OF _ _ load])
    show "int (pos it3) + 4 > area_size it3" using buf(2) 0 by (simp add: it3_def it2_def b)
    show "next_ce_len it3 \<noteq> 0"
      using n by (simp add: it3_def it2_def word_unat_eq_iff unsigned_of_nat take_bit_nat_eq_self)
    show "int (pos it4) + 4 \<le> area_size it4" using n4 by (simp add: it4_def)
    have "3 \<le> length (take (2048 - w mod 2048) (drop w W))" unfolding base4 using g(2) by simp
    then show "pos it4 + 3 \<le> length (base it4)" by (simp add: it4_def)
    show "\<not> susp_sig (drop (pos it4) (base it4)) CHR ''S'' CHR ''T''"
      using g(2,4) base4 by (simp add: it4_def sig_append)
  qed
  moreover have "susp_read_all rb it4 = Some (ca, No_more)"
    by (rule read_flow [OF pl(3) w W(1)]) (use W(2) 0 in \<open>simp_all add: it4_def it3_def it2_def\<close>)
  ultimately have 3: "susp_read_all rb it3 = Some (ca, No_more)" using read_all_next by metis
  have 2: "susp_read_all rb it2 = Some (sua2 @ ca, No_more)"
  proof (rule read_prefix [OF pl(2)])
    show "drop (pos it2) (base it2) = concat sua2 @ zs @ behind" using 0 by (simp add: it2_def b)
    show "susp_read_all rb (it2\<lparr>pos := pos it2 + ?l2\<rparr>) = Some (ca, No_more)"
    proof -
      have "it2\<lparr>pos := pos it2 + ?l2\<rparr> = it3" by (simp add: it3_def it2_def)
      then show ?thesis using 3 by simp
    qed
  qed (use 0 in \<open>simp add: it2_def b\<close>)
  have "susp_iter_next rb it1 False = susp_iter_next rb it2 False"
  proof -
    have "susp_iter_next rb it1 False = susp_iter_next rb (it1\<lparr>pos := pos it1 + 28, next_ce_block := blk + of_nat (w div 2048),
        next_ce_off := of_nat (w mod 2048), next_ce_len := of_nat ?n\<rparr>) False"
      by (rule next_CE [where rest = "concat sua2 @ zs @ behind"]) (use 0 in \<open>simp_all add: it1_def b\<close>)
    then show ?thesis by (simp add: it1_def it2_def)
  qed
  then have 1: "susp_read_all rb it1 = Some (sua2 @ ca, No_more)" using 2 read_all_next by metis
  show ?thesis unfolding it0_def [symmetric]
  proof (rule read_prefix [OF pl(1)])
    show "drop (pos it0) (base it0) = concat sua1 @ ?CE @ concat sua2 @ zs @ behind" using 0 by (simp add: b)
    show "susp_read_all rb (it0\<lparr>pos := pos it0 + ?l1\<rparr>) = Some (sua2 @ ca, No_more)" using 1 0 by (simp add: it1_def)
  qed (use 0 in \<open>simp add: b\<close>)
qed

section \<open>Properties\<close>

definition node_plain :: "susp_node \<Rightarrow> bool" where
  "node_plain nd = (case nd of (sua1, predicted, sua2, ca) \<Rightarrow> list_all plain sua1 \<and> list_all plain sua2 \<and> list_all plain ca)"

lemma write_nodes_spec:
  assumes "list_all node_plain nds" and "susp_fields info = []" and "suf_len info = 0" and "list_all ca_field (ce_susp_fields info)"
    and "ce_len info = length (concat (ce_chunks (ce_susp_fields info) 0))" and "ce_len info mod 2048 \<le> 2020"
    and "ends_ok (ce_len info) nds"
  shows "\<exists>bufs fin D. write_nodes eff info nds = (bufs, fin) \<and> ce_susp_fields fin = ce_susp_fields info @ D \<and>
    (\<forall>W tail rb blocks. W = concat (ce_chunks (ce_susp_fields fin) 0) @ tail \<longrightarrow> ca_image rb (ce_block info - eff) W blocks \<longrightarrow>
       list_all2 (\<lambda>buf nd. \<forall>behind. susp_read_all rb (record_iter buf behind blocks) = Some (node_fields nd, No_more)) bufs nds)"
  using assms
proof (induction nds arbitrary: info)
  case (Cons nd nds)
  obtain sua1 n sua2 ca where nd: "nd = (sua1, n, sua2, ca)" by (metis prod.collapse)
  have pl: "list_all plain sua1" "list_all plain sua2" "list_all plain ca" using Cons.prems(1) by (simp_all add: node_plain_def nd)
  let ?w = "ce_len info" and ?blk = "ce_block info - eff" and ?C = "ce_susp_fields info"
  let ?i1 = "collect_node eff info nd" and ?S = "concat (sua1 @ CE_of (ce_block info - eff) (ce_len info) ca @ sua2)"
  have ends: "?w mod 2048 = 0 \<or> \<not> exact_end ?w ca" "ends_ok (end_of ?w ca) nds" using Cons.prems(7) by (simp_all add: nd)
  obtain i2 where i2: "rrip_write_susp_fields ?i1 (replicate (suf_len ?i1 + suf_len ?i1 mod 2) 0) 0 =
      (?S @ replicate (length ?S mod 2) 0, i2)" "susp_fields i2 = []" "suf_len i2 = 0" "ce_block i2 = ce_block info"
      "ce_len i2 = end_of ?w ca" "ce_susp_fields i2 = ?C @ emit ?blk True ?w ca"
    using write_node(2) [OF Cons.prems(2,3,6) pl ends(1), where n = n and eff = eff] nd by auto
  have ch: "concat (ce_chunks (emit ?blk True ?w ca) ?w) = flow ?blk ?w ca" "?w + length (flow ?blk ?w ca) = end_of ?w ca"
    using chunks_emit [OF pl(3) Cons.prems(6)] by auto
  have all: "concat (ce_chunks (?C @ emit ?blk True ?w ca) 0) = concat (ce_chunks ?C 0) @ flow ?blk ?w ca"
    using ce_chunks_append [OF Cons.prems(4), of "emit ?blk True ?w ca" 0] ch(1) Cons.prems(5) by simp
  have "\<exists>bufs fin D. write_nodes eff i2 nds = (bufs, fin) \<and> ce_susp_fields fin = ce_susp_fields i2 @ D \<and>
    (\<forall>W tail rb blocks. W = concat (ce_chunks (ce_susp_fields fin) 0) @ tail \<longrightarrow> ca_image rb (ce_block i2 - eff) W blocks \<longrightarrow>
       list_all2 (\<lambda>buf nd. \<forall>behind. susp_read_all rb (record_iter buf behind blocks) = Some (node_fields nd, No_more)) bufs nds)"
  proof (rule Cons.IH)
    show "list_all node_plain nds" using Cons.prems(1) by simp
    show "list_all ca_field (ce_susp_fields i2)" using Cons.prems(4) emit_ca_field [OF pl(3)] by (simp add: i2(6))
    show "ce_len i2 = length (concat (ce_chunks (ce_susp_fields i2) 0))"
      unfolding i2(5,6) all using ch(2) Cons.prems(5) by simp
    show "ce_len i2 mod 2048 \<le> 2020" unfolding i2(5) by (rule end_of_room [OF pl(3) Cons.prems(6)])
    show "ends_ok (ce_len i2) nds" using ends(2) i2(5) by simp
  qed (use i2 in simp_all)
  then obtain bufs fin D where ih: "write_nodes eff i2 nds = (bufs, fin)" "ce_susp_fields fin = ce_susp_fields i2 @ D"
    "\<And>W tail rb blocks. W = concat (ce_chunks (ce_susp_fields fin) 0) @ tail \<Longrightarrow> ca_image rb (ce_block i2 - eff) W blocks \<Longrightarrow>
       list_all2 (\<lambda>buf nd. \<forall>behind. susp_read_all rb (record_iter buf behind blocks) = Some (node_fields nd, No_more)) bufs nds"
    by blast
  let ?buf = "?S @ replicate (length ?S mod 2) 0"
  have "write_nodes eff info (nd # nds) = (?buf # bufs, fin)" using i2(1) ih(1) by (simp add: Let_def)
  moreover have "\<forall>behind. susp_read_all rb (record_iter ?buf behind blocks) = Some (node_fields nd, No_more)"
    if W: "W = concat (ce_chunks (ce_susp_fields fin) 0) @ tail" and img: "ca_image rb ?blk W blocks" for W tail rb blocks
  proof -
    have "\<exists>rest. W = concat (ce_chunks ?C 0) @ flow ?blk ?w ca @ rest"
    proof -
      have "list_all ca_field (?C @ emit ?blk True ?w ca)" using Cons.prems(4) emit_ca_field [OF pl(3)] by simp
      from ce_chunks_append [OF this, of D 0]
      show ?thesis unfolding W ih(2) i2(6) using all by auto
    qed
    then obtain rest where "W = concat (ce_chunks ?C 0) @ flow ?blk ?w ca @ rest" by auto
    then have "drop ?w W = flow ?blk ?w ca @ rest" using Cons.prems(5) by simp
    from read_node [OF pl Cons.prems(6) this img, of ?buf "replicate (length ?S mod 2) 0"]
    show ?thesis by (simp add: node_fields_def nd)
  qed
  ultimately show ?case using ih(2,3) i2(4,6) by (intro exI [of _ "?buf # bufs"] exI [of _ fin] exI [of _ "emit ?blk True ?w ca @ D"]) auto
qed simp


definition sample_nodes :: "susp_node list" where
  "sample_nodes = [([[80, 88, 4, 1]], 9, [], [[78, 77, 5, 1, 7]]), ([[78, 77, 5, 1, 1]], 0, [], [])]"

definition sample_image :: "u32 \<Rightarrow> iso_error + byte list" where
  "sample_image b = Inr ([78, 77, 5, 1, 7] @ replicate 2043 0)"


definition exact_end_fields :: "byte list list" where
  "exact_end_fields = replicate 8 ([65, 76, 250, 1] @ replicate 246 0) @ [[65, 76, 10, 1] @ replicate 6 0]"

definition exact_end_info :: susp_info where
  "exact_end_info = collect_node 0 (snd (write_nodes 0 (new_susp_info 20) [([], 20, [], [[78, 77, 20, 1] @ replicate 16 0])]))
     ([], 2038, [], exact_end_fields)"


definition in_CE_loop :: "susp_iterator \<Rightarrow> bool" where
  "in_CE_loop it \<longleftrightarrow> int (pos it) + 4 > area_size it \<and> next_ce_block it = 20 \<and> next_ce_off it = 0 \<and> next_ce_len it = 28 \<and>
     fs_blocks it = 100"

definition looping_image :: "u32 \<Rightarrow> iso_error + byte list" where
  "looping_image b = Inr (susp_make_CE 0 20 0 28 @ replicate 2020 0)"

lemma load_loop:
  "in_CE_loop it \<Longrightarrow> load_area looping_image it =
     Inr (it\<lparr>base := susp_make_CE 0 20 0 28 @ replicate 2020 0, pos := 0, area_size := 28, next_ce_len := 0\<rparr>)"
  using load_ok [of it 0 28 looping_image "susp_make_CE 0 20 0 28 @ replicate 2020 0"]
  by (simp add: in_CE_loop_def looping_image_def)

text \<open>C35: a CE field in a Continuation Area that points to its own area makes the iterator run forever: the
  number of areas is not limited.\<close>

theorem susp_iter_next_loops:
  "susp_iter_next looping_image
     \<lparr>base = [], pos = 0, area_size = 0, fs_blocks = 100, next_ce_block = 20, next_ce_off = 0, next_ce_len = 28\<rparr> False = None"
proof -
  define bad where "bad = (\<lambda>read_block it is_first. read_block = looping_image \<and> in_CE_loop it \<and> \<not> is_first)"
  have "\<not> bad rb it is_first" if "susp_iter_next rb it is_first = Some r" for rb it is_first r
  proof (rule susp_iter_next.raw_induct [where P = "\<lambda>rb it is_first r. \<not> bad rb it is_first", OF _ that], goal_cases)
    case (1 f rb it is_first r)
    show "\<not> bad rb it is_first"
    proof
      assume "bad rb it is_first"
      then have a: "rb = looping_image" "in_CE_loop it" "\<not> is_first" by (simp_all add: bad_def)
      let ?it = "it\<lparr>base := susp_make_CE 0 20 0 28 @ replicate 2020 0, area_size := 28, pos := 28,
        next_ce_block := 20, next_ce_off := 0, next_ce_len := 28\<rparr>"
      have at: "int (pos it) + 4 > area_size it" "next_ce_len it \<noteq> 0" using a(2) by (auto simp: in_CE_loop_def)
      have "f looping_image ?it False = Some r"
        using 1(2) a at load_loop [of it] by (simp add: sig_append len_append CE_read Let_def)
      from 1(1) [OF this] a show False by (simp add: in_CE_loop_def bad_def)
    qed
  qed
  moreover have "bad looping_image \<lparr>base = [], pos = 0, area_size = 0, fs_blocks = 100,
      next_ce_block = 20, next_ce_off = 0, next_ce_len = 28\<rparr> False"
    by (simp add: bad_def in_CE_loop_def)
  ultimately show ?thesis by (meson option.exhaust)
qed

end
