(* ===== verification/RockRidge.thy ===== *)
theory RockRidge
  imports Susp WriteOpts DateTime
begin

text \<open>
  The Rock Ridge fields of a node (\<open>libisofs/rockridge.c\<close>): the fields \<open>rrip_add_*\<close>, the prediction of their
  sizes (\<open>rrip_calc_len\<close>, \<open>susp_calc_nm_sl_al\<close>) by which the directories and Continuation Areas get their
  places in the image, and the composition of the fields (\<open>rrip_get_susp_fields\<close>), which must agree with it.
  The conversion of names to the output character set and \<open>localtime\<close> are parameters. The result of the
  inspection of a file's streams for the zisofs format is an attribute of the node. Allocations succeed.
\<close>

section \<open>Image and nodes\<close>

text \<open>The members of \<open>Ecma119Image\<close> that are used here. \<open>img_conv\<close> is \<open>get_rr_fname\<close>, \<open>img_susp_z2\<close> the global
  \<open>iso_zisofs2_enable_susp_z2\<close>.\<close>

record rr_image =
  img_opts :: write_opts
  img_replace_uid :: bool
  img_replace_gid :: bool
  img_replace_file_mode :: bool
  img_replace_dir_mode :: bool
  img_replace_timestamps :: bool
  img_uid :: u32
  img_gid :: u32
  img_file_mode :: u32
  img_dir_mode :: u32
  img_timestamp :: int
  img_eff_partition_offset :: u32
  img_susp_z2 :: bool
  img_conv :: "string \<Rightarrow> string option"
  img_localtime :: "int \<Rightarrow> tm"
  img_now :: int
  img_empty_block :: u32

record zf_info =
  zf_algo :: "byte \<times> byte"
  zf_header_size_div4 :: byte
  zf_block_size_log2 :: byte
  zf_uncompressed_size :: u64

text \<open>An \<open>Ecma119Node\<close> with the attributes of its \<open>IsoNode\<close>. \<open>rn_real_parent\<close> is the block of the real parent of a
  relocated directory, \<open>rn_real_me\<close> the block of the directory for which a placeholder stands, \<open>rn_reloc_dir\<close> the
  answer of \<open>ecma119_is_dedicated_reloc_dir\<close>, \<open>rn_zf\<close> what the inspection of the streams finds and \<open>rn_aa\<close> the
  AAIP string.\<close>

record rr_node =
  rn_type :: node_type
  rn_nlink :: u32
  rn_ino :: u32
  rn_real_parent :: "u32 option"
  rn_real_me :: u32
  rn_reloc_dir :: bool
  rn_name :: string
  rn_mode :: u32
  rn_uid :: u32
  rn_gid :: u32
  rn_atime :: int
  rn_mtime :: int
  rn_ctime :: int
  rn_dev :: u64
  rn_dest :: string
  rn_zf :: "zf_info option"
  rn_aa :: "byte list option"

definition S_ISBLK :: "u32 \<Rightarrow> bool" where "S_ISBLK m \<longleftrightarrow> m AND S_IFMT = 0x6000"
definition S_ISCHR :: "u32 \<Rightarrow> bool" where "S_ISCHR m \<longleftrightarrow> m AND S_IFMT = 0x2000"

definition px_get_uid :: "rr_image \<Rightarrow> rr_node \<Rightarrow> u32" where
  "px_get_uid t n = (if img_replace_uid t then img_uid t else rn_uid n)"

definition px_get_gid :: "rr_image \<Rightarrow> rr_node \<Rightarrow> u32" where
  "px_get_gid t n = (if img_replace_gid t then img_gid t else rn_gid n)"

definition px_get_mode :: "rr_image \<Rightarrow> rr_node \<Rightarrow> u32" where
  "px_get_mode t n =
     (if rn_type n = ECMA119_DIR \<or> rn_type n = ECMA119_PLACEHOLDER
      then if img_replace_dir_mode t then (rn_mode n AND S_IFMT) OR img_dir_mode t else rn_mode n
      else if img_replace_file_mode t then (rn_mode n AND S_IFMT) OR img_file_mode t else rn_mode n)"

section \<open>The fields\<close>

definition field_head :: "string \<Rightarrow> nat \<Rightarrow> byte list" where
  "field_head sig len = bytes_of sig @ [of_nat len, 1]"

text \<open>RRIP 1.12 has the inode number in PX.\<close>

definition px_with_ino :: "rr_image \<Rightarrow> bool" where
  "px_with_ino t \<longleftrightarrow> rrip_1_10_px_ino (img_opts t) \<or> \<not> rrip_version_1_10 (img_opts t)"

definition PX_field :: "rr_image \<Rightarrow> rr_node \<Rightarrow> byte list" where
  "PX_field t n =
     (let len = (if px_with_ino t then 44 else 36);
          b0 = field_head ''PX'' len @ replicate (len - 4) 0;
          b1 = iso_bb b0 4 (px_get_mode t n) 4;
          b2 = iso_bb b1 12 (rn_nlink n) 4;
          b3 = iso_bb b2 20 (px_get_uid t n) 4;
          b4 = iso_bb b3 28 (px_get_gid t n) 4
      in if px_with_ino t then iso_bb b4 36 (rn_ino n) 4 else b4)"

definition rrip_add_PX :: "rr_image \<Rightarrow> rr_node \<Rightarrow> susp_info \<Rightarrow> susp_info" where
  "rrip_add_PX t n info = susp_append info (PX_field t n)"

definition TF_field :: "rr_image \<Rightarrow> rr_node \<Rightarrow> byte list" where
  "TF_field t n =
     (let stamp = (\<lambda>x. iso_datetime_7 (img_localtime t) (if img_replace_timestamps t then img_timestamp t else x)
            (always_gmt (img_opts t)))
      in field_head ''TF'' 26 @ [14] @ stamp (rn_mtime n) @ stamp (rn_atime n) @ stamp (rn_ctime n))"

definition rrip_add_TF :: "rr_image \<Rightarrow> rr_node \<Rightarrow> susp_info \<Rightarrow> susp_info" where
  "rrip_add_TF t n info = susp_append info (TF_field t n)"

definition PL_field :: "rr_image \<Rightarrow> u32 \<Rightarrow> byte list" where
  "PL_field t blk = iso_bb (field_head ''PL'' 12 @ replicate 8 0) 4 (blk - img_eff_partition_offset t) 4"

definition rrip_add_PL :: "rr_image \<Rightarrow> rr_node \<Rightarrow> susp_info \<Rightarrow> iso_error + susp_info" where
  "rrip_add_PL t n info =
     (case rn_real_parent n of
        Some blk \<Rightarrow> if rn_type n = ECMA119_DIR then Inr (susp_append info (PL_field t blk)) else Inl ISO_ASSERT_FAILURE
      | None \<Rightarrow> Inl ISO_ASSERT_FAILURE)"

definition rrip_add_RE :: "susp_info \<Rightarrow> susp_info" where
  "rrip_add_RE info = susp_append info (field_head ''RE'' 4)"

definition PN_field :: "rr_node \<Rightarrow> byte list" where
  "PN_field n =
     iso_bb (iso_bb (field_head ''PN'' 20 @ replicate 16 0) 4 (ucast (drop_bit 32 (rn_dev n))) 4) 12 (ucast (rn_dev n)) 4"

definition rrip_add_PN :: "rr_node \<Rightarrow> susp_info \<Rightarrow> iso_error + susp_info" where
  "rrip_add_PN n info =
     (if rn_type n \<noteq> ECMA119_SPECIAL then Inl ISO_ASSERT_FAILURE else Inr (susp_append info (PN_field n)))"

definition CL_field :: "rr_image \<Rightarrow> rr_node \<Rightarrow> byte list" where
  "CL_field t n = iso_bb (field_head ''CL'' 12 @ replicate 8 0) 4 (rn_real_me n - img_eff_partition_offset t) 4"

definition rrip_add_CL :: "rr_image \<Rightarrow> rr_node \<Rightarrow> susp_info \<Rightarrow> iso_error + susp_info" where
  "rrip_add_CL t n info =
     (if rn_type n \<noteq> ECMA119_PLACEHOLDER then Inl ISO_ASSERT_FAILURE else Inr (susp_append info (CL_field t n)))"

text \<open>The common end of the functions that may write to the Continuation Area.\<close>

definition susp_append_to :: "rr_image \<Rightarrow> bool \<Rightarrow> susp_info \<Rightarrow> byte list \<Rightarrow> susp_info" where
  "susp_append_to t ce info data =
     (if ce then susp_append_ce (img_eff_partition_offset t) info data else susp_append info data)"

text \<open>\<open>None\<close>: \<open>malloc\<close> and \<open>memcpy\<close> with a wrong size, i.e. an access outside of the memory.\<close>

definition NM_field :: "string \<Rightarrow> nat \<Rightarrow> byte \<Rightarrow> byte list" where
  "NM_field name len flags = field_head ''NM'' (len + 5) @ [flags] @ take len (bytes_of name)"

definition rrip_add_NM ::
  "rr_image \<Rightarrow> susp_info \<Rightarrow> string \<Rightarrow> int \<Rightarrow> byte \<Rightarrow> bool \<Rightarrow> (iso_error + susp_info) option" where
  "rrip_add_NM t info name len flags ce =
     (if len > 250 then Some (Inl ISO_ASSERT_FAILURE)
      else if len < 0 \<or> int (length name) < len then None
      else Some (Inr (susp_append_to t ce info (NM_field name (nat len) flags))))"

section \<open>Symbolic links\<close>

text \<open>The components of an SL field: flags, length and content.\<close>

definition rrip_SL_append_comp :: "byte list list \<Rightarrow> string \<Rightarrow> nat \<Rightarrow> byte \<Rightarrow> byte list list" where
  "rrip_SL_append_comp comps s len fl = comps @ [[fl, of_nat len] @ take len (bytes_of s)]"

definition comp_size :: "byte list \<Rightarrow> nat" where
  "comp_size c = unat (c ! 1) + 2"

definition SL_field :: "byte list list \<Rightarrow> nat \<Rightarrow> byte \<Rightarrow> byte list" where
  "SL_field comps tot flags =
     field_head ''SL'' (tot + 5) @ [flags] @ concat (map (\<lambda>c. take (comp_size c) c) comps)"

text \<open>The loop of \<open>rrip_add_SL\<close>: the fields that are complete, the components from \<open>written\<close> on, and
  \<open>total_comp_len\<close>.\<close>

fun sl_push :: "byte list list \<times> byte list list \<times> nat \<Rightarrow> byte list \<Rightarrow> byte list list \<times> byte list list \<times> nat" where
  "sl_push (done, pending, tot) c =
     (if tot + comp_size c > 250 then (done @ [SL_field pending tot 1], [c], comp_size c)
      else (done, pending @ [c], tot + comp_size c))"

definition rrip_add_SL :: "rr_image \<Rightarrow> susp_info \<Rightarrow> byte list list \<Rightarrow> bool \<Rightarrow> iso_error + susp_info" where
  "rrip_add_SL t info comps ce =
     (case foldl sl_push ([], [], 0) comps of (done, pending, tot) \<Rightarrow>
        if done \<noteq> [] \<and> \<not> ce then Inl ISO_ASSERT_FAILURE
        else Inr (susp_append_to t ce (foldl (susp_append_ce (img_eff_partition_offset t)) info done)
               (SL_field pending tot 0)))"

text \<open>The loop over the components of a link target, which \<open>susp_calc_nm_sl_al\<close> and \<open>rrip_get_susp_fields\<close> share:
  \<open>prev\<close> is the text from the current component on. A step may give up.\<close>

function sl_walk :: "(string \<Rightarrow> nat \<Rightarrow> 'st \<Rightarrow> 'st option) \<Rightarrow> string \<Rightarrow> 'st \<Rightarrow> 'st option" where
  "sl_walk step prev st =
     (let clen = length (takeWhile (\<lambda>c. c \<noteq> CHR ''/'') prev)
      in case step prev clen st of
           None \<Rightarrow> None
         | Some st1 \<Rightarrow> if length prev \<le> clen + 1 then Some st1 else sl_walk step (drop (clen + 1) prev) st1)"
  by pat_completeness auto
termination
  by (relation "measure (\<lambda>(step, prev, st). length prev)") auto

declare sl_walk.simps [simp del]

definition is_dot :: "string \<Rightarrow> nat \<Rightarrow> bool" where
  "is_dot prev clen \<longleftrightarrow> clen = 1 \<and> prev ! 0 = CHR ''.''"

definition is_dotdot :: "string \<Rightarrow> nat \<Rightarrow> bool" where
  "is_dotdot prev clen \<longleftrightarrow> clen = 2 \<and> prev ! 0 = CHR ''.'' \<and> prev ! 1 = CHR ''.''"

text \<open>The length of the component record.\<close>

definition comp_len :: "string \<Rightarrow> nat \<Rightarrow> nat" where
  "comp_len prev clen = (if is_dot prev clen \<or> is_dotdot prev clen then 0 else clen) + 2"

definition comp_flag :: "string \<Rightarrow> nat \<Rightarrow> byte" where
  "comp_flag prev clen = (if clen = 0 then 8 else if is_dot prev clen then 2 else if is_dotdot prev clen then 4 else 0)"

section \<open>Prediction of sizes\<close>

definition susp_calc_add_to_ce :: "bool \<Rightarrow> nat \<Rightarrow> nat \<Rightarrow> nat \<Rightarrow> nat" where
  "susp_calc_add_to_ce hop base_ce ce add =
     (let ce1 = (if hop \<and> (ce + base_ce + add + ISO_CE_ENTRY_SIZE - 1) div BLOCK_SIZE \<noteq> (ce + base_ce) div BLOCK_SIZE
                 then let ce2 = ce + ISO_CE_ENTRY_SIZE
                      in if (ce2 + base_ce) mod BLOCK_SIZE \<noteq> 0
                         then ce2 + (BLOCK_SIZE - (ce2 + base_ce) mod BLOCK_SIZE) else ce2
                 else ce)
      in ce1 + add)"

text \<open>The AAIP string is a chain of fields, which ends with the first field without the CONTINUE bit. Data that do
  not have this form end the chain here, where the code would read on behind them.\<close>

function aa_chain :: "byte list \<Rightarrow> byte list list" where
  "aa_chain d =
     (if length d < 5 \<or> field_len d < 5 then []
      else take (field_len d) d # (if d ! 4 AND 1 = 0 then [] else aa_chain (drop (field_len d) d)))"
  by pat_completeness auto
termination
  by (relation "measure length") auto

declare aa_chain.simps [simp del]

definition aaip_count_bytes :: "byte list \<Rightarrow> nat" where
  "aaip_count_bytes d = sum_list (map length (aa_chain d))"

text \<open>The accounting part of \<open>aaip_add_AL\<close>: free bytes in the record, bytes in the Continuation Area.\<close>

definition al_sizes :: "rr_image \<Rightarrow> bool \<Rightarrow> nat \<Rightarrow> byte list \<Rightarrow> nat \<times> nat \<Rightarrow> nat \<times> nat" where
  "al_sizes t hop base_ce d = (\<lambda>(sua_free, ce).
     let es_extra = (if aaip_susp_1_10 (img_opts t) then 0 else 5)
     in if sua_free < aaip_count_bytes d + es_extra \<or> ce > 0
        then (sua_free, foldl (susp_calc_add_to_ce hop base_ce)
                (if es_extra > 0 then susp_calc_add_to_ce hop base_ce ce es_extra else ce) (map length (aa_chain d)))
        else (sua_free - (aaip_count_bytes d + es_extra), ce))"

definition ES_field :: "byte \<Rightarrow> byte list" where
  "ES_field seqno = field_head ''ES'' 5 @ [seqno]"

definition susp_add_ES :: "rr_image \<Rightarrow> susp_info \<Rightarrow> bool \<Rightarrow> byte \<Rightarrow> susp_info" where
  "susp_add_ES t info to_ce seqno = susp_append_to t to_ce info (ES_field seqno)"

definition announce_aaip :: "rr_image \<Rightarrow> bool" where
  "announce_aaip t \<longleftrightarrow> aaip (img_opts t) \<and> \<not> aaip_susp_1_10 (img_opts t)"

definition aaip_add_AL ::
  "rr_image \<Rightarrow> susp_info \<Rightarrow> byte list \<Rightarrow> nat \<times> nat \<Rightarrow> nat \<Rightarrow> susp_info \<times> nat \<times> nat" where
  "aaip_add_AL t info d st ce_mem =
     (let st1 = al_sizes t True ce_mem d st; to_ce = (snd st1 > 0);
          info1 = (if announce_aaip t then susp_add_ES t info to_ce 1 else info)
      in (foldl (susp_append_to t to_ce) info1 (aa_chain d), st1))"

text \<open>\<open>add_aa_string\<close>, accounting only and with the fields.\<close>

definition aa_sizes :: "rr_image \<Rightarrow> rr_node \<Rightarrow> bool \<Rightarrow> nat \<Rightarrow> nat \<times> nat \<Rightarrow> nat \<times> nat" where
  "aa_sizes t n hop base_ce st =
     (case rn_aa n of
        Some d \<Rightarrow> if aaip (img_opts t) \<and> aaip_count_bytes d > 0 then al_sizes t hop base_ce d st else st
      | None \<Rightarrow> st)"

definition add_aa_string :: "rr_image \<Rightarrow> rr_node \<Rightarrow> susp_info \<Rightarrow> nat \<times> nat \<Rightarrow> nat \<Rightarrow> susp_info \<times> nat \<times> nat" where
  "add_aa_string t n info st base_ce =
     (case rn_aa n of
        Some d \<Rightarrow> if aaip (img_opts t) \<and> aaip_count_bytes d > 0 then aaip_add_AL t info d st base_ce else (info, st)
      | None \<Rightarrow> (info, st))"

text \<open>The field ZF of zisofs.\<close>

definition zf_sizes :: "rr_node \<Rightarrow> bool \<Rightarrow> nat \<Rightarrow> nat \<times> nat \<Rightarrow> nat \<times> nat" where
  "zf_sizes n hop base_ce = (\<lambda>(sua_free, ce).
     if rn_type n = ECMA119_FILE \<and> rn_zf n \<noteq> None
     then if sua_free < 16 \<or> ce > 0 then (sua_free, susp_calc_add_to_ce hop base_ce ce 16) else (sua_free - 16, ce)
     else (sua_free, ce))"

definition ZF_field :: "rr_image \<Rightarrow> zf_info \<Rightarrow> byte list" where
  "ZF_field t zf =
     (let pz = (zf_algo zf = (char_byte CHR ''p'', char_byte CHR ''z''));
          head = field_head (if \<not> pz \<and> img_susp_z2 t then ''Z2'' else ''ZF'') 16;
          b0 = head[3 := (if pz then 1 else 2)] @
            [fst (zf_algo zf), snd (zf_algo zf), zf_header_size_div4 zf, zf_block_size_log2 zf] @ replicate 8 0
      in if pz then iso_bb b0 8 (ucast (zf_uncompressed_size zf)) 4 else iso_lsb64 b0 8 (zf_uncompressed_size zf))"

definition zisofs_add_ZF :: "rr_image \<Rightarrow> susp_info \<Rightarrow> bool \<Rightarrow> zf_info \<Rightarrow> iso_error + susp_info" where
  "zisofs_add_ZF t info to_ce zf =
     (if zf_algo zf = (char_byte CHR ''p'', char_byte CHR ''z'') \<and> zf_uncompressed_size zf > 0xffffffff
      then Inl ISO_ZISOFS_TOO_LARGE else Inr (susp_append_to t to_ce info (ZF_field t zf)))"

definition add_zf_field ::
  "rr_image \<Rightarrow> rr_node \<Rightarrow> susp_info \<Rightarrow> nat \<times> nat \<Rightarrow> nat \<Rightarrow> iso_error + (susp_info \<times> nat \<times> nat)" where
  "add_zf_field t n info st base_ce =
     (let st1 = zf_sizes n True base_ce st
      in case (if rn_type n = ECMA119_FILE then rn_zf n else None) of
           None \<Rightarrow> Inr (info, st1)
         | Some zf \<Rightarrow> (case zisofs_add_ZF t info (snd st1 > 0) zf of Inl e \<Rightarrow> Inl e | Inr info1 \<Rightarrow> Inr (info1, st1)))"

text \<open>\<open>susp_calc_nm_sl_al\<close>: a valid computation, 0 (a Continuation Area is needed, or a block boundary would be
  crossed), -1 (no room for the CE), -2 (conversion of the link target failed).\<close>

datatype calc_result = Calc nat nat | Calc_retry | Calc_no_room | Calc_no_mem

text \<open>One component: whether the Continuation Area is in use, the length of the current SL field and the bytes in the
  Continuation Area. \<open>None\<close>: the Continuation Area is needed but not announced.\<close>

definition calc_comp ::
  "bool \<Rightarrow> bool \<Rightarrow> nat \<Rightarrow> nat \<Rightarrow> nat \<Rightarrow> string \<Rightarrow> nat \<Rightarrow> bool \<times> nat \<times> nat \<Rightarrow> (bool \<times> nat \<times> nat) option" where
  "calc_comp use_ca hop base_ce space su_size prev clen0 = (\<lambda>(cew, sl_len, ce).
     let clen = comp_len prev clen0; add = susp_calc_add_to_ce hop base_ce
     in if \<not> cew \<and> su_size + sl_len + clen \<le> space then Some (False, sl_len + clen, ce)
        else if \<not> cew \<and> \<not> use_ca then None
        else if sl_len + clen > 255
        then if clen > 250
             then let fit = 255 - int sl_len - 2
                  in if int clen - 250 \<le> fit then Some (True, nat (5 + (int clen - fit)), add ce 255)
                     else Some (True, 5 + (clen - 250) + 2, add (add ce sl_len) 255)
             else Some (True, 5 + clen, add ce sl_len)
        else Some (True, sl_len + clen, ce))"

text \<open>NM, SL, ZF and AL on top of \<open>su_size\<close> bytes of the record. The difference for the part of the name that goes to
  the Continuation Area is taken modulo the word size in the code.\<close>

definition calc_nm :: "rr_image \<Rightarrow> rr_node \<Rightarrow> bool \<Rightarrow> bool \<Rightarrow> nat \<Rightarrow> nat \<Rightarrow> nat \<Rightarrow> nat \<Rightarrow> (nat \<times> nat) option" where
  "calc_nm t n use_ca hop base_ce space su_size ce =
     (let namelen = (case img_conv t (rn_name n) of Some name \<Rightarrow> length name | None \<Rightarrow> 0)
      in if su_size + 5 + namelen \<le> space then Some (su_size + 5 + namelen, ce)
         else if \<not> use_ca then None
         else Some (space, susp_calc_add_to_ce hop base_ce ce (5 + (namelen + su_size + 5 - space))))"

definition calc_sl :: "bool \<Rightarrow> bool \<Rightarrow> nat \<Rightarrow> nat \<Rightarrow> string \<Rightarrow> nat \<times> nat \<Rightarrow> (nat \<times> nat) option" where
  "calc_sl use_ca hop base_ce space dest = (\<lambda>(su_size, ce).
     case sl_walk (calc_comp use_ca hop base_ce space su_size) dest (ce \<noteq> 0, 5, ce) of
       None \<Rightarrow> None
     | Some (cew, sl_len, ce1) \<Rightarrow>
         if \<not> cew then Some (su_size + sl_len, ce1) else Some (su_size, susp_calc_add_to_ce hop base_ce ce1 sl_len))"

definition calc_rest :: "rr_image \<Rightarrow> rr_node \<Rightarrow> bool \<Rightarrow> bool \<Rightarrow> nat \<Rightarrow> nat \<Rightarrow> nat \<times> nat \<Rightarrow> calc_result" where
  "calc_rest t n use_ca hop base_ce space = (\<lambda>(su_size, ce).
     let (free1, ce1) = zf_sizes n hop base_ce (space - su_size, ce)
     in if ce1 > 0 \<and> \<not> use_ca then Calc_retry
        else let (free2, ce2) = aa_sizes t n hop base_ce (free1, ce1)
             in if ce2 > 0 \<and> \<not> use_ca then Calc_retry
                else if ce2 > 0 \<and> \<not> hop \<and> base_ce div BLOCK_SIZE \<noteq> (base_ce + ce2 + ISO_CE_ENTRY_SIZE - 1) div BLOCK_SIZE
                then Calc_retry
                else Calc (space - free2) ce2)"

definition susp_calc_nm_sl_al ::
  "rr_image \<Rightarrow> rr_node \<Rightarrow> nat \<Rightarrow> nat \<Rightarrow> nat \<Rightarrow> nat \<Rightarrow> bool \<Rightarrow> bool \<Rightarrow> calc_result" where
  "susp_calc_nm_sl_al t n space su_size ce base_ce bit0 hop =
     (let use_ca = (bit0 \<or> hop); su1 = (if use_ca then su_size + 28 else su_size)
      in if ce > 0 \<and> \<not> bit0 then Calc_retry
         else if use_ca \<and> su_size + 28 > space then Calc_no_room
         else case calc_nm t n use_ca hop base_ce space su1 ce of
                None \<Rightarrow> Calc_retry
              | Some st \<Rightarrow>
                  if rn_type n \<noteq> ECMA119_SYMLINK then calc_rest t n use_ca hop base_ce space st
                  else case img_conv t (rn_dest n) of
                         None \<Rightarrow> Calc_no_mem
                       | Some dest \<Rightarrow> (case calc_sl use_ca hop base_ce space dest st of
                                        None \<Rightarrow> Calc_retry
                                      | Some st1 \<Rightarrow> calc_rest t n use_ca hop base_ce space st1))"

text \<open>The three attempts: without Continuation Area, in one block, over several blocks.\<close>

definition calc_attempts :: "rr_image \<Rightarrow> rr_node \<Rightarrow> nat \<Rightarrow> nat \<Rightarrow> nat \<Rightarrow> nat \<Rightarrow> calc_result" where
  "calc_attempts t n space su_size ce base_ce =
     (let r0 = susp_calc_nm_sl_al t n space su_size ce base_ce False False;
          r1 = (if r0 = Calc_retry then susp_calc_nm_sl_al t n space su_size ce base_ce True False else r0)
      in if r1 = Calc_retry then susp_calc_nm_sl_al t n space su_size ce base_ce True True else r1)"

definition ISO_ROCKRIDGE_IN_DIR_REC :: nat where "ISO_ROCKRIDGE_IN_DIR_REC = 124"

text \<open>The bytes in front of NM: ES, PX, TF and the fields of relocation and devices. \<open>ty\<close> is 0 for the record of the
  node, 1 for \<open>.\<close> and 2 for \<open>..\<close>.\<close>

definition calc_head :: "rr_image \<Rightarrow> rr_node \<Rightarrow> nat \<Rightarrow> nat" where
  "calc_head t n ty =
     (if announce_aaip t then 5 else 0) + (if px_with_ino t then 44 + 26 else 36 + 26) +
     (if rn_type n = ECMA119_DIR
      then if rn_real_parent n \<noteq> None then (if ty = 2 then 12 else if ty = 0 then 4 else 0)
           else if rn_reloc_dir n \<and> rr_reloc_flags (img_opts t) AND 1 \<noteq> 0 then 4 else 0
      else if rn_type n = ECMA119_SPECIAL then (if S_ISBLK (rn_mode n) \<or> S_ISCHR (rn_mode n) then 20 else 0)
      else if rn_type n = ECMA119_PLACEHOLDER then 12 else 0)"

definition rrip_er_len :: "rr_image \<Rightarrow> nat" where
  "rrip_er_len t = (if rrip_version_1_10 (img_opts t) then 237 else 182)"

definition aaip_er_len :: "rr_image \<Rightarrow> nat" where
  "aaip_er_len t = (if announce_aaip t then 160 else 0)"

text \<open>\<open>Inl e\<close>: the code returns the error code as if it were the size. \<open>space\<close> is a difference modulo the word size.
  When there is no room for the CE the size stays as it is.\<close>

definition rrip_calc_len ::
  "rr_image \<Rightarrow> rr_node \<Rightarrow> bool \<Rightarrow> nat \<Rightarrow> nat \<Rightarrow> nat \<Rightarrow> iso_error + nat \<times> nat" where
  "rrip_calc_len t n is_root ty used_up base_ce =
     (let space = nat ((254 - int used_up - int (used_up mod 2)) mod 2 ^ 64); su0 = calc_head t n ty
      in if ty > 2 \<or> space < ISO_ROCKRIDGE_IN_DIR_REC then Inl ISO_ASSERT_FAILURE
         else if ty = 0
         then (case calc_attempts t n space su0 0 base_ce of
                 Calc su ce \<Rightarrow> Inr (su + su mod 2, ce)
               | Calc_no_mem \<Rightarrow> Inl ISO_OUT_OF_MEM
               | _ \<Rightarrow> Inr (su0 + su0 mod 2, 0))
         else let su1 = su0 + (if rrip_version_1_10 (img_opts t) then 0 else 5);
                  root_dot = (ty = 1 \<and> is_root);
                  su2 = (if root_dot then su1 + 7 + 28 else su1);
                  ce = (if root_dot then rrip_er_len t + aaip_er_len t + snd (aa_sizes t n True base_ce (0, 0)) else 0)
              in Inr (su2 + su2 mod 2, ce))"

section \<open>Composition of the fields\<close>

definition rrip_add_ER :: "rr_image \<Rightarrow> susp_info \<Rightarrow> susp_info" where
  "rrip_add_ER t info =
     susp_append_ce (img_eff_partition_offset t) info
       (if \<not> rrip_version_1_10 (img_opts t)
        then field_head ''ER'' 182 @ [9, 72, 93, 1] @ bytes_of ''IEEE_1282'' @
             bytes_of ''THE IEEE 1282 PROTOCOL PROVIDES SUPPORT FOR POSIX FILE SYSTEM SEMANTICS.'' @
             bytes_of ''PLEASE CONTACT THE IEEE STANDARDS DEPARTMENT, PISCATAWAY, NJ, USA FOR THE 1282 SPECIFICATION.''
        else field_head ''ER'' 237 @ [10, 84, 135, 1] @ bytes_of ''RRIP_1991A'' @
             bytes_of ''THE ROCK RIDGE INTERCHANGE PROTOCOL PROVIDES SUPPORT FOR POSIX FILE SYSTEM SEMANTICS'' @
             bytes_of ''PLEASE CONTACT DISC PUBLISHER FOR SPECIFICATION SOURCE.  SEE PUBLISHER IDENTIFIER IN PRIMARY VOLUME DESCRIPTOR FOR CONTACT INFORMATION.'')"

definition aaip_add_ER :: "rr_image \<Rightarrow> susp_info \<Rightarrow> susp_info" where
  "aaip_add_ER t info =
     susp_append_ce (img_eff_partition_offset t) info
       (field_head ''ER'' 160 @ [9, 81, 62, 1] @ bytes_of ''AAIP_0200'' @
        bytes_of ''AL PROVIDES VIA AAIP 2.0 SUPPORT FOR ARBITRARY FILE ATTRIBUTES IN ISO 9660 IMAGES'' @
        bytes_of ''PLEASE CONTACT THE LIBBURNIA PROJECT VIA LIBBURNIA-PROJECT.ORG'')"

definition susp_add_SP :: "susp_info \<Rightarrow> susp_info" where
  "susp_add_SP info = susp_append info (field_head ''SP'' 7 @ [0xbe, 0xef, 0])"

text \<open>From SP to the fields of relocation and devices. \<open>nd\<close> is the node whose attributes are written: the parent for
  \<open>..\<close>.\<close>

definition add_head :: "rr_image \<Rightarrow> rr_node \<Rightarrow> rr_node \<Rightarrow> bool \<Rightarrow> nat \<Rightarrow> susp_info \<Rightarrow> iso_error + susp_info" where
  "add_head t n nd is_root ty info =
     (let info1 = (if ty = 1 \<and> is_root then susp_add_SP info else info);
          info2 = (if announce_aaip t then susp_add_ES t info1 False 0 else info1);
          info3 = rrip_add_TF t nd (rrip_add_PX t nd info2)
      in if rn_type n = ECMA119_DIR
         then if rn_real_parent n \<noteq> None
              then (if ty = 2 then rrip_add_PL t n info3 else if ty = 0 then Inr (rrip_add_RE info3) else Inr info3)
              else if rn_reloc_dir n \<and> rr_reloc_flags (img_opts t) AND 1 \<noteq> 0 then Inr (rrip_add_RE info3) else Inr info3
         else if rn_type n = ECMA119_SPECIAL
         then (if S_ISBLK (rn_mode n) \<or> S_ISCHR (rn_mode n) then rrip_add_PN nd info3 else Inr info3)
         else if rn_type n = ECMA119_PLACEHOLDER then rrip_add_CL t nd info3
         else Inr info3)"

text \<open>The prediction: its result and whether a CE is to be written.\<close>

definition predict :: "rr_image \<Rightarrow> rr_node \<Rightarrow> nat \<Rightarrow> nat \<Rightarrow> nat \<Rightarrow> calc_result \<times> bool" where
  "predict t n space su_size base_ce =
     (let r0 = susp_calc_nm_sl_al t n space su_size 0 base_ce False False
      in if r0 \<noteq> Calc_retry then (r0, False)
         else let r1 = susp_calc_nm_sl_al t n space su_size 0 base_ce True False
              in (if r1 = Calc_retry then susp_calc_nm_sl_al t n space su_size 0 base_ce True True else r1, True))"

text \<open>One component of the link target: the components so far, the length of the current SL field, the bytes counted
  for the Continuation Area and whether it is in use. In the last but two case the text from byte 248 on is taken
  up to the end of the whole target. No component makes it give up.\<close>

definition get_comp ::
  "nat \<Rightarrow> string \<Rightarrow> nat \<Rightarrow> byte list list \<times> nat \<times> nat \<times> bool \<Rightarrow> (byte list list \<times> nat \<times> nat \<times> bool) option" where
  "get_comp sua_free prev clen0 = (\<lambda>(comps, sl_len, ce_len, cew).
     let clen = comp_len prev clen0; fl = comp_flag prev clen0
     in if \<not> cew \<and> sl_len + clen \<le> sua_free
        then Some (rrip_SL_append_comp comps prev (clen - 2) fl, sl_len + clen, ce_len, False)
        else if sl_len + clen > 255
        then if clen > 250
             then let fit = 255 - int sl_len - 2
                  in if int clen - 250 \<le> fit
                     then Some (rrip_SL_append_comp (rrip_SL_append_comp comps prev (nat fit) 1) (drop (nat fit) prev)
                                  (nat (int clen - fit - 2)) 0,
                                nat (5 + (int clen - fit)), ce_len + 255, True)
                     else Some (rrip_SL_append_comp (rrip_SL_append_comp comps prev 248 1) (drop 248 prev)
                                  (length (drop 248 prev)) 0,
                                5 + (clen - 250) + 2, ce_len + sl_len + 255, True)
             else Some (rrip_SL_append_comp comps prev (clen - 2) fl, 5 + clen, ce_len + sl_len, True)
        else Some (rrip_SL_append_comp comps prev (clen - 2) fl, sl_len + clen, ce_len, True))"

text \<open>An error ends the composition, \<open>None\<close> stands for an access outside of the memory.\<close>

definition and_then :: "(iso_error + 'a) option \<Rightarrow> ('a \<Rightarrow> (iso_error + 'b) option) \<Rightarrow> (iso_error + 'b) option" where
  "and_then m f = (case m of None \<Rightarrow> None | Some (Inl e) \<Rightarrow> Some (Inl e) | Some (Inr a) \<Rightarrow> f a)"

definition add_names :: "rr_image \<Rightarrow> rr_node \<Rightarrow> nat \<Rightarrow> susp_info \<Rightarrow> (iso_error + susp_info) option" where
  "add_names t n space info =
     (let name = (case img_conv t (rn_name n) of Some s \<Rightarrow> s | None \<Rightarrow> '''');
          dest = (case img_conv t (rn_dest n) of Some s \<Rightarrow> s | None \<Rightarrow> '''');
          ce_mem = ce_len info;
          (result, predicted) = predict t n space (suf_len info) ce_mem;
          sua_free0 = space - suf_len info - (if predicted then 28 else 0);
          nm_in_ce = (5 + length name > sua_free0);
          sua_free = (if nm_in_ce then 0 else sua_free0 - (5 + length name));
          ce_len0 = (if nm_in_ce then 5 + (length name + 5 - sua_free0) else 0);
          (comps, sl_len, ce_len1, cew) =
            (if rn_type n = ECMA119_SYMLINK then (case sl_walk (get_comp sua_free) dest ([], 5, ce_len0, nm_in_ce) of Some r \<Rightarrow> r | None \<Rightarrow> ([], 0, 0, False))
             else ([], 0, ce_len0, False));
          ce_len2 = (if cew then ce_len1 + sl_len else ce_len1);
          nm_len = (if nm_in_ce then int space - int (suf_len info) - (if predicted then 28 else 0) - 5
                    else int (length name));
          predicted_ce = (case result of Calc su ce \<Rightarrow> ce | _ \<Rightarrow> 0)
      in if result = Calc_no_mem then Some (Inl ISO_OUT_OF_MEM)
         else and_then (rrip_add_NM t info name nm_len (if nm_in_ce then 1 else 0) False) (\<lambda>info1.
           let info2 = (if predicted then susp_add_CE (img_eff_partition_offset t) predicted_ce info1 else info1)
           in and_then (if nm_in_ce
                        then rrip_add_NM t info2 (drop (nat nm_len) name) (int (length (drop (nat nm_len) name))) 0 True
                        else Some (Inr info2)) (\<lambda>info3.
              and_then (if rn_type n = ECMA119_SYMLINK then Some (rrip_add_SL t info3 comps (ce_len2 > 0))
                        else Some (Inr info3)) (\<lambda>info4.
              and_then (Some (add_zf_field t n info4 (sua_free, ce_len2) ce_mem)) (\<lambda>(info5, st).
                Some (Inr (fst (add_aa_string t n info5 st ce_mem))))))))"

text \<open>The records \<open>.\<close> and \<open>..\<close>; the one of the root directory announces the extensions.\<close>

definition add_dots :: "rr_image \<Rightarrow> rr_node \<Rightarrow> bool \<Rightarrow> nat \<Rightarrow> susp_info \<Rightarrow> (iso_error + susp_info) option" where
  "add_dots t n is_root ty info =
     (let ce_mem = ce_len info
      in and_then (if rrip_version_1_10 (img_opts t) then Some (Inr info)
                   else rrip_add_NM t info '''' 0 (push_bit ty 1) False) (\<lambda>info1.
         if ty = 1 \<and> is_root
         then let aaip_len = snd (aa_sizes t n True ce_mem (0, 0));
                  info2 = susp_add_CE (img_eff_partition_offset t) (rrip_er_len t + aaip_er_len t + aaip_len) info1;
                  info3 = rrip_add_ER t info2;
                  info4 = (if announce_aaip t then aaip_add_ER t info3 else info3)
              in Some (Inr (fst (add_aa_string t n info4 (0, 0) ce_mem)))
         else Some (Inr info1)))"

definition rrip_get_susp_fields ::
  "rr_image \<Rightarrow> rr_node \<Rightarrow> rr_node option \<Rightarrow> nat \<Rightarrow> nat \<Rightarrow> susp_info \<Rightarrow> (iso_error + susp_info) option" where
  "rrip_get_susp_fields t n parent ty used_up info =
     (let space = 254 - int used_up - int (used_up mod 2);
          nd = (if ty = 2 then (case parent of Some p \<Rightarrow> p | None \<Rightarrow> n) else n);
          is_root = (parent = None)
      in if ty > 2 \<or> space < int ISO_ROCKRIDGE_IN_DIR_REC then Some (Inl ISO_ASSERT_FAILURE)
         else and_then (Some (add_head t n nd is_root ty (info\<lparr>current_ce_start := length (ce_susp_fields info)\<rparr>))) (\<lambda>info1.
           if int (suf_len info1) + 28 > space then Some (Inl ISO_ASSERT_FAILURE)
           else and_then (if ty = 0 then add_names t n (nat space) info1 else add_dots t n is_root ty info1) (\<lambda>info2.
             Some (Inr (info2\<lparr>suf_len := suf_len info2 + suf_len info2 mod 2\<rparr>)))))"

section \<open>Shape of the fields\<close>

declare length_bytes_of [simp]

lemma field_head_eq: "field_head [a, b] len = [char_byte a, char_byte b, of_nat len, 1]"
  by (simp add: field_head_def bytes_of_def)

lemma length_field_head [simp]: "length (field_head [a, b] len) = 4"
  by (simp add: field_head_eq)

lemma unat_small: "n < 256 \<Longrightarrow> unat (of_nat n :: byte) = n"
  by (simp add: unsigned_of_nat take_bit_nat_eq_self)

lemma char_byte_eq [simp]: "char_byte c = char_byte d \<longleftrightarrow> c = d"
  by (metis unat_char_byte char_of_char)

lemma char_byte_consts: "67 = char_byte CHR ''C''" "69 = char_byte CHR ''E''" "0 = char_byte CHR 0x00"
  by (simp_all add: char_byte_def)

text \<open>A field with a proper head, whatever its payload.\<close>

lemma plain_bytes:
  assumes "len = 4 + length body" "len < 256" "[a, b] \<noteq> ''CE''" "[a, b] \<noteq> ''PD''" "[a, b] \<noteq> ''ST''" "a \<noteq> CHR 0x00"
  shows "plain ([char_byte a, char_byte b, of_nat len, v] @ body)"
proof -
  have "unat (of_nat len :: byte) = length ([char_byte a, char_byte b, of_nat len, v] @ body)"
    using unat_small [OF assms(2)] assms(1) by simp
  then show ?thesis
    using assms(3-) unfolding plain_def field_len_def is_CE_def susp_sig_def char_byte_consts by auto
qed

lemma plain_head:
  assumes "len = 4 + length body" "len < 256" "[a, b] \<noteq> ''CE''" "[a, b] \<noteq> ''PD''" "[a, b] \<noteq> ''ST''" "a \<noteq> CHR 0x00"
  shows "plain (field_head [a, b] len @ body)"
  unfolding field_head_eq by (rule plain_bytes [OF assms])

lemma bb_blank:
  assumes "length h = p" "8 \<le> m"
  shows "iso_bb (h @ replicate m 0) p v 4 = (h @ bb_bytes v 4) @ replicate (m - 8) 0"
proof -
  have "replicate m (0::byte) = replicate 8 0 @ replicate (m - 8) 0" using assms(2) by (simp add: replicate_add [symmetric])
  then have "h @ replicate m (0::byte) = h @ replicate 8 0 @ replicate (m - 8) 0" by (simp only: append_assoc)
  from iso_bb_at [OF this assms(1) [symmetric]] show ?thesis by simp
qed

lemmas fill_blanks = append_assoc [symmetric] bb_blank

lemma PX_field_eq:
  "PX_field t n =
     field_head ''PX'' (if px_with_ino t then 44 else 36) @ bb_bytes (px_get_mode t n) 4 @ bb_bytes (rn_nlink n) 4 @
     bb_bytes (px_get_uid t n) 4 @ bb_bytes (px_get_gid t n) 4 @ (if px_with_ino t then bb_bytes (rn_ino n) 4 else [])"
  by (simp add: PX_field_def Let_def fill_blanks del: append_assoc)

lemma PN_field_eq:
  "PN_field n = field_head ''PN'' 20 @ bb_bytes (ucast (drop_bit 32 (rn_dev n))) 4 @ bb_bytes (ucast (rn_dev n)) 4"
  by (simp add: PN_field_def fill_blanks del: append_assoc)

lemma PL_field_eq: "PL_field t blk = field_head ''PL'' 12 @ bb_bytes (blk - img_eff_partition_offset t) 4"
  and CL_field_eq: "CL_field t n = field_head ''CL'' 12 @ bb_bytes (rn_real_me n - img_eff_partition_offset t) 4"
  by (simp_all add: PL_field_def CL_field_def fill_blanks del: append_assoc)

lemma iso_datetime_7_length [simp]: "length (iso_datetime_7 localtime t gmt) = 7"
  by (simp add: iso_datetime_7_def split: prod.splits)

lemma iso_lsb64_length [simp]: "length (iso_lsb64 buf p v) = length buf"
proof -
  have "length (foldl (\<lambda>b i. b[p + i := g i]) buf is) = length buf" for g :: "nat \<Rightarrow> byte" and "is"
    by (induction "is" arbitrary: buf) simp_all
  then show ?thesis by (simp add: iso_lsb64_def)
qed

lemma head_fields_plain:
  "plain (PX_field t n)" "plain (TF_field t n)" "plain (PL_field t blk)" "plain (field_head ''RE'' 4)" "plain (PN_field n)"
  "plain (CL_field t n)" "plain (ES_field k)" "plain (field_head ''SP'' 7 @ [0xbe, 0xef, 0])"
  by (simp_all add: PX_field_eq TF_field_def Let_def PL_field_eq PN_field_eq CL_field_eq ES_field_def plain_head
    plain_head [where body = "[]", simplified])

lemma NM_plain: "len \<le> 250 \<Longrightarrow> len \<le> length name \<Longrightarrow> plain (NM_field name len flags) \<and> length (NM_field name len flags) = len + 5"
  unfolding NM_field_def using plain_head [of "len + 5" "[flags] @ take len (bytes_of name)" "CHR ''N''" "CHR ''M''"] by simp

section \<open>Where the fields go\<close>

definition placed :: "rr_image \<Rightarrow> susp_info \<Rightarrow> byte list list \<Rightarrow> byte list list \<Rightarrow> susp_info" where
  "placed t info sua ca = foldl (susp_append_ce (img_eff_partition_offset t)) (foldl susp_append info sua) ca"

lemma append_commute: "susp_append (susp_append_ce eff info g) f = susp_append_ce eff (susp_append info f) g"
  by (simp add: susp_append_def susp_append_ce_def ce_crossing_def Let_def)

lemma append_placed [simp]:
  "placed t info [] [] = info"
  "susp_append_to t True (placed t info sua ca) f = placed t info sua (ca @ [f])"
  "susp_append_to t False (placed t info sua ca) f = placed t info (sua @ [f]) ca"
proof -
  have "susp_append (foldl (susp_append_ce eff) i ca) f = foldl (susp_append_ce eff) (susp_append i f) ca" for eff i
    by (induction ca arbitrary: i) (simp_all add: append_commute)
  then show "susp_append_to t False (placed t info sua ca) f = placed t info (sua @ [f]) ca"
    by (simp add: placed_def susp_append_to_def)
qed (simp_all add: placed_def susp_append_to_def)

lemma appends_placed:
  "foldl (susp_append_ce (img_eff_partition_offset t)) (placed t info sua ca) fs = placed t info sua (ca @ fs)"
  "foldl (susp_append_to t ce) (placed t info sua ca) fs =
     (if ce then placed t info sua (ca @ fs) else placed t info (sua @ fs) ca)"
proof -
  show "foldl (susp_append_ce (img_eff_partition_offset t)) (placed t info sua ca) fs = placed t info sua (ca @ fs)"
    by (simp add: placed_def)
  show "foldl (susp_append_to t ce) (placed t info sua ca) fs =
     (if ce then placed t info sua (ca @ fs) else placed t info (sua @ fs) ca)"
    by (cases ce; induction fs arbitrary: sua ca) simp_all
qed

section \<open>Prediction and composition of SL\<close>

definition good_comp :: "byte list \<Rightarrow> bool" where
  "good_comp c \<longleftrightarrow> 2 \<le> length c \<and> length c = comp_size c"

lemma append_comp_good:
  assumes "len \<le> length s" "len < 256"
  shows "\<exists>c. rrip_SL_append_comp comps s len fl = comps @ [c] \<and> good_comp c \<and> comp_size c = len + 2"
  using assms by (auto simp: rrip_SL_append_comp_def good_comp_def comp_size_def unat_small)

lemma SL_plain:
  assumes "list_all good_comp comps" "tot = sum_list (map comp_size comps)" "tot \<le> 250"
  shows "plain (SL_field comps tot flags)" "length (SL_field comps tot flags) = tot + 5"
proof -
  have e: "concat (map (\<lambda>c. take (comp_size c) c) comps) = concat comps" "length (concat comps) = tot"
    using assms(1,2) by (induction comps arbitrary: tot) (auto simp: good_comp_def)
  show "length (SL_field comps tot flags) = tot + 5" by (simp add: SL_field_def e)
  show "plain (SL_field comps tot flags)"
    unfolding SL_field_def e(1) using assms(3) e(2) by (intro plain_head) auto
qed

text \<open>The two walks over the components agree: the field in work has the predicted length, and the complete fields are
  those that were counted for the Continuation Area.\<close>

definition sl_inv :: "(nat \<Rightarrow> nat \<Rightarrow> nat) \<Rightarrow> nat \<Rightarrow> bool \<Rightarrow> nat \<Rightarrow> nat \<Rightarrow> byte list list \<Rightarrow> bool" where
  "sl_inv add ce0 cew sl_len ce comps \<longleftrightarrow>
     (\<exists>dn pe tot. foldl sl_push ([], [], 0) comps = (dn, pe, tot) \<and> sl_len = 5 + tot \<and> tot \<le> 250 \<and>
        tot = sum_list (map comp_size pe) \<and> list_all good_comp pe \<and> list_all plain dn \<and>
        ce = foldl add ce0 (map length dn) \<and> (\<not> cew \<longrightarrow> dn = []))"

lemma sl_inv_fits:
  assumes "sl_inv add ce0 cew sl_len ce comps" "good_comp c" "sl_len + comp_size c \<le> 255" "cew \<longrightarrow> cew'"
  shows "sl_inv add ce0 cew' (sl_len + comp_size c) ce (comps @ [c])"
  using assms by (auto simp: sl_inv_def)

lemma sl_inv_flush:
  assumes "sl_inv add ce0 cew sl_len ce comps" "good_comp c" "255 < sl_len + comp_size c" "comp_size c \<le> 250"
  shows "sl_inv add ce0 True (5 + comp_size c) (add ce sl_len) (comps @ [c])"
proof -
  from assms(1) obtain dn pe tot where i: "foldl sl_push ([], [], 0) comps = (dn, pe, tot)" "sl_len = 5 + tot"
    "tot \<le> 250" "tot = sum_list (map comp_size pe)" "list_all good_comp pe" "list_all plain dn" "ce = foldl add ce0 (map length dn)"
    by (auto simp: sl_inv_def)
  have "foldl sl_push ([], [], 0) (comps @ [c]) = (dn @ [SL_field pe tot 1], [c], comp_size c)"
    using i(1,2) assms(3) by simp
  then show ?thesis
    using SL_plain [OF i(5,4,3), of 1] i(2,6,7) assms(2,4) by (auto simp: sl_inv_def add.commute)
qed

lemma comp_len_cases:
  assumes "clen \<le> length prev"
  shows "2 \<le> comp_len prev clen" "comp_len prev clen - 2 \<le> clen" "250 < comp_len prev clen \<Longrightarrow> comp_len prev clen = clen + 2"
  by (auto simp: comp_len_def is_dot_def is_dotdot_def)

lemma comp_step:
  assumes calc: "calc_comp use_ca hop base_ce space su prev clen (cew, sl_len, ce) = Some (cew', sl_len', ce')"
    and inv: "sl_inv (susp_calc_add_to_ce hop base_ce) ce0 cew sl_len ce comps"
    and clen: "clen \<le> length prev" "clen \<le> 255" "clen \<le> 248 \<or> clen = length prev" and space: "su \<le> space" "space \<le> 254"
  shows "\<exists>comps' n. get_comp (space - su) prev clen (comps, sl_len, ce_len1, cew) = Some (comps', sl_len', n, cew') \<and>
     sl_inv (susp_calc_add_to_ce hop base_ce) ce0 cew' sl_len' ce' comps' \<and> (\<not> cew' \<longrightarrow> \<not> cew \<and> n = ce_len1 \<and> su + sl_len' \<le> space)"
proof -
  let ?add = "susp_calc_add_to_ce hop base_ce" and ?cl = "comp_len prev clen"
  note cl = comp_len_cases [OF clen(1)]
  have sl5: "5 \<le> sl_len" "sl_len \<le> 255" using inv by (auto simp: sl_inv_def)
  obtain c where c: "rrip_SL_append_comp comps prev (?cl - 2) (comp_flag prev clen) = comps @ [c]" "good_comp c" "comp_size c = ?cl"
    using append_comp_good [of "?cl - 2" prev comps "comp_flag prev clen"] cl(1,2) clen(1,2) by fastforce
  show ?thesis
  proof (cases "\<not> cew \<and> su + sl_len + ?cl \<le> space")
    case True
    then show ?thesis using calc c sl_inv_fits [OF inv c(2), of False] space
      by (auto simp: calc_comp_def get_comp_def Let_def)
  next
    case False
    then have sua: "\<not> (\<not> cew \<and> sl_len + ?cl \<le> space - su)" using space by linarith
    have ca: "cew \<or> use_ca" using calc False by (auto simp: calc_comp_def Let_def split: if_splits)
    show ?thesis
    proof (cases "255 < sl_len + ?cl")
      case False
      then show ?thesis using calc c sl_inv_fits [OF inv c(2), of True] sua ca \<open>\<not> (\<not> cew \<and> su + sl_len + ?cl \<le> space)\<close>
        by (auto simp: calc_comp_def get_comp_def Let_def)
    next
      case over: True
      show ?thesis
      proof (cases "250 < ?cl")
        case False
        then show ?thesis using calc c sl_inv_flush [OF inv c(2)] sua ca over \<open>\<not> (\<not> cew \<and> su + sl_len + ?cl \<le> space)\<close>
          by (auto simp: calc_comp_def get_comp_def Let_def)
      next
        case big: True
        then have e: "?cl = clen + 2" "clen = length prev" using cl(3) clen(3) by auto
        show ?thesis
        proof (cases "int ?cl - 250 \<le> 255 - int sl_len - 2")
          case True
          define fit where "fit = 253 - sl_len"
          have f: "255 - int sl_len - 2 = int fit" "clen - 248 \<le> fit" "fit \<le> 248" "sl_len + (fit + 2) = 255"
            using True sl5 e(1) big by (auto simp: fit_def)
          obtain c1 where c1: "rrip_SL_append_comp comps prev fit 1 = comps @ [c1]" "good_comp c1" "comp_size c1 = fit + 2"
            using append_comp_good [of fit prev comps 1] f(2,3) e clen(2) big by auto
          obtain c2 where c2: "rrip_SL_append_comp (comps @ [c1]) (drop fit prev) (clen - fit) 0 = (comps @ [c1]) @ [c2]"
            "good_comp c2" "comp_size c2 = clen - fit + 2"
            using append_comp_good [of "clen - fit" "drop fit prev" "comps @ [c1]" 0, OF _ le_less_trans [OF diff_le_self]] e(2) clen(2)
            by auto
          have i1: "sl_inv ?add ce0 True 255 ce (comps @ [c1])"
            using sl_inv_fits [OF inv c1(2), of True] c1(3) f(4) by simp
          have fc: "fit \<le> clen" using f(3) e(1) big by simp
          have i2: "sl_inv ?add ce0 True (5 + (clen - fit + 2)) (?add ce 255) ((comps @ [c1]) @ [c2])"
            using sl_inv_flush [OF i1 c2(2)] c2(3) f(2) by simp
          have n: "nat (int ?cl - int fit - 2) = clen - fit" "nat (5 + (int ?cl - int fit)) = 5 + (clen - fit + 2)"
            using e(1) fc by auto
          show ?thesis using calc sua ca over big True \<open>\<not> (\<not> cew \<and> su + sl_len + ?cl \<le> space)\<close> i2
            unfolding calc_comp_def get_comp_def Let_def prod.case f(1)
            by (auto simp: c1(1) c2(1) n)
        next
          case nofit: False
          obtain c1 where c1: "rrip_SL_append_comp comps prev 248 1 = comps @ [c1]" "good_comp c1" "comp_size c1 = 250"
            using append_comp_good [of 248 prev comps 1] e big by auto
          obtain c2 where c2: "rrip_SL_append_comp (comps @ [c1]) (drop 248 prev) (length prev - 248) 0 = (comps @ [c1]) @ [c2]"
            "good_comp c2" "comp_size c2 = clen - 248 + 2"
            using append_comp_good [of "clen - 248" "drop 248 prev" "comps @ [c1]" 0, OF _ le_less_trans [OF diff_le_self]] e(2) clen(2)
            by auto
          have i1: "sl_inv ?add ce0 True 255 (?add ce sl_len) (comps @ [c1])"
            using sl_inv_flush [OF inv c1(2)] c1(3) nofit e(1) clen(2) by simp
          have i2: "sl_inv ?add ce0 True (5 + (clen - 248 + 2)) (?add (?add ce sl_len) 255) ((comps @ [c1]) @ [c2])"
            using sl_inv_flush [OF i1 c2(2)] c2(3) clen(2) by simp
          have n: "5 + (?cl - 250) + 2 = 5 + (clen - 248 + 2)" using e(1) big by simp
          show ?thesis using calc sua ca over big nofit \<open>\<not> (\<not> cew \<and> su + sl_len + ?cl \<le> space)\<close> i2
            unfolding calc_comp_def get_comp_def Let_def prod.case
            by (auto simp: c1(1) c2(1) n e(1))
        qed
      qed
    qed
  qed
qed

text \<open>Link targets that are written as they should: only a last component may be longer than 248 bytes.\<close>

definition comp_ok :: "string \<Rightarrow> nat \<Rightarrow> unit \<Rightarrow> unit option" where
  "comp_ok prev clen u = (if clen \<le> 248 \<or> clen \<le> 255 \<and> clen = length prev then Some () else None)"

definition dest_ok :: "string \<Rightarrow> bool" where
  "dest_ok dest \<longleftrightarrow> sl_walk comp_ok dest () \<noteq> None"

lemma dest_ok_step:
  assumes "dest_ok prev"
  defines "clen \<equiv> length (takeWhile (\<lambda>c. c \<noteq> CHR ''/'') prev)"
  shows "clen \<le> 255" "clen \<le> 248 \<or> clen = length prev" "clen + 1 < length prev \<Longrightarrow> dest_ok (drop (clen + 1) prev)"
proof -
  have e: "sl_walk comp_ok prev () = (case comp_ok prev clen () of None \<Rightarrow> None
      | Some st1 \<Rightarrow> if length prev \<le> clen + 1 then Some st1 else sl_walk comp_ok (drop (clen + 1) prev) st1)"
    unfolding clen_def by (rule sl_walk.simps [unfolded Let_def])
  show "clen \<le> 255" "clen \<le> 248 \<or> clen = length prev" "clen + 1 < length prev \<Longrightarrow> dest_ok (drop (clen + 1) prev)"
    using assms(1) unfolding dest_ok_def e by (auto simp: comp_ok_def split: if_splits)
qed

lemma sl_walks:
  assumes "sl_walk (calc_comp use_ca hop base_ce space su) prev (cew, sl_len, ce) = Some (cew', sl_len', ce')"
    and "sl_inv (susp_calc_add_to_ce hop base_ce) ce0 cew sl_len ce comps"
    and "dest_ok prev" and "su \<le> space" "space \<le> 254"
  shows "\<exists>comps' n. sl_walk (get_comp (space - su)) prev (comps, sl_len, ce_len1, cew) = Some (comps', sl_len', n, cew') \<and>
     sl_inv (susp_calc_add_to_ce hop base_ce) ce0 cew' sl_len' ce' comps' \<and> (\<not> cew' \<longrightarrow> \<not> cew \<and> n = ce_len1 \<and> su + sl_len' \<le> space)"
  using assms(1-3)
proof (induction "length prev" arbitrary: prev cew sl_len ce comps ce_len1 rule: less_induct)
  case less
  let ?clen = "length (takeWhile (\<lambda>c. c \<noteq> CHR ''/'') prev)"
  note ok = dest_ok_step [OF less.prems(3)]
  obtain cew1 sl1 ce1 where c: "calc_comp use_ca hop base_ce space su prev ?clen (cew, sl_len, ce) = Some (cew1, sl1, ce1)"
    using less.prems(1) by (subst (asm) sl_walk.simps) (auto simp: Let_def split: option.splits)
  from comp_step [OF c less.prems(2) length_takeWhile_le ok(1,2) assms(4,5), of ce_len1]
  obtain comps1 n1 where g: "get_comp (space - su) prev ?clen (comps, sl_len, ce_len1, cew) = Some (comps1, sl1, n1, cew1)"
    and i: "sl_inv (susp_calc_add_to_ce hop base_ce) ce0 cew1 sl1 ce1 comps1"
    and f: "\<not> cew1 \<longrightarrow> \<not> cew \<and> n1 = ce_len1 \<and> su + sl1 \<le> space" by blast
  show ?case
  proof (cases "length prev \<le> ?clen + 1")
    case True
    then have "(cew', sl_len', ce') = (cew1, sl1, ce1)"
      using less.prems(1) c by (subst (asm) sl_walk.simps) (simp add: Let_def)
    then show ?thesis using True g i f by (subst sl_walk.simps) (simp add: Let_def)
  next
    case False
    have "sl_walk (calc_comp use_ca hop base_ce space su) (drop (?clen + 1) prev) (cew1, sl1, ce1) = Some (cew', sl_len', ce')"
      using less.prems(1) c False by (subst (asm) sl_walk.simps) (simp add: Let_def)
    moreover have "length (drop (?clen + 1) prev) < length prev" and l: "?clen + 1 < length prev" using False by auto
    ultimately
    obtain comps' n where "sl_walk (get_comp (space - su)) (drop (?clen + 1) prev) (comps1, sl1, n1, cew1) = Some (comps', sl_len', n, cew')"
      "sl_inv (susp_calc_add_to_ce hop base_ce) ce0 cew' sl_len' ce' comps'"
      "\<not> cew' \<longrightarrow> \<not> cew1 \<and> n = n1 \<and> su + sl_len' \<le> space"
      using less.hyps [OF _ _ i ok(3) [OF l], of n1] by blast
    then show ?thesis using False g f by (subst sl_walk.simps) (auto simp: Let_def)
  qed
qed

lemma sl_inv_start: "sl_inv add ce0 cew 5 ce0 []"
  by (simp add: sl_inv_def)

text \<open>SL as a whole: where the prediction counts the fields, there they are put.\<close>

definition sl_fields :: "byte list list \<Rightarrow> byte list list" where
  "sl_fields comps = (case foldl sl_push ([], [], 0) comps of (dn, pe, tot) \<Rightarrow> dn @ [SL_field pe tot 0])"

lemma SL_placed:
  assumes calc: "calc_sl use_ca hop base_ce space dest (su, ce) = Some (su', ce')"
    and ok: "dest_ok dest" "su \<le> space" "space \<le> 254"
  obtains comps sl_len n cew where
    "sl_walk (get_comp (space - su)) dest ([], 5, ce_start, ce \<noteq> 0) = Some (comps, sl_len, n, cew)"
    and "list_all plain (sl_fields comps)" and "5 \<le> sl_len" and "\<not> cew \<longrightarrow> n = ce_start \<and> ce = 0"
    and "\<And>sua ca. rrip_add_SL t (placed t info sua ca) comps cew =
        Inr (if cew then placed t info sua (ca @ sl_fields comps) else placed t info (sua @ sl_fields comps) ca)"
    and "cew \<longrightarrow> su' = su \<and> ce' = foldl (susp_calc_add_to_ce hop base_ce) ce (map length (sl_fields comps))"
    and "\<not> cew \<longrightarrow> su' = su + length (concat (sl_fields comps)) \<and> ce' = ce \<and> su' \<le> space"
proof -
  let ?add = "susp_calc_add_to_ce hop base_ce"
  obtain cew sl_len ce1 where w: "sl_walk (calc_comp use_ca hop base_ce space su) dest (ce \<noteq> 0, 5, ce) = Some (cew, sl_len, ce1)"
    using calc by (auto simp: calc_sl_def split: option.splits)
  from sl_walks [OF w sl_inv_start ok, of ce_start]
  obtain comps n where g: "sl_walk (get_comp (space - su)) dest ([], 5, ce_start, ce \<noteq> 0) = Some (comps, sl_len, n, cew)"
    and i: "sl_inv ?add ce cew sl_len ce1 comps" and f: "\<not> cew \<longrightarrow> \<not> ce \<noteq> 0 \<and> n = ce_start \<and> su + sl_len \<le> space"
    by blast
  from i obtain dn pe tot where s: "foldl sl_push ([], [], 0) comps = (dn, pe, tot)" "sl_len = 5 + tot" "tot \<le> 250"
    "tot = sum_list (map comp_size pe)" "list_all good_comp pe" "list_all plain dn" "ce1 = foldl ?add ce (map length dn)"
    "\<not> cew \<longrightarrow> dn = []" by (auto simp: sl_inv_def)
  note last = SL_plain [OF s(5,4,3), of 0]
  have sls: "sl_fields comps = dn @ [SL_field pe tot 0]" by (simp add: sl_fields_def s(1))
  show thesis
  proof (rule that [OF g])
    show "list_all plain (sl_fields comps)" using s(6) last by (simp add: sls)
    show "5 \<le> sl_len" using s(2) by simp
    show "\<not> cew \<longrightarrow> n = ce_start \<and> ce = 0" using f by blast
    show "rrip_add_SL t (placed t info sua ca) comps cew =
        Inr (if cew then placed t info sua (ca @ sl_fields comps) else placed t info (sua @ sl_fields comps) ca)" for sua ca
      using s(8) by (auto simp: rrip_add_SL_def s(1) appends_placed sls)
    show "cew \<longrightarrow> su' = su \<and> ce' = foldl ?add ce (map length (sl_fields comps))"
      using calc w s(2,7) last by (auto simp: calc_sl_def add.commute sls)
    show "\<not> cew \<longrightarrow> su' = su + length (concat (sl_fields comps)) \<and> ce' = ce \<and> su' \<le> space"
      using calc w s(2,7,8) last f by (auto simp: calc_sl_def sls)
  qed
qed

section \<open>ZF and AL\<close>

definition zf_fields :: "rr_image \<Rightarrow> rr_node \<Rightarrow> byte list list" where
  "zf_fields t n = (if rn_type n = ECMA119_FILE then (case rn_zf n of Some zf \<Rightarrow> [ZF_field t zf] | None \<Rightarrow> []) else [])"

definition aa_fields :: "rr_image \<Rightarrow> rr_node \<Rightarrow> byte list list" where
  "aa_fields t n =
     (case rn_aa n of
        Some d \<Rightarrow> if aaip (img_opts t) \<and> aaip_count_bytes d > 0 then (if announce_aaip t then [ES_field 1] else []) @ aa_chain d else []
      | None \<Rightarrow> [])"

definition zf_ok :: "rr_node \<Rightarrow> bool" where
  "zf_ok n \<longleftrightarrow> (case rn_zf n of
     Some zf \<Rightarrow> zf_algo zf = (char_byte CHR ''p'', char_byte CHR ''z'') \<longrightarrow> zf_uncompressed_size zf \<le> 0xffffffff | None \<Rightarrow> True)"

lemma add_ge: "ce + x \<le> susp_calc_add_to_ce hop base_ce ce x"
  by (simp add: susp_calc_add_to_ce_def Let_def)

lemma add_fold_ge: "ce + sum_list xs \<le> foldl (susp_calc_add_to_ce hop base_ce) ce xs"
proof (induction xs arbitrary: ce)
  case (Cons x xs)
  have "ce + x + sum_list xs \<le> susp_calc_add_to_ce hop base_ce ce x + sum_list xs" using add_ge [of ce x hop base_ce] by simp
  also have "\<dots> \<le> foldl (susp_calc_add_to_ce hop base_ce) (susp_calc_add_to_ce hop base_ce ce x) xs" by (rule Cons.IH)
  finally show ?case by (simp add: add.assoc)
qed simp

definition zf_payload :: "zf_info \<Rightarrow> byte list" where
  "zf_payload zf =
     (if zf_algo zf = (char_byte CHR ''p'', char_byte CHR ''z'') then bb_bytes (ucast (zf_uncompressed_size zf)) 4
      else le_bytes (zf_uncompressed_size zf) 8)"

lemma ZF_field_eq:
  "ZF_field t zf =
     (let pz = (zf_algo zf = (char_byte CHR ''p'', char_byte CHR ''z''))
      in [char_byte CHR ''Z'', char_byte (if \<not> pz \<and> img_susp_z2 t then CHR ''2'' else CHR ''F''), 16, if pz then 1 else 2,
          fst (zf_algo zf), snd (zf_algo zf), zf_header_size_div4 zf, zf_block_size_log2 zf] @ zf_payload zf)"
proof -
  have lsb: "length xs = 8 \<Longrightarrow> iso_lsb64 (xs @ replicate 8 0) 8 v = xs @ le_bytes v 8" for xs v
    using buf_put_app [of "replicate 8 0" "le_bytes v 8" xs "[]"] by (simp add: iso_lsb64_put)
  have bb: "length xs = 8 \<Longrightarrow> iso_bb (xs @ replicate 8 0) 8 v 4 = xs @ bb_bytes v 4" for xs v
    using bb_blank [of xs 8 8 v] by simp
  show ?thesis
  proof (cases "zf_algo zf = (char_byte CHR ''p'', char_byte CHR ''z'')")
    case True
    then show ?thesis
      using bb [of "[char_byte CHR ''Z'', char_byte CHR ''F'', 16, 1, fst (zf_algo zf), snd (zf_algo zf),
          zf_header_size_div4 zf, zf_block_size_log2 zf]"]
      by (simp add: ZF_field_def zf_payload_def field_head_eq)
  next
    case False
    then show ?thesis
      using lsb [of "[char_byte CHR ''Z'', char_byte (if img_susp_z2 t then CHR ''2'' else CHR ''F''), 16, 2, fst (zf_algo zf),
          snd (zf_algo zf), zf_header_size_div4 zf, zf_block_size_log2 zf]"]
      by (cases "img_susp_z2 t") (simp_all add: ZF_field_def zf_payload_def field_head_eq)
  qed
qed

lemma ZF_length [simp]: "length (ZF_field t zf) = 16"
  by (simp add: ZF_field_eq Let_def zf_payload_def)

lemma ZF_plain: "plain (ZF_field t zf)"
proof -
  have l: "length (zf_payload zf) = 8" by (simp add: zf_payload_def)
  have "plain ([char_byte CHR ''Z'', char_byte c, of_nat 16, v] @ [p, q, r, s] @ zf_payload zf)" for c p q r s v
    by (rule plain_bytes) (simp_all add: l)
  then show ?thesis by (simp add: ZF_field_eq Let_def)
qed

text \<open>A group of fields goes to the Continuation Area if this is in use or the record has no room for it.\<close>

definition group_sizes :: "bool \<Rightarrow> nat \<Rightarrow> byte list list \<Rightarrow> nat \<times> nat \<Rightarrow> nat \<times> nat" where
  "group_sizes hop base_ce fs = (\<lambda>(free, ce).
     if fs = [] then (free, ce)
     else if free < length (concat fs) \<or> ce > 0 then (free, foldl (susp_calc_add_to_ce hop base_ce) ce (map length fs))
     else (free - length (concat fs), ce))"

definition group_placed :: "rr_image \<Rightarrow> susp_info \<Rightarrow> byte list list \<Rightarrow> nat \<times> nat \<Rightarrow> byte list list \<times> byte list list \<Rightarrow> susp_info" where
  "group_placed t info fs st = (\<lambda>(sua, ca).
     if fst st < length (concat fs) \<or> snd st > 0 then placed t info sua (ca @ fs) else placed t info (sua @ fs) ca)"

lemma zf_group:
  "zf_sizes n hop base_ce st = group_sizes hop base_ce (zf_fields t n) st"
  by (cases st) (auto simp: zf_sizes_def group_sizes_def zf_fields_def split: option.splits)

lemma add_zf_placed:
  assumes "zf_ok n"
  shows "add_zf_field t n (placed t info sua ca) st m =
     Inr (if zf_fields t n = [] then placed t info sua ca else group_placed t info (zf_fields t n) st (sua, ca),
       group_sizes True m (zf_fields t n) st)"
  using assms add_ge [of "snd st" 16 True m]
  by (cases st) (auto simp: add_zf_field_def zf_fields_def zf_ok_def zisofs_add_ZF_def group_placed_def group_sizes_def
      zf_sizes_def Let_def split: option.splits)

lemma aa_group: "aa_sizes t n hop base_ce st = group_sizes hop base_ce (aa_fields t n) st"
proof -
  have e: "length (concat fs) = sum_list (map length fs)" for fs :: "byte list list" by (induction fs) auto
  have c: "length (concat (aa_chain d)) = aaip_count_bytes d" for d by (simp add: aaip_count_bytes_def e)
  have n: "aaip_count_bytes d > 0 \<Longrightarrow> aa_chain d \<noteq> []" for d by (auto simp: aaip_count_bytes_def)
  show ?thesis
    by (cases st) (auto simp: aa_sizes_def al_sizes_def group_sizes_def aa_fields_def announce_aaip_def ES_field_def c n Let_def
        add.commute split: option.splits)
qed

lemma group_to_ce:
  assumes "0 < length (concat fs)"
  shows "0 < snd (group_sizes hop base_ce fs st) \<longleftrightarrow> fst st < length (concat fs) \<or> 0 < snd st"
proof -
  have "length (concat fs) = sum_list (map length fs)" by (induction fs) auto
  then show ?thesis
    using add_fold_ge [of "snd st" "map length fs" hop base_ce] assms by (cases st) (auto simp: group_sizes_def)
qed

lemma add_aa_placed:
  "fst (add_aa_string t n (placed t info sua ca) st m) =
     (if aa_fields t n = [] then placed t info sua ca else group_placed t info (aa_fields t n) st (sua, ca))"
proof (cases "rn_aa n")
  case (Some d)
  show ?thesis
  proof (cases "aaip (img_opts t) \<and> aaip_count_bytes d > 0")
    case True
    then have aa: "aa_fields t n = (if announce_aaip t then [ES_field 1] else []) @ aa_chain d" by (simp add: aa_fields_def Some)
    have "length (concat (aa_chain d)) = aaip_count_bytes d"
      unfolding aaip_count_bytes_def by (induction "aa_chain d") (auto simp: length_concat)
    then have pos: "0 < length (concat (aa_fields t n))" and ne: "aa_fields t n \<noteq> []" using True by (auto simp: aa)
    have s: "al_sizes t True m d st = group_sizes True m (aa_fields t n) st"
      using aa_group [of t n True m st] True Some by (simp add: aa_sizes_def)
    show ?thesis
      using group_to_ce [OF pos, of True m st] True Some ne
      by (auto simp: add_aa_string_def aaip_add_AL_def Let_def s group_placed_def susp_add_ES_def appends_placed aa)
  qed (auto simp: add_aa_string_def aa_fields_def Some)
qed (simp add: add_aa_string_def aa_fields_def)

section \<open>The prediction is what is written\<close>

text \<open>The state of the composition in terms of the fields in the record and in the Continuation Area; in the
  prediction it is the size of the record and of the area.\<close>

definition in_step :: "bool \<Rightarrow> nat \<Rightarrow> nat \<Rightarrow> nat \<Rightarrow> nat \<times> nat \<Rightarrow> byte list list \<times> byte list list \<Rightarrow> bool" where
  "in_step hop base_ce space su0 st p \<longleftrightarrow>
     fst st = su0 + length (concat (fst p)) \<and> fst st \<le> space \<and> list_all plain (fst p) \<and> list_all plain (snd p) \<and>
     snd st = foldl (susp_calc_add_to_ce hop base_ce) 0 (map length (snd p))"

lemma concat_pos: "list_all plain fs \<Longrightarrow> fs \<noteq> [] \<Longrightarrow> 0 < length (concat fs)"
  using plainD(1) by (cases fs) fastforce+

lemma in_step_ce: "in_step hop base_ce space su0 (su, ce) (sua, ca) \<Longrightarrow> 0 < ce \<longleftrightarrow> ca \<noteq> []"
  using add_fold_ge [of 0 "map length ca" hop base_ce] concat_pos [of ca] by (auto simp: in_step_def length_concat)

text \<open>One group of fields.\<close>

lemma group_step:
  assumes st: "in_step hop base_ce space su0 (su, ce) (sua, ca)" and pl: "list_all plain fs" and free: "free = space - su"
    and cel: "0 < ce \<longleftrightarrow> 0 < cel" and g: "group_sizes hop base_ce fs (free, ce) = (free', ce')"
  obtains sua' ca' cel' where "sua' @ ca' = fs" "ca \<noteq> [] \<longrightarrow> sua' = []" "free' \<le> space"
    and "in_step hop base_ce space su0 (space - free', ce') (sua @ sua', ca @ ca')"
    and "(if fs = [] then placed t info sua ca else group_placed t info fs (free, cel) (sua, ca)) = placed t info (sua @ sua') (ca @ ca')"
    and "group_sizes True m fs (free, cel) = (free', cel')" and "0 < ce' \<longleftrightarrow> 0 < cel'"
proof -
  have c: "0 < ce \<longleftrightarrow> ca \<noteq> []" by (rule in_step_ce [OF st])
  have su: "su \<le> space" using st by (simp add: in_step_def)
  show thesis
  proof (cases "fs = [] \<or> \<not> (free < length (concat fs) \<or> 0 < ce)")
    case True
    then have e: "free' = free - length (concat fs)" "ce' = ce" using g by (auto simp: group_sizes_def split: if_splits)
    show thesis
    proof (rule that [of fs "[]" cel])
      show "ca \<noteq> [] \<longrightarrow> fs = []" using True c by auto
      show "group_sizes True m fs (free, cel) = (free', cel)" using True cel e by (auto simp: group_sizes_def)
      show "in_step hop base_ce space su0 (space - free', ce') (sua @ fs, ca @ [])"
        using st pl True e free by (auto simp: in_step_def)
    qed (use True c cel e free su in \<open>auto simp: group_placed_def\<close>)
  next
    case False
    then have e: "free' = free" "ce' = foldl (susp_calc_add_to_ce hop base_ce) ce (map length fs)" using g by (auto simp: group_sizes_def split: if_splits)
    have pos: "0 < length (concat fs)" using concat_pos pl False by blast
    have "group_sizes True m fs (free, cel) = (free', snd (group_sizes True m fs (free, cel)))"
      using False cel e by (auto simp: group_sizes_def)
    moreover have "0 < ce' \<longleftrightarrow> 0 < snd (group_sizes True m fs (free, cel))"
      using group_to_ce [OF pos, of hop base_ce "(free, ce)"] group_to_ce [OF pos, of True m "(free, cel)"] g False cel by simp
    moreover have "in_step hop base_ce space su0 (space - free', ce') (sua @ [], ca @ fs)"
      using st pl e free by (auto simp: in_step_def)
    ultimately show thesis
      using that [of "[]" fs "snd (group_sizes True m fs (free, cel))"] False cel e free by (auto simp: group_placed_def)
  qed
qed

lemma aa_zf_plain:
  assumes "\<And>d. rn_aa n = Some d \<Longrightarrow> list_all plain (aa_chain d)"
  shows "list_all plain (zf_fields t n)" "list_all plain (aa_fields t n)"
  using assms by (auto simp: zf_fields_def aa_fields_def ZF_plain head_fields_plain split: option.splits)

lemma rest_step:
  assumes calc: "calc_rest t n use_ca hop base_ce space (su, ce) = Calc su' ce'"
    and st: "in_step hop base_ce space su0 (su, ce) (sua, ca)" and aa: "\<And>d. rn_aa n = Some d \<Longrightarrow> list_all plain (aa_chain d)"
    and zf: "zf_ok n" and cel: "0 < ce \<longleftrightarrow> 0 < cel"
    and free: "free = space - su \<or> zf_fields t n = [] \<and> aa_fields t n = []"
  obtains sua' ca' st' where
    "add_zf_field t n (placed t info sua ca) (free, cel) m = Inr (fst st', snd st')"
    and "fst (add_aa_string t n (fst st') (snd st') m) = placed t info (sua @ sua') (ca @ ca')"
    and "sua' @ ca' = zf_fields t n @ aa_fields t n" "ca \<noteq> [] \<longrightarrow> sua' = []"
    and "in_step hop base_ce space su0 (su', ce') (sua @ sua', ca @ ca')" and "ca @ ca' \<noteq> [] \<Longrightarrow> use_ca"
    and "ca @ ca' \<noteq> [] \<Longrightarrow> hop \<or> base_ce div 2048 = (base_ce + ce' + 27) div 2048"
proof -
  have pl: "list_all plain (zf_fields t n)" "list_all plain (aa_fields t n)" using aa_zf_plain [of n] aa by blast+
  have su: "su \<le> space" using st by (simp add: in_step_def)
  obtain f1 c1 f2 c2 where g: "group_sizes hop base_ce (zf_fields t n) (space - su, ce) = (f1, c1)"
    "group_sizes hop base_ce (aa_fields t n) (f1, c1) = (f2, c2)" by (metis surj_pair)
  have z: "zf_sizes n hop base_ce (space - su, ce) = (f1, c1)" "aa_sizes t n hop base_ce (f1, c1) = (f2, c2)"
    using g zf_group [of n hop base_ce "(space - su, ce)" t] by (simp_all add: aa_group)
  have r: "su' = space - f2" "ce' = c2" "0 < c2 \<Longrightarrow> use_ca"
    "0 < c2 \<Longrightarrow> hop \<or> base_ce div 2048 = (base_ce + c2 + 27) div 2048"
    using calc z by (auto simp: calc_rest_def BLOCK_SIZE_def ISO_CE_ENTRY_SIZE_def split: if_splits)
  show thesis
  proof (cases "zf_fields t n = [] \<and> aa_fields t n = []")
    case True
    then have e: "su' = su" "ce' = ce" using g r su by (auto simp: group_sizes_def)
    show thesis
      by (rule that [of "(placed t info sua ca, free, cel)" "[]" "[]"])
        (use True e st r in_step_ce [OF st] su in \<open>auto simp: add_zf_placed [OF zf] add_aa_placed group_sizes_def\<close>)
  next
    case False
    then have fr: "free = space - su" using free by blast
    obtain s1 a1 l1 where 1: "s1 @ a1 = zf_fields t n" "ca \<noteq> [] \<longrightarrow> s1 = []" "f1 \<le> space"
      "in_step hop base_ce space su0 (space - f1, c1) (sua @ s1, ca @ a1)"
      "(if zf_fields t n = [] then placed t info sua ca else group_placed t info (zf_fields t n) (free, cel) (sua, ca)) =
         placed t info (sua @ s1) (ca @ a1)"
      "group_sizes True m (zf_fields t n) (free, cel) = (f1, l1)" "0 < c1 \<longleftrightarrow> 0 < l1"
      by (rule group_step [OF st pl(1) fr cel g(1) [folded fr], where t = t and info = info and m = m])
    have f1: "f1 = space - (space - f1)" using 1(3) by simp
    obtain s2 a2 l2 where 2: "s2 @ a2 = aa_fields t n" "ca @ a1 \<noteq> [] \<longrightarrow> s2 = []" "f2 \<le> space"
      "in_step hop base_ce space su0 (space - f2, c2) ((sua @ s1) @ s2, (ca @ a1) @ a2)"
      "(if aa_fields t n = [] then placed t info (sua @ s1) (ca @ a1)
        else group_placed t info (aa_fields t n) (f1, l1) (sua @ s1, ca @ a1)) =
         placed t info ((sua @ s1) @ s2) ((ca @ a1) @ a2)"
      "group_sizes True m (aa_fields t n) (f1, l1) = (f2, l2)" "0 < c2 \<longleftrightarrow> 0 < l2"
      by (rule group_step [OF 1(4) pl(2) f1 1(7) g(2), where t = t and info = info and m = m])
    show thesis
    proof (rule that [of "(placed t info (sua @ s1) (ca @ a1), f1, l1)" "s1 @ s2" "a1 @ a2"], unfold fst_conv snd_conv)
      show "add_zf_field t n (placed t info sua ca) (free, cel) m = Inr (placed t info (sua @ s1) (ca @ a1), f1, l1)"
        using 1(5,6) by (simp add: add_zf_placed [OF zf])
      show "fst (add_aa_string t n (placed t info (sua @ s1) (ca @ a1)) (f1, l1) m) = placed t info (sua @ s1 @ s2) (ca @ a1 @ a2)"
        using 2(5) by (simp add: add_aa_placed)
      show "(s1 @ s2) @ a1 @ a2 = zf_fields t n @ aa_fields t n" using 1(1,2) 2(1,2) by (cases "a1 = []") auto
      show "ca \<noteq> [] \<longrightarrow> s1 @ s2 = []" using 1(2) 2(2) by simp
      show "in_step hop base_ce space su0 (su', ce') (sua @ s1 @ s2, ca @ a1 @ a2)" using 2(4) r by simp
      show use_ca if "ca @ a1 @ a2 \<noteq> []" using in_step_ce [OF 2(4)] that r(3) by simp
      show "hop \<or> base_ce div 2048 = (base_ce + ce' + 27) div 2048" if "ca @ a1 @ a2 \<noteq> []"
        using in_step_ce [OF 2(4)] that r by simp
    qed
  qed
qed

section \<open>NM, and the fields of a node as a whole\<close>

text \<open>The part of the name in the record and the part in the Continuation Area, when \<open>free\<close> bytes are left.\<close>

definition nm_parts :: "string \<Rightarrow> nat \<Rightarrow> byte list \<times> byte list list" where
  "nm_parts nm free =
     (if 5 + length nm \<le> free then (NM_field nm (length nm) 0, [])
      else (NM_field nm (free - 5) 1, [NM_field (drop (free - 5) nm) (length nm - (free - 5)) 0]))"

lemma NM_step:
  assumes calc: "calc_nm t n use_ca hop base_ce space su0 0 = Some (su, ce)" and nm: "img_conv t (rn_name n) = Some nm"
    and room: "use_ca \<longrightarrow> su0 + 10 \<le> space" "su0 \<le> space" "space \<le> 254" "length nm \<le> 255" "14 \<le> su0"
  shows "plain (fst (nm_parts nm (space - su0)))"
    and "in_step hop base_ce space (su0 + length (fst (nm_parts nm (space - su0)))) (su, ce) ([], snd (nm_parts nm (space - su0)))"
    and "0 < ce \<longleftrightarrow> space - su0 < 5 + length nm" and "0 < ce \<longrightarrow> use_ca"
    and "space - su = (if space - su0 < 5 + length nm then 0 else space - su0 - (5 + length nm))"
    and "rrip_add_NM t info nm (if space - su0 < 5 + length nm then int (space - su0) - 5 else int (length nm))
        (if space - su0 < 5 + length nm then 1 else 0) False = Some (Inr (susp_append info (fst (nm_parts nm (space - su0)))))"
    and "space - su0 < 5 + length nm \<Longrightarrow>
        rrip_add_NM t info (drop (nat (int (space - su0) - 5)) nm) (int (length (drop (nat (int (space - su0) - 5)) nm))) 0 True =
        Some (Inr (placed t info [] (snd (nm_parts nm (space - su0)))))"
proof -
  let ?free = "space - su0"
  have n: "nat (int ?free - 5) = ?free - 5" by simp
  note nma = NM_plain [of "length nm" nm 0]
  have all: "plain (fst (nm_parts nm ?free)) \<and>
     in_step hop base_ce space (su0 + length (fst (nm_parts nm ?free))) (su, ce) ([], snd (nm_parts nm ?free)) \<and>
     (0 < ce \<longleftrightarrow> ?free < 5 + length nm) \<and> (0 < ce \<longrightarrow> use_ca) \<and>
     space - su = (if ?free < 5 + length nm then 0 else ?free - (5 + length nm))"
  proof (cases "5 + length nm \<le> ?free")
    case True
    then have "su0 + 5 + length nm \<le> space" using room(2) by linarith
    then have "su = su0 + 5 + length nm" "ce = 0" "su \<le> space" using calc nm by (simp_all add: calc_nm_def)
    moreover have "length nm \<le> 250" using True room(3,5) by linarith
    ultimately show ?thesis using nma True by (simp add: nm_parts_def in_step_def)
  next
    case False
    then have ca: "use_ca" "su = space" "ce = susp_calc_add_to_ce hop base_ce 0 (5 + (length nm + su0 + 5 - space))"
      using calc nm room(2) by (auto simp: calc_nm_def Let_def split: if_splits)
    have f: "10 \<le> ?free" using room(1) ca(1) by linarith
    have a: "plain (NM_field nm (?free - 5) 1) \<and> length (NM_field nm (?free - 5) 1) = ?free - 5 + 5"
      using NM_plain [of "?free - 5" nm 1] room(3,5) False by linarith
    have b: "plain (NM_field (drop (?free - 5) nm) (length nm - (?free - 5)) 0) \<and>
        length (NM_field (drop (?free - 5) nm) (length nm - (?free - 5)) 0) = length nm - (?free - 5) + 5"
      using NM_plain [of "length nm - (?free - 5)" "drop (?free - 5) nm" 0] room(4) f by simp
    have l: "5 + (length nm + su0 + 5 - space) = length nm - (?free - 5) + 5" using False f by linarith
    show ?thesis using a b ca False f room(2) add_ge [of 0 "length nm - (?free - 5) + 5" hop base_ce]
      by (auto simp: nm_parts_def in_step_def l)
  qed
  then show "plain (fst (nm_parts nm ?free))"
    "in_step hop base_ce space (su0 + length (fst (nm_parts nm ?free))) (su, ce) ([], snd (nm_parts nm ?free))"
    "0 < ce \<longleftrightarrow> ?free < 5 + length nm" "0 < ce \<longrightarrow> use_ca"
    "space - su = (if ?free < 5 + length nm then 0 else ?free - (5 + length nm))" by blast+
  have f: "10 \<le> ?free" if "?free < 5 + length nm" using room(1) all that by linarith
  show "rrip_add_NM t info nm (if ?free < 5 + length nm then int ?free - 5 else int (length nm))
      (if ?free < 5 + length nm then 1 else 0) False = Some (Inr (susp_append info (fst (nm_parts nm ?free))))"
    using f room(3,5) by (auto simp: rrip_add_NM_def susp_append_to_def nm_parts_def n)
  show "rrip_add_NM t info (drop (nat (int ?free - 5)) nm) (int (length (drop (nat (int ?free - 5)) nm))) 0 True =
      Some (Inr (placed t info [] (snd (nm_parts nm ?free))))" if "?free < 5 + length nm"
  proof -
    let ?d = "drop (?free - 5) nm"
    have 1: "rrip_add_NM t info d (int (length d)) 0 True = Some (Inr (placed t info [] [NM_field d (length d) 0]))" if "length d \<le> 250" for d
      using that by (simp add: rrip_add_NM_def susp_append_to_def placed_def)
    moreover have "snd (nm_parts nm ?free) = [NM_field ?d (length ?d) 0]" using that by (simp add: nm_parts_def)
    moreover have "length ?d \<le> 250" using f that room(4) by simp
    ultimately show ?thesis unfolding n using 1 by (simp only:)
  qed
qed

text \<open>The nodes for which prediction and composition agree. A link with AAIP fields is left out (see
  \<open>symlink_aaip_overflow\<close> below), and so are link targets with a long component before the last one.\<close>

definition rr_ok :: "rr_image \<Rightarrow> rr_node \<Rightarrow> bool" where
  "rr_ok t n \<longleftrightarrow>
     (case img_conv t (rn_name n) of Some nm \<Rightarrow> length nm \<le> 255 | None \<Rightarrow> False) \<and>
     (rn_type n = ECMA119_SYMLINK \<longrightarrow>
        (case img_conv t (rn_dest n) of Some d \<Rightarrow> dest_ok d | None \<Rightarrow> False) \<and> aa_fields t n = []) \<and>
     zf_ok n \<and> (case rn_aa n of Some d \<Rightarrow> list_all plain (aa_chain d) | None \<Rightarrow> True)"

definition sl_parts :: "rr_image \<Rightarrow> rr_node \<Rightarrow> byte list list \<Rightarrow> bool" where
  "sl_parts t n sls \<longleftrightarrow>
     (if rn_type n = ECMA119_SYMLINK
      then \<exists>d free c cew comps r. img_conv t (rn_dest n) = Some d \<and> free \<le> 254 \<and>
             sl_walk (get_comp free) d ([], 5, c, cew) = Some (comps, r) \<and> sls = sl_fields comps
      else sls = [])"

definition nm_info :: "rr_image \<Rightarrow> susp_info \<Rightarrow> byte list \<Rightarrow> bool \<Rightarrow> nat \<Rightarrow> susp_info" where
  "nm_info t info nm1 predicted ce =
     (if predicted then susp_add_CE (img_eff_partition_offset t) ce (susp_append info nm1) else susp_append info nm1)"

lemma names_placed:
  fixes t n info space
  defines "H \<equiv> suf_len info"
  assumes ok: "rr_ok t n" and room: "H + 38 \<le> space" "space \<le> 254" "14 \<le> H"
    and calc: "susp_calc_nm_sl_al t n space H 0 (ce_len info) predicted hop = Calc su ce" "hop \<longrightarrow> predicted"
    and pred: "predict t n space H (ce_len info) = (Calc su ce, predicted)"
    and nm: "img_conv t (rn_name n) = Some nm"
  defines "S \<equiv> H + (if predicted then 28 else 0)"
  defines "nm1 \<equiv> fst (nm_parts nm (space - S))" and "nm2 \<equiv> snd (nm_parts nm (space - S))"
  obtains sua ca sls where
    "add_names t n space info = Some (Inr (placed t (nm_info t info nm1 predicted ce) sua ca))"
    and "in_step hop (ce_len info) space (S + length nm1) (su, ce) (sua, ca)" "plain nm1"
    and "sua @ ca = nm2 @ sls @ zf_fields t n @ aa_fields t n" "sl_parts t n sls" "ca \<noteq> [] \<longrightarrow> predicted"
    and "ca \<noteq> [] \<longrightarrow> hop \<or> ce_len info div 2048 = (ce_len info + ce + 27) div 2048"
proof -
  let ?base = "ce_len info" and ?free = "space - S"
  have uc: "(predicted \<or> hop) = predicted" using calc(2) by blast
  obtain su1 ce1 where n1: "calc_nm t n predicted hop ?base space S 0 = Some (su1, ce1)"
    using calc(1) unfolding susp_calc_nm_sl_al_def uc Let_def S_def by (auto split: option.splits if_splits)
  have len: "length nm \<le> 255" and zf: "zf_ok n" and aa: "\<And>d. rn_aa n = Some d \<Longrightarrow> list_all plain (aa_chain d)"
    using ok nm by (auto simp: rr_ok_def)
  have Sr: "predicted \<longrightarrow> S + 10 \<le> space" "S \<le> space" "14 \<le> S" using room by (auto simp: S_def)
  note N = NM_step [OF n1 nm Sr(1,2) room(2) len Sr(3), folded nm1_def nm2_def]
  let ?info2 = "nm_info t info nm1 predicted ce" and ?in_ce = "?free < 5 + length nm"
  define cl0 where "cl0 = (if ?in_ce then 5 + (length nm + 5 - ?free) else 0)"
  have cl0: "0 < ce1 \<longleftrightarrow> 0 < cl0" using N(3) by (simp add: cl0_def)
  have free0: "space - suf_len info - (if predicted then 28 else 0) = ?free" by (simp add: S_def H_def)
  have nm_len: "int space - int (suf_len info) - (if predicted then 28 else 0) - 5 = int ?free - 5" using Sr(2) by (auto simp: S_def H_def)
  have nm2_0: "nm2 = []" if "\<not> ?in_ce" using that by (simp add: nm2_def nm_parts_def)
  have third: "(if ?in_ce then rrip_add_NM t i2 (drop (nat (int ?free - 5)) nm) (int (length (drop (nat (int ?free - 5)) nm))) 0 True
      else Some (Inr i2)) = Some (Inr (placed t i2 [] nm2))" for i2
    using N(7) nm2_0 by auto
  define k where "k = int ?free - 5"
  have names: "and_then (rrip_add_NM t info nm (if ?in_ce then k else int (length nm)) (if ?in_ce then 1 else 0) False) (\<lambda>i1.
      and_then (if ?in_ce
        then rrip_add_NM t (if predicted then susp_add_CE (img_eff_partition_offset t) ce i1 else i1)
          (drop (nat (if ?in_ce then k else int (length nm))) nm)
          (int (length (drop (nat (if ?in_ce then k else int (length nm))) nm))) 0 True
        else Some (Inr (if predicted then susp_add_CE (img_eff_partition_offset t) ce i1 else i1))) f) =
      f (placed t ?info2 [] nm2)" for f :: "susp_info \<Rightarrow> (iso_error + susp_info) option"
  proof -
    have 1: "rrip_add_NM t info nm (if ?in_ce then k else int (length nm)) (if ?in_ce then 1 else 0) False =
        Some (Inr (susp_append info nm1))"
      using N(6) unfolding k_def .
    show ?thesis
      using third [of ?info2] unfolding k_def [symmetric] 1 by (cases ?in_ce) (simp_all add: and_then_def nm_info_def)
  qed
  have cl0_if: "(if ?in_ce then 5 + (length nm + 5 - ?free) else 0) = cl0" by (simp add: cl0_def)
  have free_if: "(if ?in_ce then 0 else ?free - (5 + length nm)) = space - su1" using N(5) by simp
  show thesis
  proof (cases "rn_type n = ECMA119_SYMLINK")
    case False
    have rest: "calc_rest t n predicted hop ?base space (su1, ce1) = Calc su ce"
      using calc(1) n1 False unfolding susp_calc_nm_sl_al_def uc Let_def S_def by (auto split: if_splits)
    obtain sua ca st' where r: "add_zf_field t n (placed t ?info2 [] nm2) (space - su1, cl0) ?base = Inr (fst st', snd st')"
      "fst (add_aa_string t n (fst st') (snd st') ?base) = placed t ?info2 ([] @ sua) (nm2 @ ca)"
      "sua @ ca = zf_fields t n @ aa_fields t n" "nm2 \<noteq> [] \<longrightarrow> sua = []"
      "in_step hop ?base space (S + length nm1) (su, ce) ([] @ sua, nm2 @ ca)" "nm2 @ ca \<noteq> [] \<Longrightarrow> predicted"
      "nm2 @ ca \<noteq> [] \<Longrightarrow> hop \<or> ?base div 2048 = (?base + ce + 27) div 2048"
      by (rule rest_step [OF rest N(2) aa zf cl0, where free = "space - su1" and info = ?info2 and m = ?base]) auto
    show thesis
    proof (rule that [of sua "nm2 @ ca" "[]"])
      show "add_names t n space info = Some (Inr (placed t ?info2 sua (nm2 @ ca)))"
        using r(1,2) unfolding add_names_def nm pred [unfolded H_def] option.case calc_result.case prod.case Let_def free0 nm_len
          k_def [symmetric] if_not_P [OF False] cl0_if free_if names
        by (simp add: and_then_def case_prod_beta)
      show "sua @ nm2 @ ca = nm2 @ [] @ zf_fields t n @ aa_fields t n" using r(3,4) by (cases "nm2 = []") auto
    qed (use r N(1) False in \<open>auto simp: sl_parts_def\<close>)
  next
    case True
    then obtain d where d: "img_conv t (rn_dest n) = Some d" "dest_ok d" and noaa: "aa_fields t n = []"
      using ok by (auto simp: rr_ok_def split: option.splits)
    have nozf: "zf_fields t n = []" using True by (simp add: zf_fields_def)
    obtain su2 ce2 where sl: "calc_sl predicted hop ?base space d (su1, ce1) = Some (su2, ce2)"
      and rest: "calc_rest t n predicted hop ?base space (su2, ce2) = Calc su ce"
      using calc(1) n1 True d(1) unfolding susp_calc_nm_sl_al_def uc Let_def S_def by (auto split: if_splits option.splits)
    have su1: "su1 \<le> space" using N(2) by (simp add: in_step_def)
    obtain comps sl_len m cew where g: "sl_walk (get_comp (space - su1)) d ([], 5, cl0, ce1 \<noteq> 0) = Some (comps, sl_len, m, cew)"
      and sls: "list_all plain (sl_fields comps)" "5 \<le> sl_len" "\<not> cew \<longrightarrow> m = cl0 \<and> ce1 = 0"
      and add: "\<And>sua ca. rrip_add_SL t (placed t ?info2 sua ca) comps cew =
        Inr (if cew then placed t ?info2 sua (ca @ sl_fields comps) else placed t ?info2 (sua @ sl_fields comps) ca)"
      and ca: "cew \<longrightarrow> su2 = su1 \<and> ce2 = foldl (susp_calc_add_to_ce hop ?base) ce1 (map length (sl_fields comps))"
      and sua: "\<not> cew \<longrightarrow> su2 = su1 + length (concat (sl_fields comps)) \<and> ce2 = ce1 \<and> su2 \<le> space"
      by (rule SL_placed [OF sl d(2) su1 room(2), where info = ?info2 and t = t and ce_start = cl0]) auto
    define s1 where "s1 = (if cew then [] else sl_fields comps)"
    define a1 where "a1 = (if cew then nm2 @ sl_fields comps else [])"
    define cl1 where "cl1 = (if cew then m + sl_len else m)"
    have nm2e: "nm2 = []" if "\<not> cew" using N(3) nm2_0 sls(3) that by auto
    have st: "in_step hop ?base space (S + length nm1) (su2, ce2) (s1, a1)"
      using N(2) ca sua sls(1) nm2e unfolding in_step_def s1_def a1_def by auto
    have cl1: "0 < cl1 \<longleftrightarrow> cew" using sls(2,3) cl0 by (auto simp: cl1_def)
    have ne: "sl_fields comps \<noteq> []" by (simp add: sl_fields_def split: prod.splits)
    have c2: "0 < ce2 \<longleftrightarrow> 0 < cl1" using in_step_ce [OF st] cl1 ne by (auto simp: a1_def)
    have add1: "rrip_add_SL t (placed t ?info2 [] nm2) comps (0 < cl1) = Inr (placed t ?info2 s1 a1)"
      using add [of "[]" nm2] nm2e unfolding cl1 by (auto simp: s1_def a1_def)
    obtain s2 a2 st' where r: "add_zf_field t n (placed t ?info2 s1 a1) (space - su1, cl1) ?base = Inr (fst st', snd st')"
      "fst (add_aa_string t n (fst st') (snd st') ?base) = placed t ?info2 (s1 @ s2) (a1 @ a2)"
      "s2 @ a2 = zf_fields t n @ aa_fields t n" "a1 \<noteq> [] \<longrightarrow> s2 = []"
      "in_step hop ?base space (S + length nm1) (su, ce) (s1 @ s2, a1 @ a2)" "a1 @ a2 \<noteq> [] \<Longrightarrow> predicted"
      "a1 @ a2 \<noteq> [] \<Longrightarrow> hop \<or> ?base div 2048 = (?base + ce + 27) div 2048"
      by (rule rest_step [OF rest st aa zf c2, where free = "space - su1" and info = ?info2 and m = ?base]) (auto simp: nozf noaa)
    have g': "sl_walk (get_comp (space - su1)) d ([], 5, cl0, ?in_ce) = Some (comps, sl_len, m, cew)" using g N(3) by auto
    show thesis
    proof (rule that [of "s1 @ s2" "a1 @ a2" "sl_fields comps"])
      show "add_names t n space info = Some (Inr (placed t ?info2 (s1 @ s2) (a1 @ a2)))"
        using r(1,2) unfolding add_names_def nm d(1) pred [unfolded H_def] option.case calc_result.case prod.case Let_def free0 nm_len
          k_def [symmetric] if_P [OF True] cl0_if free_if g' cl1_def [symmetric] names
        by (simp add: and_then_def case_prod_beta add1)
      show "(s1 @ s2) @ a1 @ a2 = nm2 @ sl_fields comps @ zf_fields t n @ aa_fields t n"
        using r(3) nm2e by (auto simp: s1_def a1_def nozf noaa)
      show "sl_parts t n (sl_fields comps)" unfolding sl_parts_def if_P [OF True] using d(1) g le_trans [OF diff_le_self room(2)] by blast
    qed (use r N(1) in auto)
  qed
qed

section \<open>Sizes of the Continuation Area\<close>

lemma no_cross_between:
  assumes "base_ce div 2048 = (base_ce + m + 27) div (2048::nat)" and "a + x \<le> m"
  shows "\<not> crosses (base_ce + a) x"
proof -
  have "base_ce div 2048 \<le> (base_ce + a) div 2048" "(base_ce + a) div 2048 \<le> (base_ce + a + x + 28 - 1) div 2048"
    "(base_ce + a + x + 28 - 1) div 2048 \<le> (base_ce + m + 27) div 2048"
    using assms(2) by (auto intro: div_le_mono)
  then have "(base_ce + a + x + 28 - 1) div 2048 = (base_ce + a) div 2048" using assms(1) by linarith
  then show ?thesis using crosses_div [of "base_ce + a" x] by simp
qed

lemma add_to_ce_crosses:
  assumes "(base_ce + ce) mod 2048 \<le> 2020"
  shows "base_ce + susp_calc_add_to_ce hop base_ce ce x =
     (if hop \<and> crosses (base_ce + ce) x then next_block (base_ce + ce) else base_ce + ce) + x"
proof -
  have c: "(ce + base_ce + x + 28 - 1) div 2048 \<noteq> (ce + base_ce) div 2048 \<longleftrightarrow> crosses (base_ce + ce) x"
    using crosses_div [of "base_ce + ce" x] by (simp add: ac_simps)
  have r: "base_ce + ((ce + 28) + (2048 - (ce + 28 + base_ce) mod 2048)) = next_block (base_ce + ce)" if "(ce + 28 + base_ce) mod 2048 \<noteq> 0"
    using round_up_room(1) [OF assms] that by (simp add: round_up_def BLOCK_SIZE_def ac_simps)
  have z: "base_ce + (ce + 28) = next_block (base_ce + ce)" if "(ce + 28 + base_ce) mod 2048 = 0"
    using round_up_room(1) [OF assms] that by (simp add: round_up_def BLOCK_SIZE_def ac_simps)
  show ?thesis
    using c r z by (simp add: susp_calc_add_to_ce_def Let_def ISO_CE_ENTRY_SIZE_def BLOCK_SIZE_def)
qed

lemma fold_end_of:
  assumes "list_all plain ca" "(base_ce + ce) mod 2048 \<le> 2020"
  shows "base_ce + foldl (susp_calc_add_to_ce True base_ce) ce (map length ca) = end_of (base_ce + ce) ca"
  using assms
proof (induction ca arbitrary: ce)
  case (Cons f fs)
  let ?w = "(if crosses (base_ce + ce) (length f) then next_block (base_ce + ce) else base_ce + ce) + length f"
  have s: "base_ce + susp_calc_add_to_ce True base_ce ce (length f) = ?w" using add_to_ce_crosses [OF Cons.prems(2)] by simp
  have "?w mod 2048 \<le> 2020" using end_of_room [of "[f]" "base_ce + ce"] Cons.prems by simp
  then show ?case using Cons.IH [of "susp_calc_add_to_ce True base_ce ce (length f)"] Cons.prems s by simp
qed simp

lemma end_of_no_cross:
  "base_ce div 2048 = (base_ce + m + 27) div (2048::nat) \<Longrightarrow> a + sum_list (map length ca) \<le> m \<Longrightarrow>
     end_of (base_ce + a) ca = base_ce + a + sum_list (map length ca)"
proof (induction ca arbitrary: a)
  case (Cons f fs)
  then show ?case using no_cross_between [OF Cons.prems(1), of a "length f"] Cons.IH [of "a + length f"] by (simp add: add.assoc)
qed simp

lemma fold_no_hop: "foldl (susp_calc_add_to_ce False base_ce) ce xs = ce + sum_list xs"
  by (induction xs arbitrary: ce) (simp_all add: susp_calc_add_to_ce_def)

lemma ca_end:
  assumes "list_all plain ca" "base_ce mod 2048 \<le> 2020" "ce = foldl (susp_calc_add_to_ce hop base_ce) 0 (map length ca)"
    and "ca \<noteq> [] \<longrightarrow> hop \<or> base_ce div 2048 = (base_ce + ce + 27) div 2048"
  shows "base_ce + ce = end_of base_ce ca"
proof (cases hop)
  case True
  then show ?thesis using fold_end_of [of ca base_ce 0] assms by simp
next
  case False
  then show ?thesis
    using fold_no_hop [of base_ce 0 "map length ca"] end_of_no_cross [of base_ce ce 0 ca] assms(3,4) by (cases "ca = []") auto
qed

section \<open>The fields in front of NM\<close>

definition front_fields :: "rr_image \<Rightarrow> rr_node \<Rightarrow> bool \<Rightarrow> nat \<Rightarrow> byte list list" where
  "front_fields t nd is_root ty =
     (if ty = 1 \<and> is_root then [field_head ''SP'' 7 @ [0xbe, 0xef, 0]] else []) @
     (if announce_aaip t then [ES_field 0] else []) @ [PX_field t nd, TF_field t nd]"

definition type_fields :: "rr_image \<Rightarrow> rr_node \<Rightarrow> nat \<Rightarrow> byte list list" where
  "type_fields t n ty =
     (if rn_type n = ECMA119_DIR
      then (case rn_real_parent n of
              Some blk \<Rightarrow> if ty = 2 then [PL_field t blk] else if ty = 0 then [field_head ''RE'' 4] else []
            | None \<Rightarrow> if rn_reloc_dir n \<and> rr_reloc_flags (img_opts t) AND 1 \<noteq> 0 then [field_head ''RE'' 4] else [])
      else if rn_type n = ECMA119_SPECIAL then (if S_ISBLK (rn_mode n) \<or> S_ISCHR (rn_mode n) then [PN_field n] else [])
      else if rn_type n = ECMA119_PLACEHOLDER then [CL_field t n] else [])"

definition head_fields :: "rr_image \<Rightarrow> rr_node \<Rightarrow> rr_node \<Rightarrow> bool \<Rightarrow> nat \<Rightarrow> byte list list" where
  "head_fields t n nd is_root ty = front_fields t nd is_root ty @ type_fields t n ty"

lemma add_head_fields:
  assumes "ty = 0 \<longrightarrow> nd = n" "ty \<noteq> 0 \<longrightarrow> rn_type n = ECMA119_DIR"
  shows "add_head t n nd is_root ty info = Inr (foldl susp_append info (head_fields t n nd is_root ty))"
proof -
  define i3 where "i3 = rrip_add_TF t nd (rrip_add_PX t nd (if announce_aaip t
    then susp_add_ES t (if ty = 1 \<and> is_root then susp_add_SP info else info) False 0
    else if ty = 1 \<and> is_root then susp_add_SP info else info))"
  have i3: "foldl susp_append info (front_fields t nd is_root ty) = i3"
    by (simp add: i3_def front_fields_def susp_add_SP_def susp_add_ES_def susp_append_to_def rrip_add_PX_def rrip_add_TF_def)
  have t: "nd = n" if "rn_type n \<noteq> ECMA119_DIR" using assms that by (cases "ty = 0") auto
  show ?thesis
    unfolding add_head_def head_fields_def Let_def i3_def [symmetric] foldl_append i3 type_fields_def
    using t
    by (cases "rn_type n"; cases "rn_real_parent n")
      (auto simp: rrip_add_PL_def rrip_add_RE_def rrip_add_PN_def rrip_add_CL_def)
qed

lemma head_fields_props:
  "list_all plain (head_fields t n nd is_root ty)"
  "length (concat (head_fields t n nd is_root ty)) = calc_head t n ty + (if ty = 1 \<and> is_root then 7 else 0)"
  "62 \<le> calc_head t n ty" "calc_head t n ty \<le> 95"
proof -
  have l: "length (PX_field t nd) = (if px_with_ino t then 44 else 36)" "length (TF_field t nd) = 26" "length (ES_field 0) = 5"
    "length (PN_field n) = 20" "length (CL_field t n) = 12" "\<And>blk. length (PL_field t blk) = 12"
    by (simp_all add: PX_field_eq TF_field_def ES_field_def PN_field_eq CL_field_eq PL_field_eq Let_def)
  have front: "length (concat (front_fields t nd is_root ty)) =
      (if announce_aaip t then 5 else 0) + (if px_with_ino t then 44 + 26 else 36 + 26) + (if ty = 1 \<and> is_root then 7 else 0)"
    by (simp add: front_fields_def l)
  have ty: "calc_head t n ty = (if announce_aaip t then 5 else 0) + (if px_with_ino t then 44 + 26 else 36 + 26) +
      length (concat (type_fields t n ty))"
    unfolding calc_head_def type_fields_def by (cases "rn_type n"; cases "rn_real_parent n") (auto simp: l)
  have small: "length (concat (type_fields t n ty)) \<le> 20"
    unfolding type_fields_def by (cases "rn_type n"; cases "rn_real_parent n") (auto simp: l)
  show "length (concat (head_fields t n nd is_root ty)) = calc_head t n ty + (if ty = 1 \<and> is_root then 7 else 0)"
    unfolding head_fields_def concat_append length_append front ty by simp
  show "62 \<le> calc_head t n ty" "calc_head t n ty \<le> 95" using small unfolding ty by auto
  have "list_all plain (type_fields t n ty)"
    unfolding type_fields_def by (cases "rn_type n"; cases "rn_real_parent n") (auto simp: head_fields_plain)
  then show "list_all plain (head_fields t n nd is_root ty)"
    by (simp add: head_fields_def front_fields_def head_fields_plain)
qed

lemma appends_sizes:
  assumes "list_all plain fs"
  shows "suf_len (foldl susp_append info fs) = suf_len info + length (concat fs)"
  by (subst append_all(2)) (simp only: sum_field_len [OF plain_lens(1) [OF assms]])

section \<open>Properties\<close>

lemma sl_walk_total:
  assumes "\<And>prev clen st. step prev clen st \<noteq> None"
  shows "sl_walk step prev st \<noteq> None"
proof (induction "length prev" arbitrary: prev st rule: less_induct)
  case less
  let ?clen = "length (takeWhile (\<lambda>c. c \<noteq> CHR ''/'') prev)"
  obtain st1 where 1: "step prev ?clen st = Some st1" using assms by blast
  show ?case
  proof (cases "length prev \<le> ?clen + 1")
    case True
    then show ?thesis using 1 by (subst sl_walk.simps) (simp add: Let_def)
  next
    case False
    then have "length (drop (?clen + 1) prev) < length prev" by auto
    from less.hyps [OF this] show ?thesis using 1 False by (subst sl_walk.simps) (auto simp: Let_def)
  qed
qed

lemma calc_forms:
  assumes ok: "rr_ok t n" and "H + 28 \<le> space"
  shows "susp_calc_nm_sl_al t n space H 0 base_ce bit0 hop = Calc_retry \<and> \<not> hop \<or>
     (\<exists>su ce. susp_calc_nm_sl_al t n space H 0 base_ce bit0 hop = Calc su ce)"
proof -
  have r: "calc_rest t n use_ca hop base_ce space st = Calc_retry \<and> \<not> (use_ca \<and> hop) \<or> (\<exists>su ce. calc_rest t n use_ca hop base_ce space st = Calc su ce)"
    for use_ca st by (auto simp: calc_rest_def split: prod.splits)
  have nm: "calc_nm t n True hop base_ce space su ce \<noteq> None" for su ce by (auto simp: calc_nm_def Let_def)
  have "calc_comp True hop base_ce space su prev clen st \<noteq> None" for su prev clen st
    by (cases st) (auto simp: calc_comp_def Let_def)
  then have "sl_walk (calc_comp True hop base_ce space su) d st \<noteq> None" for su d st by (rule sl_walk_total)
  then have w: "\<exists>r. sl_walk (calc_comp True hop base_ce space su) d st = Some r" for su d st by blast
  have sl: "calc_sl True hop base_ce space d st \<noteq> None" for d st
    using w [of "fst st" d "(snd st \<noteq> 0, 5, snd st)"] by (cases st) (auto simp: calc_sl_def)
  obtain name where name: "img_conv t (rn_name n) = Some name" using ok by (auto simp: rr_ok_def split: option.splits)
  let ?ca = "bit0 \<or> hop" and ?su = "if bit0 \<or> hop then H + 28 else H"
  have room: "\<not> space < H + 28" using assms(2) by simp
  show ?thesis
  proof (cases "calc_nm t n ?ca hop base_ce space ?su 0")
    case None
    then have "\<not> ?ca" using nm by metis
    then show ?thesis using None by (simp add: susp_calc_nm_sl_al_def)
  next
    case (Some st)
    show ?thesis
    proof (cases "rn_type n = ECMA119_SYMLINK")
      case False
      then show ?thesis using Some room r [of ?ca st] by (auto simp: susp_calc_nm_sl_al_def Let_def)
    next
      case True
      then obtain d where d: "img_conv t (rn_dest n) = Some d" using ok by (auto simp: rr_ok_def split: option.splits)
      have e: "susp_calc_nm_sl_al t n space H 0 base_ce bit0 hop =
          (case calc_sl ?ca hop base_ce space d st of None \<Rightarrow> Calc_retry | Some st1 \<Rightarrow> calc_rest t n ?ca hop base_ce space st1)"
        using Some True d room by (simp add: susp_calc_nm_sl_al_def Let_def)
      show ?thesis
      proof (cases "calc_sl ?ca hop base_ce space d st")
        case None
        then have "\<not> ?ca" using sl by metis
        then show ?thesis using None e by simp
      next
        case (Some st1)
        then show ?thesis using e r [of ?ca st1] by auto
      qed
    qed
  qed
qed

lemma predicted:
  assumes "rr_ok t n" and "H + 28 \<le> space"
  obtains su ce pd hop where "susp_calc_nm_sl_al t n space H 0 base_ce pd hop = Calc su ce" "hop \<longrightarrow> pd"
    "predict t n space H base_ce = (Calc su ce, pd)" "calc_attempts t n space H 0 base_ce = Calc su ce"
proof -
  note f = calc_forms [OF assms, of base_ce]
  consider (a) su ce where "susp_calc_nm_sl_al t n space H 0 base_ce False False = Calc su ce"
    | (b) su ce where "susp_calc_nm_sl_al t n space H 0 base_ce False False = Calc_retry"
        "susp_calc_nm_sl_al t n space H 0 base_ce True False = Calc su ce"
    | (c) su ce where "susp_calc_nm_sl_al t n space H 0 base_ce False False = Calc_retry"
        "susp_calc_nm_sl_al t n space H 0 base_ce True False = Calc_retry"
        "susp_calc_nm_sl_al t n space H 0 base_ce True True = Calc su ce"
    using f [of False False] f [of True False] f [of True True] by auto
  then show thesis
  proof cases
    case a
    then show thesis by (intro that [of False False su ce]) (simp_all add: predict_def calc_attempts_def)
  next
    case b
    then show thesis by (intro that [of True False su ce]) (simp_all add: predict_def calc_attempts_def)
  next
    case c
    then show thesis by (intro that [of True True su ce]) (simp_all add: predict_def calc_attempts_def)
  qed
qed

lemma placed_sizes:
  assumes "list_all plain sua" "list_all plain ca" "ce_len info mod 2048 \<le> 2020"
  shows "suf_len (placed t info sua ca) = suf_len info + length (concat sua)"
    and "ce_len (placed t info sua ca) = end_of (ce_len info) ca"
proof -
  let ?i = "foldl susp_append info sua"
  have c: "ce_len ?i = ce_len info" by (rule append_all(4))
  then have r: "ce_len ?i mod 2048 \<le> 2020" using assms(3) by (rule ssubst)
  have "suf_len (placed t info sua ca) = suf_len ?i"
    unfolding placed_def by (rule append_ce_all(5) [OF assms(2) r])
  also have "\<dots> = suf_len info + length (concat sua)" by (rule appends_sizes [OF assms(1)])
  finally show "suf_len (placed t info sua ca) = suf_len info + length (concat sua)" .
  have "ce_len (placed t info sua ca) = end_of (ce_len ?i) ca"
    unfolding placed_def by (rule append_ce_all(2) [OF assms(2) r])
  then show "ce_len (placed t info sua ca) = end_of (ce_len info) ca" unfolding c .
qed

lemma nm_info_sizes:
  assumes "plain nm1"
  shows "suf_len (nm_info t info nm1 pd ce) = suf_len info + length nm1 + (if pd then 28 else 0)"
    and "ce_len (nm_info t info nm1 pd ce) = ce_len info"
  using plainD(2) [OF assms] by (simp_all add: nm_info_def susp_append_def susp_add_CE_def Let_def)

text \<open>The record of a node: as many bytes are written as were predicted, and they fit.\<close>

lemma names_sizes:
  assumes ok: "rr_ok t n" and room: "suf_len info + 38 \<le> space" "space \<le> 254" "14 \<le> suf_len info"
    and w: "ce_len info mod 2048 \<le> 2020"
  obtains su ce info' where "calc_attempts t n space (suf_len info) 0 (ce_len info) = Calc su ce"
    "add_names t n space info = Some (Inr info')" "suf_len info' = su" "ce_len info' = ce_len info + ce" "su \<le> space"
    "ce_len info' mod 2048 \<le> 2020"
proof -
  from room(1) have r: "suf_len info + 28 \<le> space" by simp
  obtain su ce pd hop where
    p: "susp_calc_nm_sl_al t n space (suf_len info) 0 (ce_len info) pd hop = Calc su ce" "hop \<longrightarrow> pd"
      "predict t n space (suf_len info) (ce_len info) = (Calc su ce, pd)" "calc_attempts t n space (suf_len info) 0 (ce_len info) = Calc su ce"
    by (rule predicted [OF ok r, of "ce_len info"])
  obtain nm where nm: "img_conv t (rn_name n) = Some nm" using ok by (auto simp: rr_ok_def split: option.splits)
  let ?S = "suf_len info + (if pd then 28 else 0)"
  let ?nm1 = "fst (nm_parts nm (space - ?S))"
  obtain sua ca sls where n: "add_names t n space info = Some (Inr (placed t (nm_info t info ?nm1 pd ce) sua ca))"
    "in_step hop (ce_len info) space (?S + length ?nm1) (su, ce) (sua, ca)" "plain ?nm1"
    "ca \<noteq> [] \<longrightarrow> hop \<or> ce_len info div 2048 = (ce_len info + ce + 27) div 2048"
    by (rule names_placed [OF ok room p(1-3) nm]) auto
  note ns = nm_info_sizes [OF n(3), of t info pd ce]
  from n(2) have i: "su = ?S + length ?nm1 + length (concat sua)" "su \<le> space" "list_all plain sua" "list_all plain ca"
    "ce = foldl (susp_calc_add_to_ce hop (ce_len info)) 0 (map length ca)" by (auto simp: in_step_def)
  note ps = placed_sizes [OF i(3,4), of "nm_info t info ?nm1 pd ce" t]
  have e: "ce_len info + ce = end_of (ce_len info) ca" by (rule ca_end [OF i(4) w i(5) n(4)])
  show thesis
  proof (rule that [OF p(4) n(1)])
    show "suf_len (placed t (nm_info t info ?nm1 pd ce) sua ca) = su" using ps(1) ns w i(1) by simp
    show "ce_len (placed t (nm_info t info ?nm1 pd ce) sua ca) = ce_len info + ce" using ps(2) ns w e by simp
    show "ce_len (placed t (nm_info t info ?nm1 pd ce) sua ca) mod 2048 \<le> 2020"
      using ps(2) ns w end_of_room [OF i(4) w] by simp
  qed (rule i(2))
qed

lemma ER_placed:
  obtains er where "\<forall>info. rrip_add_ER t info = susp_append_ce (img_eff_partition_offset t) info er" "plain er" "length er = rrip_er_len t"
proof -
  define er where "er =
    (if \<not> rrip_version_1_10 (img_opts t)
     then field_head ''ER'' 182 @ [9, 72, 93, 1] @ bytes_of ''IEEE_1282'' @
          bytes_of ''THE IEEE 1282 PROTOCOL PROVIDES SUPPORT FOR POSIX FILE SYSTEM SEMANTICS.'' @
          bytes_of ''PLEASE CONTACT THE IEEE STANDARDS DEPARTMENT, PISCATAWAY, NJ, USA FOR THE 1282 SPECIFICATION.''
     else field_head ''ER'' 237 @ [10, 84, 135, 1] @ bytes_of ''RRIP_1991A'' @
          bytes_of ''THE ROCK RIDGE INTERCHANGE PROTOCOL PROVIDES SUPPORT FOR POSIX FILE SYSTEM SEMANTICS'' @
          bytes_of ''PLEASE CONTACT DISC PUBLISHER FOR SPECIFICATION SOURCE.  SEE PUBLISHER IDENTIFIER IN PRIMARY VOLUME DESCRIPTOR FOR CONTACT INFORMATION.'')"
  show thesis
  proof (rule that [of er])
    show "plain er" unfolding er_def by (auto intro!: plain_head)
    show "length er = rrip_er_len t" by (simp add: er_def rrip_er_len_def)
  qed (simp add: rrip_add_ER_def er_def)
qed

lemma aaip_ER_placed:
  obtains er where "\<forall>info. aaip_add_ER t info = susp_append_ce (img_eff_partition_offset t) info er" "plain er" "length er = 160"
proof -
  define er where "er = field_head ''ER'' 160 @ [9, 81, 62, 1] @ bytes_of ''AAIP_0200'' @
    bytes_of ''AL PROVIDES VIA AAIP 2.0 SUPPORT FOR ARBITRARY FILE ATTRIBUTES IN ISO 9660 IMAGES'' @
    bytes_of ''PLEASE CONTACT THE LIBBURNIA PROJECT VIA LIBBURNIA-PROJECT.ORG''"
  show thesis
  proof (rule that [of er])
    show "plain er" unfolding er_def by (rule plain_head) simp_all
    show "length er = 160" by (simp add: er_def)
  qed (simp add: aaip_add_ER_def er_def)
qed

definition er_lens :: "rr_image \<Rightarrow> nat list" where
  "er_lens t = rrip_er_len t # (if announce_aaip t then [160] else [])"

lemma root_ce:
  assumes aa: "list_all plain (aa_fields t n)"
  obtains ca where "list_all plain ca" "map length ca = er_lens t @ map length (aa_fields t n)"
    and "\<forall>info. fst (add_aa_string t n (if announce_aaip t then aaip_add_ER t (rrip_add_ER t info) else rrip_add_ER t info) (0, 0) 0) =
        placed t info [] ca"
proof -
  obtain er where er: "\<forall>info. rrip_add_ER t info = susp_append_ce (img_eff_partition_offset t) info er" "plain er" "length er = rrip_er_len t"
    by (rule ER_placed [of t])
  obtain ar where ar: "\<forall>info. aaip_add_ER t info = susp_append_ce (img_eff_partition_offset t) info ar" "plain ar" "length ar = 160"
    by (rule aaip_ER_placed [of t])
  define ers where "ers = (if announce_aaip t then [er, ar] else [er])"
  have ers: "list_all plain ers" "map length ers = er_lens t"
    "(if announce_aaip t then aaip_add_ER t (rrip_add_ER t info) else rrip_add_ER t info) = placed t info [] ers" for info
    using er ar by (auto simp: ers_def er_lens_def placed_def)
  have z: "aa_fields t n \<noteq> [] \<Longrightarrow> 0 < length (concat (aa_fields t n))" using concat_pos [OF aa] by blast
  show thesis
  proof (rule that [of "ers @ aa_fields t n"])
    show "list_all plain (ers @ aa_fields t n)" using ers(1) aa by simp
    show "map length (ers @ aa_fields t n) = er_lens t @ map length (aa_fields t n)" using ers(2) by simp
    show "\<forall>info. fst (add_aa_string t n (if announce_aaip t then aaip_add_ER t (rrip_add_ER t info) else rrip_add_ER t info) (0, 0) 0) =
        placed t info [] (ers @ aa_fields t n)"
      unfolding ers(3) using z by (auto simp: add_aa_placed group_placed_def)
  qed
qed

text \<open>The records of \<open>.\<close> and \<open>..\<close> in any case: what the fields occupy.\<close>

lemma dots_written:
  assumes w: "ce_len info mod 2048 \<le> 2020" and aa: "list_all plain (aa_fields t n)"
    and root: "ty = 1 \<and> is_root \<longrightarrow> ce_len info = 0"
  obtains info' where "add_dots t n is_root ty info = Some (Inr info')"
    "suf_len info' = suf_len info + (if rrip_version_1_10 (img_opts t) then 0 else 5) + (if ty = 1 \<and> is_root then 28 else 0)"
    "ce_len info' = ce_len info +
       (if ty = 1 \<and> is_root then foldl (susp_calc_add_to_ce True 0) 0 (er_lens t @ map length (aa_fields t n)) else 0)"
    "ce_len info' mod 2048 \<le> 2020"
proof -
  define nms where "nms = (if rrip_version_1_10 (img_opts t) then [] else [NM_field '''' 0 (push_bit ty 1)])"
  have nms: "list_all plain nms" "length (concat nms) = (if rrip_version_1_10 (img_opts t) then 0 else 5)"
    using NM_plain [of 0 "''''" "push_bit ty 1"] by (auto simp: nms_def)
  define i1 where "i1 = foldl susp_append info nms"
  have nm: "(if rrip_version_1_10 (img_opts t) then Some (Inr info) else rrip_add_NM t info '''' 0 (push_bit ty 1) False) = Some (Inr i1)"
    by (simp add: i1_def nms_def rrip_add_NM_def susp_append_to_def)
  have i1: "suf_len i1 = suf_len info + length (concat nms)" "ce_len i1 = ce_len info"
    unfolding i1_def by (rule appends_sizes [OF nms(1)], rule append_all(4))
  show thesis
  proof (cases "ty = 1 \<and> is_root")
    case False
    show thesis
      by (rule that [of i1]) (use False nm i1 nms(2) w in \<open>auto simp: add_dots_def and_then_def\<close>)
  next
    case True
    have z: "ce_len info = 0" using True root by auto
    obtain ca where ca: "list_all plain ca" "map length ca = er_lens t @ map length (aa_fields t n)"
      "\<forall>info. fst (add_aa_string t n (if announce_aaip t then aaip_add_ER t (rrip_add_ER t info) else rrip_add_ER t info) (0, 0) 0) =
        placed t info [] ca"
      by (rule root_ce [OF aa])
    let ?i2 = "susp_add_CE (img_eff_partition_offset t) (rrip_er_len t + aaip_er_len t + snd (aa_sizes t n True 0 (0, 0))) i1"
    have i2: "suf_len ?i2 = suf_len i1 + 28" "ce_len ?i2 = 0" using i1(2) z by (simp_all add: susp_add_CE_def susp_append_def)
    have ps: "suf_len (placed t ?i2 [] ca) = suf_len ?i2" "ce_len (placed t ?i2 [] ca) = end_of 0 ca"
      using placed_sizes [of "[]" ca ?i2 t] ca(1) i2(2) by simp_all
    have e: "end_of 0 ca = foldl (susp_calc_add_to_ce True 0) 0 (er_lens t @ map length (aa_fields t n))"
      using fold_end_of [OF ca(1), of 0 0] ca(2) by simp
    show thesis
    proof (rule that [of "placed t ?i2 [] ca"])
      show "add_dots t n is_root ty info = Some (Inr (placed t ?i2 [] ca))"
        using True ca(3) unfolding add_dots_def Let_def nm and_then_def z by simp
      show "ce_len (placed t ?i2 [] ca) mod 2048 \<le> 2020" using ps(2) end_of_room [OF ca(1), of 0] by simp
    qed (use True ps i2 i1 nms(2) e z in auto)
  qed
qed

lemma fold_small: "ce + sum_list xs + 27 < 2048 \<Longrightarrow> foldl (susp_calc_add_to_ce True 0) ce xs = ce + sum_list xs"
proof (induction xs arbitrary: ce)
  case (Cons x xs)
  have "susp_calc_add_to_ce True 0 ce x = ce + x"
    using Cons.prems by (simp add: susp_calc_add_to_ce_def Let_def ISO_CE_ENTRY_SIZE_def BLOCK_SIZE_def)
  then show ?case using Cons.IH [of "ce + x"] Cons.prems by simp
qed simp

lemma root_agrees:
  assumes "rrip_er_len t + aaip_er_len t + length (concat (aa_fields t n)) + 27 < 2048"
  shows "foldl (susp_calc_add_to_ce True 0) 0 (er_lens t @ map length (aa_fields t n)) =
     rrip_er_len t + aaip_er_len t + snd (aa_sizes t n True 0 (0, 0))"
proof -
  have l: "length (concat fs) = sum_list (map length fs)" for fs :: "byte list list" by (induction fs) auto
  have "sum_list (er_lens t) = rrip_er_len t + aaip_er_len t" by (simp add: er_lens_def aaip_er_len_def)
  then have "foldl (susp_calc_add_to_ce True 0) 0 (er_lens t @ map length (aa_fields t n)) =
      rrip_er_len t + aaip_er_len t + length (concat (aa_fields t n))"
    using fold_small [of 0 "er_lens t @ map length (aa_fields t n)"] assms unfolding l by simp
  moreover have "snd (aa_sizes t n True 0 (0, 0)) = length (concat (aa_fields t n))"
    using fold_small [of 0 "map length (aa_fields t n)"] assms unfolding aa_group group_sizes_def l by auto
  ultimately show ?thesis by simp
qed

lemma pad_even: "even s \<Longrightarrow> x \<le> s \<Longrightarrow> x + x mod 2 \<le> (s::nat) \<and> even (x + x mod 2)"
  by presburger

text \<open>The frame around the two cases.\<close>

lemma get_fields_eq:
  fixes t n parent ty used_up info
  defines "space \<equiv> 254 - used_up - used_up mod 2" and "nd \<equiv> (if ty = 2 then (case parent of Some p \<Rightarrow> p | None \<Rightarrow> n) else n)"
  assumes ty: "ty \<le> 2" "ty \<noteq> 0 \<longrightarrow> rn_type n = ECMA119_DIR" and used: "used_up \<le> 120" and suf: "suf_len info = 0"
  obtains i1 where "rrip_get_susp_fields t n parent ty used_up info =
      and_then (if ty = 0 then add_names t n space i1 else add_dots t n (parent = None) ty i1)
        (\<lambda>i2. Some (Inr (i2\<lparr>suf_len := suf_len i2 + suf_len i2 mod 2\<rparr>)))"
    and "suf_len i1 = calc_head t n ty + (if ty = 1 \<and> parent = None then 7 else 0)" "ce_len i1 = ce_len info"
    and "calc_head t n ty + 38 \<le> space" "nat ((254 - int used_up - int (used_up mod 2)) mod 2 ^ 64) = space"
    and "space \<le> 254" "even space" "used_up + space \<le> 254" "ISO_ROCKRIDGE_IN_DIR_REC \<le> space"
    and "i1 = foldl susp_append (info\<lparr>current_ce_start := length (ce_susp_fields info)\<rparr>) (head_fields t n nd (parent = None) ty)"
proof -
  let ?root = "parent = None"
  note hp1 = head_fields_props(1) [of t n nd ?root ty] and hp2 = head_fields_props(2) [of t n nd ?root ty]
    and hp4 = head_fields_props(4) [of t n ty]
  define i0 where "i0 = info\<lparr>current_ce_start := length (ce_susp_fields info)\<rparr>"
  define i1 where "i1 = foldl susp_append i0 (head_fields t n nd ?root ty)"
  have b: "used_up mod 2 < 2" by simp
  have i: "254 - int used_up - int (used_up mod 2) = int space" using used b unfolding space_def by linarith
  have r: "133 \<le> space" "space \<le> 254" "used_up + space \<le> 254" using used b unfolding space_def by linarith+
  have "nat (int m mod 2 ^ 64) = m" if "m \<le> 254" for m using that by simp
  then have sp: "nat ((254 - int used_up - int (used_up mod 2)) mod 2 ^ 64) = space" "nat (int space) = space"
    unfolding i using r(2) by (blast, simp only: nat_int)
  have ev: "even space" using used unfolding space_def by presburger
  have head: "add_head t n nd ?root ty i0 = Inr i1"
    unfolding i1_def by (rule add_head_fields) (use ty in \<open>auto simp: nd_def\<close>)
  have i1: "suf_len i1 = calc_head t n ty + (if ty = 1 \<and> ?root then 7 else 0)" "ce_len i1 = ce_len info"
    using suf by (simp_all add: i1_def appends_sizes [OF hp1] append_all(4) hp2 i0_def)
  have c: "calc_head t n ty + 38 \<le> space" using hp4 r(1) by linarith
  have room: "\<not> (ty > 2 \<or> int space < int ISO_ROCKRIDGE_IN_DIR_REC)" "ISO_ROCKRIDGE_IN_DIR_REC \<le> space"
    using ty(1) r by (auto simp: ISO_ROCKRIDGE_IN_DIR_REC_def)
  have room2: "\<not> int (suf_len i1) + 28 > int space" using c i1(1) by (auto split: if_splits)
  have get: "rrip_get_susp_fields t n parent ty used_up info =
      and_then (if ty = 0 then add_names t n space i1 else add_dots t n (parent = None) ty i1)
        (\<lambda>i2. Some (Inr (i2\<lparr>suf_len := suf_len i2 + suf_len i2 mod 2\<rparr>)))"
    unfolding rrip_get_susp_fields_def Let_def i nd_def [symmetric] i0_def [symmetric] head if_not_P [OF room(1)] sp(2)
    using room2 by (simp add: and_then_def)
  show thesis
    by (rule that [OF get i1 c sp(1) r(2) ev r(3) room(2)]) (simp add: i1_def i0_def)
qed

lemma sizes_agree:
  assumes ok: "rr_ok t n" and ty: "ty \<le> 2" "ty \<noteq> 0 \<longrightarrow> rn_type n = ECMA119_DIR" and used: "used_up \<le> 120"
    and info: "suf_len info = 0" "ce_len info mod 2048 \<le> 2020"
    and root: "ty = 1 \<and> parent = None \<longrightarrow>
      ce_len info = 0 \<and> rrip_er_len t + aaip_er_len t + length (concat (aa_fields t n)) + 27 < 2048"
  shows "\<exists>info' su ce. rrip_calc_len t n (parent = None) ty used_up (ce_len info) = Inr (su, ce) \<and>
    rrip_get_susp_fields t n parent ty used_up info = Some (Inr info') \<and>
    suf_len info' = su \<and> ce_len info' = ce_len info + ce \<and> ce_len info' mod 2048 \<le> 2020 \<and> used_up + su \<le> 254 \<and> even su"
proof -
  let ?root = "parent = None" and ?sp = "254 - used_up - used_up mod 2"
  have aa: "list_all plain (aa_fields t n)"
    using ok aa_zf_plain(2) [of n t] by (auto simp: rr_ok_def split: option.splits)
  obtain i1 where get: "rrip_get_susp_fields t n parent ty used_up info =
      and_then (if ty = 0 then add_names t n ?sp i1 else add_dots t n ?root ty i1)
        (\<lambda>i2. Some (Inr (i2\<lparr>suf_len := suf_len i2 + suf_len i2 mod 2\<rparr>)))"
    and i1: "suf_len i1 = calc_head t n ty + (if ty = 1 \<and> ?root then 7 else 0)" "ce_len i1 = ce_len info"
    and sp: "calc_head t n ty + 38 \<le> ?sp" "nat ((254 - int used_up - int (used_up mod 2)) mod 2 ^ 64) = ?sp"
      "?sp \<le> 254" "even ?sp" "used_up + ?sp \<le> 254" "ISO_ROCKRIDGE_IN_DIR_REC \<le> ?sp"
    by (rule get_fields_eq [OF ty used info(1)])
  note hp3 = head_fields_props(3) [of t n ty]
  have pad: "x + x mod 2 \<le> ?sp \<and> even (x + x mod 2)" if "x \<le> ?sp" for x by (rule pad_even [OF sp(4) that])
  have room: "\<not> (ty > 2 \<or> ?sp < ISO_ROCKRIDGE_IN_DIR_REC)" using ty(1) sp(6) by linarith
  show ?thesis
  proof (cases "ty = 0")
    case True
    then have h: "suf_len i1 + 38 \<le> ?sp" "14 \<le> suf_len i1" using sp(1) i1(1) hp3 by simp_all
    have w: "ce_len i1 mod 2048 \<le> 2020" using info(2) i1(2) by simp
    obtain su ce i2 where n: "calc_attempts t n ?sp (suf_len i1) 0 (ce_len i1) = Calc su ce" "add_names t n ?sp i1 = Some (Inr i2)"
      "suf_len i2 = su" "ce_len i2 = ce_len i1 + ce" "su \<le> ?sp" "ce_len i2 mod 2048 \<le> 2020"
      by (rule names_sizes [OF ok h(1) sp(3) h(2) w])
    have "rrip_calc_len t n ?root ty used_up (ce_len info) = Inr (su + su mod 2, ce)"
      unfolding rrip_calc_len_def Let_def sp(2) if_not_P [OF room] using True n(1) i1 by simp
    moreover have "rrip_get_susp_fields t n parent ty used_up info = Some (Inr (i2\<lparr>suf_len := su + su mod 2\<rparr>))"
      unfolding get using True n(2,3) by (simp add: and_then_def)
    ultimately show ?thesis using n(4,6) i1(2) pad [OF n(5)] sp(5) by auto
  next
    case False
    let ?ce = "if ty = 1 \<and> ?root then rrip_er_len t + aaip_er_len t + snd (aa_sizes t n True 0 (0, 0)) else 0"
    have w: "ce_len i1 mod 2048 \<le> 2020" "ty = 1 \<and> ?root \<longrightarrow> ce_len i1 = 0" using info(2) i1(2) root by auto
    obtain i2 where d: "add_dots t n ?root ty i1 = Some (Inr i2)"
      "suf_len i2 = suf_len i1 + (if rrip_version_1_10 (img_opts t) then 0 else 5) + (if ty = 1 \<and> ?root then 28 else 0)"
      "ce_len i2 = ce_len i1 +
         (if ty = 1 \<and> ?root then foldl (susp_calc_add_to_ce True 0) 0 (er_lens t @ map length (aa_fields t n)) else 0)"
      "ce_len i2 mod 2048 \<le> 2020"
      by (rule dots_written [OF w(1) aa w(2)])
    have ce: "ce_len i2 = ce_len i1 + ?ce" using d(3) root_agrees [of t n] root by auto
    have "calc_head t n ty \<le> 87" using ty(2) False by (auto simp: calc_head_def)
    then have su: "suf_len i2 \<le> ?sp" using d(2) i1(1) used by (auto split: if_splits)
    have c: "rrip_calc_len t n ?root ty used_up (ce_len info) = Inr (suf_len i2 + suf_len i2 mod 2, ?ce)"
      unfolding rrip_calc_len_def Let_def sp(2) if_not_P [OF room] if_not_P [OF False] using d(2) i1 root
      by (auto simp: ac_simps)
    have g: "rrip_get_susp_fields t n parent ty used_up info = Some (Inr (i2\<lparr>suf_len := suf_len i2 + suf_len i2 mod 2\<rparr>))"
      unfolding get using False d(1) by (simp add: and_then_def)
    show ?thesis
      using c g d(4) i1(2) ce pad [OF su] sp(5) by auto
  qed
qed

text \<open>C36: the sizes by which directories and Continuation Areas get their places are the sizes that are written:
  for the record of a node and for \<open>.\<close> and \<open>..\<close>, \<open>rrip_get_susp_fields\<close> succeeds, fills as many bytes of the directory
  record and of the Continuation Area as \<open>rrip_calc_len\<close> has predicted, and the record stays within 254 bytes. The
  root's AAIP data must stay within the first block; a link must have no AAIP data.\<close>

theorem rrip_sizes_agree:
  assumes ok: "rr_ok t n" and ty: "ty \<le> 2" "ty \<noteq> 0 \<longrightarrow> rn_type n = ECMA119_DIR" and used: "used_up \<le> 120"
    and info: "suf_len info = 0" "ce_len info mod 2048 \<le> 2020"
    and root: "ty = 1 \<and> parent = None \<longrightarrow>
      ce_len info = 0 \<and> rrip_er_len t + aaip_er_len t + length (concat (aa_fields t n)) + 27 < 2048"
  shows "\<exists>info' su ce. rrip_calc_len t n (parent = None) ty used_up (ce_len info) = Inr (su, ce) \<and>
    rrip_get_susp_fields t n parent ty used_up info = Some (Inr info') \<and>
    suf_len info' = su \<and> ce_len info' = ce_len info + ce \<and> ce_len info' mod 2048 \<le> 2020 \<and> used_up + su \<le> 254 \<and> even su"
  using assms by (rule sizes_agree)

section \<open>Samples\<close>

definition sample_rr :: rr_image where
  "sample_rr =
     \<lparr>img_opts = (profile_opts 1)\<lparr>aaip := True\<rparr>, img_replace_uid = False, img_replace_gid = False, img_replace_file_mode = False,
      img_replace_dir_mode = False, img_replace_timestamps = False, img_uid = 0, img_gid = 0, img_file_mode = 0, img_dir_mode = 0,
      img_timestamp = 0, img_eff_partition_offset = 0, img_susp_z2 = False, img_conv = Some, img_localtime = gmtime,
      img_now = 0, img_empty_block = 0\<rparr>"

definition sample_node :: "node_type \<Rightarrow> string \<Rightarrow> string \<Rightarrow> byte list option \<Rightarrow> rr_node" where
  "sample_node ty nm dest aa =
     \<lparr>rn_type = ty, rn_nlink = 1, rn_ino = 7, rn_real_parent = None, rn_real_me = 0, rn_reloc_dir = False, rn_name = nm,
      rn_mode = (if ty = ECMA119_SPECIAL then 0x21B4 else 0xA1FF), rn_uid = 1, rn_gid = 2, rn_atime = 10, rn_mtime = 20, rn_ctime = 30,
      rn_dev = 0x501, rn_dest = dest, rn_zf = None, rn_aa = aa\<rparr>"

definition sample_info :: susp_info where
  "sample_info = \<lparr>susp_fields = [], suf_len = 0, ce_block = 100, ce_len = 2000, ce_susp_fields = [], current_ce_start = 0\<rparr>"

definition sample_link :: rr_node where
  "sample_link = sample_node ECMA119_SYMLINK ''link'' (''/'' @ replicate 200 CHR ''d'' @ ''/../'' @ replicate 250 CHR ''e'') None"

theorem rrip_sizes_agree_witness:
  "\<exists>info' su ce. rrip_calc_len sample_rr sample_link ((None :: rr_node option) = None) 0 40 (ce_len sample_info) = Inr (su, ce) \<and>
    rrip_get_susp_fields sample_rr sample_link None 0 40 sample_info = Some (Inr info') \<and>
    suf_len info' = su \<and> ce_len info' = ce_len sample_info + ce \<and> ce_len info' mod 2048 \<le> 2020 \<and> 40 + su \<le> 254 \<and> even su"
proof (rule rrip_sizes_agree)
  show "rr_ok sample_rr sample_link" by code_simp
qed (simp_all add: sample_info_def)

text \<open>The space of a link target in the directory record is not taken from the free space. A link with AAIP data, for
  which the prediction chose the Continuation Area, gets them into the record nevertheless: 40 + 268 bytes where 254 are the most.\<close>

definition one_AL :: "nat \<Rightarrow> byte \<Rightarrow> byte list" where
  "one_AL len flags = [0x41, 0x4c, of_nat len, 1, flags] @ replicate (len - 5) 7"

definition overflow_link :: rr_node where
  "overflow_link = sample_node ECMA119_SYMLINK ''link'' (replicate 48 CHR ''d'') (Some (one_AL 95 0))"

lemma symlink_aaip_overflow:
  "rrip_calc_len sample_rr overflow_link False 0 40 0 = Inr (168, 100)"
  "\<exists>info. rrip_get_susp_fields sample_rr overflow_link (Some overflow_link) 0 40 (sample_info\<lparr>ce_len := 0\<rparr>) = Some (Inr info) \<and>
     suf_len info = 268 \<and> ce_len info = 0"
proof -
  show "rrip_calc_len sample_rr overflow_link False 0 40 0 = Inr (168, 100)" by code_simp
  have "(case rrip_get_susp_fields sample_rr overflow_link (Some overflow_link) 0 40 (sample_info\<lparr>ce_len := 0\<rparr>) of
      Some (Inr info) \<Rightarrow> suf_len info = 268 \<and> ce_len info = 0 | _ \<Rightarrow> False)" by code_simp
  then show "\<exists>info. rrip_get_susp_fields sample_rr overflow_link (Some overflow_link) 0 40 (sample_info\<lparr>ce_len := 0\<rparr>) = Some (Inr info) \<and>
     suf_len info = 268 \<and> ce_len info = 0" by (auto split: option.splits sum.splits)
qed

text \<open>The AAIP data of the root directory are accounted as if the Continuation Area began with them; the ER fields in
  front of them are forgotten. Here one block is predicted, but two are written.\<close>

definition root_dir :: rr_node where
  "root_dir = sample_node ECMA119_DIR '''' '''' (Some (concat (replicate 6 (one_AL 255 1)) @ one_AL 160 0))"

lemma aa_chain_step:
  assumes "5 \<le> len" "len < 256"
  shows "aa_chain (one_AL len fl @ rest) = one_AL len fl # (if fl AND 1 = 0 then [] else aa_chain rest)"
proof -
  have l: "length (one_AL len fl) = len" using assms(1) by (simp add: one_AL_def)
  have "field_len (one_AL len fl @ rest) = len" "(one_AL len fl @ rest) ! 4 = fl"
    using assms unat_small [of len] by (simp_all add: one_AL_def field_len_def)
  then show ?thesis using assms(1) l by (subst aa_chain.simps) simp
qed

lemma root_aa_lengths: "map length (aa_fields sample_rr root_dir) = [5, 255, 255, 255, 255, 255, 255, 160]"
  and root_aa_plain: "list_all plain (aa_fields sample_rr root_dir)"
proof -
  let ?d = "concat (replicate 6 (one_AL 255 1)) @ one_AL 160 0"
  have r: "replicate 6 (one_AL 255 1) = [one_AL 255 1, one_AL 255 1, one_AL 255 1, one_AL 255 1, one_AL 255 1, one_AL 255 1]"
    by (simp add: eval_nat_numeral)
  have c: "aa_chain ?d = replicate 6 (one_AL 255 1) @ [one_AL 160 0]"
    using aa_chain_step [of 160 0 "[]"] by (simp add: r aa_chain_step)
  have l: "length (one_AL 255 1) = 255" "length (one_AL 160 0) = 160" by (simp_all add: one_AL_def)
  have p: "plain (one_AL len fl)" if "5 \<le> len" "len < 256" for len fl
    using plain_bytes [of len "[fl] @ replicate (len - 5) 7" "CHR ''A''" "CHR ''L''" 1] that by (simp add: one_AL_def char_byte_def)
  have aa: "aa_fields sample_rr root_dir = ES_field 1 # replicate 6 (one_AL 255 1) @ [one_AL 160 0]"
    using c l by (simp add: aa_fields_def root_dir_def sample_node_def aaip_count_bytes_def announce_aaip_def sample_rr_def profile_opts_def)
  show "map length (aa_fields sample_rr root_dir) = [5, 255, 255, 255, 255, 255, 255, 160]"
    by (simp add: aa r l ES_field_def)
  show "list_all plain (aa_fields sample_rr root_dir)" by (simp add: aa r p head_fields_plain)
qed

lemma root_aaip_more_blocks:
  "rrip_calc_len sample_rr root_dir True 1 34 0 = Inr (116, 2037)"
  "\<exists>info. rrip_get_susp_fields sample_rr root_dir None 1 34 (sample_info\<lparr>ce_len := 0\<rparr>) = Some (Inr info) \<and>
     suf_len info = 116 \<and> ce_len info = 2208"
proof -
  have o: "announce_aaip sample_rr" "px_with_ino sample_rr" "\<not> rrip_version_1_10 (img_opts sample_rr)"
    by (simp_all add: sample_rr_def announce_aaip_def px_with_ino_def profile_opts_def)
  have h: "calc_head sample_rr root_dir 1 = 75" using o by (simp add: calc_head_def root_dir_def sample_node_def)
  have z: "aa_fields sample_rr root_dir \<noteq> []" "0 < length (concat (aa_fields sample_rr root_dir))"
    using root_aa_lengths concat_pos [OF root_aa_plain] by auto
  have f1: "foldl (susp_calc_add_to_ce True 0) 0 [5, 255, 255, 255, 255, 255, 255, 160] = 1695" by code_simp
  have f2: "foldl (susp_calc_add_to_ce True 0) 0 [182, 160, 5, 255, 255, 255, 255, 255, 255, 160] = 2208" by code_simp
  have p: "snd (aa_sizes sample_rr root_dir True 0 (0, 0)) = 1695"
    using z f1 by (simp only: aa_group group_sizes_def root_aa_lengths prod.case if_False if_True snd_conv simp_thms)
  show "rrip_calc_len sample_rr root_dir True 1 34 0 = Inr (116, 2037)"
    using o h p by (simp add: rrip_calc_len_def Let_def ISO_ROCKRIDGE_IN_DIR_REC_def rrip_er_len_def aaip_er_len_def)
  let ?i = "sample_info\<lparr>ce_len := 0\<rparr>"
  obtain i1 where get: "rrip_get_susp_fields sample_rr root_dir None 1 34 ?i =
      and_then (if (1::nat) = 0 then add_names sample_rr root_dir (254 - 34 - 34 mod 2) i1
                else add_dots sample_rr root_dir ((None :: rr_node option) = None) 1 i1)
        (\<lambda>i2. Some (Inr (i2\<lparr>suf_len := suf_len i2 + suf_len i2 mod 2\<rparr>)))"
    and i1: "suf_len i1 = calc_head sample_rr root_dir 1 + (if (1::nat) = 1 \<and> (None :: rr_node option) = None then 7 else 0)"
      "ce_len i1 = ce_len ?i"
    by (rule get_fields_eq [of 1 root_dir 34 ?i sample_rr None]) (simp_all add: root_dir_def sample_node_def sample_info_def)
  obtain i2 where d: "add_dots sample_rr root_dir True 1 i1 = Some (Inr i2)"
    "suf_len i2 = suf_len i1 + (if rrip_version_1_10 (img_opts sample_rr) then 0 else 5) + (if (1::nat) = 1 \<and> True then 28 else 0)"
    "ce_len i2 = ce_len i1 + (if (1::nat) = 1 \<and> True
       then foldl (susp_calc_add_to_ce True 0) 0 (er_lens sample_rr @ map length (aa_fields sample_rr root_dir)) else 0)"
    by (rule dots_written [of i1 sample_rr root_dir 1 True]) (use i1(2) root_aa_plain in simp_all)
  have "ce_len i2 = 2208"
    using d(3) i1(2) o f2 by (simp add: root_aa_lengths er_lens_def rrip_er_len_def del: foldl_Cons)
  moreover have "suf_len i2 = 115" using d(2) i1(1) o h by simp
  ultimately show "\<exists>info. rrip_get_susp_fields sample_rr root_dir None 1 34 ?i = Some (Inr info) \<and> suf_len info = 116 \<and> ce_len info = 2208"
    unfolding get using d(1) by (simp add: and_then_def)
qed

text \<open>A device whose identifier has 93 or more characters, as untranslated names may have: 95 bytes in front of NM and
  28 for the CE leave less than the 5 bytes of an NM head, and the name part gets a negative length.\<close>

definition long_device :: rr_node where
  "long_device = sample_node ECMA119_SPECIAL (replicate 96 CHR ''d'') '''' None"

lemma device_name_crash:
  "rrip_get_susp_fields sample_rr long_device (Some root_dir) 0 (33 + 96 + 1) sample_info = None"
  by code_simp

end
