(* ===== verification/RockRead.thy ===== *)
theory RockRead
  imports RockRidge
begin

text \<open>
  Reading of Rock Ridge fields: the functions \<open>read_rr_*\<close>, \<open>read_aaip_*\<close> and \<open>read_zisofs_ZF\<close> of
  \<open>libisofs/rockridge_read.c\<close> and the loop of \<open>iso_file_source_new_ifs\<close> (\<open>libisofs/fs_image.c\<close>) that collects the
  attributes of a node from the fields of its directory record, in the records \<open>rr_stat\<close> (\<open>struct stat\<close>), \<open>rr_aaip\<close>
  and \<open>rr_reader\<close> (the local variables). The result \<open>None\<close> of a function of this theory means that it accesses memory
  outside of the field, or a NULL pointer. Whether a message aborts the reading (\<open>iso_msg_submit\<close> returns
  \<open>ISO_CANCELED\<close>) is a parameter. Allocations succeed.

  The last part proves that the reader gets back what the writer has put into the fields of a node.
\<close>

section \<open>The single fields\<close>

record rr_stat =
  at_mode :: u32
  at_nlink :: u32
  at_uid :: u32
  at_gid :: u32
  at_ino :: u32
  at_rdev :: u64
  at_atime :: int
  at_mtime :: int
  at_ctime :: int

text \<open>The return value \<open>True\<close> (2) tells that there is an inode number.\<close>

definition read_rr_PX :: "byte list \<Rightarrow> rr_stat \<Rightarrow> ((iso_error + bool) \<times> rr_stat) option" where
  "read_rr_PX px st =
     (if \<not> susp_sig px CHR ''P'' CHR ''X'' then Some (Inl ISO_WRONG_ARG_VALUE, st)
      else if field_len px \<noteq> 44 \<and> field_len px \<noteq> 36 then Some (Inl ISO_WRONG_RR, st)
      else if length px < field_len px then None
      else let st1 = st\<lparr>at_mode := fst (iso_read_bb px 4 4), at_nlink := fst (iso_read_bb px 12 4),
                  at_uid := fst (iso_read_bb px 20 4), at_gid := fst (iso_read_bb px 28 4), at_ino := 0\<rparr>
           in if field_len px = 44 then Some (Inr True, st1\<lparr>at_ino := fst (iso_read_bb px 36 4)\<rparr>) else Some (Inr False, st1))"

text \<open>One time stamp of TF, in the short or the long form.\<close>

definition tf_stamp :: "(tm \<Rightarrow> int) \<Rightarrow> byte list \<Rightarrow> nat \<Rightarrow> nat \<Rightarrow> (iso_error + int) option" where
  "tf_stamp env_timegm tf s nts =
     (if field_len tf < 5 + (nts + 1) * s then Some (Inl ISO_WRONG_RR)
      else if length tf < 5 + (nts + 1) * s then None
      else let stamp = take s (drop (5 + nts * s) tf)
           in map_option Inr (if s = 7 then iso_datetime_read_7 env_timegm stamp else iso_datetime_read_17 env_timegm stamp))"

fun tf_loop ::
  "(tm \<Rightarrow> int) \<Rightarrow> byte list \<Rightarrow> nat \<Rightarrow> (nat \<times> (int \<Rightarrow> rr_stat \<Rightarrow> rr_stat)) list \<Rightarrow> nat \<Rightarrow> rr_stat \<Rightarrow>
   ((iso_error + unit) \<times> rr_stat) option" where
  "tf_loop env_timegm tf s [] nts st = Some (Inr (), st)"
| "tf_loop env_timegm tf s ((i, upd) # fs) nts st =
     (if bit (tf ! 4) i
      then case tf_stamp env_timegm tf s nts of
             None \<Rightarrow> None
           | Some (Inl e) \<Rightarrow> Some (Inl e, st)
           | Some (Inr t) \<Rightarrow> tf_loop env_timegm tf s fs (nts + 1) (upd t st)
      else tf_loop env_timegm tf s fs nts st)"

definition read_rr_TF :: "(tm \<Rightarrow> int) \<Rightarrow> byte list \<Rightarrow> rr_stat \<Rightarrow> ((iso_error + unit) \<times> rr_stat) option" where
  "read_rr_TF env_timegm tf st =
     (if \<not> susp_sig tf CHR ''T'' CHR ''F'' then Some (Inl ISO_WRONG_ARG_VALUE, st)
      else if length tf < 5 then None
      else tf_loop env_timegm tf (if bit (tf ! 4) 7 then 17 else 7)
             [(0, \<lambda>t st. st\<lparr>at_ctime := t\<rparr>), (1, \<lambda>t st. st\<lparr>at_mtime := t\<rparr>),
              (2, \<lambda>t st. st\<lparr>at_atime := t\<rparr>), (3, \<lambda>t st. st\<lparr>at_ctime := t\<rparr>)] 0 st)"

text \<open>The text that \<open>iso_util_strcopy\<close> and \<open>strncat\<close> copy from a buffer: it ends at a NUL.\<close>

definition c_text :: "byte list \<Rightarrow> string" where
  "c_text bs = map (\<lambda>b. char_of (unat b)) (takeWhile (\<lambda>b. b \<noteq> 0) bs)"

definition read_rr_NM :: "byte list \<Rightarrow> string option \<Rightarrow> bool \<Rightarrow> ((iso_error + unit) \<times> string option \<times> bool) option" where
  "read_rr_NM nm name cont =
     (if \<not> susp_sig nm CHR ''N'' CHR ''M'' then Some (Inl ISO_WRONG_ARG_VALUE, name, cont)
      else if field_len nm = 5 \<and> length nm < 5 then None
      else if field_len nm = 5 \<and> bit (nm ! 4) 1
      then Some (if name = None then Inr () else Inl ISO_WRONG_RR, name, cont)
      else if field_len nm \<le> 5 then Some (Inl ISO_WRONG_RR, name, cont)
      else if length nm < field_len nm then None
      else let content = c_text (drop 5 (take (field_len nm) nm)); cont1 = bit (nm ! 4) 0
           in if cont then map_option (\<lambda>s. (Inr (), Some (s @ content), cont1)) name
              else Some (Inr (), Some content, cont1))"

text \<open>SL: the text of a component (\<open>None\<close>: flags that are not supported), and how it is added to the text so far:
  0 for the first component, 1 for a new one, 2 for the rest of the one before.\<close>

definition sl_text :: "byte \<Rightarrow> byte list \<Rightarrow> string option" where
  "sl_text flags content =
     (if bit flags 1 then Some ''.'' else if bit flags 2 then Some ''..'' else if bit flags 3 then Some ''/''
      else if flags AND NOT 1 \<noteq> 0 then None else Some (c_text content))"

definition with_slash :: "string \<Rightarrow> string" where
  "with_slash dest = (if dest \<noteq> '''' \<and> last dest = CHR ''/'' then dest else dest @ ''/'')"

definition sl_join :: "string option \<Rightarrow> nat \<Rightarrow> string \<Rightarrow> string option" where
  "sl_join dest cont part =
     (if cont = 1 then map_option (\<lambda>s. with_slash s @ part) dest
      else if cont = 2 then map_option (\<lambda>s. s @ part) dest
      else Some part)"

function sl_loop ::
  "byte list \<Rightarrow> nat \<Rightarrow> string option \<Rightarrow> nat \<Rightarrow> ((iso_error + unit) \<times> string option \<times> nat) option" where
  "sl_loop sl p dest cont =
     (if field_len sl \<le> p + 5 then Some (Inr (), dest, cont)
      else if length sl < p + 7 + unat (sl ! (p + 6)) then None
      else let flags = sl ! (p + 5); len = unat (sl ! (p + 6))
           in case sl_text flags (take len (drop (p + 7) sl)) of
                None \<Rightarrow> Some (Inl ISO_UNSUPPORTED_RR, dest, cont)
              | Some part \<Rightarrow>
                  (case sl_join dest cont part of
                     None \<Rightarrow> None
                   | Some d \<Rightarrow> sl_loop sl (p + 2 + len) (Some d) (if bit flags 0 then 2 else 1)))"
  by pat_completeness auto
termination
  by (relation "measure (\<lambda>(sl, p, _). field_len sl - p)") auto

declare sl_loop.simps [simp del]

definition read_rr_SL :: "byte list \<Rightarrow> string option \<Rightarrow> nat \<Rightarrow> ((iso_error + unit) \<times> string option \<times> nat) option" where
  "read_rr_SL sl dest cont =
     (if \<not> susp_sig sl CHR ''S'' CHR ''L'' then Some (Inl ISO_WRONG_ARG_VALUE, dest, cont)
      else case sl_loop sl 0 dest cont of
             None \<Rightarrow> None
           | Some (Inl e, d, c) \<Rightarrow> Some (Inl e, d, c)
           | Some (Inr u, d, c) \<Rightarrow>
               if c = 2 then Some (Inr u, d, c)
               else if length sl < 5 then None
               else Some (Inr u, d, if bit (sl ! 4) 0 then 1 else 0))"

definition read_rr_PN :: "byte list \<Rightarrow> rr_stat \<Rightarrow> ((iso_error + unit) \<times> rr_stat) option" where
  "read_rr_PN pn st =
     (if \<not> susp_sig pn CHR ''P'' CHR ''N'' then Some (Inl ISO_WRONG_ARG_VALUE, st)
      else if field_len pn \<noteq> 20 then Some (Inl ISO_WRONG_RR, st)
      else if length pn < 20 then None
      else Some (Inr (), st\<lparr>at_rdev := ucast (fst (iso_read_bb pn 12 4)) OR push_bit 32 (ucast (fst (iso_read_bb pn 4 4)))\<rparr>))"

text \<open>AAIP: the string that is collected, its allocated size, the start of its last field and whether it is complete.
  \<open>aa_append\<close> is the common part of \<open>read_aaip_AA\<close> and \<open>read_aaip_AL\<close>.\<close>

record rr_aaip =
  aa_string :: "byte list"
  aa_size :: nat
  aa_prev_field :: nat
  aa_done :: bool

definition aa_append :: "byte list \<Rightarrow> rr_aaip \<Rightarrow> ((iso_error + unit) \<times> rr_aaip) option" where
  "aa_append sue aa =
     (let len = field_len sue; fresh = (aa_size aa = 0); s = (if fresh then [] else aa_string aa)
      in if length sue < len then None
         else Some (Inr (),
           \<lparr>aa_string = (if s \<noteq> [] then s[aa_prev_field aa + 4 := 1] else s) @
                [char_byte CHR ''A'', char_byte CHR ''L'', sue ! 2, 1, 0] @ take (len - 5) (drop 5 sue),
            aa_size = (if fresh then len else if length s + len > aa_size aa then aa_size aa + length s + len else aa_size aa),
            aa_prev_field = length s, aa_done = \<not> bit (sue ! 4) 0\<rparr>))"

definition read_aaip_AA :: "byte list \<Rightarrow> rr_aaip \<Rightarrow> ((iso_error + unit) \<times> rr_aaip) option" where
  "read_aaip_AA sue aa =
     (if aa_done aa then Some (if sue ! 3 \<noteq> 1 \<or> field_len sue = 7 then Inr () else Inl ISO_WRONG_RR, aa)
      else if aa_size aa = 0 \<and> (sue ! 3 \<noteq> 1 \<or> field_len sue < 9) then Some (Inr (), aa)
      else if field_len sue < 6 then Some (Inl ISO_WRONG_RR, aa)
      else if aa_size aa \<noteq> 0 \<and> length (aa_string aa) + field_len sue > aa_size aa \<and> sue ! 3 \<noteq> 1
      then Some (Inl ISO_WRONG_RR, aa)
      else aa_append sue aa)"

definition read_aaip_AL :: "byte list \<Rightarrow> rr_aaip \<Rightarrow> ((iso_error + unit) \<times> rr_aaip) option" where
  "read_aaip_AL sue aa =
     (if aa_done aa \<or> sue ! 3 \<noteq> 1 \<or> field_len sue < 6 then Some (Inl ISO_WRONG_RR, aa) else aa_append sue aa)"

definition read_zisofs_ZF :: "byte list \<Rightarrow> zf_info \<Rightarrow> ((iso_error + unit) \<times> zf_info) option" where
  "read_zisofs_ZF zf z =
     (if \<not> susp_sig zf CHR ''Z'' CHR ''F'' \<and> \<not> susp_sig zf CHR ''Z'' CHR ''2'' then Some (Inl ISO_WRONG_ARG_VALUE, z)
      else if field_len zf \<noteq> 16 then Some (Inl ISO_WRONG_RR, z)
      else if zf ! 3 > 2 then Some (Inl ISO_WRONG_RR, z)
      else if length zf < 16 then None
      else Some (Inr (), \<lparr>zf_algo = (zf ! 4, zf ! 5), zf_header_size_div4 = zf ! 6, zf_block_size_log2 = zf ! 7,
             zf_uncompressed_size = (if zf ! 3 = 1 then ucast (fst (iso_read_bb zf 8 4)) else iso_read_lsb64 zf 8)\<rparr>))"

section \<open>The fields of a node\<close>

text \<open>The local variables of \<open>iso_file_source_new_ifs\<close> that the loop fills, and the members \<open>px_ino_status\<close> and
  \<open>inode_counter\<close> of the file system object.\<close>

record rr_reader =
  rd_atts :: rr_stat
  rd_has_px :: bool
  rd_name :: "string option"
  rd_namecont :: bool
  rd_skip_nm :: bool
  rd_linkdest :: "string option"
  rd_linkcont :: nat
  rd_relocated_dir :: u32
  rd_aa :: rr_aaip
  rd_zf :: zf_info
  px_ino_status :: "8 word"
  inode_counter :: u32

text \<open>How the work on a field ends: \<open>Next\<close>, leave the loop with a return value, and the early return at RE.\<close>

datatype rr_step = Next rr_reader | Leave "iso_error option" rr_reader | Relocated rr_reader

definition submitted :: "(iso_error \<Rightarrow> bool) \<Rightarrow> iso_error \<Rightarrow> iso_error option" where
  "submitted aborts code = (if aborts code then Some ISO_CANCELED else None)"

definition rr_PX :: "byte list \<Rightarrow> rr_reader \<Rightarrow> rr_step option" where
  "rr_PX sue st =
     map_option (\<lambda>(ret, atts).
       let st1 = st\<lparr>rd_has_px := True, rd_atts := atts\<rparr>
       in Next (case ret of
            Inr True \<Rightarrow> st1\<lparr>px_ino_status := px_ino_status st OR 1, inode_counter := max (inode_counter st) (at_ino atts)\<rparr>
          | Inr False \<Rightarrow> st1\<lparr>px_ino_status := px_ino_status st OR 2\<rparr>
          | Inl e \<Rightarrow> st1\<lparr>px_ino_status := px_ino_status st OR 8 OR 2\<rparr>)) (read_rr_PX sue (rd_atts st))"

definition rr_NM :: "byte list \<Rightarrow> rr_reader \<Rightarrow> rr_step option" where
  "rr_NM sue st =
     (if rd_skip_nm st then Some (Next st)
      else if rd_name st \<noteq> None \<and> \<not> rd_namecont st then Some (Next (st\<lparr>rd_skip_nm := True\<rparr>))
      else map_option (\<lambda>(ret, name, cont).
             let st1 = st\<lparr>rd_name := name, rd_namecont := cont\<rparr>
             in Next (if ret = Inr () \<and> (case name of Some s \<Rightarrow> 4095 < length s | None \<Rightarrow> False) then st1\<lparr>rd_skip_nm := True\<rparr>
                      else st1)) (read_rr_NM sue (rd_name st) (rd_namecont st)))"

definition rr_SL :: "byte list \<Rightarrow> rr_reader \<Rightarrow> rr_step option" where
  "rr_SL sue st =
     (if rd_linkdest st \<noteq> None \<and> rd_linkcont st = 0 then Some (Next st)
      else map_option (\<lambda>(ret, dest, cont). Next (st\<lparr>rd_linkdest := dest, rd_linkcont := cont\<rparr>))
             (read_rr_SL sue (rd_linkdest st) (rd_linkcont st)))"

definition rr_CL :: "(iso_error \<Rightarrow> bool) \<Rightarrow> byte list \<Rightarrow> rr_reader \<Rightarrow> rr_step option" where
  "rr_CL aborts sue st =
     (if length sue < 12 then None
      else let loc = fst (iso_read_bb sue 4 4); st1 = st\<lparr>rd_relocated_dir := loc\<rparr>
           in Some (if loc = 0 then Leave (submitted aborts ISO_WRONG_RR) st1 else Next st1))"

text \<open>The parameters of zisofs must fit to the version of the field.\<close>

definition rr_ZF :: "byte list \<Rightarrow> rr_reader \<Rightarrow> rr_step option" where
  "rr_ZF sue st =
     map_option (\<lambda>(ret, z).
       let invalid = (case ret of
             Inl e \<Rightarrow> True
           | Inr u \<Rightarrow> if fst (zf_algo z) = char_byte CHR ''p'' \<or> snd (zf_algo z) = char_byte CHR ''z'' then sue ! 3 \<noteq> 1
                     else if fst (zf_algo z) = char_byte CHR ''P'' \<or> snd (zf_algo z) = char_byte CHR ''Z'' then sue ! 3 \<noteq> 2
                     else True)
       in Next (st\<lparr>rd_zf := (if invalid then z\<lparr>zf_header_size_div4 := 0\<rparr> else z)\<rparr>)) (read_zisofs_ZF sue (rd_zf st))"

text \<open>One round of the loop. \<open>is_root\<close> and \<open>is_cl_target\<close> are the bits 0 and 1 of the flag.\<close>

definition rr_entry ::
  "(iso_error \<Rightarrow> bool) \<Rightarrow> (tm \<Rightarrow> int) \<Rightarrow> bool \<Rightarrow> byte list \<Rightarrow> rr_reader \<Rightarrow> rr_step option" where
  "rr_entry aborts env_timegm is_cl_target sue st =
     (if length sue < 4 then None
      else if sue ! 3 \<noteq> 1 \<and> \<not> (susp_sig sue CHR ''Z'' CHR ''F'' \<or> susp_sig sue CHR ''Z'' CHR ''2'') then Some (Next st)
      else if susp_sig sue CHR ''P'' CHR ''X'' then rr_PX sue st
      else if susp_sig sue CHR ''T'' CHR ''F''
      then map_option (\<lambda>(ret, atts). Next (st\<lparr>rd_atts := atts\<rparr>)) (read_rr_TF env_timegm sue (rd_atts st))
      else if susp_sig sue CHR ''N'' CHR ''M'' then rr_NM sue st
      else if susp_sig sue CHR ''S'' CHR ''L'' then rr_SL sue st
      else if susp_sig sue CHR ''R'' CHR ''E'' then Some (Relocated st)
      else if susp_sig sue CHR ''C'' CHR ''L'' then (if is_cl_target then Some (Next st) else rr_CL aborts sue st)
      else if susp_sig sue CHR ''P'' CHR ''N''
      then map_option (\<lambda>(ret, atts). Next (st\<lparr>rd_atts := atts\<rparr>)) (read_rr_PN sue (rd_atts st))
      else if susp_sig sue CHR ''S'' CHR ''F'' then Some (Leave (submitted aborts ISO_UNSUPPORTED_RR) st)
      else if susp_sig sue CHR ''R'' CHR ''R'' \<or> susp_sig sue CHR ''S'' CHR ''P'' \<or> susp_sig sue CHR ''E'' CHR ''R''
      then Some (Next st)
      else if susp_sig sue CHR ''A'' CHR ''A'' then map_option (\<lambda>(ret, aa). Next (st\<lparr>rd_aa := aa\<rparr>)) (read_aaip_AA sue (rd_aa st))
      else if susp_sig sue CHR ''A'' CHR ''L'' then map_option (\<lambda>(ret, aa). Next (st\<lparr>rd_aa := aa\<rparr>)) (read_aaip_AL sue (rd_aa st))
      else if susp_sig sue CHR ''Z'' CHR ''F'' \<or> susp_sig sue CHR ''Z'' CHR ''2'' then rr_ZF sue st
      else Some (Next st))"

text \<open>The loop over the iterator. \<open>RR_done\<close> holds the error of the iterator or of a message that left the loop.\<close>

datatype rr_end = RR_done "iso_error option" rr_reader | RR_relocated rr_reader | RR_bad_access

partial_function (option) rr_loop ::
  "(iso_error \<Rightarrow> bool) \<Rightarrow> (tm \<Rightarrow> int) \<Rightarrow> bool \<Rightarrow> (u32 \<Rightarrow> iso_error + byte list) \<Rightarrow> susp_iterator \<Rightarrow> rr_reader \<Rightarrow> rr_end option" where
  "rr_loop aborts env_timegm is_cl_target read_block it st =
     (case susp_iter_next read_block it False of
        None \<Rightarrow> None
      | Some (Sue sue, it1) \<Rightarrow>
          (case rr_entry aborts env_timegm is_cl_target sue st of
             None \<Rightarrow> Some RR_bad_access
           | Some (Next st1) \<Rightarrow> rr_loop aborts env_timegm is_cl_target read_block it1 st1
           | Some (Leave e st1) \<Rightarrow> Some (RR_done e st1)
           | Some (Relocated st1) \<Rightarrow> Some (RR_relocated st1))
      | Some (No_more, it1) \<Rightarrow> Some (RR_done None st)
      | Some (Sue_error e, it1) \<Rightarrow> Some (RR_done (Some e) st)
      | Some (Bad_access, it1) \<Rightarrow> Some RR_bad_access)"

text \<open>The checks behind the loop.\<close>

definition rr_checks :: "(iso_error \<Rightarrow> bool) \<Rightarrow> iso_error option \<Rightarrow> rr_reader \<Rightarrow> iso_error option" where
  "rr_checks aborts ret st =
     (if ret \<noteq> None then ret
      else if rd_relocated_dir st = 0 \<and> at_mode (rd_atts st) = 0 then submitted aborts ISO_WRONG_RR
      else if rd_namecont st \<or> rd_linkcont st \<noteq> 0 then submitted aborts ISO_WRONG_RR
      else None)"

section \<open>Reading what was written\<close>

lemma head_facts [simp]:
  "susp_sig (field_head [a, b] len @ xs) c d \<longleftrightarrow> a = c \<and> b = d"
  "len < 256 \<Longrightarrow> field_len (field_head [a, b] len @ xs) = len"
  "(field_head [a, b] len @ xs) ! 3 = 1"
  by (simp_all add: susp_sig_def field_len_def field_head_eq unat_small)

lemmas read_bb_at = iso_read_bb_at [THEN arg_cong, of _ _ _ _ _ fst, unfolded fst_conv]

lemma PX_read:
  "read_rr_PX (PX_field t n) st = Some (Inr (px_with_ino t), st\<lparr>at_mode := px_get_mode t n, at_nlink := rn_nlink n,
     at_uid := px_get_uid t n, at_gid := px_get_gid t n, at_ino := (if px_with_ino t then rn_ino n else 0)\<rparr>)"
proof -
  let ?h = "field_head ''PX'' (if px_with_ino t then 44 else 36)"
  let ?bb = "\<lambda>v. bb_bytes v 4" and ?fin = "if px_with_ino t then bb_bytes (rn_ino n) 4 else []"
  let ?f = "PX_field t n"
  have "fst (iso_read_bb ?f 4 4) = px_get_mode t n"
    by (rule read_bb_at [where xs = ?h]) (simp_all add: PX_field_eq)
  moreover have "fst (iso_read_bb ?f 12 4) = rn_nlink n"
    by (rule read_bb_at [where xs = "?h @ ?bb (px_get_mode t n)"]) (simp_all add: PX_field_eq)
  moreover have "fst (iso_read_bb ?f 20 4) = px_get_uid t n"
    by (rule read_bb_at [where xs = "?h @ ?bb (px_get_mode t n) @ ?bb (rn_nlink n)"]) (simp_all add: PX_field_eq)
  moreover have "fst (iso_read_bb ?f 28 4) = px_get_gid t n"
    by (rule read_bb_at [where xs = "?h @ ?bb (px_get_mode t n) @ ?bb (rn_nlink n) @ ?bb (px_get_uid t n)"]) (simp_all add: PX_field_eq)
  moreover have "fst (iso_read_bb ?f 36 4) = rn_ino n" if "px_with_ino t"
    by (rule read_bb_at [where xs = "?h @ ?bb (px_get_mode t n) @ ?bb (rn_nlink n) @ ?bb (px_get_uid t n) @ ?bb (px_get_gid t n)"])
      (use that in \<open>simp_all add: PX_field_eq\<close>)
  moreover have "susp_sig ?f CHR ''P'' CHR ''X''" "field_len ?f = (if px_with_ino t then 44 else 36)" "length ?f = (if px_with_ino t then 44 else 36)"
    by (simp_all add: PX_field_eq)
  ultimately show ?thesis by (simp add: read_rr_PX_def Let_def)
qed

lemma CL_read: "fst (iso_read_bb (CL_field t n) 4 4) = rn_real_me n - img_eff_partition_offset t"
  by (rule read_bb_at [where xs = "field_head ''CL'' 12"]) (simp_all add: CL_field_eq)

lemma PN_read: "read_rr_PN (PN_field n) st = Some (Inr (), st\<lparr>at_rdev := rn_dev n\<rparr>)"
proof -
  let ?hi = "ucast (drop_bit 32 (rn_dev n)) :: u32" and ?lo = "ucast (rn_dev n) :: u32"
  have "fst (iso_read_bb (PN_field n) 4 4) = ?hi"
    by (rule read_bb_at [where xs = "field_head ''PN'' 20"]) (simp_all add: PN_field_eq)
  moreover have "fst (iso_read_bb (PN_field n) 12 4) = ?lo"
    by (rule read_bb_at [where xs = "field_head ''PN'' 20 @ bb_bytes ?hi 4"]) (simp_all add: PN_field_eq)
  moreover have "ucast ?lo OR push_bit 32 (ucast ?hi) = rn_dev n"
    by (rule bit_word_eqI) (auto simp: bit_or_iff bit_push_bit_iff bit_ucast_iff bit_drop_bit_eq not_le)
  ultimately show ?thesis by (simp add: read_rr_PN_def PN_field_eq)
qed

text \<open>The times that a TF field can hold.\<close>

definition time_ok :: "(int \<Rightarrow> tm) \<Rightarrow> bool \<Rightarrow> int \<Rightarrow> bool" where
  "time_ok localtime gmt t \<longleftrightarrow>
     (\<exists>k. local_at localtime t k \<and> 0 \<le> t \<and> 0 \<le> t + 900 * k \<and> tm_year (gmtime (t + 900 * (if gmt then 0 else k))) \<le> 255)"

lemma time_ok_read:
  "time_ok localtime gmt t \<Longrightarrow> iso_datetime_read_7 env_timegm (iso_datetime_7 localtime t gmt) = Some t"
  using read_7_written by (auto simp: time_ok_def)

definition tf_time :: "rr_image \<Rightarrow> int \<Rightarrow> int" where
  "tf_time t x = (if img_replace_timestamps t then img_timestamp t else x)"

lemma TF_read:
  assumes "\<forall>x\<in>{rn_atime n, rn_mtime n, rn_ctime n}. time_ok (img_localtime t) (always_gmt (img_opts t)) (tf_time t x)"
  shows "read_rr_TF env_timegm (TF_field t n) st = Some (Inr (),
     st\<lparr>at_mtime := tf_time t (rn_mtime n), at_atime := tf_time t (rn_atime n), at_ctime := tf_time t (rn_ctime n)\<rparr>)"
proof -
  let ?s = "\<lambda>x. iso_datetime_7 (img_localtime t) (tf_time t x) (always_gmt (img_opts t))"
  have f: "TF_field t n = field_head ''TF'' 26 @ [14] @ ?s (rn_mtime n) @ ?s (rn_atime n) @ ?s (rn_ctime n)"
    by (simp add: TF_field_def tf_time_def)
  have b: "TF_field t n ! 4 = 14" by (simp add: f field_head_eq)
  have "tf_stamp env_timegm (TF_field t n) 7 0 = Some (Inr (tf_time t (rn_mtime n)))"
    and "tf_stamp env_timegm (TF_field t n) 7 (Suc 0) = Some (Inr (tf_time t (rn_atime n)))"
    and "tf_stamp env_timegm (TF_field t n) 7 2 = Some (Inr (tf_time t (rn_ctime n)))"
    using assms by (simp_all add: tf_stamp_def f field_head_eq field_len_def time_ok_read)
  then show ?thesis
    by (simp add: read_rr_TF_def b) (simp add: f numeral_2_eq_2 [symmetric] bit_simps)
qed

lemma strcopy_bytes: "CHR 0x00 \<notin> set s \<Longrightarrow> c_text (bytes_of s) = s"
proof -
  assume nz: "CHR 0x00 \<notin> set s"
  have "c = CHR 0x00" if "char_byte c = 0" for c
    using that char_byte_eq [of c "CHR 0x00"] by (simp add: char_byte_def)
  then have "takeWhile (\<lambda>b. b \<noteq> 0) (bytes_of s) = bytes_of s"
    using nz by (auto simp: takeWhile_eq_all_conv bytes_of_def)
  then have "c_text (bytes_of s) = map (\<lambda>b. char_of (unat b)) (bytes_of s)" by (simp only: c_text_def)
  then show ?thesis by (simp add: bytes_of_def unat_char_byte comp_def)
qed

lemma NM_read:
  assumes "0 < len" "len \<le> 250" "len \<le> length nm" "CHR 0x00 \<notin> set nm" and "cont \<longleftrightarrow> name \<noteq> None"
  shows "read_rr_NM (NM_field nm len flags) name cont =
     Some (Inr (), Some (case name of Some s \<Rightarrow> s @ take len nm | None \<Rightarrow> take len nm), bit flags 0)"
proof -
  let ?f = "NM_field nm len flags"
  have f: "?f = field_head ''NM'' (len + 5) @ [flags] @ bytes_of (take len nm)"
    by (simp add: NM_field_def bytes_of_def take_map)
  have u: "unat (of_nat (len + 5) :: byte) = len + 5" using assms(2) by (intro unat_small) simp
  have l: "field_len ?f = len + 5" "length ?f = len + 5" "?f ! 4 = flags" "susp_sig ?f CHR ''N'' CHR ''M''"
    using assms(3) u by (simp_all add: f field_len_def field_head_eq susp_sig_def)
  have "drop 5 (take (field_len ?f) ?f) = bytes_of (take len nm)" by (simp add: l(1)) (simp add: f field_head_eq)
  moreover have "CHR 0x00 \<notin> set (take len nm)" using assms(4) in_set_takeD by fast
  ultimately have "c_text (drop 5 (take (field_len ?f) ?f)) = take len nm" by (simp add: strcopy_bytes)
  then show ?thesis using assms(1,5) l by (auto simp: read_rr_NM_def Let_def)
qed

text \<open>The ZF fields that the reader accepts.\<close>

definition zf_known :: "zf_info \<Rightarrow> bool" where
  "zf_known zf \<longleftrightarrow> zf_algo zf = (char_byte CHR ''p'', char_byte CHR ''z'') \<and> zf_uncompressed_size zf \<le> 0xffffffff \<or>
     zf_algo zf = (char_byte CHR ''P'', char_byte CHR ''Z'')"

lemma ZF_read:
  assumes "zf_known zf"
  shows "rr_ZF (ZF_field t zf) st = Some (Next (st\<lparr>rd_zf := zf\<rparr>))"
proof -
  let ?f = "ZF_field t zf" and ?pz = "zf_algo zf = (char_byte CHR ''p'', char_byte CHR ''z'')"
  obtain h where f: "?f = h @ zf_payload zf" and h: "length h = 8"
    "h = [char_byte CHR ''Z'', char_byte (if \<not> ?pz \<and> img_susp_z2 t then CHR ''2'' else CHR ''F''), 16, if ?pz then 1 else 2,
          fst (zf_algo zf), snd (zf_algo zf), zf_header_size_div4 zf, zf_block_size_log2 zf]"
    by (simp add: ZF_field_eq Let_def)
  have b: "susp_sig ?f CHR ''Z'' CHR ''F'' \<or> susp_sig ?f CHR ''Z'' CHR ''2''" "field_len ?f = 16" "?f ! 3 = (if ?pz then 1 else 2)"
    "?f ! 4 = fst (zf_algo zf)" "?f ! 5 = snd (zf_algo zf)" "?f ! 6 = zf_header_size_div4 zf" "?f ! 7 = zf_block_size_log2 zf"
    unfolding f h(2) by (simp_all add: susp_sig_def field_len_def)
  have v1: "ucast (fst (iso_read_bb ?f 8 4)) = zf_uncompressed_size zf" if pz: ?pz
  proof -
    have "fst (iso_read_bb ?f 8 4) = ucast (zf_uncompressed_size zf)"
      by (rule read_bb_at [where xs = h and zs = "[]"]) (simp_all add: f h(1) zf_payload_def pz)
    moreover have "unat (zf_uncompressed_size zf) < 2 ^ 32"
      using assms pz by (auto simp: zf_known_def word_le_nat_alt)
    then have "take_bit 32 (zf_uncompressed_size zf) = zf_uncompressed_size zf"
      by (simp add: word_unat_eq_iff unsigned_take_bit_eq take_bit_nat_eq_self)
    then have "(ucast (ucast (zf_uncompressed_size zf) :: u32) :: u64) = zf_uncompressed_size zf"
      by (simp add: unsigned_ucast_eq)
    ultimately show ?thesis by simp
  qed
  have v2: "iso_read_lsb64 ?f 8 = zf_uncompressed_size zf" if "\<not> ?pz"
  proof -
    have "iso_read_lsb64 ?f 8 = le_val (drop 8 ?f) 8" by (rule iso_read_lsb64_val) simp
    also have "drop 8 ?f = le_bytes (zf_uncompressed_size zf) 8" using h(1) that by (simp add: f zf_payload_def)
    finally show ?thesis by (simp add: le_val_le_bytes take_bit_word_eq_self)
  qed
  have "read_zisofs_ZF ?f (rd_zf st) = Some (Inr (), zf)"
    using b v1 v2 by (cases "zf_algo zf") (auto simp: read_zisofs_ZF_def)
  moreover have "zf_algo zf = (char_byte CHR ''P'', char_byte CHR ''Z'')" if "\<not> ?pz" using assms that by (auto simp: zf_known_def)
  ultimately show ?thesis using b(3) by (cases ?pz) (simp_all add: rr_ZF_def)
qed

text \<open>The AAIP string of a node in its proper form: AL fields, all but the last one with the CONTINUE bit.\<close>

fun al_chain_ok :: "byte list list \<Rightarrow> bool" where
  "al_chain_ok [] = True"
| "al_chain_ok (f # fs) =
     ((\<exists>content. f = field_head ''AL'' (5 + length content) @ [if fs = [] then 0 else 1] @ content \<and> 0 < length content \<and>
        length content < 251) \<and> al_chain_ok fs)"

definition aa_empty :: rr_aaip where
  "aa_empty = \<lparr>aa_string = [], aa_size = 0, aa_prev_field = 0, aa_done = False\<rparr>"

text \<open>The state after the fields \<open>fs\<close>: the last one is not marked as continued yet.\<close>

definition aa_holds :: "byte list list \<Rightarrow> bool \<Rightarrow> rr_aaip \<Rightarrow> bool" where
  "aa_holds fs fin aa \<longleftrightarrow>
     (if fs = [] then aa = aa_empty
      else aa_string aa = concat (butlast fs) @ (last fs)[4 := 0] \<and> aa_prev_field aa = length (concat (butlast fs)) \<and>
        0 < aa_size aa \<and> aa_done aa = fin \<and> 5 \<le> length (last fs) \<and> (\<not> fin \<longrightarrow> last fs ! 4 = 1))"

lemma AL_read:
  assumes "aa_holds done_fs False aa"
    and "f = field_head ''AL'' (5 + length content) @ [if fin then 0 else 1] @ content" "0 < length content" "length content < 251"
  shows "\<exists>aa'. read_aaip_AL f aa = Some (Inr (), aa') \<and> aa_holds (done_fs @ [f]) fin aa'"
proof -
  have u: "unat (of_nat (5 + length content) :: byte) = 5 + length content" using assms(4) by (intro unat_small) simp
  have f: "field_len f = 5 + length content" "length f = 5 + length content" "f ! 3 = 1" "f ! 4 = (if fin then 0 else 1)"
    "f ! 2 = of_nat (5 + length content)" "drop 5 f = content" "susp_sig f CHR ''A'' CHR ''L''"
    using u by (simp_all add: assms(2) field_len_def field_head_eq susp_sig_def)
  have f0: "[char_byte CHR ''A'', char_byte CHR ''L'', f ! 2, 1, 0] @ take (field_len f - 5) (drop 5 f) = f[4 := 0]"
    by (simp add: f(1,5,6)) (simp add: assms(2) field_head_eq)
  show ?thesis
  proof (cases "done_fs = []")
    case True
    then show ?thesis
      using assms(1,3) f f0 by (auto simp: aa_holds_def read_aaip_AL_def aa_append_def aa_empty_def)
  next
    case False
    then have a: "aa_string aa = concat (butlast done_fs) @ (last done_fs)[4 := 0]"
      "aa_prev_field aa = length (concat (butlast done_fs))" "0 < aa_size aa" "\<not> aa_done aa" "5 \<le> length (last done_fs)" "last done_fs ! 4 = 1"
      using assms(1) by (simp_all add: aa_holds_def)
    have "(last done_fs)[4 := 1] = last done_fs" using a(6) by (metis list_update_id)
    then have "(aa_string aa)[aa_prev_field aa + 4 := 1] = concat (butlast done_fs) @ last done_fs"
      by (simp add: a(1,2) list_update_append)
    also have "\<dots> = concat done_fs" using False by (metis append_butlast_last_id concat.simps concat_append append_Nil2)
    finally have m: "(aa_string aa)[aa_prev_field aa + 4 := 1] = concat done_fs" .
    moreover have "aa_string aa \<noteq> []" using a(1,5) by (auto simp: list_update_nonempty)
    moreover have "length (aa_string aa) = length (concat done_fs)" using arg_cong [OF m, of length] by simp
    ultimately show ?thesis
      using False assms(3) a(3,4) f f0 by (auto simp: aa_holds_def read_aaip_AL_def aa_append_def Let_def)
  qed
qed

text \<open>The loop over a list of fields.\<close>

fun rr_fields ::
  "(iso_error \<Rightarrow> bool) \<Rightarrow> (tm \<Rightarrow> int) \<Rightarrow> bool \<Rightarrow> byte list list \<Rightarrow> rr_reader \<Rightarrow> rr_step option" where
  "rr_fields aborts tg cl [] st = Some (Next st)"
| "rr_fields aborts tg cl (f # fs) st =
     (case rr_entry aborts tg cl f st of Some (Next st1) \<Rightarrow> rr_fields aborts tg cl fs st1 | r \<Rightarrow> r)"

lemma rr_fields_append:
  "rr_fields aborts tg cl (fs @ gs) st =
     (case rr_fields aborts tg cl fs st of Some (Next st1) \<Rightarrow> rr_fields aborts tg cl gs st1 | r \<Rightarrow> r)"
  by (induction fs arbitrary: st) (simp_all split: option.splits rr_step.splits)

text \<open>The outcome of the loop over the iterator is that of the list of fields which the iterator hands out.\<close>

definition rr_outcome :: "rr_step option \<Rightarrow> rr_end" where
  "rr_outcome r = (case r of None \<Rightarrow> RR_bad_access | Some (Next st) \<Rightarrow> RR_done None st
     | Some (Leave e st) \<Rightarrow> RR_done e st | Some (Relocated st) \<Rightarrow> RR_relocated st)"

lemma rr_loop_fields:
  "susp_read_all rb it = Some (fs, No_more) \<Longrightarrow> rr_loop aborts tg cl rb it st = Some (rr_outcome (rr_fields aborts tg cl fs st))"
proof (induction fs arbitrary: it st)
  case Nil
  then obtain it1 where "susp_iter_next rb it False = Some (No_more, it1)"
    by (subst (asm) susp_read_all.simps) (auto split: option.splits sue_result.splits Option.bind_splits)
  then show ?case by (subst rr_loop.simps) (simp add: rr_outcome_def)
next
  case (Cons f fs)
  then obtain it1 where n: "susp_iter_next rb it False = Some (Sue f, it1)" "susp_read_all rb it1 = Some (fs, No_more)"
    by (subst (asm) susp_read_all.simps) (auto split: option.splits sue_result.splits Option.bind_splits)
  show ?case
    using Cons.IH [OF n(2)] by (subst rr_loop.simps) (simp add: n(1) rr_outcome_def split: option.splits rr_step.splits)
qed

section \<open>Link targets\<close>

text \<open>What one component adds to the text so far.\<close>

fun sl_step :: "string option \<times> nat \<Rightarrow> byte list \<Rightarrow> string option \<times> nat" where
  "sl_step (dest, cont) c =
     (case sl_text (c ! 0) (drop 2 c) of
        Some part \<Rightarrow> (sl_join dest cont part, if bit (c ! 0) 0 then 2 else 1) | None \<Rightarrow> (None, 0))"

definition readable :: "byte list \<Rightarrow> bool" where
  "readable c \<longleftrightarrow> good_comp c \<and> sl_text (c ! 0) (drop 2 c) \<noteq> None \<and> comp_size c \<le> 250"

lemma sl_step_some:
  "readable c \<Longrightarrow> cont \<noteq> 0 \<longrightarrow> dest \<noteq> None \<Longrightarrow> \<exists>d. sl_step (dest, cont) c = (Some d, if bit (c ! 0) 0 then 2 else 1)"
  by (cases dest; cases "sl_text (c ! 0) (drop 2 c)") (auto simp: readable_def sl_join_def)

declare sl_step.simps [simp del]

lemma sl_steps_some:
  "list_all readable cs \<Longrightarrow> cs \<noteq> [] \<Longrightarrow> cont \<noteq> 0 \<longrightarrow> dest \<noteq> None \<Longrightarrow>
     \<exists>d. foldl sl_step (dest, cont) cs = (Some d, if bit (last cs ! 0) 0 then 2 else 1)"
proof (induction cs arbitrary: dest cont)
  case (Cons c cs)
  obtain d k where s: "sl_step (dest, cont) c = (Some d, k)" "k = (if bit (c ! 0) 0 then 2 else 1)"
    using Cons.prems sl_step_some [of c cont dest] by auto
  show ?case
  proof (cases "cs = []")
    case False
    then show ?thesis using Cons.IH [of k "Some d"] Cons.prems(1) s by simp
  qed (use s in simp)
qed simp

lemma sl_loop_comps:
  assumes "sl = h @ concat cs1 @ concat cs2" "length h = 5" "field_len sl = length sl"
    and "list_all readable cs2" "cont \<noteq> 0 \<longrightarrow> dest \<noteq> None"
  shows "sl_loop sl (length (concat cs1)) dest cont = Some (Inr (), foldl sl_step (dest, cont) cs2)"
  using assms
proof (induction cs2 arbitrary: cs1 dest cont)
  case Nil
  then show ?case by (subst sl_loop.simps) simp
next
  case (Cons c cs)
  let ?p = "length (concat cs1)"
  have c: "2 \<le> length c" "length c = unat (c ! 1) + 2" "sl_text (c ! 0) (drop 2 c) \<noteq> None"
    using Cons.prems(4) by (simp_all add: readable_def good_comp_def comp_size_def)
  obtain part where part: "sl_text (c ! 0) (drop 2 c) = Some part" using c(3) by blast
  obtain d k where s: "sl_step (dest, cont) c = (Some d, k)" "k = (if bit (c ! 0) 0 then 2 else 1)"
    using Cons.prems sl_step_some [of c cont dest] by auto
  have j: "sl_join dest cont part = Some d" using s(1) part by (simp add: sl_step.simps)
  obtain x y zs where xy: "c = x # y # zs" using c(1) by (metis One_nat_def Suc_1 Suc_le_length_iff)
  have at: "sl ! (?p + 5) = c ! 0" "sl ! (?p + 6) = c ! 1" "take (unat (c ! 1)) (drop (?p + 7) sl) = drop 2 c"
    using c(2) Cons.prems(1,2) by (simp_all add: xy nth_append)
  have l: "length sl = 5 + ?p + length c + length (concat cs)" using Cons.prems(1,2) by simp
  have "sl_loop sl ?p dest cont = sl_loop sl (?p + 2 + unat (c ! 1)) (Some d) k"
  proof -
    have "\<not> field_len sl \<le> ?p + 5" "\<not> length sl < ?p + 7 + unat (sl ! (?p + 6))" using c(2) l Cons.prems(3) by (simp_all add: at(2))
    then show ?thesis by (subst sl_loop.simps) (simp only: Let_def at part j s(2) option.case if_False)
  qed
  also have "sl_loop sl (?p + 2 + unat (c ! 1)) (Some d) k = sl_loop sl (length (concat (cs1 @ [c]))) (Some d) k" using c(2) by simp
  also have "\<dots> = Some (Inr (), foldl sl_step (Some d, k) cs)"
    by (rule Cons.IH) (use Cons.prems in simp_all)
  finally show ?case using s(1) by simp
qed

lemma SL_read:
  assumes "list_all readable cs" "tot = sum_list (map comp_size cs)" "tot \<le> 250" "cs \<noteq> []" "cont \<noteq> 0 \<longrightarrow> dest \<noteq> None"
    and "foldl sl_step (dest, cont) cs = (d, k)"
  shows "read_rr_SL (SL_field cs tot flags) dest cont = Some (Inr (), d, if k = 2 then 2 else if bit flags 0 then 1 else 0)"
proof -
  have good: "list_all good_comp cs" using assms(1) by (auto simp: list_all_iff readable_def)
  note p = SL_plain [OF good assms(2,3), of flags]
  have e: "concat (map (\<lambda>c. take (comp_size c) c) cs) = concat cs"
    using good by (induction cs) (auto simp: good_comp_def)
  have f: "SL_field cs tot flags = (field_head ''SL'' (tot + 5) @ [flags]) @ concat [] @ concat cs" by (simp add: SL_field_def e)
  have "sl_loop (SL_field cs tot flags) (length (concat ([] :: byte list list))) dest cont = Some (Inr (), d, k)"
    using sl_loop_comps [OF f _ _ assms(1,5)] plainD(2) [OF p(1)] assms(6) by simp
  moreover have "SL_field cs tot flags ! 4 = flags" "susp_sig (SL_field cs tot flags) CHR ''S'' CHR ''L''"
    by (simp_all add: SL_field_def field_head_eq susp_sig_def)
  ultimately show ?thesis using p(2) by (simp add: read_rr_SL_def)
qed

text \<open>The components are spread over fields that are not empty.\<close>

lemma sl_groups:
  assumes "list_all readable comps" "comps \<noteq> []"
  shows "\<exists>gs pe. foldl sl_push ([], [], 0) comps =
       (map (\<lambda>g. SL_field g (sum_list (map comp_size g)) 1) gs, pe, sum_list (map comp_size pe)) \<and>
     concat gs @ pe = comps \<and> pe \<noteq> [] \<and> [] \<notin> set gs \<and> list_all (\<lambda>g. sum_list (map comp_size g) \<le> 250) (gs @ [pe])"
  using assms
proof (induction comps rule: rev_induct)
  case (snoc c comps)
  show ?case
  proof (cases "comps = []")
    case True
    then show ?thesis using snoc.prems by (intro exI [of _ "[]"] exI [of _ "[c]"]) (simp add: readable_def)
  next
    case False
    then obtain gs pe where g: "foldl sl_push ([], [], 0) comps =
       (map (\<lambda>g. SL_field g (sum_list (map comp_size g)) 1) gs, pe, sum_list (map comp_size pe))"
      "concat gs @ pe = comps" "pe \<noteq> []" "[] \<notin> set gs" "list_all (\<lambda>g. sum_list (map comp_size g) \<le> 250) (gs @ [pe])"
      using snoc by auto
    show ?thesis
    proof (cases "sum_list (map comp_size pe) + comp_size c > 250")
      case True
      then show ?thesis using g snoc.prems by (intro exI [of _ "gs @ [pe]"] exI [of _ "[c]"]) (auto simp: readable_def)
    next
      case False
      then show ?thesis using g by (intro exI [of _ gs] exI [of _ "pe @ [c]"]) auto
    qed
  qed
qed simp

lemma SL_entry:
  assumes "list_all readable cs" "sum_list (map comp_size cs) \<le> 250" "cs \<noteq> []"
    and "rd_linkcont st \<noteq> 0 \<longleftrightarrow> rd_linkdest st \<noteq> None"
    and "foldl sl_step (rd_linkdest st, rd_linkcont st) cs = (d, k)"
  shows "rr_entry aborts tg cl (SL_field cs (sum_list (map comp_size cs)) flags) st =
    Some (Next (st\<lparr>rd_linkdest := d, rd_linkcont := (if k = 2 then 2 else if bit flags 0 then 1 else 0)\<rparr>))"
proof -
  let ?f = "SL_field cs (sum_list (map comp_size cs)) flags"
  have good: "list_all good_comp cs" using assms(1) by (auto simp: list_all_iff readable_def)
  have "length ?f \<ge> 4" using SL_plain(2) [OF good refl assms(2)] by simp
  moreover have "?f ! 3 = 1" "\<And>a b. susp_sig ?f a b \<longleftrightarrow> a = CHR ''S'' \<and> b = CHR ''L''"
    by (auto simp: SL_field_def)
  moreover have "rr_SL ?f st = Some (Next (st\<lparr>rd_linkdest := d, rd_linkcont := (if k = 2 then 2 else if bit flags 0 then 1 else 0)\<rparr>))"
    using SL_read [OF assms(1) refl assms(2,3) _ assms(5)] assms(4) by (auto simp: rr_SL_def)
  ultimately show ?thesis by (simp add: rr_entry_def)
qed

lemma SL_fields_read:
  assumes "list_all readable comps" "comps \<noteq> []" "rd_linkdest st = None" "rd_linkcont st = 0"
    and "foldl sl_step (None, 0) comps = (Some d, 1)"
  shows "rr_fields aborts tg cl (sl_fields comps) st = Some (Next (st\<lparr>rd_linkdest := Some d, rd_linkcont := 0\<rparr>))"
proof -
  obtain gs pe where g: "foldl sl_push ([], [], 0) comps =
       (map (\<lambda>g. SL_field g (sum_list (map comp_size g)) 1) gs, pe, sum_list (map comp_size pe))"
    "concat gs @ pe = comps" "pe \<noteq> []" "[] \<notin> set gs" "list_all (\<lambda>g. sum_list (map comp_size g) \<le> 250) (gs @ [pe])"
    using sl_groups [OF assms(1,2)] by blast
  let ?F = "\<lambda>g. SL_field g (sum_list (map comp_size g)) 1"
  have rd: "\<exists>d' k'. foldl sl_step (rd_linkdest st1, rd_linkcont st1) (concat gs) = (d', k') \<and>
      rr_fields aborts tg cl (map ?F gs) st1 = Some (Next (st1\<lparr>rd_linkdest := d', rd_linkcont := k'\<rparr>)) \<and> (k' \<noteq> 0 \<longleftrightarrow> d' \<noteq> None)"
    if "rd_linkcont st1 \<noteq> 0 \<longleftrightarrow> rd_linkdest st1 \<noteq> None" "list_all (list_all readable) gs" for st1
    using that g(4,5)
  proof (induction gs arbitrary: st1)
    case (Cons h hs)
    obtain d1 k1 where d1: "foldl sl_step (rd_linkdest st1, rd_linkcont st1) h = (Some d1, k1)" "k1 = 1 \<or> k1 = 2"
      using sl_steps_some [of h "rd_linkcont st1" "rd_linkdest st1"] Cons.prems by auto
    let ?k = k1
    let ?st = "st1\<lparr>rd_linkdest := Some d1, rd_linkcont := ?k\<rparr>"
    have e: "rr_entry aborts tg cl (?F h) st1 = Some (Next ?st)"
      using SL_entry [OF _ _ _ _ d1(1), of aborts tg cl 1] Cons.prems d1(2) by auto
    obtain d' k' where "foldl sl_step (rd_linkdest ?st, rd_linkcont ?st) (concat hs) = (d', k')"
      "rr_fields aborts tg cl (map ?F hs) ?st = Some (Next (?st\<lparr>rd_linkdest := d', rd_linkcont := k'\<rparr>))" "k' \<noteq> 0 \<longleftrightarrow> d' \<noteq> None"
      using Cons.IH [of ?st] Cons.prems d1(2) by auto
    then show ?case using e d1(1) by (intro exI [of _ d'] exI [of _ k']) simp
  qed simp
  have r: "list_all (list_all readable) gs" "list_all readable pe" using assms(1) unfolding g(2) [symmetric] by (auto simp: list_all_iff)
  obtain d' k' where a: "foldl sl_step (None, 0) (concat gs) = (d', k')"
    "rr_fields aborts tg cl (map ?F gs) st = Some (Next (st\<lparr>rd_linkdest := d', rd_linkcont := k'\<rparr>))" "k' \<noteq> 0 \<longleftrightarrow> d' \<noteq> None"
    using rd [OF _ r(1), of st] assms(3,4) by auto
  have p: "foldl sl_step (d', k') pe = (Some d, 1)" using assms(5) unfolding g(2) [symmetric] foldl_append a(1) .
  have "rr_entry aborts tg cl (SL_field pe (sum_list (map comp_size pe)) 0) (st\<lparr>rd_linkdest := d', rd_linkcont := k'\<rparr>) =
      Some (Next (st\<lparr>rd_linkdest := Some d, rd_linkcont := 0\<rparr>))"
    using SL_entry [OF r(2) _ g(3), of "st\<lparr>rd_linkdest := d', rd_linkcont := k'\<rparr>" "Some d" 1 aborts tg cl 0] g(5) a(3) p by simp
  then show ?thesis by (simp add: sl_fields_def g(1) rr_fields_append a(2))
qed

text \<open>The components of a link target and their text.\<close>

lemma append_comp_readable:
  assumes "fl \<in> {0, 1}" "len \<le> length s" "len \<le> 248" "CHR 0x00 \<notin> set (take len s)"
  shows "\<exists>c. rrip_SL_append_comp comps s len fl = comps @ [c] \<and> readable c \<and>
    (\<forall>dest cont. sl_step (dest, cont) c = (sl_join dest cont (take len s), if fl = 1 then 2 else 1))"
proof -
  let ?c = "[fl, of_nat len] @ take len (bytes_of s)"
  have u: "unat (of_nat len :: byte) = len" using assms(3) by (intro unat_small) simp
  have b: "drop 2 ?c = bytes_of (take len s)" by (simp add: bytes_of_def take_map)
  have "sl_text fl (bytes_of (take len s)) = Some (take len s)"
    using assms(1,4) by (auto simp: sl_text_def strcopy_bytes)
  then have "sl_text (?c ! 0) (drop 2 ?c) = Some (take len s)" by (simp only: b) simp
  moreover have "readable ?c" using calculation assms(2,3) u by (simp add: readable_def good_comp_def comp_size_def)
  moreover have "bit fl 0 \<longleftrightarrow> fl = 1" using assms(1) by auto
  ultimately show ?thesis by (intro exI [of _ ?c]) (simp add: rrip_SL_append_comp_def sl_step.simps)
qed

definition part_text :: "string \<Rightarrow> nat \<Rightarrow> string" where
  "part_text prev clen = (if clen = 0 then ''/'' else take clen prev)"

lemma plain_comp_readable:
  assumes "clen \<le> 248" "clen \<le> length prev" "CHR 0x00 \<notin> set prev"
  shows "\<exists>c. rrip_SL_append_comp comps prev (comp_len prev clen - 2) (comp_flag prev clen) = comps @ [c] \<and> readable c \<and>
    (\<forall>dest cont. sl_step (dest, cont) c = (sl_join dest cont (part_text prev clen), 1))"
proof -
  have nz: "CHR 0x00 \<notin> set (take clen prev)" using assms(3) in_set_takeD by fast
  have fixed: "?thesis" if "comp_len prev clen = 2" "comp_flag prev clen = fl" "sl_text fl [] = Some (part_text prev clen)" "\<not> bit fl 0" for fl
    using that by (intro exI [of _ "[fl, 0]"])
      (simp add: rrip_SL_append_comp_def readable_def good_comp_def comp_size_def sl_step.simps)
  consider (root) "clen = 0" | (dot) "is_dot prev clen" | (dotdot) "is_dotdot prev clen"
    | (word) "0 < clen" "\<not> is_dot prev clen" "\<not> is_dotdot prev clen" by blast
  then show ?thesis
  proof cases
    case root
    then show ?thesis by (intro fixed [of 8]) (auto simp: comp_len_def comp_flag_def is_dot_def is_dotdot_def sl_text_def part_text_def bit_simps)
  next
    case dot
    then have "take clen prev = ''.''" using assms(2) by (cases prev) (auto simp: is_dot_def)
    then show ?thesis using dot by (intro fixed [of 2]) (auto simp: comp_len_def comp_flag_def is_dot_def sl_text_def part_text_def bit_simps)
  next
    case dotdot
    then have "take clen prev = ''..''" using assms(2) by (cases prev; cases "tl prev") (auto simp: is_dotdot_def)
    then show ?thesis using dotdot
      by (intro fixed [of 4]) (auto simp: comp_len_def comp_flag_def is_dot_def is_dotdot_def sl_text_def part_text_def bit_simps)
  next
    case word
    then show ?thesis
      using append_comp_readable [of 0 clen prev comps] assms(1,2) nz by (auto simp: comp_len_def comp_flag_def part_text_def)
  qed
qed

lemma get_comp_reads:
  assumes "get_comp free prev clen (comps, sl_len, ce, cew) = Some (comps', sl', ce', cew')"
    and "clen \<le> length prev" "clen \<le> 248 \<or> clen \<le> 255 \<and> clen = length prev" "CHR 0x00 \<notin> set prev" "5 \<le> sl_len" and free: "free \<le> 254"
  shows "5 \<le> sl' \<and> (\<exists>new. comps' = comps @ new \<and> new \<noteq> [] \<and> list_all readable new \<and>
    (\<forall>dest cont. foldl sl_step (dest, cont) new = (sl_join dest cont (part_text prev clen), 1)))"
proof (cases "clen \<le> 248")
  case True
  then have "comp_len prev clen \<le> 250" by (simp add: comp_len_def)
  then have c: "comps' = rrip_SL_append_comp comps prev (comp_len prev clen - 2) (comp_flag prev clen)" "5 \<le> sl'"
    using assms(1,5) by (auto simp: get_comp_def Let_def split: if_splits)
  obtain c where "comps' = comps @ [c]" "readable c"
    "\<forall>dest cont. sl_step (dest, cont) c = (sl_join dest cont (part_text prev clen), 1)"
    using plain_comp_readable [OF True assms(2,4), of comps] c(1) by auto
  then show ?thesis using c(2) by (intro conjI exI [of _ "[c]"]) auto
next
  case False
  then have n: "\<not> is_dot prev clen" "\<not> is_dotdot prev clen" "comp_len prev clen = clen + 2" "comp_flag prev clen = 0" "clen = length prev"
    "clen \<le> 255" using assms(3) by (auto simp: is_dot_def is_dotdot_def comp_len_def comp_flag_def)
  have nz: "CHR 0x00 \<notin> set (take k prev)" "CHR 0x00 \<notin> set (drop k prev)" for k
    using assms(4) in_set_takeD in_set_dropD by fast+
  have two: "\<exists>new. rrip_SL_append_comp (rrip_SL_append_comp comps prev k 1) (drop k prev) (clen - k) 0 = comps @ new \<and> new \<noteq> [] \<and>
      list_all readable new \<and> (\<forall>dest cont. foldl sl_step (dest, cont) new = (sl_join dest cont (part_text prev clen), 1))"
    if k: "k \<le> 248" "clen - k \<le> 248" for k
  proof -
    obtain c1 where c1: "rrip_SL_append_comp comps prev k 1 = comps @ [c1]" "readable c1"
      "\<forall>dest cont. sl_step (dest, cont) c1 = (sl_join dest cont (take k prev), 2)"
      using append_comp_readable [of 1 k prev comps] k(1) nz(1) False n(5) by auto
    obtain c2 where c2: "rrip_SL_append_comp (comps @ [c1]) (drop k prev) (clen - k) 0 = (comps @ [c1]) @ [c2]" "readable c2"
      "\<forall>dest cont. sl_step (dest, cont) c2 = (sl_join dest cont (drop k prev), 1)"
      using append_comp_readable [of 0 "clen - k" "drop k prev" "comps @ [c1]"] k(2) nz(2) n(5) by auto
    have j: "sl_join (sl_join dest cont (take k prev)) 2 (drop k prev) = sl_join dest cont (part_text prev clen)" for dest cont
      using False n(5) by (cases dest) (auto simp: sl_join_def part_text_def)
    show ?thesis using c1 c2 j by (intro exI [of _ "[c1, c2]"]) simp
  qed
  have over: "\<not> sl_len + (clen + 2) \<le> free" "sl_len + (clen + 2) > 255" "clen + 2 > 250" using False assms(5) free by linarith+
  define fit where "fit = 255 - int sl_len - 2"
  have g: "get_comp free prev clen (comps, sl_len, ce, cew) =
     (if int (clen + 2) - 250 \<le> fit
      then Some (rrip_SL_append_comp (rrip_SL_append_comp comps prev (nat fit) 1) (drop (nat fit) prev)
             (nat (int (clen + 2) - fit - 2)) 0, nat (5 + (int (clen + 2) - fit)), ce + 255, True)
      else Some (rrip_SL_append_comp (rrip_SL_append_comp comps prev 248 1) (drop 248 prev) (length (drop 248 prev)) 0,
             5 + (clen + 2 - 250) + 2, ce + sl_len + 255, True))"
    using over unfolding get_comp_def prod.case Let_def n(3,4) fit_def by simp
  show ?thesis
  proof (cases "int (clen + 2) - 250 \<le> fit")
    case True
    then have k: "nat fit \<le> 248" "clen - nat fit \<le> 248" "nat (int (clen + 2) - fit - 2) = clen - nat fit" "5 \<le> nat (5 + (int (clen + 2) - fit))"
      using False assms(5) by (simp_all add: fit_def)
    then show ?thesis using two [OF k(1,2)] assms(1) True unfolding g by auto
  next
    case no_fit: False
    have k: "clen - 248 \<le> 248" "length (drop 248 prev) = clen - 248" using n(5,6) by simp_all
    then show ?thesis using two [OF _ k(1)] assms(1) no_fit unfolding g by auto
  qed
qed

text \<open>What the reader makes of a link target: a single slash at its end gets lost.\<close>

definition link_read :: "string \<Rightarrow> string" where
  "link_read d =
     (if 1 < length d \<and> last d = CHR ''/'' \<and> last (butlast d) \<noteq> CHR ''/'' then butlast d else d)"

lemma with_slash_last: "with_slash s \<noteq> '''' \<and> last (with_slash s) = CHR ''/''"
  by (simp add: with_slash_def)

lemma sl_walk_reads:
  assumes "sl_walk (get_comp free) prev (comps, sl_len, ce, cew) = Some (comps', r)"
    and "dest_ok prev" "free \<le> 254" "CHR 0x00 \<notin> set prev" "5 \<le> sl_len" "prev \<noteq> ''''"
    and "dest = None \<and> cont = 0 \<and> pre = '''' \<or> (\<exists>s. dest = Some s \<and> cont = 1 \<and> with_slash s = pre)"
  shows "\<exists>new. comps' = comps @ new \<and> new \<noteq> [] \<and> list_all readable new \<and>
    foldl sl_step (dest, cont) new = (Some (link_read (pre @ prev)), 1)"
  using assms(1,2,4-7)
proof (induction "length prev" arbitrary: prev comps sl_len ce cew dest cont pre rule: less_induct)
  case less
  let ?clen = "length (takeWhile (\<lambda>c. c \<noteq> CHR ''/'') prev)"
  note ok = dest_ok_step [OF less.prems(2)]
  obtain comps1 sl1 ce1 cew1 where g: "get_comp free prev ?clen (comps, sl_len, ce, cew) = Some (comps1, sl1, ce1, cew1)"
    using less.prems(1) by (subst (asm) sl_walk.simps) (auto simp: Let_def split: option.splits)
  obtain new1 where new1: "comps1 = comps @ new1" "new1 \<noteq> []" "list_all readable new1" "5 \<le> sl1"
    "\<And>dest cont. foldl sl_step (dest, cont) new1 = (sl_join dest cont (part_text prev ?clen), 1)"
    using get_comp_reads [OF g length_takeWhile_le _ less.prems(3,4) assms(3)] ok(1,2) by blast
  have j: "sl_join dest cont (part_text prev ?clen) = Some (pre @ part_text prev ?clen)"
    using less.prems(6) by (auto simp: sl_join_def)
  have pre: "pre = '''' \<or> last pre = CHR ''/''" using less.prems(6) with_slash_last by auto
  have word: "take ?clen prev = takeWhile (\<lambda>c. c \<noteq> CHR ''/'') prev" by (metis takeWhile_eq_take)
  have noslash: "last (take ?clen prev) \<noteq> CHR ''/''" if "0 < ?clen"
  proof -
    have "last (takeWhile (\<lambda>c. c \<noteq> CHR ''/'') prev) \<in> set (takeWhile (\<lambda>c. c \<noteq> CHR ''/'') prev)" using that by (intro last_in_set) auto
    then show ?thesis unfolding word by (blast dest: set_takeWhileD)
  qed
  have slash: "prev ! ?clen = CHR ''/''" if "?clen < length prev" using nth_length_takeWhile [OF that] by simp
  show ?case
  proof (cases "length prev \<le> ?clen + 1")
    case True
    have e: "comps' = comps1" using less.prems(1) g True by (subst (asm) sl_walk.simps) (simp add: Let_def)
    have "link_read (pre @ prev) = pre @ part_text prev ?clen"
    proof (cases "?clen = length prev")
      case all: True
      then have "take ?clen prev = prev" "0 < ?clen" using less.prems(5) by auto
      then show ?thesis using noslash less.prems(5) by (simp add: link_read_def part_text_def)
    next
      case False
      then have l: "length prev = ?clen + 1" using True length_takeWhile_le [of "\<lambda>c. c \<noteq> CHR ''/''" prev] by linarith
      then have p: "prev = take ?clen prev @ ''/''" using slash by (metis less_add_one take_Suc_conv_app_nth Suc_eq_plus1 take_all order_refl)
      show ?thesis
      proof (cases "?clen = 0")
        case True
        then have "prev = ''/''" using p by simp
        then show ?thesis using pre by (auto simp: link_read_def part_text_def butlast_append)
      next
        case False
        then have "link_read (pre @ take ?clen prev @ ''/'') = pre @ take ?clen prev"
          using noslash less.prems(5) by (simp add: link_read_def butlast_append)
        then show ?thesis using False p by (simp add: part_text_def)
      qed
    qed
    then show ?thesis using new1 j e by (intro exI [of _ new1]) simp
  next
    case False
    let ?rest = "drop (?clen + 1) prev" and ?d = "pre @ part_text prev ?clen" and ?pre = "pre @ take ?clen prev @ ''/''"
    have w: "sl_walk (get_comp free) ?rest (comps1, sl1, ce1, cew1) = Some (comps', r)"
      using less.prems(1) g False by (subst (asm) sl_walk.simps) (simp add: Let_def)
    have p: "prev = take ?clen prev @ ''/'' @ ?rest"
      using slash False id_take_nth_drop [of ?clen prev] by simp
    have s: "with_slash ?d = ?pre"
    proof (cases "?clen = 0")
      case False
      then have "last (pre @ take ?clen prev) \<noteq> CHR ''/''" using noslash by (subst last_appendR) auto
      then show ?thesis using False by (simp add: with_slash_def part_text_def)
    qed (simp add: with_slash_def part_text_def)
    have nz: "CHR 0x00 \<notin> set ?rest" using less.prems(3) in_set_dropD by fast
    have l: "length ?rest < length prev" "?clen + 1 < length prev" "?rest \<noteq> []" using False by auto
    have st: "Some ?d = None \<and> (1::nat) = 0 \<and> ?pre = [] \<or> (\<exists>s. Some ?d = Some s \<and> (1::nat) = 1 \<and> with_slash s = ?pre)" using s by simp
    obtain new where new: "comps' = comps1 @ new" "new \<noteq> []" "list_all readable new"
      "foldl sl_step (Some ?d, 1) new = (Some (link_read (?pre @ ?rest)), 1)"
      using less.hyps [OF l(1) w ok(3) [OF l(2)] nz new1(4) l(3) st] by blast
    have "?pre @ ?rest = pre @ prev" using p by simp
    then show ?thesis using new new1 j by (intro exI [of _ "new1 @ new"]) simp
  qed
qed

section \<open>The fields of a node as a whole\<close>

lemma entry_facts:
  assumes "f = field_head [a, b] len @ xs"
  shows "\<not> length f < 4" "f ! 3 = 1" "susp_sig f c d \<longleftrightarrow> c = a \<and> d = b"
  using assms by auto

definition rd_with_px :: "rr_image \<Rightarrow> rr_node \<Rightarrow> rr_reader \<Rightarrow> rr_reader" where
  "rd_with_px t n st =
     (let a = (rd_atts st)\<lparr>at_mode := px_get_mode t n, at_nlink := rn_nlink n, at_uid := px_get_uid t n,
                at_gid := px_get_gid t n, at_ino := (if px_with_ino t then rn_ino n else 0)\<rparr>;
          st1 = st\<lparr>rd_has_px := True, rd_atts := a\<rparr>
      in if px_with_ino t
         then st1\<lparr>px_ino_status := px_ino_status st OR 1, inode_counter := max (inode_counter st) (rn_ino n)\<rparr>
         else st1\<lparr>px_ino_status := px_ino_status st OR 2\<rparr>)"

lemma PX_entry: "rr_entry aborts tg cl (PX_field t n) st = Some (Next (rd_with_px t n st))"
proof -
  note f = entry_facts [OF PX_field_eq]
  have "rr_PX (PX_field t n) st = Some (Next (rd_with_px t n st))"
    by (simp add: rr_PX_def PX_read rd_with_px_def Let_def)
  then show ?thesis by (simp add: rr_entry_def f)
qed

lemma TF_entry:
  assumes "\<forall>x\<in>{rn_atime n, rn_mtime n, rn_ctime n}. time_ok (img_localtime t) (always_gmt (img_opts t)) (tf_time t x)"
  shows "rr_entry aborts tg cl (TF_field t n) st = Some (Next (st\<lparr>rd_atts := (rd_atts st)\<lparr>at_mtime := tf_time t (rn_mtime n),
     at_atime := tf_time t (rn_atime n), at_ctime := tf_time t (rn_ctime n)\<rparr>\<rparr>))"
proof -
  have "\<exists>xs. TF_field t n = field_head ''TF'' 26 @ xs" by (simp add: TF_field_def)
  then obtain xs where "TF_field t n = field_head ''TF'' 26 @ xs" by blast
  note f = entry_facts [OF this]
  show ?thesis by (simp add: rr_entry_def f TF_read [OF assms])
qed

lemma PN_entry: "rr_entry aborts tg cl (PN_field n) st = Some (Next (st\<lparr>rd_atts := (rd_atts st)\<lparr>at_rdev := rn_dev n\<rparr>\<rparr>))"
  by (simp add: rr_entry_def entry_facts [OF PN_field_eq] PN_read)

lemma ES_entry: "rr_entry aborts tg cl (ES_field k) st = Some (Next st)"
  by (simp add: rr_entry_def entry_facts [OF ES_field_def])

lemma RE_entry: "rr_entry aborts tg cl (field_head ''RE'' 4) st = Some (Relocated st)"
  by (simp add: rr_entry_def entry_facts [where xs = "[]"])

lemma CL_entry:
  "rn_real_me n \<noteq> img_eff_partition_offset t \<Longrightarrow> rr_entry aborts tg False (CL_field t n) st =
     Some (Next (st\<lparr>rd_relocated_dir := rn_real_me n - img_eff_partition_offset t\<rparr>))"
  using CL_read [of t n] by (simp add: rr_entry_def entry_facts [OF CL_field_eq] rr_CL_def) (simp add: CL_field_eq)

lemma ZF_entry: "zf_known zf \<Longrightarrow> rr_entry aborts tg cl (ZF_field t zf) st = Some (Next (st\<lparr>rd_zf := zf\<rparr>))"
proof -
  assume k: "zf_known zf"
  let ?c = "if \<not> zf_algo zf = (char_byte CHR ''p'', char_byte CHR ''z'') \<and> img_susp_z2 t then CHR ''2'' else CHR ''F''"
  have "susp_sig (ZF_field t zf) a b \<longleftrightarrow> a = CHR ''Z'' \<and> b = ?c" for a b
    by (auto simp: ZF_field_eq Let_def susp_sig_def)
  moreover have "?c = CHR ''F'' \<or> ?c = CHR ''2''" by auto
  ultimately show ?thesis using ZF_read [OF k, of t st] by (auto simp: rr_entry_def)
qed

lemma NM_entry:
  assumes "0 < len" "len \<le> 250" "len \<le> length nm" "CHR 0x00 \<notin> set nm" "rd_namecont st \<longleftrightarrow> rd_name st \<noteq> None"
    and "\<not> rd_skip_nm st" "length nm \<le> 255" "case rd_name st of None \<Rightarrow> True | Some s \<Rightarrow> length s \<le> 255"
  shows "rr_entry aborts tg cl (NM_field nm len flags) st = Some (Next (st\<lparr>rd_namecont := bit flags 0,
     rd_name := Some (case rd_name st of Some s \<Rightarrow> s @ take len nm | None \<Rightarrow> take len nm)\<rparr>))"
proof -
  have "\<exists>xs. NM_field nm len flags = field_head ''NM'' (len + 5) @ xs" by (simp add: NM_field_def)
  then obtain xs where "NM_field nm len flags = field_head ''NM'' (len + 5) @ xs" by blast
  note f = entry_facts [OF this]
  have "rr_NM (NM_field nm len flags) st = Some (Next (st\<lparr>rd_namecont := bit flags 0,
     rd_name := Some (case rd_name st of Some s \<Rightarrow> s @ take len nm | None \<Rightarrow> take len nm)\<rparr>))"
  proof -
    have l: "\<not> 4095 < length s + min (length nm) len" if "length s \<le> 255" for s :: string using that assms(7) by linarith
    show ?thesis
      using assms(5-8) NM_read [OF assms(1-5), of flags] l [of "the (rd_name st)"] l [of "[]"]
      by (cases "rd_name st") (simp_all add: rr_NM_def Let_def)
  qed
  then show ?thesis by (simp add: rr_entry_def f)
qed

lemma NM_fields_read:
  assumes "fst (nm_parts nm free) # snd (nm_parts nm free) = fs" "nm \<noteq> ''''" "length nm \<le> 255" "CHR 0x00 \<notin> set nm"
    and "10 \<le> free" "free \<le> 254" "rd_name st = None" "\<not> rd_namecont st" "\<not> rd_skip_nm st"
  shows "rr_fields aborts tg cl fs st = Some (Next (st\<lparr>rd_name := Some nm, rd_namecont := False\<rparr>))"
proof (cases "5 + length nm \<le> free")
  case True
  then have "fs = [NM_field nm (length nm) 0]" using assms(1) by (simp add: nm_parts_def)
  then show ?thesis using NM_entry [of "length nm" nm st aborts tg cl 0] assms True by (simp add: rr_reader.surjective)
next
  case False
  let ?k = "free - 5"
  let ?st = "st\<lparr>rd_namecont := True, rd_name := Some (take ?k nm)\<rparr>"
  have fs: "fs = [NM_field nm ?k 1, NM_field (drop ?k nm) (length nm - ?k) 0]" using assms(1) False by (simp add: nm_parts_def)
  have nz: "CHR 0x00 \<notin> set (drop ?k nm)" using assms(4) in_set_dropD by fast
  have "rr_entry aborts tg cl (NM_field nm ?k 1) st = Some (Next ?st)"
    using NM_entry [of ?k nm st aborts tg cl 1] assms False by simp
  moreover have "rr_entry aborts tg cl (NM_field (drop ?k nm) (length nm - ?k) 0) ?st =
      Some (Next (?st\<lparr>rd_namecont := False, rd_name := Some nm\<rparr>))"
  proof -
    have "length nm + 5 - free \<le> 250" "?k \<le> 255" using assms(3,5,6) by linarith+
    then show ?thesis
      using NM_entry [of "length nm - ?k" "drop ?k nm" ?st aborts tg cl 0] assms(3,5,6,9) nz False by simp
  qed
  ultimately show ?thesis by (simp add: fs rr_reader.surjective)
qed

lemma AL_fields_read:
  assumes "al_chain_ok fs" "aa_holds done_fs False (rd_aa st)" "fs \<noteq> []"
  shows "\<exists>aa. rr_fields aborts tg cl fs st = Some (Next (st\<lparr>rd_aa := aa\<rparr>)) \<and> aa_holds (done_fs @ fs) True aa"
  using assms
proof (induction fs arbitrary: done_fs st)
  case (Cons f fs)
  obtain content where c: "f = field_head ''AL'' (5 + length content) @ [if fs = [] then 0 else 1] @ content" "0 < length content"
    "length content < 251" using Cons.prems(1) by auto
  obtain aa where aa: "read_aaip_AL f (rd_aa st) = Some (Inr (), aa)" "aa_holds (done_fs @ [f]) (fs = []) aa"
    using AL_read [OF Cons.prems(2) c] by blast
  note f = entry_facts [OF c(1)]
  have e: "rr_entry aborts tg cl f st = Some (Next (st\<lparr>rd_aa := aa\<rparr>))" by (simp add: rr_entry_def f aa(1))
  show ?case
  proof (cases "fs = []")
    case False
    then show ?thesis
      using Cons.IH [of "done_fs @ [f]" "st\<lparr>rd_aa := aa\<rparr>"] Cons.prems(1) aa(2) e by auto
  qed (use e aa(2) in auto)
qed simp

text \<open>The attributes of a node, and those that the reader is to find.\<close>

definition node_stat :: "rr_image \<Rightarrow> rr_node \<Rightarrow> rr_stat \<Rightarrow> rr_stat" where
  "node_stat t n a =
     a\<lparr>at_mode := px_get_mode t n, at_nlink := rn_nlink n, at_uid := px_get_uid t n, at_gid := px_get_gid t n,
       at_ino := (if px_with_ino t then rn_ino n else 0), at_mtime := tf_time t (rn_mtime n),
       at_atime := tf_time t (rn_atime n), at_ctime := tf_time t (rn_ctime n)\<rparr>"

definition has_dev :: "rr_node \<Rightarrow> bool" where
  "has_dev n \<longleftrightarrow> rn_type n = ECMA119_SPECIAL \<and> (S_ISBLK (rn_mode n) \<or> S_ISCHR (rn_mode n))"

definition marked_RE :: "rr_image \<Rightarrow> rr_node \<Rightarrow> bool" where
  "marked_RE t n \<longleftrightarrow> rn_type n = ECMA119_DIR \<and>
     (rn_real_parent n \<noteq> None \<or> rn_reloc_dir n \<and> rr_reloc_flags (img_opts t) AND 1 \<noteq> 0)"

definition text_good :: "string option \<Rightarrow> bool" where
  "text_good s \<longleftrightarrow> (case s of Some x \<Rightarrow> x \<noteq> '''' \<and> CHR 0x00 \<notin> set x | None \<Rightarrow> False)"

definition times_ok :: "rr_image \<Rightarrow> rr_node \<Rightarrow> bool" where
  "times_ok t n \<longleftrightarrow>
     (\<forall>x\<in>{rn_atime n, rn_mtime n, rn_ctime n}. time_ok (img_localtime t) (always_gmt (img_opts t)) (tf_time t x))"

definition read_ok :: "rr_image \<Rightarrow> rr_node \<Rightarrow> bool" where
  "read_ok t n \<longleftrightarrow>
     rr_ok t n \<and> text_good (img_conv t (rn_name n)) \<and> times_ok t n \<and>
     (rn_type n = ECMA119_SYMLINK \<longrightarrow> text_good (img_conv t (rn_dest n))) \<and>
     (case rn_zf n of Some zf \<Rightarrow> zf_known zf | None \<Rightarrow> True) \<and>
     (case rn_aa n of Some d \<Rightarrow> al_chain_ok (aa_chain d) | None \<Rightarrow> True) \<and>
     (rn_type n = ECMA119_PLACEHOLDER \<longrightarrow> rn_real_me n \<noteq> img_eff_partition_offset t)"

definition rd_fresh :: "rr_reader \<Rightarrow> bool" where
  "rd_fresh st \<longleftrightarrow> rd_name st = None \<and> \<not> rd_namecont st \<and> \<not> rd_skip_nm st \<and> rd_linkdest st = None \<and> rd_linkcont st = 0 \<and>
     rd_relocated_dir st = 0 \<and> rd_aa st = aa_empty"

definition loaded_aa :: "rr_image \<Rightarrow> rr_node \<Rightarrow> byte list" where
  "loaded_aa t n = (case rn_aa n of Some d \<Rightarrow> if aaip (img_opts t) then concat (aa_chain d) else [] | None \<Rightarrow> [])"

definition rd_holds :: "rr_image \<Rightarrow> rr_node \<Rightarrow> rr_reader \<Rightarrow> rr_reader \<Rightarrow> bool" where
  "rd_holds t n st st' \<longleftrightarrow>
     rd_atts st' = (node_stat t n (rd_atts st))\<lparr>at_rdev := (if has_dev n then rn_dev n else at_rdev (rd_atts st))\<rparr> \<and>
     rd_has_px st' \<and> rd_name st' = img_conv t (rn_name n) \<and> \<not> rd_namecont st' \<and>
     rd_linkdest st' = (if rn_type n = ECMA119_SYMLINK then map_option link_read (img_conv t (rn_dest n)) else None) \<and>
     rd_linkcont st' = 0 \<and>
     rd_relocated_dir st' = (if rn_type n = ECMA119_PLACEHOLDER then rn_real_me n - img_eff_partition_offset t else 0) \<and>
     rd_zf st' = (case (if rn_type n = ECMA119_FILE then rn_zf n else None) of Some zf \<Rightarrow> zf | None \<Rightarrow> rd_zf st) \<and>
     aa_string (rd_aa st') = loaded_aa t n \<and> (aa_size (rd_aa st') = 0 \<longleftrightarrow> loaded_aa t n = [])"

lemma front_read:
  assumes "times_ok t n" "\<not> (ty = 1 \<and> is_root)"
  shows "rr_fields aborts tg cl (front_fields t n is_root ty) st =
     Some (Next ((rd_with_px t n st)\<lparr>rd_atts := node_stat t n (rd_atts st)\<rparr>))"
proof -
  have tf: "\<forall>x\<in>{rn_atime n, rn_mtime n, rn_ctime n}. time_ok (img_localtime t) (always_gmt (img_opts t)) (tf_time t x)"
    using assms(1) by (simp add: times_ok_def)
  show ?thesis
    using assms(2) by (auto simp: front_fields_def ES_entry PX_entry TF_entry [OF tf]) (auto simp: rd_with_px_def node_stat_def Let_def)
qed

lemma type_read:
  assumes "read_ok t n" "rd_relocated_dir st = 0"
  shows "rr_fields aborts tg False (type_fields t n 0) st =
     Some (if marked_RE t n then Relocated st
           else Next (st\<lparr>rd_atts := (rd_atts st)\<lparr>at_rdev := (if has_dev n then rn_dev n else at_rdev (rd_atts st))\<rparr>,
             rd_relocated_dir := (if rn_type n = ECMA119_PLACEHOLDER then rn_real_me n - img_eff_partition_offset t else 0)\<rparr>))"
  using assms
  by (cases "rn_type n"; cases "rn_real_parent n")
    (auto simp: type_fields_def marked_RE_def has_dev_def RE_entry PN_entry CL_entry read_ok_def)

lemma link_fields_read:
  assumes "read_ok t n" "sl_parts t n sls" "rd_linkdest st = None" "rd_linkcont st = 0"
  shows "rr_fields aborts tg cl sls st = Some (Next (st\<lparr>rd_linkdest :=
     (if rn_type n = ECMA119_SYMLINK then map_option link_read (img_conv t (rn_dest n)) else None), rd_linkcont := 0\<rparr>))"
proof (cases "rn_type n = ECMA119_SYMLINK")
  case True
  then obtain d free c cew comps r where d: "img_conv t (rn_dest n) = Some d" "free \<le> 254"
    "sl_walk (get_comp free) d ([], 5, c, cew) = Some (comps, r)" "sls = sl_fields comps"
    using assms(2) by (auto simp: sl_parts_def)
  have ok: "dest_ok d" "CHR 0x00 \<notin> set d" "d \<noteq> ''''" using assms(1) True d(1) by (auto simp: read_ok_def rr_ok_def text_good_def)
  obtain new where "comps = [] @ new" "new \<noteq> []" "list_all readable new" "foldl sl_step (None, 0) new = (Some (link_read ([] @ d)), 1)"
    using sl_walk_reads [OF d(3) ok(1) d(2) ok(2) _ ok(3), of None 0 "[]"] by auto
  then show ?thesis using SL_fields_read [of comps st "link_read d"] assms(3,4) True d(1,4) by simp
qed (use assms in \<open>simp add: sl_parts_def rr_reader.surjective\<close>)

lemma zf_aa_read:
  assumes "read_ok t n" "rd_aa st = aa_empty"
  shows "\<exists>aa. rr_fields aborts tg cl (zf_fields t n @ aa_fields t n) st = Some (Next (st\<lparr>rd_aa := aa,
       rd_zf := (case (if rn_type n = ECMA119_FILE then rn_zf n else None) of Some zf \<Rightarrow> zf | None \<Rightarrow> rd_zf st)\<rparr>)) \<and>
     aa_string aa = loaded_aa t n \<and> (aa_size aa = 0 \<longleftrightarrow> loaded_aa t n = [])"
proof -
  let ?zf = "case (if rn_type n = ECMA119_FILE then rn_zf n else None) of Some zf \<Rightarrow> zf | None \<Rightarrow> rd_zf st"
  have z: "rr_fields aborts tg cl (zf_fields t n) st = Some (Next (st\<lparr>rd_zf := ?zf\<rparr>))"
    using assms(1) by (cases "rn_zf n") (auto simp: zf_fields_def ZF_entry read_ok_def)
  have "\<exists>aa. rr_fields aborts tg cl (aa_fields t n) (st\<lparr>rd_zf := ?zf\<rparr>) = Some (Next (st\<lparr>rd_aa := aa, rd_zf := ?zf\<rparr>)) \<and>
     aa_string aa = loaded_aa t n \<and> (aa_size aa = 0 \<longleftrightarrow> loaded_aa t n = [])"
  proof (cases "aa_fields t n = []")
    case True
    then have "loaded_aa t n = []"
      by (auto simp: aa_fields_def loaded_aa_def aaip_count_bytes_def split: option.splits if_splits)
    then show ?thesis using True assms(2) by (intro exI [of _ aa_empty]) (simp add: aa_empty_def)
  next
    case False
    then obtain d where d: "rn_aa n = Some d" "aaip (img_opts t)" "aaip_count_bytes d > 0"
      by (auto simp: aa_fields_def split: option.splits if_splits)
    have ne: "aa_chain d \<noteq> []" using d(3) by (auto simp: aaip_count_bytes_def)
    have ok: "al_chain_ok (aa_chain d)" using assms(1) d(1) by (simp add: read_ok_def)
    obtain aa where aa: "rr_fields aborts tg cl (aa_chain d) (st\<lparr>rd_zf := ?zf\<rparr>) = Some (Next (st\<lparr>rd_zf := ?zf, rd_aa := aa\<rparr>))"
      "aa_holds (aa_chain d) True aa"
      using AL_fields_read [OF ok _ ne, of "[]" "st\<lparr>rd_zf := ?zf\<rparr>" aborts tg cl] assms(2) by (auto simp: aa_holds_def)
    have fix_last: "al_chain_ok fs \<Longrightarrow> fs \<noteq> [] \<Longrightarrow> (last fs)[4 := 0] = last fs \<and> 5 \<le> length (last fs)" for fs
      by (induction fs rule: al_chain_ok.induct) (auto simp: field_head_eq)
    have "aa_string aa = concat (butlast (aa_chain d)) @ last (aa_chain d)"
      using aa(2) ne fix_last [OF ok ne] by (simp add: aa_holds_def)
    also have "\<dots> = concat (butlast (aa_chain d) @ [last (aa_chain d)])" by simp
    finally have s: "aa_string aa = loaded_aa t n" using ne d(1,2) by (simp add: loaded_aa_def)
    have "last (aa_chain d) \<noteq> []" using fix_last [OF ok ne] by auto
    then have nz: "loaded_aa t n \<noteq> []" using last_in_set [OF ne] d(1,2) by (auto simp: loaded_aa_def)
    have e: "rr_fields aborts tg cl (aa_fields t n) (st\<lparr>rd_zf := ?zf\<rparr>) = rr_fields aborts tg cl (aa_chain d) (st\<lparr>rd_zf := ?zf\<rparr>)"
      using d by (simp add: aa_fields_def ES_entry)
    show ?thesis using aa s nz ne e by (intro exI [of _ aa]) (auto simp: aa_holds_def)
  qed
  then show ?thesis by (simp add: rr_fields_append z)
qed

lemma node_fields_read:
  assumes ok: "read_ok t n" and free: "10 \<le> free" "free \<le> 254" and sl: "sl_parts t n sls" and st: "rd_fresh st"
    and nm: "img_conv t (rn_name n) = Some nm"
  shows "if marked_RE t n
    then \<exists>st'. rr_fields aborts tg False (head_fields t n n is_root 0 @ fst (nm_parts nm free) # snd (nm_parts nm free) @ sls @
        zf_fields t n @ aa_fields t n) st = Some (Relocated st')
    else \<exists>st'. rr_fields aborts tg False (head_fields t n n is_root 0 @ fst (nm_parts nm free) # snd (nm_parts nm free) @ sls @
        zf_fields t n @ aa_fields t n) st = Some (Next st') \<and> rd_holds t n st st'"
proof -
  let ?nm = "fst (nm_parts nm free) # snd (nm_parts nm free)"
  have f: "head_fields t n n is_root 0 @ fst (nm_parts nm free) # snd (nm_parts nm free) @ sls @ zf_fields t n @ aa_fields t n =
      front_fields t n is_root 0 @ type_fields t n 0 @ ?nm @ sls @ (zf_fields t n @ aa_fields t n)"
    by (simp add: head_fields_def)
  have t: "times_ok t n" and n: "nm \<noteq> ''''" "length nm \<le> 255" "CHR 0x00 \<notin> set nm"
    using ok nm by (auto simp: read_ok_def rr_ok_def text_good_def)
  let ?st1 = "(rd_with_px t n st)\<lparr>rd_atts := node_stat t n (rd_atts st)\<rparr>"
  have st1: "rd_fresh ?st1" "rd_has_px ?st1" "rd_zf ?st1 = rd_zf st" using st by (auto simp: rd_fresh_def rd_with_px_def Let_def)
  note a = front_read [OF t, of 0 is_root aborts tg False st, simplified]
  note b = type_read [OF ok, of ?st1 aborts tg]
  show ?thesis
  proof (cases "marked_RE t n")
    case True
    then show ?thesis using b st1(1) unfolding f by (simp add: rr_fields_append a rd_fresh_def)
  next
    case False
    define st2 where "st2 = ?st1\<lparr>rd_atts := (rd_atts ?st1)\<lparr>at_rdev := (if has_dev n then rn_dev n else at_rdev (rd_atts ?st1))\<rparr>,
      rd_relocated_dir := (if rn_type n = ECMA119_PLACEHOLDER then rn_real_me n - img_eff_partition_offset t else 0)\<rparr>"
    have b2: "rr_fields aborts tg False (type_fields t n 0) ?st1 = Some (Next st2)"
      using b False st1(1) by (simp add: st2_def rd_fresh_def)
    have st2: "rd_name st2 = None" "\<not> rd_namecont st2" "\<not> rd_skip_nm st2" "rd_linkdest st2 = None" "rd_linkcont st2 = 0" "rd_aa st2 = aa_empty"
      "rd_zf st2 = rd_zf st" "rd_has_px st2"
      "rd_atts st2 = (node_stat t n (rd_atts st))\<lparr>at_rdev := (if has_dev n then rn_dev n else at_rdev (rd_atts st))\<rparr>"
      using st1 by (simp_all add: st2_def rd_fresh_def node_stat_def)
    have c: "rr_fields aborts tg False ?nm st2 = Some (Next (st2\<lparr>rd_name := Some nm, rd_namecont := False\<rparr>))"
      by (rule NM_fields_read [OF refl n free st2(1-3)])
    let ?st3 = "st2\<lparr>rd_name := Some nm, rd_namecont := False\<rparr>"
    let ?st4 = "?st3\<lparr>rd_linkdest := (if rn_type n = ECMA119_SYMLINK then map_option link_read (img_conv t (rn_dest n)) else None), rd_linkcont := 0\<rparr>"
    have d: "rr_fields aborts tg False sls ?st3 = Some (Next ?st4)"
      by (rule link_fields_read [OF ok sl]) (simp_all add: st2)
    obtain aa where e: "rr_fields aborts tg False (zf_fields t n @ aa_fields t n) ?st4 = Some (Next (?st4\<lparr>rd_aa := aa,
       rd_zf := (case (if rn_type n = ECMA119_FILE then rn_zf n else None) of Some zf \<Rightarrow> zf | None \<Rightarrow> rd_zf ?st4)\<rparr>))"
      "aa_string aa = loaded_aa t n" "aa_size aa = 0 \<longleftrightarrow> loaded_aa t n = []"
      using zf_aa_read [OF ok, of ?st4 aborts tg False] st2(6) by auto
    let ?st5 = "?st4\<lparr>rd_aa := aa, rd_zf := (case (if rn_type n = ECMA119_FILE then rn_zf n else None) of Some zf \<Rightarrow> zf | None \<Rightarrow> rd_zf ?st4)\<rparr>"
    have "rr_fields aborts tg False (front_fields t n is_root 0 @ type_fields t n 0 @ ?nm @ sls @ (zf_fields t n @ aa_fields t n)) st =
        Some (Next ?st5)"
      unfolding rr_fields_append [of _ _ _ "front_fields t n is_root 0"] a option.case rr_step.case
        rr_fields_append [of _ _ _ "type_fields t n 0"] b2 rr_fields_append [of _ _ _ ?nm] c
        rr_fields_append [of _ _ _ sls] d by (rule e(1))
    moreover have "rd_holds t n st ?st5"
    proof -
      have "rd_zf ?st4 = rd_zf st" using st2(7) by simp
      moreover have "rd_relocated_dir st2 = (if rn_type n = ECMA119_PLACEHOLDER then rn_real_me n - img_eff_partition_offset t else 0)"
        by (simp add: st2_def)
      ultimately show ?thesis using st2(8,9) e(2,3) nm by (cases "rn_zf n") (simp_all add: rd_holds_def)
    qed
    ultimately show ?thesis using False unfolding f by auto
  qed
qed

section \<open>The containers of a node\<close>

text \<open>A CE is written only if something is left for the Continuation Area.\<close>

lemma walk_stays:
  assumes "sl_walk (calc_comp a h b space su) prev (cew, sl_len, ce) = Some (cew', sl_len', ce')" "0 < sl_len"
  shows "0 < sl_len'" and "\<not> cew' \<Longrightarrow> su' \<le> su \<Longrightarrow>
    \<not> cew \<and> sl_walk (calc_comp a' h' b' space su') prev (cew, sl_len, ce) = Some (cew', sl_len', ce')"
  and "\<not> cew' \<Longrightarrow> su + sl_len' \<le> space"
proof -
  have "0 < sl_len' \<and> (\<not> cew' \<longrightarrow> su + sl_len' \<le> space) \<and> (\<not> cew' \<longrightarrow> su' \<le> su \<longrightarrow>
    \<not> cew \<and> sl_walk (calc_comp a' h' b' space su') prev (cew, sl_len, ce) = Some (cew', sl_len', ce'))"
    using assms
  proof (induction "length prev" arbitrary: prev cew sl_len ce rule: less_induct)
    case less
    let ?clen = "length (takeWhile (\<lambda>c. c \<noteq> CHR ''/'') prev)"
    obtain cew1 sl1 ce1 where c: "calc_comp a h b space su prev ?clen (cew, sl_len, ce) = Some (cew1, sl1, ce1)"
      using less.prems(1) by (subst (asm) sl_walk.simps) (auto simp: Let_def split: option.splits)
    have s: "0 < sl1" "\<not> cew1 \<longrightarrow> su + sl1 \<le> space" "\<not> cew1 \<longrightarrow> su' \<le> su \<longrightarrow> \<not> cew \<and> calc_comp a' h' b' space su' prev ?clen (cew, sl_len, ce) = Some (cew1, sl1, ce1)"
      using c less.prems(2) by (auto simp: calc_comp_def Let_def split: if_splits)
    show ?case
    proof (cases "length prev \<le> ?clen + 1")
      case True
      then have "(cew', sl_len', ce') = (cew1, sl1, ce1)"
        using less.prems(1) c by (subst (asm) sl_walk.simps) (simp add: Let_def)
      then show ?thesis using True s by (subst sl_walk.simps) (auto simp: Let_def)
    next
      case False
      have w: "sl_walk (calc_comp a h b space su) (drop (?clen + 1) prev) (cew1, sl1, ce1) = Some (cew', sl_len', ce')"
        using less.prems(1) c False by (subst (asm) sl_walk.simps) (simp add: Let_def)
      have l: "length (drop (?clen + 1) prev) < length prev" using False by auto
      from less.hyps [OF l w s(1)] show ?thesis using False s by (subst sl_walk.simps) (auto simp: Let_def)
    qed
  qed
  then show "0 < sl_len'" "\<not> cew' \<Longrightarrow> su' \<le> su \<Longrightarrow>
    \<not> cew \<and> sl_walk (calc_comp a' h' b' space su') prev (cew, sl_len, ce) = Some (cew', sl_len', ce')" "\<not> cew' \<Longrightarrow> su + sl_len' \<le> space" by blast+
qed

lemma calc_sl_stays:
  assumes "calc_sl a h b space d (su, ce) = Some (su2, 0)" "k \<le> su"
  shows "ce = 0 \<and> k \<le> su2 \<and> calc_sl a' h' b' space d (su - k, 0) = Some (su2 - k, 0)"
proof -
  obtain cew sl_len ce1 where w: "sl_walk (calc_comp a h b space su) d (ce \<noteq> 0, 5, ce) = Some (cew, sl_len, ce1)"
    using assms(1) by (auto simp: calc_sl_def split: option.splits)
  note st = walk_stays(1) [OF w] walk_stays(2) [OF w, where su' = "su - k"]
  have p: "0 < sl_len" using st(1) by simp
  have "\<not> cew" using assms(1) w p add_ge [of ce1 sl_len h b] by (auto simp: calc_sl_def)
  moreover have "ce = 0 \<and> sl_walk (calc_comp a' h' b' space (su - k)) d (ce \<noteq> 0, 5, ce) = Some (cew, sl_len, ce1)"
    using st(2) [of a' h' b'] calculation by auto
  ultimately show ?thesis using assms w by (auto simp: calc_sl_def)
qed

lemma calc_rest_stays:
  assumes "calc_rest t n a h b space (su, ce) = Calc su' 0" "k \<le> su" "su \<le> space"
  shows "ce = 0 \<and> k \<le> su' \<and> calc_rest t n a' h' b' space (su - k, 0) = Calc (su' - k) 0"
proof -
  obtain f1 c1 f2 c2 where g: "group_sizes h b (zf_fields t n) (space - su, ce) = (f1, c1)"
    "group_sizes h b (aa_fields t n) (f1, c1) = (f2, c2)" by (metis surj_pair)
  have z: "zf_sizes n h b (space - su, ce) = (f1, c1)" "aa_sizes t n h b (f1, c1) = (f2, c2)"
    using g zf_group [of n h b "(space - su, ce)" t] by (simp_all add: aa_group)
  have r: "c2 = 0" "su' = space - f2" using assms(1) z by (auto simp: calc_rest_def split: if_splits)
  have stay: "c = 0 \<and> f' \<le> f \<and> group_sizes h' b' fs (f + k, 0) = (f' + k, 0)"
    if gs: "group_sizes h b fs (f, c) = (f', 0)" "list_all (\<lambda>f. 0 < length f) fs" for fs f c f'
  proof (cases "fs = []")
    case False
    then have pos: "0 < sum_list (map length fs)" using that(2) by (cases fs) auto
    have "\<not> (f < length (concat fs) \<or> c > 0)"
      using gs(1) False pos add_fold_ge [of c "map length fs" h b] by (auto simp: group_sizes_def split: if_splits)
    then show ?thesis using gs(1) False by (auto simp: group_sizes_def)
  qed (use gs(1) in \<open>simp add: group_sizes_def\<close>)
  have ne: "list_all (\<lambda>f. 0 < length f) (zf_fields t n)" "list_all (\<lambda>f. 0 < length f) (aa_fields t n)"
  proof -
    have "length f > 0" if "f \<in> set (aa_chain d)" for f d
      using that by (induction d rule: aa_chain.induct) (subst (asm) (2) aa_chain.simps, auto split: if_splits)
    then show "list_all (\<lambda>f. 0 < length f) (aa_fields t n)"
      by (auto simp: aa_fields_def list_all_iff ES_field_def split: option.splits)
    have "ZF_field t zf \<noteq> []" for zf by (metis ZF_length list.size(3) zero_neq_numeral)
    then show "list_all (\<lambda>f. 0 < length f) (zf_fields t n)"
      by (auto simp: zf_fields_def split: option.splits)
  qed
  from stay [OF g(2) [unfolded r(1)] ne(2)] have a: "c1 = 0" "f2 \<le> f1" "group_sizes h' b' (aa_fields t n) (f1 + k, 0) = (f2 + k, 0)" by auto
  from stay [OF g(1) [unfolded a(1)] ne(1)] have b: "ce = 0" "f1 \<le> space - su" "group_sizes h' b' (zf_fields t n) (space - su + k, 0) = (f1 + k, 0)" by auto
  have e: "space - (su - k) = space - su + k" using assms(2,3) by simp
  have z': "zf_sizes n h' b' (space - (su - k), 0) = (f1 + k, 0)" "aa_sizes t n h' b' (f1 + k, 0) = (f2 + k, 0)"
    using a(3) b(3) zf_group [of n h' b' "(space - (su - k), 0)" t] by (simp_all add: aa_group e)
  have "calc_rest t n a' h' b' space (su - k, 0) = Calc (space - (f2 + k)) 0" by (simp add: calc_rest_def z')
  moreover have "k \<le> space - f2" using a(2) b(2) assms(2,3) by linarith
  ultimately show ?thesis using r(2) b(1) by simp
qed

lemma no_empty_area:
  assumes "susp_calc_nm_sl_al t n space H 0 base_ce True hop = Calc su 0" "H + 28 \<le> space"
  shows "susp_calc_nm_sl_al t n space H 0 base_ce False False \<noteq> Calc_retry"
proof -
  obtain su1 ce1 where n1: "calc_nm t n True hop base_ce space (H + 28) 0 = Some (su1, ce1)"
    using assms by (auto simp: susp_calc_nm_sl_al_def split: option.splits)
  have su1: "su1 \<le> space" "28 \<le> su1" using n1 assms(2) by (auto simp: calc_nm_def Let_def split: if_splits)
  have n0: "calc_nm t n False False base_ce space H 0 = Some (su1 - 28, 0)" if "ce1 = 0"
  proof -
    define len where "len = (case img_conv t (rn_name n) of Some name \<Rightarrow> length name | None \<Rightarrow> 0)"
    have "H + 28 + 5 + len \<le> space"
    proof (rule ccontr)
      assume "\<not> H + 28 + 5 + len \<le> space"
      then have "ce1 = susp_calc_add_to_ce hop base_ce 0 (5 + (len + (H + 28) + 5 - space))"
        using n1 by (auto simp: calc_nm_def len_def Let_def)
      then show False using that add_ge [of 0 "5 + (len + (H + 28) + 5 - space)" hop base_ce] by simp
    qed
    moreover from this have "su1 = H + 28 + 5 + len" using n1 by (simp add: calc_nm_def len_def [symmetric])
    ultimately show ?thesis by (simp add: calc_nm_def len_def [symmetric])
  qed
  show ?thesis
  proof (cases "rn_type n = ECMA119_SYMLINK")
    case False
    then have "calc_rest t n True hop base_ce space (su1, ce1) = Calc su 0"
      using assms n1 by (simp add: susp_calc_nm_sl_al_def)
    from calc_rest_stays [OF this su1(2,1), of False False base_ce]
    show ?thesis using n0 False by (simp add: susp_calc_nm_sl_al_def)
  next
    case True
    obtain d where d: "img_conv t (rn_dest n) = Some d"
      using assms n1 True by (auto simp: susp_calc_nm_sl_al_def split: option.splits)
    obtain su2 ce2 where s: "calc_sl True hop base_ce space d (su1, ce1) = Some (su2, ce2)" "calc_rest t n True hop base_ce space (su2, ce2) = Calc su 0"
      using assms n1 True d by (auto simp: susp_calc_nm_sl_al_def split: option.splits)
    have su2: "su2 \<le> space"
    proof -
      obtain cew sl_len ce0 where w: "sl_walk (calc_comp True hop base_ce space su1) d (ce1 \<noteq> 0, 5, ce1) = Some (cew, sl_len, ce0)"
        using s(1) by (auto simp: calc_sl_def split: option.splits)
      then show ?thesis using s(1) walk_stays(3) [OF w] su1(1) by (auto simp: calc_sl_def split: if_splits)
    qed
    have z2: "ce2 = 0" using calc_rest_stays [OF s(2) _ su2, of 0 False False base_ce] by simp
    note a = calc_sl_stays [OF s(1) [unfolded z2] su1(2), of False False base_ce]
    have k2: "28 \<le> su2" using a by blast
    from calc_rest_stays [OF s(2) k2 su2, of False False base_ce]
      show ?thesis using n0 True d a by (simp add: susp_calc_nm_sl_al_def)
  qed
qed

text \<open>What \<open>rrip_get_susp_fields\<close> does is to collect the fields of one node.\<close>

definition padded :: "susp_info \<Rightarrow> susp_info" where
  "padded info = info\<lparr>suf_len := suf_len info + suf_len info mod 2\<rparr>"

definition entry_fields :: "rr_image \<Rightarrow> rr_node \<Rightarrow> bool \<Rightarrow> byte list list \<Rightarrow> bool" where
  "entry_fields t n is_root fs \<longleftrightarrow>
     (\<exists>nm free sls. img_conv t (rn_name n) = Some nm \<and> 10 \<le> free \<and> free \<le> 254 \<and> sl_parts t n sls \<and>
        fs = head_fields t n n is_root 0 @ fst (nm_parts nm free) # snd (nm_parts nm free) @ sls @ zf_fields t n @ aa_fields t n)"

lemma get_fields_entry:
  assumes ok: "rr_ok t n" and used: "used_up \<le> 120" and info: "suf_len info = 0" "ce_len info mod 2048 \<le> 2020"
  obtains nd where "rrip_get_susp_fields t n parent 0 used_up info = Some (Inr (padded (collect_node (img_eff_partition_offset t) info nd)))"
    and "node_plain nd" "entry_fields t n (parent = None) (node_fields nd)"
proof -
  let ?sp = "254 - used_up - used_up mod 2"
  obtain i1 where get: "rrip_get_susp_fields t n parent 0 used_up info = and_then (add_names t n ?sp i1)
        (\<lambda>i2. Some (Inr (i2\<lparr>suf_len := suf_len i2 + suf_len i2 mod 2\<rparr>)))"
    and i1: "suf_len i1 = calc_head t n 0" "ce_len i1 = ce_len info"
      "i1 = foldl susp_append (info\<lparr>current_ce_start := length (ce_susp_fields info)\<rparr>) (head_fields t n n (parent = None) 0)"
    and sp: "calc_head t n 0 + 38 \<le> ?sp" "?sp \<le> 254"
    by (rule get_fields_eq [of 0 n used_up info t parent]) (use used info in auto)
  note hp3 = head_fields_props(3) [of t n 0]
  have r: "suf_len i1 + 38 \<le> ?sp" "14 \<le> suf_len i1" "suf_len i1 + 28 \<le> ?sp" using sp(1) i1(1) hp3 by simp_all
  obtain su ce pd hop where
    p: "susp_calc_nm_sl_al t n ?sp (suf_len i1) 0 (ce_len i1) pd hop = Calc su ce" "hop \<longrightarrow> pd"
      "predict t n ?sp (suf_len i1) (ce_len i1) = (Calc su ce, pd)"
    by (rule predicted [OF ok r(3), of "ce_len i1"])
  obtain nm where nm: "img_conv t (rn_name n) = Some nm" using ok by (auto simp: rr_ok_def split: option.splits)
  let ?S = "suf_len i1 + (if pd then 28 else 0)"
  let ?nm1 = "fst (nm_parts nm (?sp - ?S))" and ?nm2 = "snd (nm_parts nm (?sp - ?S))"
  obtain sua ca sls where n: "add_names t n ?sp i1 = Some (Inr (placed t (nm_info t i1 ?nm1 pd ce) sua ca))"
    "in_step hop (ce_len i1) ?sp (?S + length ?nm1) (su, ce) (sua, ca)" "plain ?nm1"
    "sua @ ca = ?nm2 @ sls @ zf_fields t n @ aa_fields t n" "sl_parts t n sls" "ca \<noteq> [] \<longrightarrow> pd"
    by (rule names_placed [OF ok r(1) sp(2) r(2) p nm]) auto
  have pl: "list_all plain sua" "list_all plain ca" "ce = foldl (susp_calc_add_to_ce hop (ce_len i1)) 0 (map length ca)"
    using n(2) by (auto simp: in_step_def)
  have ca: "pd \<longleftrightarrow> ca \<noteq> []"
  proof
    assume pd
    have retry: "susp_calc_nm_sl_al t n ?sp (suf_len i1) 0 (ce_len i1) False False = Calc_retry"
      using p(3) \<open>pd\<close> by (auto simp: predict_def Let_def split: if_splits)
    show "ca \<noteq> []"
    proof
      assume "ca = []"
      then have "susp_calc_nm_sl_al t n ?sp (suf_len i1) 0 (ce_len i1) True hop = Calc su 0" using p(1) \<open>pd\<close> pl(3) by simp
      from no_empty_area [OF this r(3)] retry show False by blast
    qed
  qed (use n(6) in blast)
  let ?nd = "(head_fields t n n (parent = None) 0 @ [?nm1], ce, sua, ca)"
  have c: "placed t (nm_info t i1 ?nm1 pd ce) sua ca = collect_node (img_eff_partition_offset t) info ?nd"
    unfolding collect_node_def placed_def nm_info_def i1(3) using ca by (simp add: Let_def)
  show thesis
  proof (rule that [of ?nd])
    show "rrip_get_susp_fields t n parent 0 used_up info = Some (Inr (padded (collect_node (img_eff_partition_offset t) info ?nd)))"
      unfolding get n(1) c by (simp add: and_then_def padded_def)
    show "node_plain ?nd" using head_fields_props(1) [of t n n "parent = None" 0] n(3) pl(1,2) by (simp add: node_plain_def)
    have "10 \<le> ?sp - ?S" "?sp - ?S \<le> 254" using r(1) sp(2) by (auto split: if_splits)
    moreover have "node_fields ?nd = head_fields t n n (parent = None) 0 @ ?nm1 # ?nm2 @ sls @ zf_fields t n @ aa_fields t n"
      using n(4) by (simp add: node_fields_def)
    ultimately show "entry_fields t n (parent = None) (node_fields ?nd)"
      unfolding entry_fields_def using nm n(5) by blast
  qed
qed

lemma entry_fields_read:
  assumes "entry_fields t n is_root fs" "read_ok t n" "rd_fresh st"
  shows "if marked_RE t n then \<exists>st'. rr_fields aborts tg False fs st = Some (Relocated st')
    else \<exists>st'. rr_fields aborts tg False fs st = Some (Next st') \<and> rd_holds t n st st'"
  using assms node_fields_read unfolding entry_fields_def by blast

text \<open>The same for the records \<open>.\<close> and \<open>..\<close>. Only the root has a Continuation Area here.\<close>

definition dot_names :: "rr_image \<Rightarrow> nat \<Rightarrow> byte list list" where
  "dot_names t ty = (if rrip_version_1_10 (img_opts t) then [] else [NM_field '''' 0 (push_bit ty 1)])"

lemma get_fields_dot:
  assumes ty: "ty = 1 \<or> ty = 2" "rn_type n = ECMA119_DIR" and used: "used_up \<le> 120" and suf: "suf_len info = 0"
    and aa: "list_all plain (aa_fields t n)" and root: "ty = 1 \<and> parent = None \<longrightarrow> ce_len info = 0"
  obtains nd ers where "rrip_get_susp_fields t n parent ty used_up info = Some (Inr (padded (collect_node (img_eff_partition_offset t) info nd)))"
    and "node_plain nd"
    and "node_fields nd = head_fields t n (if ty = 2 then (case parent of Some p \<Rightarrow> p | None \<Rightarrow> n) else n) (parent = None) ty @
      dot_names t ty @ ers"
    and "ty = 1 \<and> parent = None \<or> ers = [] \<and> snd (snd (snd nd)) = []"
proof -
  let ?nd = "if ty = 2 then (case parent of Some p \<Rightarrow> p | None \<Rightarrow> n) else n" and ?eff = "img_eff_partition_offset t"
  define nms where "nms = dot_names t ty"
  have nms: "list_all plain nms" using NM_plain [of 0 "''''" "push_bit ty 1"] by (auto simp: nms_def dot_names_def)
  have ty2: "ty \<le> 2" "ty \<noteq> 0 \<longrightarrow> rn_type n = ECMA119_DIR" "ty \<noteq> 0" using ty by auto
  obtain i1 where get: "rrip_get_susp_fields t n parent ty used_up info =
      and_then (if ty = 0 then add_names t n (254 - used_up - used_up mod 2) i1 else add_dots t n (parent = None) ty i1)
        (\<lambda>i2. Some (Inr (i2\<lparr>suf_len := suf_len i2 + suf_len i2 mod 2\<rparr>)))"
    and i1: "ce_len i1 = ce_len info"
      "i1 = foldl susp_append (info\<lparr>current_ce_start := length (ce_susp_fields info)\<rparr>) (head_fields t n ?nd (parent = None) ty)"
    by (rule get_fields_eq [OF ty2(1,2) used suf, of t parent]) auto
  define i2 where "i2 = foldl susp_append i1 nms"
  have nm: "(if rrip_version_1_10 (img_opts t) then Some (Inr i1) else rrip_add_NM t i1 '''' 0 (push_bit ty 1) False) = Some (Inr i2)"
    by (simp add: i2_def nms_def dot_names_def rrip_add_NM_def susp_append_to_def)
  note hp = head_fields_props(1) [of t n ?nd "parent = None" ty]
  show thesis
  proof (cases "ty = 1 \<and> parent = None")
    case False
    then have "add_dots t n (parent = None) ty i1 = Some (Inr i2)" unfolding add_dots_def Let_def nm by (auto simp: and_then_def)
    moreover have "i2 = collect_node ?eff info (head_fields t n ?nd (parent = None) ty @ nms, 0, [], [])"
      by (simp add: i2_def i1(2) collect_node_def Let_def)
    ultimately show thesis
      using hp nms ty2(3) get
      by (intro that [of "(head_fields t n ?nd (parent = None) ty @ nms, 0, [], [])" "[]"])
        (simp_all add: and_then_def padded_def node_plain_def node_fields_def nms_def)
  next
    case True
    then have z: "ce_len i1 = 0" using root i1(1) by auto
    obtain ca where ca: "list_all plain ca" "map length ca = er_lens t @ map length (aa_fields t n)"
      "\<forall>info. fst (add_aa_string t n (if announce_aaip t then aaip_add_ER t (rrip_add_ER t info) else rrip_add_ER t info) (0, 0) 0) =
        placed t info [] ca"
      by (rule root_ce [OF aa])
    let ?ce = "rrip_er_len t + aaip_er_len t + snd (aa_sizes t n True 0 (0, 0))"
    let ?node = "(head_fields t n ?nd (parent = None) ty @ nms, ?ce, [], ca)"
    have ne: "ca \<noteq> []" using ca(2) by (auto simp: er_lens_def)
    have "add_dots t n (parent = None) ty i1 = Some (Inr (placed t (susp_add_CE ?eff ?ce i2) [] ca))"
      using True ca(3) unfolding add_dots_def Let_def nm and_then_def z by simp
    moreover have "placed t (susp_add_CE ?eff ?ce i2) [] ca = collect_node ?eff info ?node"
      using ne by (simp add: i2_def i1(2) collect_node_def placed_def Let_def)
    ultimately have g: "rrip_get_susp_fields t n parent ty used_up info = Some (Inr (padded (collect_node ?eff info ?node)))"
      unfolding get using ty2(3) by (simp add: and_then_def padded_def)
    show thesis
      by (rule that [OF g, of ca]) (use hp nms ca(1) True in \<open>simp_all add: node_plain_def node_fields_def nms_def\<close>)
  qed
qed

end
