(* ===== verification/DirLayout.thy ===== *)
theory DirLayout
  imports DirTree
begin

text \<open>
  The sizes and addresses of \<open>calc_dir_size\<close> and \<open>calc_dir_pos\<close> are the ones that \<open>write_one_dir\<close> and \<open>write_dirs\<close> need: the System
  Use fields of each record have the predicted size (\<open>fields_step\<close>), a record consists of the bytes \<open>record_bytes\<close>, the records
  fill the blocks of a directory as \<open>pack\<close> says, and every directory stands at its block (\<open>directories_laid\<close>).
\<close>

section \<open>The System Use fields of one record\<close>

text \<open>The state of the fields between two records. The sizes of the Continuation Areas are set without a change of
  the shape of the fields.\<close>

definition info_ok :: "susp_info \<Rightarrow> bool" where
  "info_ok i \<longleftrightarrow> susp_fields i = [] \<and> suf_len i = 0 \<and> list_all ca_field (ce_susp_fields i) \<and>
     ce_len i = length (concat (ce_chunks (ce_susp_fields i) 0)) \<and> ce_len i mod 2048 \<le> 2020"

lemma info_okD:
  assumes "info_ok i"
  shows "susp_fields i = []" "suf_len i = 0" "list_all ca_field (ce_susp_fields i)"
    "ce_len i = length (concat (ce_chunks (ce_susp_fields i) 0))" "ce_len i mod 2048 \<le> 2020"
  using assms unfolding info_ok_def by blast+

definition same_shape :: "byte list \<Rightarrow> byte list \<Rightarrow> bool" where
  "same_shape f g \<longleftrightarrow> length f = length g \<and> f ! 0 = g ! 0 \<and> f ! 2 = g ! 2"

lemma same_shape_refl [simp]: "same_shape f f" "list_all2 same_shape fs fs"
  by (simp_all add: same_shape_def list.rel_refl)

lemma same_shape_trans: "list_all2 same_shape fs gs \<Longrightarrow> list_all2 same_shape gs hs \<Longrightarrow> list_all2 same_shape fs hs"
  by (rule list_all2_trans [of same_shape same_shape same_shape]) (simp_all add: same_shape_def)

lemma foldl_update_keeps:
  fixes f :: "nat \<Rightarrow> nat" and g :: "nat \<Rightarrow> byte"
  assumes "\<forall>i\<in>set is. k < f i"
  shows "length (foldl (\<lambda>b i. b[f i := g i]) buf is) = length buf \<and> foldl (\<lambda>b i. b[f i := g i]) buf is ! k = buf ! k"
  using assms by (induction "is" arbitrary: buf) auto

lemma iso_bb_shape: "same_shape f (iso_bb f 20 v 4)"
proof -
  have "\<forall>i\<in>set [0..<4]. k < 20 + i" "\<forall>i\<in>set [0..<4]. k < 20 + 4 + (4 - 1 - i)" if "k < 20" for k :: nat
    using that by auto
  note keep = this [THEN foldl_update_keeps]
  show ?thesis unfolding same_shape_def iso_bb_def iso_lsb_def iso_msb_def using keep [of 0] keep [of 2] by simp
qed

lemma set_size_shape:
  "\<exists>ss cs. set_CE_size info pl n = info\<lparr>susp_fields := ss, ce_susp_fields := cs\<rparr> \<and>
     list_all2 same_shape (susp_fields info) ss \<and> list_all2 same_shape (ce_susp_fields info) cs"
proof -
  have "list_all2 same_shape fs (fs[i := iso_bb (fs ! i) 20 v 4])" for fs i v
    proof (rule list_all2_all_nthI)
    fix j assume "j < length fs"
    then show "same_shape (fs ! j) (fs[i := iso_bb (fs ! i) 20 v 4] ! j)"
      using iso_bb_shape [of "fs ! i" v] by (cases "i = j") simp_all
  qed simp
  then have "list_all2 same_shape ss (fst (set_place ss cs pl n)) \<and> list_all2 same_shape cs (snd (set_place ss cs pl n))" for ss cs
    by (cases pl) simp_all
  then show ?thesis using set_CE_size_place by blast
qed

lemma update_loop_shape:
  "\<exists>ss cs. update_loop is info pl cp = info\<lparr>susp_fields := ss, ce_susp_fields := cs\<rparr> \<and>
     list_all2 same_shape (susp_fields info) ss \<and> list_all2 same_shape (ce_susp_fields info) cs"
proof (induction "is" arbitrary: info pl cp)
  case Nil
  show ?case
  proof (cases "cp = 0")
    case True
    then show ?thesis by (intro exI [of _ "susp_fields info"] exI [of _ "ce_susp_fields info"]) simp
  next
    case False
    then show ?thesis using set_size_shape [of info pl "cp mod BLOCK_SIZE"] by simp
  qed
next
  case (Cons i "is")
  define n where "n = (cp + field_len (ce_susp_fields info ! i)) mod BLOCK_SIZE"
  have u: "update_loop (i # is) info pl cp =
      (if ce_susp_fields info ! i ! 0 = 0 then update_loop is info pl 0
       else if is_CE (ce_susp_fields info ! i) then update_loop is (set_CE_size info pl (if n = 0 then BLOCK_SIZE else n)) (In_ca i) n
       else update_loop is info pl n)"
    by (simp add: Let_def n_def)
  show ?case
  proof (cases "ce_susp_fields info ! i ! 0 \<noteq> 0 \<and> is_CE (ce_susp_fields info ! i)")
    case True
    obtain ss cs where i1: "set_CE_size info pl (if n = 0 then BLOCK_SIZE else n) = info\<lparr>susp_fields := ss, ce_susp_fields := cs\<rparr>"
      "list_all2 same_shape (susp_fields info) ss" "list_all2 same_shape (ce_susp_fields info) cs"
      using set_size_shape by blast
    let ?i1 = "info\<lparr>susp_fields := ss, ce_susp_fields := cs\<rparr>"
    obtain ss2 cs2 where i2: "update_loop is ?i1 (In_ca i) n = ?i1\<lparr>susp_fields := ss2, ce_susp_fields := cs2\<rparr>"
      "list_all2 same_shape (susp_fields ?i1) ss2" "list_all2 same_shape (ce_susp_fields ?i1) cs2"
      using Cons.IH by blast
    have "list_all2 same_shape (susp_fields info) ss2" "list_all2 same_shape (ce_susp_fields info) cs2"
      using same_shape_trans [OF i1(2)] same_shape_trans [OF i1(3)] i2(2,3) by simp_all
    then show ?thesis unfolding u i1(1) using True i2(1) by (intro exI [of _ ss2] exI [of _ cs2]) simp
  next
    case False
    then show ?thesis unfolding u using Cons.IH by auto
  qed
qed

lemma chunks_shape: "list_all2 same_shape fs gs \<Longrightarrow> length (concat (ce_chunks fs w)) = length (concat (ce_chunks gs w))"
proof (induction fs gs arbitrary: w rule: list_all2_induct)
  case (Cons f fs g gs)
  then show ?case by (auto simp: same_shape_def field_len_def Let_def)
qed simp

lemma fields_shape:
  assumes "list_all2 same_shape fs gs"
  shows "list_all ca_field fs \<Longrightarrow> list_all ca_field gs"
    and "list_all (\<lambda>f. field_len f = length f) fs \<Longrightarrow> list_all (\<lambda>f. field_len f = length f) gs"
    and "length (concat fs) = length (concat gs)"
  using assms by (induction fs gs rule: list_all2_induct) (auto simp: same_shape_def ca_field_def field_len_def)

text \<open>What \<open>rrip_write_susp_fields\<close> makes of the fields of a node.\<close>

lemma collect_facts:
  fixes eff :: u32
  assumes inv: "info_ok info" and pl: "node_plain (sua1, n, sua2, ca)"
  defines "i1 \<equiv> collect_node eff info (sua1, n, sua2, ca)"
  defines "fs \<equiv> sua1 @ (if ca = [] then [] else [susp_make_CE eff (ce_block info + of_nat (ce_len info div 2048))
      (of_nat (ce_len info mod 2048)) (of_nat n)]) @ sua2"
  shows "susp_fields i1 = fs" and "suf_len i1 = length (concat fs)" and "list_all (\<lambda>f. field_len f = length f) fs"
    and "ce_len i1 = end_of (ce_len info) ca" "ce_block i1 = ce_block info" "current_ce_start i1 = length (ce_susp_fields info)"
    and "ce_susp_fields i1 = ce_susp_fields info @ emit (ce_block info - eff) False (ce_len info) ca"
proof -
  have p: "list_all plain sua1" "list_all plain sua2" "list_all plain ca" using pl by (simp_all add: node_plain_def)
  have i: "susp_fields info = []" "suf_len info = 0" "ce_len info mod 2048 \<le> 2020" by (rule info_okD [OF inv])+
  define i3 where "i3 = foldl susp_append (if ca = [] then foldl susp_append (info\<lparr>current_ce_start := length (ce_susp_fields info)\<rparr>) sua1
    else susp_add_CE eff n (foldl susp_append (info\<lparr>current_ce_start := length (ce_susp_fields info)\<rparr>) sua1)) sua2"
  have i3: "susp_fields i3 = fs" "ce_len i3 = ce_len info" "ce_block i3 = ce_block info"
    "ce_susp_fields i3 = ce_susp_fields info" "current_ce_start i3 = length (ce_susp_fields info)"
    using i(1) by (simp_all add: i3_def fs_def append_all susp_add_CE_def susp_append_def BLOCK_SIZE_def)
  note lens = plain_lens(1) [OF p(1)] plain_lens(1) [OF p(2)]
  have sl3: "suf_len i3 = length (concat fs)"
    using i(2) sum_field_len [OF lens(1)] sum_field_len [OF lens(2)]
    by (simp add: i3_def fs_def append_all susp_add_CE_def susp_append_def)
  have i1: "i1 = foldl (susp_append_ce eff) i3 ca" by (simp add: i1_def collect_node_def i3_def Let_def)
  show "susp_fields i1 = fs" "suf_len i1 = length (concat fs)" "ce_len i1 = end_of (ce_len info) ca"
    "ce_block i1 = ce_block info" "current_ce_start i1 = length (ce_susp_fields info)"
    "ce_susp_fields i1 = ce_susp_fields info @ emit (ce_block info - eff) False (ce_len info) ca"
    using append_ce_all [OF p(3), of i3 eff] i3 sl3 i(3) by (simp_all add: i1)
  show "list_all (\<lambda>f. field_len f = length f) fs" using lens by (simp add: fs_def)
qed

lemma update_shape:
  fixes eff :: u32
  assumes inv: "info_ok info" and pl: "node_plain (sua1, n, sua2, ca)"
  defines "i1 \<equiv> padded (collect_node eff info (sua1, n, sua2, ca))"
  obtains ss cs where "susp_update_CE_sizes i1 = Inr (i1\<lparr>susp_fields := ss, ce_susp_fields := cs\<rparr>)"
    and "list_all2 same_shape (susp_fields i1) ss" "list_all2 same_shape (ce_susp_fields i1) cs"
proof (cases "susp_fields i1 = [] \<or> length (ce_susp_fields i1) - current_ce_start i1 = 0")
  case True
  then have "susp_update_CE_sizes i1 = Inr (i1\<lparr>susp_fields := susp_fields i1, ce_susp_fields := ce_susp_fields i1\<rparr>)"
    by (auto simp: susp_update_CE_sizes_def)
  then show thesis by (rule that) simp_all
next
  case False
  note c = collect_facts [OF inv pl, of eff]
  have ca: "ca \<noteq> []" using False c(6,7) by (auto simp: i1_def padded_def)
  have "find_CE (susp_fields i1) 0 = Some (length sua1)"
    using find_CE_at [OF plain_lens(2), of sua1] pl ca by (simp add: i1_def padded_def c(1) node_plain_def)
  then have "susp_update_CE_sizes i1 =
      Inr (update_loop [current_ce_start i1..<length (ce_susp_fields i1)] i1 (In_sua (length sua1)) 0)"
    using False by (simp add: susp_update_CE_sizes_def)
  then show thesis using update_loop_shape that by metis
qed

lemma write_fields:
  fixes eff :: u32
  assumes inv: "info_ok info" and pl: "node_plain nd"
  defines "i1 \<equiv> padded (collect_node eff info nd)"
  obtains S i2 where "\<And>b p. p + length S \<le> length b \<Longrightarrow> rrip_write_susp_fields i1 b p = (buf_put b p S, i2)"
    and "suf_len i1 = length S + length S mod 2" "info_ok i2" "ce_len i2 = ce_len i1" "ce_block i2 = ce_block info"
proof -
  obtain sua1 n sua2 ca where nd: "nd = (sua1, n, sua2, ca)" by (metis prod.collapse)
  note pl = pl [unfolded nd] and i1_def = i1_def [unfolded nd]
  note c = collect_facts [OF inv pl, of eff]
  obtain ss cs where u: "susp_update_CE_sizes i1 = Inr (i1\<lparr>susp_fields := ss, ce_susp_fields := cs\<rparr>)"
    "list_all2 same_shape (susp_fields i1) ss" "list_all2 same_shape (ce_susp_fields i1) cs"
    unfolding i1_def by (rule update_shape [OF inv pl])
  let ?C = "ce_susp_fields info" and ?E = "\<lambda>fin. emit (ce_block info - eff) fin (ce_len info) ca"
  have i: "list_all ca_field ?C" "ce_len info = length (concat (ce_chunks ?C 0))" "ce_len info mod 2048 \<le> 2020" and pca: "list_all plain ca"
    using info_okD [OF inv] pl by (auto simp: node_plain_def)
  have eq: "susp_fields i1 = susp_fields (collect_node eff info (sua1, n, sua2, ca))" "ce_susp_fields i1 = ?C @ ?E False"
    "ce_len i1 = end_of (ce_len info) ca" "ce_block i1 = ce_block info"
    "suf_len i1 = length (concat (susp_fields i1)) + length (concat (susp_fields i1)) mod 2"
    using c by (simp_all add: i1_def padded_def)
  have emits: "list_all2 same_shape (emit blk False w fs) (emit blk True w fs)" for blk w fs
    by (induction fs arbitrary: w) (auto simp: same_shape_def susp_make_CE_eq nth_append)
  have cs: "list_all ca_field cs" "end_of (ce_len info) ca = length (concat (ce_chunks cs 0))"
  proof -
    note fld = emit_ca_field [OF pca]
    show "list_all ca_field cs" using fields_shape(1) [OF u(3)] i(1) fld by (simp add: eq(2))
    have sh: "list_all2 same_shape (?E False) (?E True)" by (rule emits)
    have "length (concat (ce_chunks cs 0)) = length (concat (ce_chunks (?C @ ?E False) 0))"
      using chunks_shape [OF u(3), of 0] by (simp add: eq(2))
    also have "\<dots> = ce_len info + length (concat (ce_chunks (?E True) (ce_len info)))"
      using ce_chunks_append [OF i(1), of "?E False" 0] chunks_shape [OF sh, of "ce_len info"] i(2) by simp
    also have "\<dots> = end_of (ce_len info) ca" using chunks_emit [OF pca i(3)] by simp
    finally show "end_of (ce_len info) ca = length (concat (ce_chunks cs 0))" by simp
  qed
  define i2 where "i2 = (if susp_fields i1 = [] then i1 else i1\<lparr>susp_fields := [], suf_len := 0, ce_susp_fields := cs\<rparr>)"
  have ss: "list_all (\<lambda>f. field_len f = length f) ss" "length (concat ss) = length (concat (susp_fields i1))"
    using fields_shape(2,3) [OF u(2)] c(1,3) by (simp_all add: eq(1))
  show thesis
  proof (rule that)
    show "rrip_write_susp_fields i1 b p = (buf_put b p (concat ss), i2)" if "p + length (concat ss) \<le> length b" for b p
      using put_fields [OF ss(1) that] u(1,2) by (auto simp: rrip_write_susp_fields_def i2_def)
    show "suf_len i1 = length (concat ss) + length (concat ss) mod 2" using eq(5) ss(2) by simp
    show "ce_len i2 = ce_len i1" "ce_block i2 = ce_block info" by (simp_all add: i2_def eq(4))
    show "info_ok i2"
    proof (cases "susp_fields i1 = []")
      case True
      then have "ca = []" using c(1) by (auto simp: eq(1) split: if_splits)
      then show ?thesis using True i eq by (simp add: i2_def info_ok_def)
    next
      case False
      then show ?thesis using cs eq(3) end_of_room [OF pca i(3)] by (simp add: i2_def info_ok_def)
    qed
  qed
qed

section \<open>The bytes of a directory record\<close>

definition record_bytes ::
  "rr_image \<Rightarrow> bool \<Rightarrow> dir_tree \<Rightarrow> u32 \<times> u32 \<times> bool \<Rightarrow> byte list \<Rightarrow> byte list \<Rightarrow> byte list" where
  "record_bytes t version n' place fi su =
     (case place of (block, len, multi) \<Rightarrow>
        let fi2 = fi @ (if version then bytes_of '';1'' else [])
        in [of_nat (33 + length fi2 + (if odd (length fi2) then 0 else 1) + length su), 0] @
           bb_bytes (block - img_eff_partition_offset t) 4 @ bb_bytes len 4 @
           iso_datetime_7 (img_localtime t) (record_time t n') (always_gmt (img_opts t)) @
           [(if is_dir n' then 2 else 0) OR (if multi then 0x80 else 0), 0, 0] @ bb_bytes 1 2 @
           [of_nat (length fi2)] @ fi2 @ replicate (if odd (length fi2) then 0 else 1) 0 @ su)"

lemma zeros_add: "replicate (a + b) (0 :: byte) = replicate a 0 @ replicate b 0"
  by (rule replicate_add)

lemma record_written:
  fixes t n parent file_id info extent and pre S fi :: "byte list" and k :: nat
  defines "version \<equiv> need_version_number (img_opts t) (rn_type (dt_node n))"
  defines "len_dr \<equiv> 33 + length fi + (if odd (length fi) then 0 else 1) + (if version then 2 else 0)"
  assumes place: "record_place t n extent = Some place" and room: "len_dr + suf_len info \<le> k"
    and fi: "fi = (case file_id of Some b \<Rightarrow> [b] | None \<Rightarrow> (case dt_name n of Some s \<Rightarrow> bytes_of s | None \<Rightarrow> []))"
    and su: "\<And>b p. p + length S \<le> length b \<Longrightarrow> rrip_write_susp_fields info b p = (buf_put b p S, i2)" "length S \<le> suf_len info"
  shows "write_one_dir_record t n parent file_id (pre @ replicate k 0) (length pre) (length fi) (Some info) extent =
    Some (pre @ record_bytes t version (if file_id = Some 1 then (case parent of Some q \<Rightarrow> q | None \<Rightarrow> n) else n) place fi
            (S @ replicate (suf_len info - length S) 0) @ replicate (k - (len_dr + suf_len info)) 0, Some i2)"
proof -
  obtain block len multi where pl: "place = (block, len, multi)" by (metis prod.collapse)
  define n' where "n' = (if file_id = Some 1 then (case parent of Some q \<Rightarrow> q | None \<Rightarrow> n) else n)"
  define V where "V = (if version then 2 else 0 :: nat)"
  define P where "P = (if odd (length fi) then 0 else 1 :: nat)"
  define R where "R = replicate (suf_len info - length S) (0 :: byte) @ replicate (k - (len_dr + suf_len info)) 0"
  define ver where "ver = (if version then bytes_of '';1'' else [])"
  have lv: "length ver = V" by (simp add: ver_def V_def length_bytes_of)
  have ldr: "len_dr = 33 + length fi + P + V" by (simp add: len_dr_def P_def V_def)
  have "k = 33 + (length fi + (V + (P + (length S + ((suf_len info - length S) + (k - (len_dr + suf_len info)))))))"
    using room su(2) unfolding ldr by simp
  then have z: "replicate k (0 :: byte) = replicate 33 0 @ replicate (length fi) 0 @ replicate V 0 @ replicate P 0 @ replicate (length S) 0 @ R"
    by (metis R_def replicate_add)
  let ?T = "fi @ ver @ replicate P 0 @ replicate (length S) 0 @ R"
  have z33: "replicate 33 (0 :: byte) = [0] @ [0] @ replicate 8 0 @ replicate 8 0 @ replicate 7 0 @ [0] @ [0, 0] @ replicate 4 0 @ [0]"
    by (simp add: eval_nat_numeral)
  let ?p = "length pre"
  have b1: "buf_put (pre @ replicate k 0) (?p + 33) fi =
      (pre @ replicate 33 0) @ fi @ (replicate V 0 @ replicate P 0 @ replicate (length S) 0 @ R)"
    by (rule put_at [of _ _ "replicate (length fi) 0"]) (simp_all add: z)
  have b2: "(if version then buf_put ((pre @ replicate 33 0) @ fi @ (replicate V 0 @ replicate P 0 @ replicate (length S) 0 @ R))
        (?p + 33 + length fi) (bytes_of '';1'') else (pre @ replicate 33 0) @ fi @ (replicate V 0 @ replicate P 0 @ replicate (length S) 0 @ R)) =
      pre @ replicate 33 0 @ ?T"
  proof (cases version)
    case True
    then have "buf_put ((pre @ replicate 33 0) @ fi @ (replicate V 0 @ replicate P 0 @ replicate (length S) 0 @ R)) (?p + 33 + length fi) ver =
        (pre @ replicate 33 0 @ fi) @ ver @ (replicate P 0 @ replicate (length S) 0 @ R)"
      by (intro put_at [of _ _ "replicate V 0"]) (simp_all add: lv)
    then show ?thesis using True by (simp add: ver_def)
  qed (simp add: ver_def V_def)
  let ?L = "of_nat (len_dr + suf_len info) :: byte" and ?bb = "bb_bytes (block - img_eff_partition_offset t) 4"
  let ?dt = "iso_datetime_7 (img_localtime t) (record_time t n') (always_gmt (img_opts t))"
  let ?fl = "(if is_dir n' then 2 else 0) OR (if multi then 0x80 else 0) :: byte"
  have b3: "(pre @ replicate 33 0 @ ?T)[?p := ?L] = pre @ [?L, 0] @ replicate 8 0 @ replicate 8 0 @ replicate 7 0 @ [0] @ [0, 0] @ replicate 4 0 @ [0] @ ?T"
    unfolding z33 by (simp add: list_update_append)
  have b4: "iso_bb (pre @ [?L, 0] @ replicate 8 0 @ replicate 8 0 @ replicate 7 0 @ [0] @ [0, 0] @ replicate 4 0 @ [0] @ ?T) (?p + 2)
       (block - img_eff_partition_offset t) 4 =
     (pre @ [?L, 0]) @ ?bb @ replicate 8 0 @ replicate 7 0 @ [0] @ [0, 0] @ replicate 4 0 @ [0] @ ?T"
    by (rule iso_bb_at [of _ _ "replicate 8 0"]) simp_all
  have b5: "iso_bb ((pre @ [?L, 0]) @ ?bb @ replicate 8 0 @ replicate 7 0 @ [0] @ [0, 0] @ replicate 4 0 @ [0] @ ?T) (?p + 10) len 4 =
     (pre @ [?L, 0] @ ?bb) @ bb_bytes len 4 @ replicate 7 0 @ [0] @ [0, 0] @ replicate 4 0 @ [0] @ ?T"
    by (rule iso_bb_at [of _ _ "replicate 8 0"]) simp_all
  have b6: "buf_put ((pre @ [?L, 0] @ ?bb) @ bb_bytes len 4 @ replicate 7 0 @ [0] @ [0, 0] @ replicate 4 0 @ [0] @ ?T) (?p + 18) ?dt =
     (pre @ [?L, 0] @ ?bb @ bb_bytes len 4) @ ?dt @ [0] @ [0, 0] @ replicate 4 0 @ [0] @ ?T"
    by (rule put_at [of _ _ "replicate 7 0"]) simp_all
  have b7: "((pre @ [?L, 0] @ ?bb @ bb_bytes len 4) @ ?dt @ [0] @ [0, 0] @ replicate 4 0 @ [0] @ ?T)[?p + 25 := ?fl] =
     (pre @ [?L, 0] @ ?bb @ bb_bytes len 4 @ ?dt) @ ?fl # [0, 0] @ replicate 4 0 @ [0] @ ?T"
    by (rule upd_at) simp_all
  have b8: "iso_bb ((pre @ [?L, 0] @ ?bb @ bb_bytes len 4 @ ?dt) @ ?fl # [0, 0] @ replicate 4 0 @ [0] @ ?T) (?p + 28) 1 2 =
     (pre @ [?L, 0] @ ?bb @ bb_bytes len 4 @ ?dt @ [?fl, 0, 0]) @ bb_bytes 1 2 @ [0] @ ?T"
    by (rule iso_bb_at [of _ _ "replicate 4 0"]) simp_all
  let ?F = "of_nat (if version then length fi + 2 else length fi) :: byte"
  have b9: "((pre @ [?L, 0] @ ?bb @ bb_bytes len 4 @ ?dt @ [?fl, 0, 0]) @ bb_bytes 1 2 @ [0] @ ?T)[?p + 32 := ?F] =
     (pre @ [?L, 0] @ ?bb @ bb_bytes len 4 @ ?dt @ [?fl, 0, 0] @ bb_bytes 1 2) @ ?F # ?T"
    by (rule upd_at) simp_all
  let ?X = "pre @ [?L, 0] @ ?bb @ bb_bytes len 4 @ ?dt @ [?fl, 0, 0] @ bb_bytes 1 2 @ ?F # fi @ ver @ replicate P 0"
  have lX: "?p + len_dr = length ?X" by (simp add: ldr lv)
  have b10: "rrip_write_susp_fields info ((pre @ [?L, 0] @ ?bb @ bb_bytes len 4 @ ?dt @ [?fl, 0, 0] @ bb_bytes 1 2) @ ?F # ?T) (?p + len_dr) =
     (?X @ S @ R, i2)" (is "rrip_write_susp_fields info ?B _ = _")
  proof -
    have B: "?B = ?X @ replicate (length S) 0 @ R" by simp
    have "rrip_write_susp_fields info ?B (?p + len_dr) = (buf_put ?B (?p + len_dr) S, i2)"
      by (rule su(1)) (simp add: lX B)
    then show ?thesis using put_at [OF B lX, of S] by simp
  qed
  have even: "odd (length (fi @ ver)) = odd (length fi)" by (simp add: lv V_def)
  have ver2: "length (fi @ ver) = (if version then length fi + 2 else length fi)" by (simp add: lv V_def)
  show ?thesis
    unfolding write_one_dir_record_def Let_def fi [symmetric] version_def [symmetric] place pl option.case prod.case
      take_all [OF order_refl] b1 b2
    unfolding len_dr_def [symmetric] n'_def [symmetric] b3 b4 b5 b6 b7 b8 b9 b10
    unfolding record_bytes_def Let_def pl prod.case ver_def [symmetric] even ver2
    by (simp add: R_def P_def ldr V_def su(2) add.assoc)
qed

section \<open>The records of a directory\<close>

text \<open>Padding does not change what is written.\<close>

lemma update_loop_pad: "update_loop is (info\<lparr>suf_len := x\<rparr>) pl cp = (update_loop is info pl cp)\<lparr>suf_len := x\<rparr>"
proof (induction "is" arbitrary: info pl cp)
  case Nil
  show ?case by (cases pl) simp_all
next
  case (Cons i "is")
  have "set_CE_size (info\<lparr>suf_len := x\<rparr>) pl n = (set_CE_size info pl n)\<lparr>suf_len := x\<rparr>" for n by (cases pl) simp_all
  then show ?case using Cons.IH by (simp add: Let_def)
qed

lemma write_padded:
  assumes "info_ok info" "node_plain nd"
  shows "rrip_write_susp_fields (padded (collect_node eff info nd)) b p = rrip_write_susp_fields (collect_node eff info nd) b p"
proof -
  obtain sua1 n sua2 ca where nd: "nd = (sua1, n, sua2, ca)" by (metis prod.collapse)
  let ?i = "collect_node eff info nd"
  note c = collect_facts [OF assms(1) assms(2) [unfolded nd], of eff]
  have "padded ?i = ?i" if "susp_fields ?i = []" using that c(1,2) by (simp add: padded_def nd)
  moreover have "susp_update_CE_sizes (?i\<lparr>suf_len := x\<rparr>) = map_sum (\<lambda>e. e) (\<lambda>i. i\<lparr>suf_len := x\<rparr>) (susp_update_CE_sizes ?i)" for x
    by (simp add: susp_update_CE_sizes_def update_loop_pad split: option.splits)
  moreover have "\<exists>i1. susp_update_CE_sizes ?i = Inr i1"
    using update_shape [OF assms(1) assms(2) [unfolded nd], of eff thesis for thesis] calculation(2)
    unfolding nd [symmetric] padded_def by (metis map_sum.simps(1) sum.distinct(1) old.sum.exhaust)
  ultimately show ?thesis by (auto simp: rrip_write_susp_fields_def padded_def)
qed

text \<open>The fields of one record: their sizes are the predicted ones, and they are those of a node of the list that
  \<open>write_nodes\<close> works on.\<close>

definition node_ok :: "rr_image \<Rightarrow> dir_tree \<Rightarrow> bool" where
  "node_ok t n \<longleftrightarrow> rr_ok t (dt_node n) \<and> calc_dirent_len t n \<le> 120"

definition root_aa_ok :: "rr_image \<Rightarrow> rr_node \<Rightarrow> bool" where
  "root_aa_ok t n \<longleftrightarrow> rrip_er_len t + aaip_er_len t + length (concat (aa_fields t n)) + 27 < 2048"

definition node_written :: "rr_image \<Rightarrow> rr_node \<Rightarrow> rr_node option \<Rightarrow> nat \<Rightarrow> susp_node \<Rightarrow> bool" where
  "node_written t n parent ty nd \<longleftrightarrow> node_plain nd \<and>
     (if ty = 0 then entry_fields t n (parent = None) (node_fields nd)
      else \<exists>ers. node_fields nd = head_fields t n (if ty = 2 then (case parent of Some p \<Rightarrow> p | None \<Rightarrow> n) else n) (parent = None) ty @
             dot_names t ty @ ers \<and> (ty = 1 \<and> parent = None \<or> ers = []))"

lemma fields_step:
  assumes ok: "rr_ok t (dt_node n)" and ty: "ty \<le> 2" "ty \<noteq> 0 \<longrightarrow> is_dir n" and used: "used_up \<le> 120" and inv: "info_ok info"
    and root: "ty = 1 \<and> parent = None \<longrightarrow> ce_len info = 0 \<and> root_aa_ok t (dt_node n)"
  obtains info1 S info2 ce where "rr_fields_for t n parent ty used_up info = Some (Inr info1)"
    and "rr_len t (dt_node n) (parent = None) ty used_up (ce_len info) = Some (suf_len info1, ce)"
    and "suf_len info1 = length S + length S mod 2" "used_up + suf_len info1 \<le> 254"
    and "\<And>b p. p + length S \<le> length b \<Longrightarrow> rrip_write_susp_fields info1 b p = (buf_put b p S, info2)"
    and "info_ok info2" "ce_len info2 = ce_len info + ce" "ce_block info2 = ce_block info"
    and "if rockridge (img_opts t)
      then \<exists>nd. node_written t (dt_node n) (map_option dt_node parent) ty nd \<and>
        (\<forall>nds sus fin. write_nodes (img_eff_partition_offset t) info2 nds = (sus, fin) \<longrightarrow>
           write_nodes (img_eff_partition_offset t) info (nd # nds) = ((S @ replicate (length S mod 2) 0) # sus, fin))
      else S = [] \<and> info2 = info"
proof (cases "rockridge (img_opts t)")
  case False
  note i = info_okD [OF inv]
  show thesis
    by (rule that [of info 0 "[]" info]) (use False used inv i in \<open>simp_all add: rr_fields_for_def rr_len_def rrip_write_susp_fields_def\<close>)
next
  case True
  let ?n = "dt_node n" and ?p = "map_option dt_node parent" and ?eff = "img_eff_partition_offset t"
  have root2: "?p = None \<longleftrightarrow> parent = None" by (cases parent) simp_all
  note i = info_okD [OF inv]
  have aa: "list_all plain (aa_fields t ?n)" using ok aa_zf_plain(2) [of ?n t] by (auto simp: rr_ok_def split: option.splits)
  obtain info1 su ce where s: "rrip_calc_len t ?n (?p = None) ty used_up (ce_len info) = Inr (su, ce)"
    "rrip_get_susp_fields t ?n ?p ty used_up info = Some (Inr info1)" "suf_len info1 = su" "ce_len info1 = ce_len info + ce" "used_up + su \<le> 254"
    using sizes_agree [OF ok ty(1) _ used i(2,5), of ?p] ty(2) root by (auto simp: root_aa_ok_def root2)
  obtain nd where nd: "info1 = padded (collect_node ?eff info nd)" "node_written t ?n ?p ty nd"
  proof (cases "ty = 0")
    case z: True
    obtain nd where "rrip_get_susp_fields t ?n ?p 0 used_up info = Some (Inr (padded (collect_node ?eff info nd)))"
      "node_plain nd" "entry_fields t ?n (?p = None) (node_fields nd)"
      by (rule get_fields_entry [OF ok used i(2,5)])
    then show thesis using that [of nd] s(2) z by (simp add: node_written_def)
  next
    case False
    then have ty12: "ty = 1 \<or> ty = 2" using ty(1) by auto
    have r0: "ty = 1 \<and> ?p = None \<longrightarrow> ce_len info = 0" using root root2 by auto
    obtain nd ers where "rrip_get_susp_fields t ?n ?p ty used_up info = Some (Inr (padded (collect_node ?eff info nd)))" "node_plain nd"
      "node_fields nd = head_fields t ?n (if ty = 2 then (case ?p of Some p \<Rightarrow> p | None \<Rightarrow> ?n) else ?n) (?p = None) ty @ dot_names t ty @ ers"
      "ty = 1 \<and> ?p = None \<or> ers = [] \<and> snd (snd (snd nd)) = []"
      using get_fields_dot [OF ty12 _ used i(2) aa r0] ty(2) False by blast
    then show thesis using that [of nd] s(2) False by (auto simp: node_written_def)
  qed
  have pl: "node_plain nd" using nd(2) by (simp add: node_written_def)
  obtain S info2 where w: "\<And>b p. p + length S \<le> length b \<Longrightarrow> rrip_write_susp_fields info1 b p = (buf_put b p S, info2)"
    "suf_len info1 = length S + length S mod 2" "info_ok info2" "ce_len info2 = ce_len info1" "ce_block info2 = ce_block info"
    using write_fields [OF inv pl, of ?eff] unfolding nd(1) by blast
  have one: "write_nodes ?eff info (nd # nds) = ((S @ replicate (length S mod 2) 0) # sus, fin)"
    if "write_nodes ?eff info2 nds = (sus, fin)" for nds sus fin
  proof -
    let ?i1 = "collect_node ?eff info nd"
    have "suf_len ?i1 + suf_len ?i1 mod 2 = length S + length S mod 2" using w(2) by (simp add: nd(1) padded_def)
    then have "rrip_write_susp_fields ?i1 (replicate (suf_len ?i1 + suf_len ?i1 mod 2) 0) 0 = (S @ replicate (length S mod 2) 0, info2)"
      using w(1) [of 0 "replicate (length S + length S mod 2) 0"] write_padded [OF inv pl, of ?eff]
      by (simp add: nd(1) buf_put_def)
    then show ?thesis using that by (simp add: Let_def)
  qed
  show thesis
  proof (rule that [of info1 ce S info2])
    show "rr_fields_for t n parent ty used_up info = Some (Inr info1)" using True s(2) by (simp add: rr_fields_for_def)
    show "rr_len t ?n (parent = None) ty used_up (ce_len info) = Some (suf_len info1, ce)"
      using True s(1,3) by (simp add: rr_len_def root2)
    show "used_up + suf_len info1 \<le> 254" using s(3,5) by simp
    show "ce_len info2 = ce_len info + ce" using w(4) s(4) by simp
    show "if rockridge (img_opts t)
      then \<exists>nd. node_written t ?n ?p ty nd \<and>
        (\<forall>nds sus fin. write_nodes ?eff info2 nds = (sus, fin) \<longrightarrow>
           write_nodes ?eff info (nd # nds) = ((S @ replicate (length S mod 2) 0) # sus, fin))
      else S = [] \<and> info2 = info"
      using nd(2) one by (subst if_P [OF True]) blast
  qed (fact w)+
qed

text \<open>The blocks of a directory from its records: a record does not cross a block end.\<close>

fun pack :: "byte list \<Rightarrow> byte list list \<Rightarrow> byte list list" where
  "pack pre [] = [pre @ replicate (BLOCK_SIZE - length pre) 0]"
| "pack pre (r # rs) =
     (if length pre + length r > BLOCK_SIZE then (pre @ replicate (BLOCK_SIZE - length pre) 0) # pack r rs else pack (pre @ r) rs)"

definition file_id_of :: "dir_tree \<Rightarrow> byte list" where
  "file_id_of n = (case dt_name n of Some s \<Rightarrow> bytes_of s | None \<Rightarrow> [])"

definition entry_bytes :: "rr_image \<Rightarrow> dir_tree \<times> nat \<Rightarrow> byte list \<Rightarrow> byte list" where
  "entry_bytes t e su =
     record_bytes t (need_version_number (img_opts t) (rn_type (dt_node (fst e)))) (fst e) (the (record_place t (fst e) (snd e)))
       (file_id_of (fst e)) su"

definition entry_ok :: "rr_image \<Rightarrow> dir_tree \<times> nat \<Rightarrow> bool" where
  "entry_ok t e \<longleftrightarrow> node_ok t (fst e) \<and> snd e < nsections (fst e)"

lemma pack_blocks:
  assumes "list_all (\<lambda>r. length r \<le> BLOCK_SIZE) rs" "length pre \<le> BLOCK_SIZE"
  shows "pack pre rs \<noteq> []" "list_all (\<lambda>b. length b = BLOCK_SIZE) (pack pre rs)"
  using assms by (induction pre rs rule: pack.induct) auto

lemma length_record_bytes:
  "length (record_bytes t version n' place fi su) =
     33 + length fi + (if odd (length fi) then 0 else 1) + (if version then 2 else 0) + length su"
  by (cases place) (simp add: record_bytes_def Let_def length_bytes_of)

lemma dirent_len:
  "calc_dirent_len t n = 33 + length (file_id_of n) + (if odd (length (file_id_of n)) then 0 else 1) +
     (if need_version_number (img_opts t) (rn_type (dt_node n)) then 2 else 0)"
  by (simp add: calc_dirent_len_def file_id_of_def length_bytes_of Let_def split: option.splits)

lemma entry_place: "entry_ok t e \<Longrightarrow> record_place t (fst e) (snd e) = Some (the (record_place t (fst e) (snd e)))"
  by (auto simp: entry_ok_def record_place_def nsections_def)

lemma block_room:
  fixes k p n :: nat
  assumes "0 < p" "p \<le> 2048"
  shows "n > 2048 - (2048 * k + p) mod 2048 \<longleftrightarrow> p \<noteq> 2048 \<and> p + n > 2048 \<or> p = 2048 \<and> n > 2048"
    and "p \<noteq> 2048 \<Longrightarrow> 2048 * k + p + (2048 - (2048 * k + p) mod 2048 + n) = 2048 * (k + 1) + n"
proof -
  have m: "(2048 * k + p) mod 2048 = (if p = 2048 then 0 else p)" using assms by (auto simp: mod_eq_0_iff_dvd)
  show "n > 2048 - (2048 * k + p) mod 2048 \<longleftrightarrow> p \<noteq> 2048 \<and> p + n > 2048 \<or> p = 2048 \<and> n > 2048"
    unfolding m using assms by auto
  show "2048 * k + p + (2048 - (2048 * k + p) mod 2048 + n) = 2048 * (k + 1) + n" if "p \<noteq> 2048"
    unfolding m using that assms by simp
qed

text \<open>What holds of the System Use areas \<open>sus\<close> of some nodes.\<close>

definition areas_of :: "rr_image \<Rightarrow> (rr_node \<times> rr_node option \<times> nat) list \<Rightarrow> susp_info \<Rightarrow> byte list list \<Rightarrow> susp_info \<Rightarrow> bool" where
  "areas_of t ns info sus info2 \<longleftrightarrow>
     (if rockridge (img_opts t)
      then \<exists>nds. list_all2 (\<lambda>(n, parent, ty) nd. node_written t n parent ty nd) ns nds \<and>
             write_nodes (img_eff_partition_offset t) info nds = (sus, info2)
      else sus = map (\<lambda>n. []) ns \<and> info2 = info)"

lemma areas_of_Nil: "areas_of t [] info [] info"
  by (simp add: areas_of_def)

lemma entries_written:
  assumes "list_all (entry_ok t) es" "info_ok info" "0 < length pre" "length pre \<le> BLOCK_SIZE"
  shows "\<exists>sus info2 p2. write_entries t dir es (pre @ replicate (BLOCK_SIZE - length pre) 0) (length pre) info =
      Some (Inr (pack pre (map2 (entry_bytes t) es sus), info2)) \<and>
    calc_entries t es (BLOCK_SIZE * k + length pre) (ce_len info) =
      Some (BLOCK_SIZE * (k + length (pack pre (map2 (entry_bytes t) es sus)) - 1) + p2, ce_len info2) \<and>
    0 < p2 \<and> p2 \<le> BLOCK_SIZE \<and> info_ok info2 \<and> ce_block info2 = ce_block info \<and>
    length sus = length es \<and> list_all (\<lambda>r. length r \<le> 254) (map2 (entry_bytes t) es sus) \<and>
    areas_of t (map (\<lambda>e. (dt_node (fst e), Some (dt_node dir), 0)) es) info sus info2"
  using assms
proof (induction es arbitrary: info pre k)
  case Nil
  then show ?case by (auto intro!: exI [of _ "[]"] exI [of _ info] simp: areas_of_Nil)
next
  case (Cons e es)
  obtain child s where e: "e = (child, s)" by (metis prod.collapse)
  have ok: "entry_ok t (child, s)" "list_all (entry_ok t) es" using Cons.prems(1) by (simp_all add: e)
  have nok: "rr_ok t (dt_node child)" "calc_dirent_len t child \<le> 120" using ok(1) by (simp_all add: entry_ok_def node_ok_def)
  note place = entry_place [OF ok(1), unfolded fst_conv snd_conv]
  let ?v = "need_version_number (img_opts t) (rn_type (dt_node child))" and ?u = "calc_dirent_len t child"
  obtain info1 S info2 ce where f: "rr_fields_for t child (Some dir) 0 ?u info = Some (Inr info1)"
    "rr_len t (dt_node child) (Some dir = None) 0 ?u (ce_len info) = Some (suf_len info1, ce)"
    "suf_len info1 = length S + length S mod 2" "?u + suf_len info1 \<le> 254"
    "\<And>b p. p + length S \<le> length b \<Longrightarrow> rrip_write_susp_fields info1 b p = (buf_put b p S, info2)"
    "info_ok info2" "ce_len info2 = ce_len info + ce" "ce_block info2 = ce_block info"
    "if rockridge (img_opts t)
      then \<exists>nd. node_written t (dt_node child) (map_option dt_node (Some dir)) 0 nd \<and>
        (\<forall>nds sus fin. write_nodes (img_eff_partition_offset t) info2 nds = (sus, fin) \<longrightarrow>
           write_nodes (img_eff_partition_offset t) info (nd # nds) = ((S @ replicate (length S mod 2) 0) # sus, fin))
      else S = [] \<and> info2 = info"
    by (rule fields_step [OF nok(1) _ _ nok(2) Cons.prems(2), of 0 "Some dir"]) simp_all
  let ?su = "S @ replicate (length S mod 2) 0" and ?r = "entry_bytes t e (S @ replicate (length S mod 2) 0)"
  have lr: "length ?r = ?u + suf_len info1" by (simp add: entry_bytes_def e length_record_bytes dirent_len f(3))
  define full where "full = (length pre + length ?r > BLOCK_SIZE)"
  define pre1 where "pre1 = (if full then [] else pre)"
  have rs: "length ?r \<le> 254" "0 < length ?r" using lr f(4) by (simp_all add: dirent_len)
  have room: "?u + suf_len info1 \<le> BLOCK_SIZE - length pre1"
    using lr rs Cons.prems(4) by (auto simp: pre1_def full_def BLOCK_SIZE_def)
  have wr: "write_one_dir_record t child (Some dir) None (pre1 @ replicate (BLOCK_SIZE - length pre1) 0) (length pre1)
      (length (file_id_of child)) (Some info1) s =
    Some ((pre1 @ ?r) @ replicate (BLOCK_SIZE - length (pre1 @ ?r)) 0, Some info2)"
  proof -
    have le: "length S \<le> suf_len info1" and pad: "suf_len info1 - length S = length S mod 2" using f(3) by simp_all
    have fi: "file_id_of child = (case None of Some b \<Rightarrow> [b] | None \<Rightarrow> (case dt_name child of Some s \<Rightarrow> bytes_of s | None \<Rightarrow> []))"
      by (simp add: file_id_of_def)
    have c: "(if None = Some 1 then (case Some dir of Some q \<Rightarrow> q | None \<Rightarrow> child) else child) = child" by simp
    have r: "?r = record_bytes t ?v child (the (record_place t child s)) (file_id_of child) ?su" by (simp add: entry_bytes_def e)
    have k: "BLOCK_SIZE - length pre1 - (?u + suf_len info1) = BLOCK_SIZE - length (pre1 @ ?r)" by (simp add: lr)
    note w = record_written [OF place _ fi f(5) le, where pre = pre1 and k = "BLOCK_SIZE - length pre1" and parent = "Some dir", folded dirent_len]
    have "write_one_dir_record t child (Some dir) None (pre1 @ replicate (BLOCK_SIZE - length pre1) 0) (length pre1)
        (length (file_id_of child)) (Some info1) s =
      Some (pre1 @ record_bytes t ?v child (the (record_place t child s)) (file_id_of child) ?su @
        replicate (BLOCK_SIZE - length pre1 - (?u + suf_len info1)) 0, Some info2)"
      using w room unfolding c pad by blast
    then show ?thesis unfolding r [symmetric] k by (simp only: append_assoc)
  qed
  have small: "length (pre1 @ ?r) \<le> BLOCK_SIZE" "0 < length (pre1 @ ?r)" using room lr rs(1,2) Cons.prems(4)
    by (auto simp: pre1_def BLOCK_SIZE_def)
  define k1 where "k1 = (if full then k + 1 else k)"
  obtain sus info3 p2 where ih: "write_entries t dir es ((pre1 @ ?r) @ replicate (BLOCK_SIZE - length (pre1 @ ?r)) 0) (length (pre1 @ ?r)) info2 =
      Some (Inr (pack (pre1 @ ?r) (map2 (entry_bytes t) es sus), info3))"
    "calc_entries t es (BLOCK_SIZE * k1 + length (pre1 @ ?r)) (ce_len info2) =
      Some (BLOCK_SIZE * (k1 + length (pack (pre1 @ ?r) (map2 (entry_bytes t) es sus)) - 1) + p2, ce_len info3)"
    "0 < p2" "p2 \<le> BLOCK_SIZE" "info_ok info3" "ce_block info3 = ce_block info2" "length sus = length es"
    "list_all (\<lambda>r. length r \<le> 254) (map2 (entry_bytes t) es sus)"
    "areas_of t (map (\<lambda>e. (dt_node (fst e), Some (dt_node dir), 0)) es) info2 sus info3"
    using Cons.IH [OF ok(2) f(6) small(2,1), of k1] by blast
  let ?rs = "map2 (entry_bytes t) es sus"
  have pk: "pack pre (?r # ?rs) = (if full then (pre @ replicate (BLOCK_SIZE - length pre) 0) # pack (pre1 @ ?r) ?rs else pack (pre1 @ ?r) ?rs)"
    by (simp add: full_def pre1_def)
  have ne: "pack (pre1 @ ?r) ?rs \<noteq> []"
    using pack_blocks(1) [of ?rs "pre1 @ ?r"] ih(8) small(1) by (fastforce simp: list_all_iff BLOCK_SIZE_def)
  have len0: "(case dt_name child of None \<Rightarrow> 0 | Some s \<Rightarrow> length s) = length (file_id_of child)"
    by (simp add: file_id_of_def length_bytes_of split: option.splits)
  have u: "length (file_id_of child) + 33 + (if odd (length (file_id_of child)) then 0 else 1) + (if ?v then 2 else 0) = ?u"
    by (simp add: dirent_len)
  have w: "write_entries t dir (e # es) (pre @ replicate (BLOCK_SIZE - length pre) 0) (length pre) info =
      Some (Inr (pack pre (?r # ?rs), info3))"
  proof -
    have b1: "(if full then replicate BLOCK_SIZE 0 else pre @ replicate (BLOCK_SIZE - length pre) 0) =
        pre1 @ replicate (BLOCK_SIZE - length pre1) (0 :: byte)" "(if full then 0 else length pre) = length pre1"
      by (simp_all add: pre1_def)
    have fl: "(length pre + (?u + suf_len info1) > BLOCK_SIZE) = full" by (simp add: full_def lr)
    have pos: "length pre1 + (?u + suf_len info1) = length (pre1 @ ?r)" by (simp add: lr)
    show ?thesis
      unfolding e write_entries.simps Let_def len0 u
      by (simp only: f(1) and_then_def option.case sum.case fl b1 wr pos) (use ih(1) pk in \<open>simp add: e\<close>)
  qed
  have c: "calc_entries t (e # es) (BLOCK_SIZE * k + length pre) (ce_len info) =
      Some (BLOCK_SIZE * (k + length (pack pre (?r # ?rs)) - 1) + p2, ce_len info3)"
  proof -
    have rl: "rr_len t (dt_node child) False 0 ?u (ce_len info) = Some (suf_len info1, ce)" using f(2) by simp
    have "?u + suf_len info1 > BLOCK_SIZE - (BLOCK_SIZE * k + length pre) mod BLOCK_SIZE \<longleftrightarrow> full \<and> length pre \<noteq> BLOCK_SIZE"
      using block_room(1) [OF Cons.prems(3), of "?u + suf_len info1" k] Cons.prems(4) f(4) by (auto simp: BLOCK_SIZE_def full_def lr)
    moreover have "length pre = BLOCK_SIZE \<Longrightarrow> full" using rs(2) by (simp add: full_def)
    ultimately have "(if ?u + suf_len info1 > BLOCK_SIZE - (BLOCK_SIZE * k + length pre) mod BLOCK_SIZE
        then BLOCK_SIZE * k + length pre + (BLOCK_SIZE - (BLOCK_SIZE * k + length pre) mod BLOCK_SIZE + (?u + suf_len info1))
        else BLOCK_SIZE * k + length pre + (?u + suf_len info1)) = BLOCK_SIZE * k1 + length (pre1 @ ?r)"
      using block_room(2) [OF Cons.prems(3), of "?u + suf_len info1" k] Cons.prems(4)
      by (auto simp: BLOCK_SIZE_def k1_def pre1_def lr)
    then have "calc_entries t (e # es) (BLOCK_SIZE * k + length pre) (ce_len info) =
        calc_entries t es (BLOCK_SIZE * k1 + length (pre1 @ ?r)) (ce_len info2)"
      unfolding e calc_entries.simps rl option.case prod.case Let_def f(7) by (simp only:)
    also have "k1 + length (pack (pre1 @ ?r) ?rs) - 1 = k + length (pack pre (?r # ?rs)) - 1"
      using ne unfolding pk by (cases full) (simp_all add: k1_def)
    then have "calc_entries t es (BLOCK_SIZE * k1 + length (pre1 @ ?r)) (ce_len info2) = Some (BLOCK_SIZE * (k + length (pack pre (?r # ?rs)) - 1) + p2, ce_len info3)"
      using ih(2) by simp
    finally show ?thesis .
  qed
  have a: "areas_of t (map (\<lambda>e. (dt_node (fst e), Some (dt_node dir), 0)) (e # es)) info (?su # sus) info3"
    using f(9) ih(9) by (fastforce simp: areas_of_def e split: if_splits)
  show ?case
    by (rule exI [of _ "?su # sus"], rule exI [of _ info3], rule exI [of _ p2]) (use w c a ih(3-8) f(8) rs(1) in \<open>simp\<close>)
qed

section \<open>Whole directories\<close>

definition own_parent :: "dir_tree list \<Rightarrow> dir_tree option" where
  "own_parent ups = (case ups of [] \<Rightarrow> None | u # us \<Rightarrow> Some u)"

definition dot_records :: "rr_image \<Rightarrow> dir_tree list \<Rightarrow> dir_tree \<Rightarrow> byte list \<Rightarrow> byte list \<Rightarrow> byte list list" where
  "dot_records t ups dir su1 su2 =
     (let parent = (case ups of [] \<Rightarrow> dir | u # us \<Rightarrow> u); grand = (case ups of u # v # us \<Rightarrow> v | _ \<Rightarrow> parent)
      in [record_bytes t False dir (dt_block dir, of_nat (dt_len dir), False) [0] su1,
          record_bytes t False grand (dt_block parent, of_nat (dt_len parent), False) [1] su2])"

text \<open>The nodes whose fields are written: the directory twice, for \<open>.\<close> and \<open>..\<close>, and its children.\<close>

definition dir_nodes :: "dir_tree list \<Rightarrow> dir_tree \<Rightarrow> (rr_node \<times> rr_node option \<times> nat) list" where
  "dir_nodes ups dir =
     (dt_node dir, map_option dt_node (own_parent ups), 1) # (dt_node dir, map_option dt_node (own_parent ups), 2) #
     map (\<lambda>e. (dt_node (fst e), Some (dt_node dir), 0)) (dir_entries (dt_kids dir))"

lemma areas_of_Cons:
  assumes "if rockridge (img_opts t)
      then \<exists>nd. node_written t n p ty nd \<and>
        (\<forall>nds sus fin. write_nodes (img_eff_partition_offset t) info2 nds = (sus, fin) \<longrightarrow>
           write_nodes (img_eff_partition_offset t) info (nd # nds) = ((S @ replicate (length S mod 2) 0) # sus, fin))
      else S = [] \<and> info2 = info"
    and "areas_of t ns info2 sus info3"
  shows "areas_of t ((n, p, ty) # ns) info ((S @ replicate (length S mod 2) 0) # sus) info3"
  using assms by (fastforce simp: areas_of_def split: if_splits)

lemma div_up: "0 < p \<Longrightarrow> p \<le> d \<Longrightarrow> DIV_UP (d * k + p) d = k + 1"
proof -
  assume "0 < p" "p \<le> d"
  then have "d * k + p + d - 1 = d * (k + 1) + (p - 1)" "p - 1 < d" by simp_all
  then show ?thesis by (simp only: DIV_UP_def div_mult_self4) simp
qed

lemma div_up_mult: "0 < d \<Longrightarrow> DIV_UP (n * d) d = n"
proof -
  assume "0 < d"
  then have "n * d + d - 1 = d * n + (d - 1)" "d - 1 < d" by (simp_all add: mult.commute)
  then show ?thesis by (simp only: DIV_UP_def div_mult_self4) simp
qed

lemma round_div_up:
  assumes "0 < d"
  shows "n + (if d - n mod d < d then d - n mod d else 0) = d * DIV_UP n d"
proof (cases "n mod d = 0")
  case True
  then have "n = n div d * d" by (metis add.right_neutral div_mult_mod_eq)
  then show ?thesis using True div_up_mult [OF assms, of "n div d"] by (simp add: mult.commute)
next
  case False
  have n: "n = d * (n div d) + n mod d" by simp
  have r: "0 < n mod d" "n mod d \<le> d" using False mod_less_divisor [OF assms, of n] by simp_all
  have "DIV_UP n d = n div d + 1" using div_up [OF r, of "n div d"] by simp
  moreover have "n + (d - n mod d) = d * (n div d + 1)" using r(2) n unfolding distrib_left by linarith
  ultimately show ?thesis using r assms by simp
qed

lemma ce_area_length:
  assumes "info_ok info"
  shows "length (concat (rrip_write_ce_fields info)) = BLOCK_SIZE * DIV_UP (ce_len info) BLOCK_SIZE"
proof -
  note i = info_okD(4) [OF assms]
  show ?thesis
  proof (cases "ce_susp_fields info = []")
    case True
    then show ?thesis using i by (simp add: rrip_write_ce_fields_def DIV_UP_def BLOCK_SIZE_def)
  next
    case False
    have "length (concat (rrip_write_ce_fields info)) =
        length (concat (ce_chunks (ce_susp_fields info) 0)) +
          (if BLOCK_SIZE - ce_len info mod BLOCK_SIZE < BLOCK_SIZE then BLOCK_SIZE - ce_len info mod BLOCK_SIZE else 0)"
      using False by (simp add: rrip_write_ce_fields_def Let_def)
    then show ?thesis using round_div_up [of BLOCK_SIZE "ce_len info"] unfolding i [symmetric] by (simp add: BLOCK_SIZE_def)
  qed
qed

lemma dir_written:
  assumes dir: "is_dir dir" "rr_ok t (dt_node dir)" and kids: "list_all (entry_ok t) (dir_entries (dt_kids dir))"
    and ups: "case ups of [] \<Rightarrow> root_aa_ok t (dt_node dir) | u # us \<Rightarrow> is_dir u"
  obtains su1 su2 sus info where
    "write_one_dir t ups dir = Some (Inr (concat (pack [] (dot_records t ups dir su1 su2 @ map2 (entry_bytes t) (dir_entries (dt_kids dir)) sus)) @
       concat (rrip_write_ce_fields info)))"
    and "calc_dir_size t (ups = []) dir 0 =
       Some (BLOCK_SIZE * length (pack [] (dot_records t ups dir su1 su2 @ map2 (entry_bytes t) (dir_entries (dt_kids dir)) sus)), ce_len info)"
    and "info_ok info" "ce_block info = ce_block (first_info t dir)" "length sus = length (dir_entries (dt_kids dir))"
    and "list_all (\<lambda>r. length r \<le> 254) (dot_records t ups dir su1 su2 @ map2 (entry_bytes t) (dir_entries (dt_kids dir)) sus)"
    and "areas_of t (dir_nodes ups dir) (first_info t dir) (su1 # su2 # sus) info"
proof -
  let ?op = "own_parent ups" and ?i0 = "first_info t dir" and ?es = "dir_entries (dt_kids dir)"
  have i0: "info_ok ?i0" "ce_len ?i0 = 0" by (simp_all add: first_info_def new_susp_info_def info_ok_def)
  have root: "?op = None \<longleftrightarrow> ups = []" by (simp add: own_parent_def split: list.splits)
  define parent where "parent = (case ups of [] \<Rightarrow> dir | u # us \<Rightarrow> u)"
  define grand where "grand = (case ups of u # v # us \<Rightarrow> Some v | _ \<Rightarrow> None)"
  have par: "is_dir parent" using ups dir(1) by (simp add: parent_def split: list.splits)
  have place: "record_place t dir 0 = Some (dt_block dir, of_nat (dt_len dir), False)"
    "record_place t parent 0 = Some (dt_block parent, of_nat (dt_len parent), False)"
    using par dir(1) by (simp_all add: record_place_def)
  have nv: "\<not> need_version_number (img_opts t) (rn_type (dt_node dir))" "\<not> need_version_number (img_opts t) (rn_type (dt_node parent))"
    using par dir(1) by (simp_all add: need_version_number_def)
  have r1: "(1::nat) = 1 \<and> ?op = None \<longrightarrow> ce_len ?i0 = 0 \<and> root_aa_ok t (dt_node dir)" using ups i0(2) by (simp add: root split: list.splits)
  have d: "(1::nat) \<noteq> 0 \<longrightarrow> is_dir dir" "(2::nat) \<noteq> 0 \<longrightarrow> is_dir dir" using dir(1) by simp_all
  obtain i1 S1 i2 c1 where f1: "rr_fields_for t dir ?op 1 34 ?i0 = Some (Inr i1)"
    "rr_len t (dt_node dir) (?op = None) 1 34 (ce_len ?i0) = Some (suf_len i1, c1)"
    "suf_len i1 = length S1 + length S1 mod 2" "34 + suf_len i1 \<le> 254"
    "\<And>b p. p + length S1 \<le> length b \<Longrightarrow> rrip_write_susp_fields i1 b p = (buf_put b p S1, i2)"
    "info_ok i2" "ce_len i2 = ce_len ?i0 + c1" "ce_block i2 = ce_block ?i0"
    "if rockridge (img_opts t)
      then \<exists>nd. node_written t (dt_node dir) (map_option dt_node ?op) 1 nd \<and>
        (\<forall>nds sus fin. write_nodes (img_eff_partition_offset t) i2 nds = (sus, fin) \<longrightarrow>
           write_nodes (img_eff_partition_offset t) ?i0 (nd # nds) = ((S1 @ replicate (length S1 mod 2) 0) # sus, fin))
      else S1 = [] \<and> i2 = ?i0"
    by (rule fields_step [OF dir(2) _ d(1) _ i0(1) r1, of 34]) simp_all
  have r2: "(2::nat) = 1 \<and> ?op = None \<longrightarrow> ce_len i2 = 0 \<and> root_aa_ok t (dt_node dir)" by simp
  obtain i3 S2 i4 c2 where f2: "rr_fields_for t dir ?op 2 34 i2 = Some (Inr i3)"
    "rr_len t (dt_node dir) (?op = None) 2 34 (ce_len i2) = Some (suf_len i3, c2)"
    "suf_len i3 = length S2 + length S2 mod 2" "34 + suf_len i3 \<le> 254"
    "\<And>b p. p + length S2 \<le> length b \<Longrightarrow> rrip_write_susp_fields i3 b p = (buf_put b p S2, i4)"
    "info_ok i4" "ce_len i4 = ce_len i2 + c2" "ce_block i4 = ce_block i2"
    "if rockridge (img_opts t)
      then \<exists>nd. node_written t (dt_node dir) (map_option dt_node ?op) 2 nd \<and>
        (\<forall>nds sus fin. write_nodes (img_eff_partition_offset t) i4 nds = (sus, fin) \<longrightarrow>
           write_nodes (img_eff_partition_offset t) i2 (nd # nds) = ((S2 @ replicate (length S2 mod 2) 0) # sus, fin))
      else S2 = [] \<and> i4 = i2"
    by (rule fields_step [OF dir(2) _ d(2) _ f1(6) r2, of 34]) simp_all
  let ?s1 = "S1 @ replicate (length S1 mod 2) 0" and ?s2 = "S2 @ replicate (length S2 mod 2) 0"
  obtain ra rb where dr: "dot_records t ups dir ?s1 ?s2 = [ra, rb]"
    and ra: "ra = record_bytes t False dir (dt_block dir, of_nat (dt_len dir), False) [0] ?s1"
    and rb: "rb = record_bytes t False (case grand of Some q \<Rightarrow> q | None \<Rightarrow> parent) (dt_block parent, of_nat (dt_len parent), False) [1] ?s2"
    by (simp add: dot_records_def parent_def grand_def Let_def split: list.splits)
  have la: "length ra = 34 + suf_len i1" "length rb = 34 + suf_len i3"
    by (simp_all add: ra rb length_record_bytes f1(3) f2(3))
  have w1: "write_one_dir_record t dir ?op (Some 0) (replicate BLOCK_SIZE 0) 0 1 (Some i1) 0 =
      Some (ra @ replicate (BLOCK_SIZE - length ra) 0, Some i2)"
  proof -
    have le: "length S1 \<le> suf_len i1" and pad: "suf_len i1 - length S1 = length S1 mod 2" using f1(3) by simp_all
    have fi: "[0] = (case Some 0 of Some b \<Rightarrow> [b] | None \<Rightarrow> (case dt_name dir of Some s \<Rightarrow> bytes_of s | None \<Rightarrow> []))" by simp
    note w = record_written [OF place(1) _ fi f1(5) le, where pre = "[]" and k = BLOCK_SIZE and parent = ?op]
    show ?thesis using w nv(1) f1(4) by (simp add: pad ra [symmetric] la(1) BLOCK_SIZE_def)
  qed
  have w2: "write_one_dir_record t parent grand (Some 1) (ra @ replicate (BLOCK_SIZE - length ra) 0) (length ra) 1 (Some i3) 0 =
      Some ((ra @ rb) @ replicate (BLOCK_SIZE - length (ra @ rb)) 0, Some i4)"
  proof -
    have le: "length S2 \<le> suf_len i3" and pad: "suf_len i3 - length S2 = length S2 mod 2" using f2(3) by simp_all
    have fi: "[1] = (case Some 1 of Some b \<Rightarrow> [b] | None \<Rightarrow> (case dt_name parent of Some s \<Rightarrow> bytes_of s | None \<Rightarrow> []))" by simp
    note w = record_written [OF place(2) _ fi f2(5) le, where pre = ra and k = "BLOCK_SIZE - length ra" and parent = grand]
    show ?thesis using w nv(2) f1(4) f2(4) by (simp add: pad rb [symmetric] la BLOCK_SIZE_def)
  qed
  have small: "0 < length (ra @ rb)" "length (ra @ rb) \<le> BLOCK_SIZE" using la f1(4) f2(4) by (simp_all add: BLOCK_SIZE_def)
  obtain sus info p2 where e: "write_entries t dir ?es ((ra @ rb) @ replicate (BLOCK_SIZE - length (ra @ rb)) 0) (length (ra @ rb)) i4 =
      Some (Inr (pack (ra @ rb) (map2 (entry_bytes t) ?es sus), info))"
    "calc_entries t ?es (BLOCK_SIZE * 0 + length (ra @ rb)) (ce_len i4) =
      Some (BLOCK_SIZE * (0 + length (pack (ra @ rb) (map2 (entry_bytes t) ?es sus)) - 1) + p2, ce_len info)"
    "0 < p2" "p2 \<le> BLOCK_SIZE" "info_ok info" "ce_block info = ce_block i4" "length sus = length ?es"
    "list_all (\<lambda>r. length r \<le> 254) (map2 (entry_bytes t) ?es sus)"
    "areas_of t (map (\<lambda>e. (dt_node (fst e), Some (dt_node dir), 0)) ?es) i4 sus info"
    using entries_written [OF kids f2(6) small, where k = 0 and dir = dir] by blast
  let ?rs = "map2 (entry_bytes t) ?es sus"
  have pk: "pack [] ([ra, rb] @ ?rs) = pack (ra @ rb) ?rs" using small(2) by simp
  have ne: "pack (ra @ rb) ?rs \<noteq> []"
    using pack_blocks(1) [of ?rs "ra @ rb"] e(8) small(2) by (fastforce simp: list_all_iff BLOCK_SIZE_def)
  have cz: "ce_len info = 0 \<Longrightarrow> concat (rrip_write_ce_fields info) = []"
    using ce_area_length [OF e(5)] by (simp add: DIV_UP_def BLOCK_SIZE_def)
  have "write_one_dir t ups dir = Some (Inr (concat (pack [] ([ra, rb] @ ?rs)) @ concat (rrip_write_ce_fields info)))"
    unfolding write_one_dir_def Let_def own_parent_def [symmetric] parent_def [symmetric] grand_def [symmetric]
    unfolding f1(1) and_then_def option.case sum.case w1 prod.case f2(1) w2 [unfolded la(1)] la(1) [symmetric] la(2) [symmetric]
      length_append [symmetric] e(1) w2 pk
    using cz by simp
  moreover have "calc_dir_size t (ups = []) dir 0 = Some (BLOCK_SIZE * length (pack [] ([ra, rb] @ ?rs)), ce_len info)"
  proof -
    have r: "rr_len t (dt_node dir) (ups = []) 1 34 0 = Some (suf_len i1, c1)" "rr_len t (dt_node dir) (ups = []) 2 34 (0 + c1) = Some (suf_len i3, c2)"
      using f1(2,7) f2(2) i0(2) root by simp_all
    have s: "34 + 34 + suf_len i1 + suf_len i3 = BLOCK_SIZE * 0 + length (ra @ rb)" "0 + c1 + c2 = ce_len i4" using la f1(7) f2(7) i0(2) by simp_all
    have l: "0 + length (pack (ra @ rb) ?rs) - 1 + 1 = length (pack (ra @ rb) ?rs)" using ne by (cases "pack (ra @ rb) ?rs") simp_all
    show ?thesis
      unfolding calc_dir_size_def r option.case prod.case s e(2) option.map pk div_up [OF e(3,4)] l by (simp add: mult.commute)
  qed
  moreover have "areas_of t (dir_nodes ups dir) ?i0 (?s1 # ?s2 # sus) info"
    unfolding dir_nodes_def by (rule areas_of_Cons [OF f1(9) areas_of_Cons [OF f2(9) e(9)]])
  moreover have "list_all (\<lambda>r. length r \<le> 254) ([ra, rb] @ ?rs)" using la f1(4) f2(4) e(8) by simp
  ultimately show thesis using that [of ?s1 ?s2 sus info] dr e(5,6,7) f1(8) f2(8) by simp
qed

section \<open>The directory tree\<close>

fun tree_ok :: "rr_image \<Rightarrow> dir_tree \<Rightarrow> bool" where
  "tree_ok t (Dir_tree name node secs block len kids) \<longleftrightarrow>
     node_ok t (Dir_tree name node secs block len kids) \<and> list_all (tree_ok t) kids"

text \<open>The directories in the order of writing, each with its ancestors.\<close>

fun dirs_of :: "dir_tree list \<Rightarrow> dir_tree \<Rightarrow> (dir_tree list \<times> dir_tree) list"
  and kids_dirs :: "dir_tree list \<Rightarrow> dir_tree list \<Rightarrow> (dir_tree list \<times> dir_tree) list" where
  "dirs_of ups (Dir_tree name node secs block len kids) =
     (ups, Dir_tree name node secs block len kids) # kids_dirs (Dir_tree name node secs block len kids # ups) kids"
| "kids_dirs ups [] = []"
| "kids_dirs ups (k # ks) = (if is_dir k then dirs_of ups k else []) @ kids_dirs ups ks"

text \<open>\<open>laid t cur ds outs\<close>: from the block \<open>cur\<close> on the directories stand at their blocks and have their computed sizes.\<close>

fun laid :: "rr_image \<Rightarrow> u32 \<Rightarrow> (dir_tree list \<times> dir_tree) list \<Rightarrow> byte list list \<Rightarrow> bool" where
  "laid t cur ((ups, d) # ds) (out # outs) \<longleftrightarrow>
     write_one_dir t ups d = Some (Inr out) \<and> dt_block d = cur \<and> BLOCK_SIZE dvd length out \<and> BLOCK_SIZE dvd dt_len d \<and>
     dt_len d \<le> length out \<and> (\<exists>ce. calc_dir_size t (ups = []) d 0 = Some (dt_len d, ce)) \<and>
     laid t (cur + of_nat (length out div BLOCK_SIZE)) ds outs"
| "laid t cur ds outs \<longleftrightarrow> ds = [] \<and> outs = []"

lemma laid_append:
  "laid t cur ds outs \<Longrightarrow> BLOCK_SIZE dvd length (concat outs) \<and>
     (laid t (cur + of_nat (length (concat outs) div BLOCK_SIZE)) ds2 outs2 \<longrightarrow> laid t cur (ds @ ds2) (outs @ outs2))"
proof (induction t cur ds outs rule: laid.induct)
  case (1 t cur ups d ds out outs)
  then have d: "BLOCK_SIZE dvd length out" by simp
  then have "(length out + length (concat outs)) div BLOCK_SIZE = length out div BLOCK_SIZE + length (concat outs) div BLOCK_SIZE"
    by (rule div_plus_div_distrib_dvd_left)
  with 1 d show ?case by (simp add: add.assoc)
qed simp_all

text \<open>\<open>calc_dir_pos\<close> changes nothing that the sizes depend on.\<close>

definition same_head :: "dir_tree \<Rightarrow> dir_tree \<Rightarrow> bool" where
  "same_head a b \<longleftrightarrow> dt_name a = dt_name b \<and> dt_node a = dt_node b \<and> dt_sections a = dt_sections b"

lemma same_head_refl [simp]: "same_head d d"
  by (simp add: same_head_def)

lemma same_head_entries:
  assumes "list_all2 same_head kids kids'"
  shows "list_all2 (\<lambda>e e'. same_head (fst e) (fst e') \<and> snd e = snd e') (dir_entries kids) (dir_entries kids')"
  using assms
proof (induction kids kids' rule: list_all2_induct)
  case (Cons k ks k' ks')
  have "list_all2 (\<lambda>e e'. same_head (fst e) (fst e') \<and> snd e = snd e') (map (Pair k) [0..<nsections k]) (map (Pair k') [0..<nsections k'])"
    using Cons.hyps(1) by (simp add: same_head_def nsections_def list_all2_conv_all_nth)
  then show ?case using Cons.IH by (simp add: dir_entries_def list_all2_appendI)
qed (simp add: dir_entries_def)

lemma calc_entries_head:
  "list_all2 (\<lambda>e e'. same_head (fst e) (fst e') \<and> snd e = snd e') es es' \<Longrightarrow> calc_entries t es len ce = calc_entries t es' len ce"
proof (induction es es' arbitrary: len ce rule: list_all2_induct)
  case (Cons e es e' es')
  have h: "dt_node (fst e) = dt_node (fst e')" "calc_dirent_len t (fst e) = calc_dirent_len t (fst e')"
    using Cons.hyps(1) by (simp_all add: same_head_def calc_dirent_len_def)
  obtain c n c' n' where e: "e = (c, n)" "e' = (c', n')" by (cases e, cases e')
  show ?case using h Cons.IH by (simp add: e Let_def split: option.splits)
qed simp

lemma calc_dir_size_head:
  assumes "dt_node d = dt_node d'" "list_all2 same_head (dt_kids d) (dt_kids d')"
  shows "calc_dir_size t r d ce = calc_dir_size t r d' ce"
  unfolding calc_dir_size_def assms(1) using calc_entries_head [OF same_head_entries [OF assms(2)]] by (simp only:)

lemma node_ok_head: "same_head d d' \<Longrightarrow> node_ok t d = node_ok t d'"
  by (simp add: node_ok_def same_head_def calc_dirent_len_def)

lemma entries_ok: "list_all (node_ok t) kids \<Longrightarrow> list_all (entry_ok t) (dir_entries kids)"
  by (induction kids) (auto simp: dir_entries_def entry_ok_def list_all_iff)

lemma tree_okD: "tree_ok t d \<Longrightarrow> node_ok t d \<and> list_all (tree_ok t) (dt_kids d)"
  by (cases d) simp

lemma dir_laid:
  assumes dir: "is_dir dir" "rr_ok t (dt_node dir)" and kids: "list_all (node_ok t) (dt_kids dir)"
    and ups: "case ups of [] \<Rightarrow> root_aa_ok t (dt_node dir) | u # us \<Rightarrow> is_dir u"
  obtains len ce out where "calc_dir_size t (ups = []) dir 0 = Some (len, ce)" and "write_one_dir t ups dir = Some (Inr out)"
    and "BLOCK_SIZE dvd len" "len \<le> length out" "length out = BLOCK_SIZE * (DIV_UP len BLOCK_SIZE + DIV_UP ce BLOCK_SIZE)"
    and "\<not> rockridge (img_opts t) \<longrightarrow> ce = 0"
proof -
  obtain su1 su2 sus info where w:
    "write_one_dir t ups dir = Some (Inr (concat (pack [] (dot_records t ups dir su1 su2 @ map2 (entry_bytes t) (dir_entries (dt_kids dir)) sus)) @
       concat (rrip_write_ce_fields info)))"
    "calc_dir_size t (ups = []) dir 0 =
       Some (BLOCK_SIZE * length (pack [] (dot_records t ups dir su1 su2 @ map2 (entry_bytes t) (dir_entries (dt_kids dir)) sus)), ce_len info)"
    "info_ok info"
    "list_all (\<lambda>r. length r \<le> 254) (dot_records t ups dir su1 su2 @ map2 (entry_bytes t) (dir_entries (dt_kids dir)) sus)"
    "areas_of t (dir_nodes ups dir) (first_info t dir) (su1 # su2 # sus) info"
    by (rule dir_written [OF dir entries_ok [OF kids] ups])
  define rs where "rs = dot_records t ups dir su1 su2 @ map2 (entry_bytes t) (dir_entries (dt_kids dir)) sus"
  have small: "list_all (\<lambda>r. length r \<le> BLOCK_SIZE) rs" unfolding rs_def by (rule list.pred_mono_strong [OF w(4)]) (simp add: BLOCK_SIZE_def)
  have "length (concat bs) = BLOCK_SIZE * length bs" if "list_all (\<lambda>b. length b = BLOCK_SIZE) bs" for bs :: "byte list list"
    using that by (induction bs) (simp_all add: algebra_simps)
  then have l1: "length (concat (pack [] rs)) = BLOCK_SIZE * length (pack [] rs)" using pack_blocks(2) [OF small] by simp
  note l2 = ce_area_length [OF w(3)]
  have z: "ce_len info = 0" if "\<not> rockridge (img_opts t)"
    using w(5) that by (auto simp: areas_of_def first_info_def new_susp_info_def)
  have n: "DIV_UP (BLOCK_SIZE * m) BLOCK_SIZE = m" for m using div_up_mult [of BLOCK_SIZE m] by (simp add: BLOCK_SIZE_def mult.commute)
  have l: "length (concat (pack [] rs) @ concat (rrip_write_ce_fields info)) = BLOCK_SIZE * (length (pack [] rs) + DIV_UP (ce_len info) BLOCK_SIZE)"
    using l1 l2 by (simp add: algebra_simps)
  show thesis
  proof (rule that)
    show "calc_dir_size t (ups = []) dir 0 = Some (BLOCK_SIZE * length (pack [] rs), ce_len info)" using w(2) by (simp add: rs_def)
    show "write_one_dir t ups dir = Some (Inr (concat (pack [] rs) @ concat (rrip_write_ce_fields info)))" using w(1) by (simp add: rs_def)
    show "BLOCK_SIZE * length (pack [] rs) \<le> length (concat (pack [] rs) @ concat (rrip_write_ce_fields info))" using l1 by simp
    show "length (concat (pack [] rs) @ concat (rrip_write_ce_fields info)) =
        BLOCK_SIZE * (DIV_UP (BLOCK_SIZE * length (pack [] rs)) BLOCK_SIZE + DIV_UP (ce_len info) BLOCK_SIZE)"
      unfolding l n ..
    show "\<not> rockridge (img_opts t) \<longrightarrow> ce_len info = 0" using z by blast
  qed simp
qed

lemma tree_laid:
  "tree_ok t d \<Longrightarrow> is_dir d \<Longrightarrow> (is_root \<Longrightarrow> root_aa_ok t (dt_node d)) \<Longrightarrow>
     \<exists>d' m k. calc_dir_pos t is_root d cur nd = Some (d', cur + of_nat m, nd + k) \<and> same_head d d' \<and>
       (\<forall>ups'. (ups' = []) = is_root \<longrightarrow> (case ups' of [] \<Rightarrow> True | u # us \<Rightarrow> is_dir u) \<longrightarrow>
          (\<exists>outs. laid t cur (dirs_of ups' d') outs \<and> write_dirs t ups' d' = Some (Inr (concat outs)) \<and>
             m = length (concat outs) div BLOCK_SIZE \<and> k = length outs))"
  "list_all (tree_ok t) ks \<Longrightarrow>
     \<exists>ks' m k. calc_kids_pos t ks cur nd = Some (ks', cur + of_nat m, nd + k) \<and> list_all2 same_head ks ks' \<and>
       (\<forall>ups'. (case ups' of [] \<Rightarrow> False | u # us \<Rightarrow> is_dir u) \<longrightarrow>
          (\<exists>outs. laid t cur (kids_dirs ups' ks') outs \<and> write_kids t ups' ks' = Some (Inr (concat outs)) \<and>
             m = length (concat outs) div BLOCK_SIZE \<and> k = length outs))"
proof (induction t is_root d cur nd and t ks cur nd rule: calc_dir_pos_calc_kids_pos.induct)
  case (2 t cur nd)
  show ?case by (intro exI [of _ "[]"] exI [of _ 0]) auto
next
  case (1 t is_root name node secs block len0 kids cur nd)
  let ?d = "Dir_tree name node secs block len0 kids"
  note ok = tree_okD [OF 1(2)]
  have kids: "list_all (node_ok t) kids" using ok tree_okD by (auto simp: list_all_iff)
  have rok: "rr_ok t node" using ok by (simp add: node_ok_def)
  define ups0 where "ups0 = (if is_root then [] else [?d])"
  have u0: "(ups0 = []) = is_root" "case ups0 of [] \<Rightarrow> root_aa_ok t (dt_node ?d) | u # us \<Rightarrow> is_dir u"
    using 1(3,4) by (simp_all add: ups0_def)
  obtain len ce where s: "calc_dir_size t is_root ?d 0 = Some (len, ce)" "\<not> rockridge (img_opts t) \<longrightarrow> ce = 0"
    by (rule dir_laid [OF 1(3) _ _ u0(2)]) (use rok kids u0(1) in auto)
  let ?n = "DIV_UP len BLOCK_SIZE" and ?c = "DIV_UP ce BLOCK_SIZE"
  define cur2 where "cur2 = (if rockridge (img_opts t) then cur + of_nat ?n + of_nat ?c else cur + of_nat ?n)"
  have "\<exists>ks' m k. calc_kids_pos t kids cur2 (nd + 1) = Some (ks', cur2 + of_nat m, nd + 1 + k) \<and> list_all2 same_head kids ks' \<and>
       (\<forall>ups'. (case ups' of [] \<Rightarrow> False | u # us \<Rightarrow> is_dir u) \<longrightarrow>
          (\<exists>outs. laid t cur2 (kids_dirs ups' ks') outs \<and> write_kids t ups' ks' = Some (Inr (concat outs)) \<and>
             m = length (concat outs) div BLOCK_SIZE \<and> k = length outs))"
    unfolding cur2_def by (rule 1(1) [OF s(1)]) (use ok in simp_all)
  then obtain ks' m k where ih: "calc_kids_pos t kids cur2 (nd + 1) = Some (ks', cur2 + of_nat m, nd + 1 + k)" "list_all2 same_head kids ks'"
    "\<And>ups'. (case ups' of [] \<Rightarrow> False | u # us \<Rightarrow> is_dir u) \<Longrightarrow>
          (\<exists>outs. laid t cur2 (kids_dirs ups' ks') outs \<and> write_kids t ups' ks' = Some (Inr (concat outs)) \<and>
             m = length (concat outs) div BLOCK_SIZE \<and> k = length outs)"
    by blast
  let ?d' = "Dir_tree name node secs cur len ks'"
  have s': "calc_dir_size t is_root ?d' 0 = Some (len, ce)" using s calc_dir_size_head [of ?d ?d' t is_root 0] ih(2) by simp
  have kids': "list_all (node_ok t) ks'"
    using ih(2) kids by (induction kids ks' rule: list_all2_induct) (simp_all add: node_ok_head)
  have z: "\<not> rockridge (img_opts t) \<longrightarrow> ce = 0" and n: "BLOCK_SIZE \<noteq> 0" by (rule s(2)) (simp add: BLOCK_SIZE_def)
  have cur2: "cur2 = cur + of_nat (?n + ?c)" using z by (auto simp: cur2_def DIV_UP_def BLOCK_SIZE_def)
  have one: "\<exists>out. write_one_dir t ups' ?d' = Some (Inr out) \<and> BLOCK_SIZE dvd len \<and> len \<le> length out \<and> length out = BLOCK_SIZE * (?n + ?c)"
    if u: "(ups' = []) = is_root" "case ups' of [] \<Rightarrow> True | u # us \<Rightarrow> is_dir u" for ups'
  proof -
    have up: "case ups' of [] \<Rightarrow> root_aa_ok t (dt_node ?d') | u # us \<Rightarrow> is_dir u" using u 1(4) by (cases ups') simp_all
    obtain len' ce' out where "calc_dir_size t (ups' = []) ?d' 0 = Some (len', ce')" "write_one_dir t ups' ?d' = Some (Inr out)"
      "BLOCK_SIZE dvd len'" "len' \<le> length out" "length out = BLOCK_SIZE * (DIV_UP len' BLOCK_SIZE + DIV_UP ce' BLOCK_SIZE)"
      by (rule dir_laid [OF _ _ _ up]) (use 1(3) rok kids' in simp_all)
    then show ?thesis using s' u(1) by auto
  qed
  have pos: "calc_dir_pos t is_root ?d cur nd = Some (?d', cur + of_nat (?n + ?c + m), nd + (1 + k))"
    using s(1) ih(1) by (simp add: Let_def cur2_def [symmetric]) (simp add: cur2 add.assoc)
  have rest: "\<exists>outs. laid t cur (dirs_of ups' ?d') outs \<and> write_dirs t ups' ?d' = Some (Inr (concat outs)) \<and>
      ?n + ?c + m = length (concat outs) div BLOCK_SIZE \<and> 1 + k = length outs"
    if u: "(ups' = []) = is_root" "case ups' of [] \<Rightarrow> True | u # us \<Rightarrow> is_dir u" for ups'
  proof -
    obtain out where o: "write_one_dir t ups' ?d' = Some (Inr out)" "BLOCK_SIZE dvd len" "len \<le> length out" "length out = BLOCK_SIZE * (?n + ?c)"
      using one [OF u] by blast
    obtain outs where os: "laid t cur2 (kids_dirs (?d' # ups') ks') outs" "write_kids t (?d' # ups') ks' = Some (Inr (concat outs))"
      "m = length (concat outs) div BLOCK_SIZE" "k = length outs"
      using ih(3) [of "?d' # ups'"] 1(3) by auto
    have q: "length out div BLOCK_SIZE = ?n + ?c" using o(4) n by simp
    have "length (concat (out # outs)) div BLOCK_SIZE = ?n + ?c + m" using o(4) os(3) n by simp
    moreover have "laid t cur (dirs_of ups' ?d') (out # outs)" using o os(1) q cur2 s' u(1) by simp
    moreover have "write_dirs t ups' ?d' = Some (Inr (concat (out # outs)))" using o(1) os(2) by (simp add: and_then_def)
    ultimately show ?thesis using os(4) by (intro exI [of _ "out # outs"]) simp
  qed
  show ?case
    by (rule exI [of _ ?d'], rule exI [of _ "?n + ?c + m"], rule exI [of _ "1 + k"]) (use pos rest in \<open>simp add: same_head_def\<close>)
next
  case (3 t k ks cur nd)
  have ok: "tree_ok t k" "list_all (tree_ok t) ks" using 3(4) by simp_all
  show ?case
  proof (cases "is_dir k")
    case False
    then obtain ks' m n where ih: "calc_kids_pos t ks cur nd = Some (ks', cur + of_nat m, nd + n)" "list_all2 same_head ks ks'"
      "\<And>ups'. (case ups' of [] \<Rightarrow> False | u # us \<Rightarrow> is_dir u) \<Longrightarrow>
          (\<exists>outs. laid t cur (kids_dirs ups' ks') outs \<and> write_kids t ups' ks' = Some (Inr (concat outs)) \<and>
             m = length (concat outs) div BLOCK_SIZE \<and> n = length outs)"
      using 3(3) ok(2) by blast
    show ?thesis
      by (rule exI [of _ "k # ks'"], rule exI [of _ m], rule exI [of _ n]) (use False ih in simp)
  next
    case True
    obtain d' m1 n1 where d: "calc_dir_pos t False k cur nd = Some (d', cur + of_nat m1, nd + n1)" "same_head k d'"
      "\<And>ups'. (ups' = []) = False \<Longrightarrow> (case ups' of [] \<Rightarrow> True | u # us \<Rightarrow> is_dir u) \<Longrightarrow>
          (\<exists>outs. laid t cur (dirs_of ups' d') outs \<and> write_dirs t ups' d' = Some (Inr (concat outs)) \<and>
             m1 = length (concat outs) div BLOCK_SIZE \<and> n1 = length outs)"
      using 3(1) [OF True ok(1) True] by blast
    obtain ks' m2 n2 where ih: "calc_kids_pos t ks (cur + of_nat m1) (nd + n1) = Some (ks', cur + of_nat m1 + of_nat m2, nd + n1 + n2)"
      "list_all2 same_head ks ks'"
      "\<And>ups'. (case ups' of [] \<Rightarrow> False | u # us \<Rightarrow> is_dir u) \<Longrightarrow>
          (\<exists>outs. laid t (cur + of_nat m1) (kids_dirs ups' ks') outs \<and> write_kids t ups' ks' = Some (Inr (concat outs)) \<and>
             m2 = length (concat outs) div BLOCK_SIZE \<and> n2 = length outs)"
      using 3(2) [OF True d(1) refl refl ok(2)] by blast
    have d': "is_dir d'" using True d(2) by (simp add: same_head_def)
    have "\<exists>outs. laid t cur (kids_dirs ups' (d' # ks')) outs \<and> write_kids t ups' (d' # ks') = Some (Inr (concat outs)) \<and>
             m1 + m2 = length (concat outs) div BLOCK_SIZE \<and> n1 + n2 = length outs"
      if u: "case ups' of [] \<Rightarrow> False | u # us \<Rightarrow> is_dir u" for ups'
    proof -
      obtain o1 where o1: "laid t cur (dirs_of ups' d') o1" "write_dirs t ups' d' = Some (Inr (concat o1))"
        "m1 = length (concat o1) div BLOCK_SIZE" "n1 = length o1"
        using d(3) [of ups'] u by (cases ups') auto
      obtain o2 where o2: "laid t (cur + of_nat m1) (kids_dirs ups' ks') o2" "write_kids t ups' ks' = Some (Inr (concat o2))"
        "m2 = length (concat o2) div BLOCK_SIZE" "n2 = length o2"
        using ih(3) [OF u] by blast
      note ap = laid_append [OF o1(1), of "kids_dirs ups' ks'" o2]
      have "length (concat (o1 @ o2)) div BLOCK_SIZE = m1 + m2"
        using ap o1(3) o2(3) by (simp add: div_plus_div_distrib_dvd_left)
      moreover have "laid t cur (kids_dirs ups' (d' # ks')) (o1 @ o2)" using ap o1(3) o2(1) d' by simp
      moreover have "write_kids t ups' (d' # ks') = Some (Inr (concat (o1 @ o2)))" using d' o1(2) o2(2) by (simp add: and_then_def)
      ultimately show ?thesis using o1(4) o2(4) by (intro exI [of _ "o1 @ o2"]) simp
    qed
    then show ?thesis
      by (intro exI [of _ "d' # ks'"] exI [of _ "m1 + m2"] exI [of _ "n1 + n2"])
        (use True d(1,2) ih(1,2) in \<open>simp add: add.assoc\<close>)
  qed
qed

text \<open>The tree with its addresses set; without them it is the tree that it was.\<close>

fun erase :: "dir_tree \<Rightarrow> dir_tree" where
  "erase (Dir_tree name node secs block len kids) = Dir_tree name node secs 0 0 (map erase kids)"

lemma calc_pos_erase:
  "calc_dir_pos t is_root d cur nd = Some (d', st) \<Longrightarrow> erase d' = erase d"
  "calc_kids_pos t ks cur nd = Some (ks', st) \<Longrightarrow> map erase ks' = map erase ks"
proof (induction t is_root d cur nd and t ks cur nd arbitrary: d' st and ks' st rule: calc_dir_pos_calc_kids_pos.induct)
  case (1 t is_root name node secs block len0 kids cur nd)
  obtain len ce where s: "calc_dir_size t is_root (Dir_tree name node secs block len0 kids) 0 = Some (len, ce)"
    using 1(2) by (cases "calc_dir_size t is_root (Dir_tree name node secs block len0 kids) 0") auto
  obtain ks' st' where "calc_kids_pos t kids (if rockridge (img_opts t) then cur + of_nat (DIV_UP len BLOCK_SIZE) + of_nat (DIV_UP ce BLOCK_SIZE)
      else cur + of_nat (DIV_UP len BLOCK_SIZE)) (nd + 1) = Some (ks', st')" "d' = Dir_tree name node secs cur len ks'"
    using 1(2) by (auto simp: s Let_def simp del: calc_kids_pos.simps)
  then show ?case using 1(1) [OF s refl] by simp
next
  case (3 t k ks cur nd)
  then show ?case by (auto split: if_splits option.splits)
qed auto

lemma laid_length: "laid t cur ds outs \<Longrightarrow> length ds = length outs"
  by (induction t cur ds outs rule: laid.induct) auto

lemma directories_laid:
  assumes "tree_ok t root" "is_dir root" "root_aa_ok t (dt_node root)"
  obtains root' outs where
    "calc_dir_pos t True root cur 0 = Some (root', cur + of_nat (length (concat outs) div BLOCK_SIZE), length (dirs_of [] root'))"
    and "laid t cur (dirs_of [] root') outs" "write_dirs t [] root' = Some (Inr (concat outs))" "BLOCK_SIZE dvd length (concat outs)"
    and "erase root' = erase root"
proof -
  obtain root' m k where p: "calc_dir_pos t True root cur 0 = Some (root', cur + of_nat m, 0 + k)"
    "\<And>ups'. ((ups' :: dir_tree list) = []) = True \<Longrightarrow> (case ups' of [] \<Rightarrow> True | u # us \<Rightarrow> is_dir u) \<Longrightarrow>
          (\<exists>outs. laid t cur (dirs_of ups' root') outs \<and> write_dirs t ups' root' = Some (Inr (concat outs)) \<and>
             m = length (concat outs) div BLOCK_SIZE \<and> k = length outs)"
    using tree_laid(1) [of t root True cur 0] assms by blast
  obtain outs where o: "laid t cur (dirs_of [] root') outs" "write_dirs t [] root' = Some (Inr (concat outs))"
    "m = length (concat outs) div BLOCK_SIZE" "k = length outs"
    using p(2) [of "[]"] by auto
  show thesis
    by (rule that [of root' outs]) (use p(1) o laid_length [OF o(1)] laid_append [OF o(1), of "[]" "[]"] calc_pos_erase(1) [OF p(1)] in simp_all)
qed

end
