(* ===== verification/PathTable.thy ===== *)
theory PathTable
  imports DirLayout
begin

text \<open>
  The path tables of \<open>libisofs/ecma119.c\<close> (\<open>write_path_tables\<close>, \<open>write_path_table\<close>) list all directories in breadth
  first order with their blocks, names and parent numbers.
\<close>

section \<open>The list of directories\<close>

definition kid_paths :: "dir_tree \<Rightarrow> nat list \<Rightarrow> nat list list" where
  "kid_paths root p = map (\<lambda>j. p @ [j]) (dir_kids (dt_at root p))"

text \<open>The sum of a value over all directories of a tree.\<close>

fun tree_sum :: "(dir_tree \<Rightarrow> 'a::comm_monoid_add) \<Rightarrow> dir_tree \<Rightarrow> 'a"
  and kids_sum :: "(dir_tree \<Rightarrow> 'a::comm_monoid_add) \<Rightarrow> dir_tree list \<Rightarrow> 'a" where
  "tree_sum f (Dir_tree name node secs block len kids) = f (Dir_tree name node secs block len kids) + kids_sum f kids"
| "kids_sum f [] = 0"
| "kids_sum f (k # ks) = (if is_dir k then tree_sum f k else 0) + kids_sum f ks"

definition count_dirs :: "dir_tree \<Rightarrow> nat" where
  "count_dirs d = tree_sum (\<lambda>d. 1) d"

text \<open>A path that leads from the root to a directory.\<close>

fun dir_path :: "dir_tree \<Rightarrow> nat list \<Rightarrow> bool" where
  "dir_path d [] = True"
| "dir_path d (i # is) = (i < length (dt_kids d) \<and> is_dir (dt_kids d ! i) \<and> dir_path (dt_kids d ! i) is)"

lemma tree_sum_eq: "tree_sum f d = f d + kids_sum f (dt_kids d)"
  by (cases d) simp

lemma dt_at_append: "dt_at d (p @ q) = dt_at (dt_at d p) q"
  by (induction p arbitrary: d) simp_all

lemma kids_sum_eq: "kids_sum f ks = sum_list (map (\<lambda>j. tree_sum f (ks ! j)) (filter (\<lambda>j. is_dir (ks ! j)) [0..<length ks]))"
proof (induction ks)
  case (Cons k ks)
  have "filter (\<lambda>j. is_dir ((k # ks) ! j)) [1..<length (k # ks)] = map Suc (filter (\<lambda>j. is_dir (ks ! j)) [0..<length ks])"
    by (simp add: map_Suc_upt [symmetric] filter_map comp_def del: upt_Suc)
  then show ?case using Cons by (simp add: upt_conv_Cons comp_def del: upt_Suc)
qed simp

lemma kid_sums: "sum_list (map (\<lambda>q. tree_sum f (dt_at root q)) (kid_paths root p)) = kids_sum f (dt_kids (dt_at root p))"
  by (simp add: kid_paths_def dir_kids_def kids_sum_eq comp_def dt_at_append)

lemma dir_path_snoc: "dir_path d (p @ [j]) \<longleftrightarrow> dir_path d p \<and> j \<in> set (dir_kids (dt_at d p))"
  by (induction p arbitrary: d) (auto simp: dir_kids_def)

lemma count_pos: "0 < count_dirs d"
  by (simp add: count_dirs_def tree_sum_eq)

lemma length_le_counts: "length xs \<le> sum_list (map (\<lambda>q. count_dirs (dt_at root q)) xs)"
proof (induction xs)
  case (Cons x xs)
  then show ?case using count_pos [of "dt_at root x"] by simp
qed simp

text \<open>\<open>listed root i js pl\<close>: the loop has treated the first \<open>i\<close> elements of \<open>pl\<close>; \<open>js\<close> are the places of the parents.\<close>

definition listed :: "dir_tree \<Rightarrow> nat \<Rightarrow> nat list \<Rightarrow> nat list list \<Rightarrow> bool" where
  "listed root i js pl \<longleftrightarrow> i \<le> length pl \<and> pl = [] # concat (map (kid_paths root) (take i pl)) \<and> distinct pl \<and>
     map butlast (tl pl) = map ((!) pl) js \<and> sorted js \<and> (\<forall>k<length js. js ! k \<le> k \<and> js ! k < i)"

lemma listed_step:
  assumes l: "listed root i js pl" and i: "i < length pl"
  shows "listed root (i + 1) (js @ replicate (length (kid_paths root (pl ! i))) i) (pl @ kid_paths root (pl ! i))"
proof -
  let ?new = "kid_paths root (pl ! i)"
  have eq: "pl = [] # concat (map (kid_paths root) (take i pl))" and d: "distinct pl"
    and js: "map butlast (tl pl) = map ((!) pl) js" "sorted js" "\<And>k. k < length js \<Longrightarrow> js ! k \<le> k \<and> js ! k < i"
    using l by (auto simp: listed_def)
  have lj: "length pl = length js + 1" using arg_cong [OF js(1), of length] i by simp
  have "take (i + 1) (pl @ ?new) = take i pl @ [pl ! i]" using i by (simp add: take_Suc_conv_app_nth)
  then have eq2: "pl @ ?new = [] # concat (map (kid_paths root) (take (i + 1) (pl @ ?new)))" using eq by simp
  have dk: "distinct ?new" by (simp add: kid_paths_def dir_kids_def distinct_map inj_on_def)
  have "q \<notin> set ?new" if q: "q \<in> set pl" for q
  proof
    assume n: "q \<in> set ?new"
    then have b: "butlast q = pl ! i" "q \<noteq> []" by (auto simp: kid_paths_def)
    have "q \<in> set (concat (map (kid_paths root) (take i pl)))" using q b(2) by (subst (asm) eq) simp
    then obtain p where p: "p \<in> set (take i pl)" "q \<in> set (kid_paths root p)" by auto
    from p(1) obtain k where "k < i" "p = pl ! k" using i by (auto simp: in_set_conv_nth)
    then have k: "k < i" "q \<in> set (kid_paths root (pl ! k))" using p(2) by auto
    then have "pl ! k = pl ! i" using b(1) by (auto simp: kid_paths_def)
    then show False using d k(1) i by (simp add: nth_eq_iff_index_eq)
  qed
  then have d2: "distinct (pl @ ?new)" using d dk by auto
  have "map butlast ?new = replicate (length ?new) (pl ! i)" by (rule nth_equalityI) (simp_all add: kid_paths_def)
  moreover have "map ((!) (pl @ ?new)) js = map ((!) pl) js"
    using js(3) i by (auto simp: nth_append in_set_conv_nth) (metis less_trans)
  moreover have "pl \<noteq> []" using i by auto
  ultimately have b2: "map butlast (tl (pl @ ?new)) = map ((!) (pl @ ?new)) (js @ replicate (length ?new) i)"
    using js(1) i by (simp add: nth_append)
  have "x \<le> i" if "x \<in> set js" for x using that js(3) by (auto simp: in_set_conv_nth intro: less_imp_le)
  then have s2: "sorted (js @ replicate (length ?new) i)" using js(2) by (auto simp: sorted_append)
  have ks: "\<forall>k<length (js @ replicate (length ?new) i). (js @ replicate (length ?new) i) ! k \<le> k \<and> (js @ replicate (length ?new) i) ! k < i + 1"
  proof (intro allI impI)
    fix k assume "k < length (js @ replicate (length ?new) i)"
    then show "(js @ replicate (length ?new) i) ! k \<le> k \<and> (js @ replicate (length ?new) i) ! k < i + 1"
      using js(3) [of k] i lj by (auto simp: nth_append)
  qed
  have "i + 1 \<le> length (pl @ ?new)" using i by simp
  with eq2 d2 b2 s2 ks show ?thesis unfolding listed_def by blast
qed

lemma path_loop_lists:
  assumes "listed root i js pl" and "count_dirs root = i + sum_list (map (\<lambda>q. count_dirs (dt_at root q)) (drop i pl))"
    and "tree_sum f root = sum_list (map (\<lambda>q. f (dt_at root q)) (take i pl)) + sum_list (map (\<lambda>q. tree_sum f (dt_at root q)) (drop i pl))"
  shows "\<exists>pl' js'. path_loop root (count_dirs root) i pl = Some pl' \<and> listed root (count_dirs root) js' pl' \<and>
    length pl' = count_dirs root \<and> tree_sum f root = sum_list (map (\<lambda>q. f (dt_at root q)) pl')"
  using assms
proof (induction "count_dirs root - i" arbitrary: i js pl)
  case 0
  have "sum_list (map (\<lambda>q. count_dirs (dt_at root q)) (drop i pl)) = 0" using 0(1,3) by simp
  then have "length (drop i pl) \<le> 0" using length_le_counts [of "drop i pl" root] by linarith
  then have e: "drop i pl = []" by simp
  then have "count_dirs root = i" "length pl = i" using 0 by (auto simp: listed_def)
  then show ?case using 0(2,4) e by (subst path_loop.simps) auto
next
  case (Suc n)
  have lt: "i < count_dirs root" using Suc(2) by simp
  have i: "i < length pl"
  proof (rule ccontr)
    assume "\<not> i < length pl"
    then show False using lt Suc(4) by simp
  qed
  let ?new = "kid_paths root (pl ! i)"
  have dr: "drop i pl = pl ! i # drop (i + 1) pl" using i by (simp add: Cons_nth_drop_Suc)
  have dr2: "drop (i + 1) (pl @ ?new) = drop (i + 1) pl @ ?new" using i by simp
  have tk: "take (i + 1) (pl @ ?new) = take i pl @ [pl ! i]" using i by (simp add: take_Suc_conv_app_nth)
  have c: "count_dirs root = i + 1 + sum_list (map (\<lambda>q. count_dirs (dt_at root q)) (drop (i + 1) (pl @ ?new)))"
    unfolding dr2 using Suc(4) kid_sums [of "\<lambda>d. 1 :: nat" root "pl ! i"] tree_sum_eq [of "\<lambda>d. 1 :: nat" "dt_at root (pl ! i)"]
    unfolding dr by (simp add: count_dirs_def)
  have f: "tree_sum f root = sum_list (map (\<lambda>q. f (dt_at root q)) (take (i + 1) (pl @ ?new))) +
      sum_list (map (\<lambda>q. tree_sum f (dt_at root q)) (drop (i + 1) (pl @ ?new)))"
    unfolding dr2 tk using Suc(5) kid_sums [of f root "pl ! i"] tree_sum_eq [of f "dt_at root (pl ! i)"]
    unfolding dr by (simp add: ac_simps)
  from length_le_counts [of "drop (i + 1) (pl @ ?new)" root] have fit: "length (pl @ ?new) \<le> count_dirs root" unfolding c using i by simp
  have "path_loop root (count_dirs root) i pl = path_loop root (count_dirs root) (i + 1) (pl @ ?new)"
    using lt i fit by (subst path_loop.simps) (simp add: Let_def kid_paths_def)
  then show ?case using Suc(1) [OF _ listed_step [OF Suc(3) i] c f] Suc(2) by simp
qed

text \<open>All directories, each once, in the order of their parents, which stand in front of them.\<close>

definition path_list :: "dir_tree \<Rightarrow> nat list \<Rightarrow> nat list list \<Rightarrow> bool" where
  "path_list root js pl \<longleftrightarrow> set pl = {p. dir_path root p} \<and> distinct pl \<and> pl \<noteq> [] \<and> hd pl = [] \<and> [] \<notin> set (tl pl) \<and>
     map butlast (tl pl) = map ((!) pl) js \<and> sorted js \<and> length pl = length js + 1 \<and> (\<forall>k<length js. js ! k \<le> k)"

lemma path_loop_all:
  obtains pl js where "path_loop root (count_dirs root) 0 [[]] = Some pl" and "path_list root js pl" and "length pl = count_dirs root"
    and "tree_sum f root = sum_list (map (\<lambda>q. f (dt_at root q)) pl)"
proof -
  have "listed root 0 [] [[]]" by (simp add: listed_def)
  then obtain pl js where p: "path_loop root (count_dirs root) 0 [[]] = Some pl" "listed root (count_dirs root) js pl"
    "length pl = count_dirs root" "tree_sum f root = sum_list (map (\<lambda>q. f (dt_at root q)) pl)"
    using path_loop_lists [of root 0 "[]" "[[]]" f] by auto
  have l: "listed root (length pl) js pl" using p(2,3) by simp
  then have "pl = [] # concat (map (kid_paths root) (take (length pl) pl))" unfolding listed_def by blast
  then have eq: "pl = [] # concat (map (kid_paths root) pl)" unfolding take_all [OF order_refl] .
  have r: "distinct pl" "map butlast (tl pl) = map ((!) pl) js" "sorted js" "\<forall>k<length js. js ! k \<le> k"
    using l unfolding listed_def by blast+
  have mem: "q \<in> set pl \<longleftrightarrow> q = [] \<or> (\<exists>p\<in>set pl. q \<in> set (kid_paths root p))" for q
    by (subst eq) simp
  have "q \<in> set pl \<longleftrightarrow> dir_path root q" for q
  proof (induction q rule: rev_induct)
    case Nil
    show ?case by (subst mem) simp
  next
    case (snoc j p)
    have "p @ [j] \<in> set pl \<longleftrightarrow> p \<in> set pl \<and> j \<in> set (dir_kids (dt_at root p))"
      by (subst mem) (auto simp: kid_paths_def)
    then show ?case using snoc dir_path_snoc by blast
  qed
  moreover have h: "hd pl = []" "pl \<noteq> []" by (subst eq, simp)+
  moreover have "length pl = length js + 1" using arg_cong [OF r(2), of length] h(2) by (cases pl) simp_all
  moreover have "[] \<notin> set (tl pl)" using h r(1) by (cases pl) auto
  ultimately have "path_list root js pl" using r by (auto simp: path_list_def)
  then show thesis using that p by blast
qed

section \<open>The records\<close>

definition path_name :: "dir_tree \<Rightarrow> nat list \<Rightarrow> byte list" where
  "path_name root p = (if p = [] then [0] else (case dt_name (dt_at root p) of Some s \<Rightarrow> bytes_of s | None \<Rightarrow> []))"

definition path_bytes :: "rr_image \<Rightarrow> dir_tree \<Rightarrow> bool \<Rightarrow> nat list \<Rightarrow> nat \<Rightarrow> byte list" where
  "path_bytes t root l_type p parent =
     (let int = (\<lambda>v n. if l_type then le_bytes (v :: u32) n else rev (le_bytes v n)); name = path_name root p
      in [of_nat (length name), 0] @ int (dt_block (dt_at root p) - img_eff_partition_offset t) 4 @ int (of_nat (parent + 1)) 2 @
         name @ replicate (length name mod 2) 0)"

lemma find_parent_nth:
  assumes "distinct qs" "k < length qs" "qs ! k = p"
  shows "find_parent qs p = Some k"
  using assms
proof (induction qs arbitrary: k)
  case (Cons q qs)
  then show ?case by (cases k) auto
qed simp

lemma path_record_eq:
  assumes name: "0 < length (path_name root p)" "length (path_name root p) \<le> 56"
  shows "path_record t root p parent l_type = Some (path_bytes t root l_type p parent)"
proof -
  let ?n = "path_name root p" and ?d = "dt_at root p"
  define m where "m = length ?n"
  have m: "0 < m" "m \<le> 56" using name by (simp_all add: m_def)
  define nm where "nm = (if p = [] then [] else (case dt_name ?d of Some s \<Rightarrow> bytes_of s | None \<Rightarrow> []))"
  have nm: "p \<noteq> [] \<Longrightarrow> nm = ?n" by (simp add: nm_def path_name_def)
  have len: "(if p = [] then 1 else unat (of_nat (length nm) :: byte)) = m"
    using m nm unat_small [of "length nm"] by (auto simp: m_def path_name_def)
  define int where "int = (\<lambda>v n. if l_type then le_bytes (v :: u32) n else rev (le_bytes v n))"
  have w: "(if l_type then iso_lsb else iso_msb) buf q v n = buf_put buf q (int v n)" if "q + n \<le> length buf" for buf q v n
    using that by (simp add: iso_lsb_put iso_msb_put int_def)
  have li: "length (int v n) = n" for v n by (simp add: int_def)
  let ?b = "int (dt_block ?d - img_eff_partition_offset t) 4" and ?q = "int (of_nat (parent + 1)) 2"
  have z: "(replicate 64 0)[0 := of_nat m :: byte] = [of_nat m, 0] @ replicate 62 0" by (simp add: eval_nat_numeral)
  have b1: "(if l_type then iso_lsb else iso_msb) ([of_nat m, 0] @ replicate 62 0) 2 (dt_block ?d - img_eff_partition_offset t) 4 =
      [of_nat m, 0] @ ?b @ replicate 58 0"
    by (subst w, simp) (rule put_at [of _ _ "replicate 4 0"], simp_all add: li replicate_add [symmetric])
  have b2: "(if l_type then iso_lsb else iso_msb) ([of_nat m, 0] @ ?b @ replicate 58 0) 6 (of_nat (parent + 1)) 2 =
      ([of_nat m, 0] @ ?b @ ?q) @ replicate 56 0"
  proof -
    have "buf_put ([of_nat m, 0] @ ?b @ replicate 58 0) 6 ?q = ([of_nat m, 0] @ ?b) @ ?q @ replicate 56 0"
      by (rule put_at [of _ _ "replicate 2 0"]) (simp_all add: li replicate_add [symmetric])
    then show ?thesis by (subst w) (simp_all add: li)
  qed
  have z56: "replicate 56 0 = replicate m 0 @ replicate (56 - m) (0 :: byte)" using m(2) by (simp add: replicate_add [symmetric])
  have b3: "(if p = [] then ([of_nat m, 0] @ ?b @ ?q) @ replicate 56 0
      else buf_put (([of_nat m, 0] @ ?b @ ?q) @ replicate 56 0) 8 (take m nm)) = ([of_nat m, 0] @ ?b @ ?q) @ ?n @ replicate (56 - m) 0"
  proof (cases "p = []")
    case True
    then show ?thesis using z56 by (simp add: path_name_def m_def)
  next
    case False
    then have "take m nm = ?n" using nm by (simp add: m_def)
    moreover have "buf_put (([of_nat m, 0] @ ?b @ ?q) @ replicate 56 0) 8 ?n = ([of_nat m, 0] @ ?b @ ?q) @ ?n @ replicate (56 - m) 0"
      by (rule put_at [of _ _ "replicate m 0"]) (simp_all add: li z56 m_def)
    ultimately show ?thesis using False by simp
  qed
  have t: "take (8 + m + m mod 2) (([of_nat m, 0] @ ?b @ ?q) @ ?n @ replicate (56 - m) 0) =
      ([of_nat m, 0] @ ?b @ ?q) @ ?n @ replicate (m mod 2) 0"
  proof -
    define X where "X = [of_nat m, 0] @ ?b @ ?q"
    have "length X = 8" by (simp add: X_def li)
    moreover have "m mod 2 \<le> 56 - m" using m(2) by presburger
    ultimately show ?thesis unfolding X_def [symmetric] by (simp add: m_def [symmetric] min_def)
  qed
  have "path_record t root p parent l_type = Some (([of_nat m, 0] @ ?b @ ?q) @ ?n @ replicate (m mod 2) 0)"
    unfolding path_record_def Let_def nm_def [symmetric] len z b1 b2 b3 t using m(2) by simp
  then show ?thesis by (simp add: path_bytes_def int_def m_def Let_def)
qed

lemma path_records_eq:
  assumes "distinct pl" "list_all (\<lambda>p. 0 < length (path_name root p) \<and> length (path_name root p) \<le> 56) dirs"
    and "[] \<notin> set dirs" "map butlast dirs = map ((!) pl) js" "sorted (parent # js)" "list_all (\<lambda>j. j < length pl) js"
  shows "path_records t root pl l_type dirs parent = Some (map2 (path_bytes t root l_type) dirs js)"
  using assms(2-)
proof (induction dirs arbitrary: parent js)
  case (Cons d ds)
  then obtain j js' where js: "js = j # js'" by (cases js) auto
  have j: "butlast d = pl ! j" "j < length pl" "parent \<le> j" "d \<noteq> []" using Cons.prems js by auto
  have "find_parent (drop parent pl) (butlast d) = Some (j - parent)"
    by (rule find_parent_nth) (use j assms(1) in simp_all)
  moreover have "path_records t root pl l_type ds j = Some (map2 (path_bytes t root l_type) ds js')"
    by (rule Cons.IH) (use Cons.prems js in auto)
  ultimately show ?case using j path_record_eq [of root d t j l_type] Cons.prems(1) by (simp add: js)
qed simp

lemma table_eq:
  assumes l: "path_list root js pl" and n: "list_all (\<lambda>p. 0 < length (path_name root p) \<and> length (path_name root p) \<le> 56) pl"
  shows "path_records t root pl l_type pl 0 = Some (map2 (path_bytes t root l_type) pl (0 # js))"
proof -
  obtain ps where pl: "pl = [] # ps" using l by (cases pl) (auto simp: path_list_def)
  have js: "list_all (\<lambda>j. j < length pl) js" using l by (fastforce simp: path_list_def list_all_length)
  have "path_records t root pl l_type ps 0 = Some (map2 (path_bytes t root l_type) ps js)"
    by (rule path_records_eq [OF _ _ _ _ _ js]) (use l n pl in \<open>auto simp: path_list_def\<close>)
  then show ?thesis using path_record_eq [of root "[]" t 0 l_type] by (simp add: pl path_name_def)
qed

lemma length_path_bytes: "length (path_bytes t root l_type p parent) = 8 + length (path_name root p) + length (path_name root p) mod 2"
  by (simp add: path_bytes_def Let_def)

text \<open>Names that fit into the buffer of \<open>write_path_table\<close>.\<close>

fun names_ok :: "dir_tree \<Rightarrow> bool" where
  "names_ok (Dir_tree name node secs block len kids) \<longleftrightarrow>
     list_all (\<lambda>k. is_dir k \<longrightarrow> (case dt_name k of Some s \<Rightarrow> 0 < length s \<and> length s \<le> 56 | None \<Rightarrow> False) \<and> names_ok k) kids"

lemma names_ok_at:
  assumes "names_ok root" "dir_path root p"
  shows "0 < length (path_name root p) \<and> length (path_name root p) \<le> 56"
proof -
  have n: "names_ok d \<Longrightarrow> dir_path d (q @ [j]) \<Longrightarrow> (case dt_name (dt_at d (q @ [j])) of Some s \<Rightarrow> 0 < length s \<and> length s \<le> 56 | None \<Rightarrow> False)" for d q j
  proof (induction q arbitrary: d)
    case Nil
    then show ?case by (cases d) (simp add: list_all_length)
  next
    case (Cons i q)
    then have "names_ok (dt_kids d ! i)" by (cases d) (simp add: list_all_length)
    then show ?case using Cons by simp
  qed
  show ?thesis
  proof (cases p rule: rev_cases)
    case (snoc q j)
    then obtain s where "dt_name (dt_at root p) = Some s" "0 < length s" "length s \<le> 56"
      using n [of root q j] assms by (auto split: option.splits)
    then show ?thesis using snoc length_bytes_of [of s] by (simp add: path_name_def)
  qed (simp add: path_name_def)
qed

lemma path_table_sum: "calc_path_table_size d = tree_sum path_entry_size d" "path_table_kids ks = kids_sum path_entry_size ks"
  by (induction d and ks rule: calc_path_table_size_path_table_kids.induct) simp_all

lemma of_nat_unat_eq: "unat w = n \<Longrightarrow> w = of_nat n"
  by (metis of_nat_unat ucast_id)

lemma entry_size:
  assumes "dt_name root = None" "names_ok root" "dir_path root p"
  shows "path_entry_size (dt_at root p) = of_nat (8 + length (path_name root p) + length (path_name root p) mod 2)"
proof -
  define m where "m = length (path_name root p)"
  have m: "m \<le> 56" "0 < m" using names_ok_at [OF assms(2,3)] by (simp_all add: m_def)
  have nm: "(case dt_name (dt_at root p) of Some s \<Rightarrow> length s | None \<Rightarrow> 1) = m"
    using assms(1) m(2) by (cases "p = []") (auto simp: m_def path_name_def length_bytes_of split: option.splits)
  have "unat (of_nat (8 + m) :: u32) = 8 + m" using m(1) by (simp only: unat_of_nat) (simp add: take_bit_nat_eq_self)
  moreover have "(8 + m) mod 2 = m mod 2" by presburger
  ultimately have "unat ((of_nat (8 + m) :: u32) mod 2) = m mod 2" by (simp add: unat_mod)
  then have "(of_nat (8 + m) :: u32) mod 2 = of_nat (m mod 2)" by (rule of_nat_unat_eq)
  then have "(8 + of_nat m :: u32) mod 2 = of_nat (m mod 2)" by simp
  then show ?thesis unfolding path_entry_size_def Let_def nm m_def [symmetric] by simp
qed

definition table_bytes :: "rr_image \<Rightarrow> dir_tree \<Rightarrow> bool \<Rightarrow> nat list list \<Rightarrow> nat list \<Rightarrow> byte list" where
  "table_bytes t root l_type pl js = concat (map2 (path_bytes t root l_type) pl (0 # js))"

lemma path_tables_written:
  assumes "dt_name root = None" "names_ok root"
  shows "\<exists>pl js n. path_loop root (count_dirs root) 0 [[]] = Some pl \<and> path_list root js pl \<and>
    (\<forall>l_type. length (table_bytes t root l_type pl js) = n \<and>
       write_path_table t root pl l_type = Some (table_bytes t root l_type pl js @ replicate (BLOCK_SIZE * DIV_UP n BLOCK_SIZE - n) 0)) \<and>
    calc_path_table_size root = of_nat n \<and> n \<le> 64 * count_dirs root"
proof -
  obtain pl js where p: "path_loop root (count_dirs root) 0 [[]] = Some pl" "path_list root js pl" "length pl = count_dirs root"
    "tree_sum path_entry_size root = sum_list (map (\<lambda>q. path_entry_size (dt_at root q)) pl)"
    by (rule path_loop_all)
  have names: "list_all (\<lambda>p. 0 < length (path_name root p) \<and> length (path_name root p) \<le> 56) pl"
    using names_ok_at [OF assms(2)] p(2) by (auto simp: path_list_def list_all_iff)
  define sz where "sz = (\<lambda>p. 8 + length (path_name root p) + length (path_name root p) mod 2)"
  have l: "length ps = length ks \<Longrightarrow> length (concat (map2 (path_bytes t root l_type) ps ks)) = sum_list (map sz ps)" for ps ks l_type
    by (induction ps ks rule: list_induct2) (simp_all add: length_path_bytes sz_def)
  have lj: "length pl = length (0 # js)" using p(2) by (simp add: path_list_def)
  note len = l [OF lj]
  have "sum_list (map (\<lambda>q. path_entry_size (dt_at root q)) pl) = sum_list (map (\<lambda>q. of_nat (sz q)) pl)"
    using entry_size [OF assms] p(2) by (intro arg_cong [of _ _ sum_list] map_cong) (auto simp: sz_def path_list_def)
  also have "\<dots> = of_nat (sum_list (map sz pl))" by (induction pl) simp_all
  finally have size: "calc_path_table_size root = of_nat (sum_list (map sz pl))" using p(4) path_table_sum(1) by simp
  have "sz q \<le> 64" if "q \<in> set pl" for q
  proof -
    have "length (path_name root q) \<le> 56" using names that by (simp add: list_all_iff)
    then have "length (path_name root q) + length (path_name root q) mod 2 \<le> 56" by presburger
    then show ?thesis by (simp add: sz_def)
  qed
  then have "sum_list (map sz pl) \<le> sum_list (map (\<lambda>q. 64) pl)" by (rule sum_list_mono)
  then have bound: "sum_list (map sz pl) \<le> 64 * count_dirs root" using p(3) by (simp add: sum_list_triv mult.commute)
  have w: "write_path_table t root pl l_type = Some (concat (map2 (path_bytes t root l_type) pl (0 # js)) @
      replicate (BLOCK_SIZE * DIV_UP (sum_list (map sz pl)) BLOCK_SIZE - sum_list (map sz pl)) 0)" for l_type
  proof -
    let ?n = "sum_list (map sz pl)"
    have "(if ?n mod BLOCK_SIZE \<noteq> 0 then BLOCK_SIZE - ?n mod BLOCK_SIZE else 0) = BLOCK_SIZE * DIV_UP ?n BLOCK_SIZE - ?n"
      using round_div_up [of BLOCK_SIZE ?n] by (auto simp: BLOCK_SIZE_def split: if_splits)
    then show ?thesis
      unfolding write_path_table_def table_eq [OF p(2) names] option.map Let_def len by (auto split: if_splits)
  qed
  show ?thesis
    by (rule exI [of _ pl], rule exI [of _ js], rule exI [of _ "sum_list (map sz pl)"])
      (use p(1,2) len w size bound in \<open>simp add: table_bytes_def\<close>)
qed


section \<open>The whole directory structure\<close>

lemma erase_simps: "dt_name (erase d) = dt_name d" "dt_node (erase d) = dt_node d"
  by (cases d; simp)+

lemma names_ok_erase: "names_ok (erase d) = names_ok d"
proof (induction d)
  case (Dir_tree name node secs block len kids)
  then show ?case by (auto simp: list_all_iff erase_simps)
qed

lemma tree_sum_erase: "tree_sum (\<lambda>d. 1 :: nat) (erase d) = tree_sum (\<lambda>d. 1) d"
  "kids_sum (\<lambda>d. 1 :: nat) (map erase ks) = kids_sum (\<lambda>d. 1) ks"
  by (induction "\<lambda>d :: dir_tree. 1 :: nat" d and "\<lambda>d :: dir_tree. 1 :: nat" ks rule: tree_sum_kids_sum.induct) (simp_all add: erase_simps)

lemma length_dirs_of: "length (dirs_of ups d) = tree_sum (\<lambda>d. 1) d" "length (kids_dirs ups ks) = kids_sum (\<lambda>d. 1) ks"
  by (induction ups d and ups ks rule: dirs_of_kids_dirs.induct) simp_all

lemma table_blocks_of:
  assumes "n \<le> 2 ^ 31"
  shows "table_blocks (of_nat n) = of_nat (DIV_UP n BLOCK_SIZE)"
proof -
  have l: "n + 2047 < 2 ^ 32" using assms by simp
  then have "unat (of_nat (n + 2047) :: u32) = n + 2047" by (simp only: unat_of_nat) (simp add: take_bit_nat_eq_self)
  then have "unat ((of_nat (n + 2047) :: u32) div 2048) = (n + 2047) div 2048" by (simp add: unat_div)
  then have "(of_nat (n + 2047) :: u32) div 2048 = of_nat ((n + 2047) div 2048)" by (rule of_nat_unat_eq)
  then show ?thesis by (simp add: table_blocks_def DIV_UP_def BLOCK_SIZE_def add.commute)
qed


definition sample_tree :: dir_tree where
  "sample_tree =
     (let file = (\<lambda>s. Dir_tree (Some s) (sample_node ECMA119_FILE s '''' None) [(300, 7)] 0 0 []);
          dir = (\<lambda>s kids. Dir_tree (Some s) (sample_node ECMA119_DIR s '''' None) [] 0 0 kids)
      in Dir_tree None (sample_node ECMA119_DIR '''' '''' None) [] 0 0
           [dir ''AA'' [file ''X1'', dir ''SUB'' []], file ''BB'', dir ''CC'' [file ''Y'']])"

definition sample_layout :: dir_layout where
  "sample_layout = \<lparr>ly_root = sample_tree, ly_partition_root = sample_tree, ly_curblock = 20, ly_ndirs = 4, ly_l_path_table_pos = 0,
     ly_m_path_table_pos = 0, ly_path_table_size = 0, ly_checksum_tree_tag_pos = 0, ly_partition_l_table_pos = 0,
     ly_partition_m_table_pos = 0, ly_tree_end_block = 0\<rparr>"

lemma sample_tree_ok: "tree_ok sample_rr sample_tree" "is_dir sample_tree" "root_aa_ok sample_rr (dt_node sample_tree)"
  "dt_name sample_tree = None" "names_ok sample_tree" "count_dirs sample_tree = 4"
  by code_simp+

lemma sample_rr_offset: "img_eff_partition_offset sample_rr = 0"
  by (simp add: sample_rr_def)



end
