(* ===== verification/DirRead.thy ===== *)
theory DirRead
  imports PathTable UtilText
begin

text \<open>
  Reading of directories (\<open>libisofs/fs_image.c\<close>): \<open>read_dir\<close> goes through the directory records, and
  \<open>iso_file_source_new_ifs\<close> makes a file source with name, attributes and sections from each of them
  (\<open>ImageFileSourceData\<close>, here the record \<open>ifs\<close>). The record \<open>image_fs\<close> has the members of \<open>_ImageFsData\<close> that they use, the
  block device, the conversion of character sets and whether a message aborts (\<open>fs_nblocks\<close> is the sum of \<open>session_lba\<close> and
  \<open>nblocks\<close>, \<open>fs_joliet\<close> is the test whether the Joliet tree is read); the counters for inode numbers are passed
  through (\<open>ino_state\<close>). \<open>None\<close> stands for an access outside of the block buffer or a reading without end.
\<close>

section \<open>Names\<close>

record image_fs =
  fs_rr :: bool
  fs_same_charset :: bool
  fs_strnconv :: "byte list \<Rightarrow> string option"
  fs_strconv :: "string \<Rightarrow> string option"
  fs_joliet :: bool
  fs_ecma119_map :: nat
  fs_joliet_map :: nat
  fs_truncate_mode :: int
  fs_truncate_length :: nat
  fs_uid :: u32
  fs_gid :: u32
  fs_dir_mode :: u32
  fs_file_mode :: u32
  fs_len_skp :: nat
  fs_nblocks :: u32
  fs_read_block :: "u32 \<Rightarrow> iso_error + byte list"
  fs_aborts :: "iso_error \<Rightarrow> bool"
  fs_timegm :: "tm \<Rightarrow> int"

text \<open>Return values of \<open>iso_file_source_new_ifs\<close>: an error, 0, 1 and 2.\<close>

datatype ifs_ret = Ifs_error iso_error | Ifs_ignored | Ifs_done | Ifs_more

definition submit_ret :: "image_fs \<Rightarrow> iso_error \<Rightarrow> ifs_ret" where
  "submit_ret fs code = (case submitted (fs_aborts fs) code of Some e \<Rightarrow> Ifs_error e | None \<Rightarrow> Ifs_ignored)"

text \<open>A name of which the characters outside of \<open>.0-9_a-z\<close> are replaced, with the MD5 of the original behind it.\<close>

definition smash :: "byte \<Rightarrow> byte" where
  "smash c = (if c = 0x2e \<or> 0x30 \<le> c \<and> c \<le> 0x39 \<or> c = 0x5f \<or> 0x61 \<le> c \<and> c \<le> 0x7a then c else 0x5f)"

definition make_hopefully_unique_name :: "byte list \<Rightarrow> string option" where
  "make_hopefully_unique_name str =
     (let short = take 223 str; padded = short @ replicate (8 - length short) 0x5f
      in case iso_md5_start True None of
           (Inl e, _) \<Rightarrow> None
         | (Inr _, ctx) \<Rightarrow>
             (case iso_md5_compute ctx str of
                (Inl e, _) \<Rightarrow> None
              | (Inr _, ctx') \<Rightarrow>
                  (case iso_md5_end ctx' of
                     (Inr (Some md5), _) \<Rightarrow> Some (c_text (map smash padded @ concat (map hex_byte (take 16 md5))))
                   | _ \<Rightarrow> None)))"

text \<open>Without conversion the text ends at a NUL.\<close>

definition get_name :: "image_fs \<Rightarrow> byte list \<Rightarrow> string option" where
  "get_name fs str =
     (if fs_same_charset fs then Some (c_text str)
      else case fs_strnconv fs str of
             Some name \<Rightarrow> Some name
           | None \<Rightarrow> if fs_aborts fs ISO_FILENAME_WRONG_CHARSET then None else make_hopefully_unique_name str)"

definition convert_text :: "image_fs \<Rightarrow> string option \<Rightarrow> iso_error option \<times> string option" where
  "convert_text fs s =
     (if fs_same_charset fs then (None, s)
      else case s of
             None \<Rightarrow> (None, None)
           | Some x \<Rightarrow> (case fs_strconv fs x of
                         Some y \<Rightarrow> (None, Some y)
                       | None \<Rightarrow> (submitted (fs_aborts fs) ISO_FILENAME_WRONG_CHARSET, s)))"

definition strip_version :: "string \<Rightarrow> string" where
  "strip_version s =
     (if length s > 2 \<and> drop (length s - 2) s = '';1''
      then (if length s > 3 \<and> s ! (length s - 3) = CHR ''.'' then take (length s - 3) s else take (length s - 2) s)
      else s)"

definition to_upper :: "char \<Rightarrow> char" where
  "to_upper c = (if CHR ''a'' \<le> c \<and> c \<le> CHR ''z'' then char_of (of_char c - 32 :: nat) else c)"

definition to_lower :: "char \<Rightarrow> char" where
  "to_lower c = (if CHR ''A'' \<le> c \<and> c \<le> CHR ''Z'' then char_of (of_char c + 32 :: nat) else c)"

definition map_name :: "image_fs \<Rightarrow> string \<Rightarrow> string" where
  "map_name fs s =
     (let m = (if fs_joliet fs then fs_joliet_map fs else fs_ecma119_map fs);
          s1 = (if 1 \<le> m \<and> m \<le> 3 then strip_version s else s)
      in if m = 2 then map to_upper s1 else if m = 3 then map to_lower s1 else s1)"

definition record_file_id :: "byte list \<Rightarrow> byte list" where
  "record_file_id rec = take (unat (rec ! 32)) (drop 33 rec)"

text \<open>The name of a node without NM: the identifier of the directory record; \<open>.\<close> has none.\<close>

definition record_name :: "image_fs \<Rightarrow> byte list \<Rightarrow> u32 \<Rightarrow> string option \<Rightarrow> ifs_ret + string option" where
  "record_name fs rec mode name =
     (if name \<noteq> None then Inr name
      else if rec ! 32 = 1 \<and> rec ! 33 = 0
      then (if mode AND S_IFDIR = 0 then Inl (submit_ret fs ISO_WRONG_ECMA119) else Inr None)
      else case get_name fs (record_file_id rec) of
             None \<Rightarrow> Inl (submit_ret fs ISO_WRONG_ECMA119)
           | Some n \<Rightarrow> Inr (Some (map_name fs n)))"

definition cut_name :: "image_fs \<Rightarrow> string option \<Rightarrow> ifs_ret + string option" where
  "cut_name fs name =
     (case name of
        None \<Rightarrow> Inr None
      | Some n \<Rightarrow>
          if length n \<le> fs_truncate_length fs then Inr name
          else case iso_truncate_rr_name (fs_truncate_mode fs) (fs_truncate_length fs) (bytes_of n) of
                 (Inl e, _) \<Rightarrow> Inl (Ifs_error e)
               | (Inr _, bs) \<Rightarrow> Inr (Some (c_text bs)))"

section \<open>File sources\<close>

record ifs =
  if_info :: rr_stat
  if_size :: int
  if_name :: "string option"
  if_sections :: "(u32 \<times> u32) list"
  if_dest :: "string option"
  if_aa :: "byte list"
  if_zf :: zf_info

type_synonym ino_state = "byte \<times> u32"

definition no_stat :: rr_stat where
  "no_stat = \<lparr>at_mode = 0, at_nlink = 0, at_uid = 0, at_gid = 0, at_ino = 0, at_rdev = 0, at_atime = 0, at_mtime = 0, at_ctime = 0\<rparr>"

definition no_zf :: zf_info where
  "no_zf = \<lparr>zf_algo = (0, 0), zf_header_size_div4 = 0, zf_block_size_log2 = 0, zf_uncompressed_size = 0\<rparr>"

definition new_ifs :: "string option \<Rightarrow> ifs" where
  "new_ifs name = \<lparr>if_info = no_stat, if_size = 0, if_name = name, if_sections = [], if_dest = None, if_aa = [], if_zf = no_zf\<rparr>"

text \<open>The extent of a directory record; the Extended Attribute Record in front of the data is skipped.\<close>

definition record_section :: "byte list \<Rightarrow> u32 \<times> u32" where
  "record_section rec = (fst (iso_read_bb rec 2 4) + ucast (rec ! 1), fst (iso_read_bb rec 10 4))"

definition add_section :: "byte list \<Rightarrow> ifs \<Rightarrow> ifs" where
  "add_section rec data = data\<lparr>if_sections := if_sections data @ [record_section rec]\<rparr>"

text \<open>A further record of a multi-extent file must have the name of the first one.\<close>

definition extent_error :: "image_fs \<Rightarrow> byte list \<Rightarrow> ifs option \<Rightarrow> iso_error option" where
  "extent_error fs rec src =
     (case src of
        None \<Rightarrow> None
      | Some data \<Rightarrow> if get_name fs (record_file_id rec) = None \<or> get_name fs (record_file_id rec) \<noteq> if_name data
                     then Some ISO_WRONG_ECMA119 else None)"

definition add_extent :: "image_fs \<Rightarrow> bool \<Rightarrow> byte list \<Rightarrow> ifs option \<Rightarrow> ifs_ret \<times> ifs option" where
  "add_extent fs is_root rec src =
     (if bit (rec ! 25) 1 \<or> is_root then (Ifs_error ISO_WRONG_ECMA119, src)
      else case (case src of None \<Rightarrow> map_option (\<lambda>n. new_ifs (Some n)) (get_name fs (record_file_id rec)) | Some d \<Rightarrow> Some d) of
             None \<Rightarrow> (Ifs_error ISO_WRONG_ECMA119, src)
           | Some data \<Rightarrow> (Ifs_more, Some (add_section rec (data\<lparr>if_size := if_size data + uint (snd (record_section rec))\<rparr>))))"

definition fresh_reader :: "byte list \<Rightarrow> ino_state \<Rightarrow> rr_reader" where
  "fresh_reader rec ino =
     \<lparr>rd_atts = no_stat\<lparr>at_nlink := 1, at_mode := (if bit (rec ! 25) 1 then S_IFDIR else S_IFREG)\<rparr>, rd_has_px = False,
      rd_name = None, rd_namecont = False, rd_skip_nm = False, rd_linkdest = None, rd_linkcont = 0, rd_relocated_dir = 0,
      rd_aa = aa_empty, rd_zf = no_zf, px_ino_status = fst ino, inode_counter = snd ino\<rparr>"

definition ino_of :: "rr_reader \<Rightarrow> ino_state" where
  "ino_of st = (px_ino_status st, inode_counter st)"

text \<open>The attributes from the System Use fields, or the default ones.\<close>

definition rr_attributes ::
  "image_fs \<Rightarrow> bool \<Rightarrow> bool \<Rightarrow> byte list \<Rightarrow> rr_reader \<Rightarrow> ((ifs_ret + unit) \<times> rr_reader) option" where
  "rr_attributes fs is_root is_cl_target rec st =
     (case rr_loop (fs_aborts fs) (fs_timegm fs) is_cl_target (fs_read_block fs) (susp_iter_new rec (fs_nblocks fs) (fs_len_skp fs)) st of
        None \<Rightarrow> None
      | Some RR_bad_access \<Rightarrow> None
      | Some (RR_relocated st1) \<Rightarrow> Some (Inl (if is_root then Ifs_error ISO_NO_ROOT_DIR else Ifs_ignored), st1)
      | Some (RR_done ret st1) \<Rightarrow>
          (case rr_checks (fs_aborts fs) ret st1 of
             Some e \<Rightarrow> Some (Inl (Ifs_error e), st1)
           | None \<Rightarrow>
               (case convert_text fs (rd_name st1) of
                  (Some e, _) \<Rightarrow> Some (Inl (Ifs_error e), st1)
                | (None, name) \<Rightarrow>
                    (case convert_text fs (rd_linkdest st1) of
                       (Some e, _) \<Rightarrow> Some (Inl (Ifs_error e), st1)
                     | (None, dest) \<Rightarrow> Some (Inr (), st1\<lparr>rd_name := name, rd_linkdest := dest\<rparr>)))))"

definition plain_attributes :: "image_fs \<Rightarrow> byte list \<Rightarrow> rr_reader \<Rightarrow> rr_reader" where
  "plain_attributes fs rec st =
     st\<lparr>rd_atts := (rd_atts st)\<lparr>at_gid := fs_gid fs, at_uid := fs_uid fs,
          at_mode := (if bit (rec ! 25) 1 then S_IFDIR OR fs_dir_mode fs else S_IFREG OR fs_file_mode fs)\<rparr>\<rparr>"

definition or_time :: "int \<Rightarrow> int \<Rightarrow> int" where
  "or_time recorded t = (if t = 0 then recorded else t)"

text \<open>The end of \<open>iso_file_source_new_ifs\<close>.\<close>

definition make_source ::
  "image_fs \<Rightarrow> byte list \<Rightarrow> rr_reader \<Rightarrow> string option \<Rightarrow> ifs option \<Rightarrow> (ifs_ret \<times> ifs option \<times> ino_state) option" where
  "make_source fs rec st name src =
     (case iso_datetime_read_7 (fs_timegm fs) (take 7 (drop 18 rec)) of
        None \<Rightarrow> None
      | Some recorded \<Rightarrow>
          let a = rd_atts st; islnk = (at_mode a AND S_IFMT = S_IFLNK);
              atts = a\<lparr>at_atime := or_time recorded (at_atime a), at_ctime := or_time recorded (at_ctime a),
                       at_mtime := or_time recorded (at_mtime a)\<rparr>;
              data = (case src of Some d \<Rightarrow> d | None \<Rightarrow> new_ifs None);
              data1 = data\<lparr>if_info := atts, if_size := if_size data + uint (fst (iso_read_bb rec 10 4)), if_name := name,
                       if_aa := aa_string (rd_aa st), if_dest := (if islnk then rd_linkdest st else if_dest data),
                       if_zf := (if zf_header_size_div4 (rd_zf st) > 0 then rd_zf st
                                 else (if_zf data)\<lparr>zf_header_size_div4 := 0\<rparr>)\<rparr>
          in if islnk \<and> rd_linkdest st = None then Some (submit_ret fs ISO_WRONG_RR, src, ino_of st)
             else Some (Ifs_done, Some (add_section rec data1), ino_of st))"

text \<open>\<open>is_root\<close> and \<open>is_cl_target\<close> are the bits 0 and 1 of the flag. At a record with CL the record \<open>.\<close> of the relocated directory
  is read instead, where a CL has no effect.\<close>

function iso_file_source_new_ifs ::
  "image_fs \<Rightarrow> bool \<Rightarrow> bool \<Rightarrow> byte list \<Rightarrow> ifs option \<Rightarrow> ino_state \<Rightarrow> (ifs_ret \<times> ifs option \<times> ino_state) option" where
  "iso_file_source_new_ifs fs is_root is_cl_target rec src ino =
     (if length rec < 34 \<or> length rec < 33 + unat (rec ! 32) then None
      else if rec ! 26 \<noteq> 0 \<or> rec ! 27 \<noteq> 0 then Some (Ifs_error ISO_UNSUPPORTED_ECMA119, src, ino)
      else case extent_error fs rec src of
             Some e \<Rightarrow> Some (Ifs_error e, src, ino)
           | None \<Rightarrow>
               if bit (rec ! 25) 7
               then (case add_extent fs is_root rec src of (ret, src1) \<Rightarrow> Some (ret, src1, ino))
               else case (if fs_rr fs then rr_attributes fs is_root is_cl_target rec (fresh_reader rec ino)
                          else Some (Inr (), plain_attributes fs rec (fresh_reader rec ino))) of
                      None \<Rightarrow> None
                    | Some (Inl ret, st) \<Rightarrow> Some (ret, src, ino_of st)
                    | Some (Inr u, st) \<Rightarrow>
                        let st1 = (if rd_has_px st then st else st\<lparr>px_ino_status := px_ino_status st OR 4\<rparr>)
                        in case record_name fs rec (at_mode (rd_atts st1)) (rd_name st1) of
                             Inl ret \<Rightarrow> Some (ret, src, ino_of st1)
                           | Inr name \<Rightarrow>
                               (case cut_name fs name of
                                  Inl ret \<Rightarrow> Some (ret, src, ino_of st1)
                                | Inr name1 \<Rightarrow>
                                    if rd_relocated_dir st1 = 0 then make_source fs rec st1 name1 src
                                    else if is_cl_target then None
                                    else case fs_read_block fs (rd_relocated_dir st1) of
                                           Inl e \<Rightarrow> Some (Ifs_error e, src, ino_of st1)
                                         | Inr buffer \<Rightarrow>
                                             (case iso_file_source_new_ifs fs is_root True buffer src (ino_of st1) of
                                                None \<Rightarrow> None
                                              | Some (Ifs_error e, src1, ino1) \<Rightarrow> Some (Ifs_error e, src1, ino1)
                                              | Some (Ifs_ignored, src1, ino1) \<Rightarrow> Some (Ifs_ignored, src1, ino1)
                                              | Some (r, src1, ino1) \<Rightarrow>
                                                  Some (Ifs_done, map_option (\<lambda>d. d\<lparr>if_name := name1\<rparr>) src1, ino1))))"
  by pat_completeness auto
termination
  by (relation "measure (\<lambda>(fs, is_root, is_cl_target, rec, src, ino). if is_cl_target then 0 else 1)") auto

declare iso_file_source_new_ifs.simps [simp del]

section \<open>Directories\<close>

text \<open>The loop over the records. \<open>block\<close> is the number of the block in \<open>buffer\<close>, \<open>p\<close> the position in it and \<open>tlen\<close> the
  number of bytes that are done; \<open>child\<close> is a multi-extent file that waits for its last record. The list of children grows in
  front.\<close>

partial_function (option) read_records ::
  "image_fs \<Rightarrow> u32 \<Rightarrow> u32 \<Rightarrow> byte list \<Rightarrow> nat \<Rightarrow> u32 \<Rightarrow> ifs option \<Rightarrow> ifs list \<Rightarrow> ino_state \<Rightarrow>
   ((iso_error + ifs list) \<times> ino_state) option" where
  "read_records fs dir_size block buffer p tlen child children ino =
     (if \<not> tlen < dir_size then Some (Inr children, ino)
      else if p \<noteq> 2048 \<and> length buffer \<le> p then None
      else if p = 2048 \<or> buffer ! p = 0
      then (case fs_read_block fs (block + 1) of
              Inl e \<Rightarrow> Some (Inl e, ino)
            | Inr buffer1 \<Rightarrow> read_records fs dir_size (block + 1) buffer1 0 (tlen + (2048 - of_nat p)) child children ino)
      else case iso_file_source_new_ifs fs False False (drop p buffer) child ino of
             None \<Rightarrow> None
           | Some (ret, child1, ino1) \<Rightarrow>
               (case ret of
                  Ifs_error e \<Rightarrow> Some (Inl e, ino1)
                | _ \<Rightarrow> read_records fs dir_size block buffer (p + unat (buffer ! p)) (tlen + ucast (buffer ! p))
                        (if ret = Ifs_done then None else child1)
                        (case (ret, child1) of (Ifs_done, Some c) \<Rightarrow> c # children | _ \<Rightarrow> children) ino1))"

definition read_dir :: "image_fs \<Rightarrow> ifs \<Rightarrow> ino_state \<Rightarrow> ((iso_error + ifs list) \<times> ino_state) option" where
  "read_dir fs data ino =
     (case if_sections data of
        [] \<Rightarrow> None
      | (block, _) # _ \<Rightarrow>
          (case fs_read_block fs block of
             Inl e \<Rightarrow> Some (Inl e, ino)
           | Inr buffer \<Rightarrow>
               if length buffer < 18 then None
               else let dir_size = fst (iso_read_bb buffer 10 4); len1 = unat (buffer ! 0); len2 = unat (buffer ! len1)
                    in if length buffer \<le> len1 then None
                       else read_records fs dir_size block buffer (len1 + len2) (of_nat (len1 + len2)) None [] ino))"

end
