(* ===== verification/DirBack.thy ===== *)
theory DirBack
  imports DirRead
begin

text \<open>
  A directory that \<open>write_one_dir\<close> has written is read back by \<open>read_dir\<close>: names, attributes and sections of all its children
  (\<open>directory_reads_back\<close>), and so is a whole directory tree (\<open>tree_reads_back\<close>). The lemmas follow the reader: the parts of
  one record (\<open>record_parts\<close>), its System Use fields (\<open>attributes_read\<close>), one file source (\<open>entry_read\<close>), the blocks of records
  (\<open>records_read\<close>), the fields in the Continuation Area (\<open>areas_readable\<close>).
\<close>

section \<open>The parts of a record\<close>

lemma record_parts:
  fixes t version n' block len multi fi su rest
  defines "fi2 \<equiv> fi @ (if version then bytes_of '';1'' else [])"
  defines "r \<equiv> record_bytes t version n' (block, len, multi) fi su"
  assumes small: "length r \<le> 254" and ne: "fi \<noteq> []"
  shows "(r @ rest) ! 0 = of_nat (length r)" "(r @ rest) ! 1 = 0" "(r @ rest) ! 26 = 0" "(r @ rest) ! 27 = 0"
    and "(r @ rest) ! 25 = (if is_dir n' then 2 else 0) OR (if multi then 0x80 else 0)"
    and "iso_read_bb (r @ rest) 2 4 = (block - img_eff_partition_offset t, False)" "iso_read_bb (r @ rest) 10 4 = (len, False)"
    and "take 7 (drop 18 (r @ rest)) = iso_datetime_7 (img_localtime t) (record_time t n') (always_gmt (img_opts t))"
    and "unat ((r @ rest) ! 32) = length fi2" "record_file_id (r @ rest) = fi2"
    and "susp_iter_new (r @ rest) blocks 0 = record_iter su rest blocks"
    and "34 \<le> length (r @ rest)" "33 + length fi2 \<le> length (r @ rest)"
proof -
  let ?L = "of_nat (33 + length fi2 + (if odd (length fi2) then 0 else 1) + length su) :: byte"
  let ?b = "bb_bytes (block - img_eff_partition_offset t) 4" and ?l = "bb_bytes len 4"
  let ?dt = "iso_datetime_7 (img_localtime t) (record_time t n') (always_gmt (img_opts t))"
  let ?fl = "(if is_dir n' then 2 else 0) OR (if multi then 0x80 else 0) :: byte"
  let ?pad = "replicate (if odd (length fi2) then 0 else 1) (0 :: byte)"
  have r: "r = [?L, 0] @ ?b @ ?l @ ?dt @ [?fl, 0, 0] @ bb_bytes 1 2 @ [of_nat (length fi2)] @ fi2 @ ?pad @ su"
    by (simp add: r_def record_bytes_def fi2_def Let_def)
  have lr: "length r = 33 + length fi2 + (if odd (length fi2) then 0 else 1) + length su" by (simp add: r)
  have nz: "fi2 \<noteq> []" "length fi2 < 256" using small ne lr by (auto simp: fi2_def)
  show "(r @ rest) ! 0 = of_nat (length r)" unfolding lr by (simp add: r)
  show "(r @ rest) ! 1 = 0" by (simp add: r)
  define h1 where "h1 = [?L, 0] @ ?b @ ?l @ ?dt"
  have h1: "length h1 = 25" "r = h1 @ [?fl, 0, 0] @ bb_bytes 1 2 @ [of_nat (length fi2)] @ fi2 @ ?pad @ su" by (simp_all add: h1_def r)
  define h2 where "h2 = h1 @ [?fl, 0, 0] @ bb_bytes 1 2"
  have h2: "length h2 = 32" "r = h2 @ [of_nat (length fi2)] @ fi2 @ ?pad @ su" using h1 by (simp_all add: h2_def)
  show "(r @ rest) ! 26 = 0" "(r @ rest) ! 27 = 0" "(r @ rest) ! 25 = ?fl" using h1 by (simp_all add: nth_append)
  show "iso_read_bb (r @ rest) 2 4 = (block - img_eff_partition_offset t, False)"
    by (rule iso_read_bb_at [of _ "[?L, 0]"]) (simp_all add: r)
  show "iso_read_bb (r @ rest) 10 4 = (len, False)"
    by (rule iso_read_bb_at [of _ "[?L, 0] @ ?b"]) (simp_all add: r)
  have ldt: "length ?dt = 7" by simp
  show "take 7 (drop 18 (r @ rest)) = ?dt"
  proof -
    have "r @ rest = ([?L, 0] @ ?b @ ?l) @ ?dt @ ([?fl, 0, 0] @ bb_bytes 1 2 @ [of_nat (length fi2)] @ fi2 @ ?pad @ su) @ rest" by (simp add: r)
    then have "drop 18 (r @ rest) = ?dt @ ([?fl, 0, 0] @ bb_bytes 1 2 @ [of_nat (length fi2)] @ fi2 @ ?pad @ su) @ rest" by simp
    then show ?thesis using ldt by (simp only: take_append) simp
  qed
  show l32: "unat ((r @ rest) ! 32) = length fi2" using h2 unat_small [OF nz(2)] by (simp add: nth_append)
  have d33: "drop 33 (r @ rest) = fi2 @ ?pad @ su @ rest" using h2 by simp
  show "record_file_id (r @ rest) = fi2" unfolding record_file_id_def l32 d33 by (simp add: fi2_def)
  show "34 \<le> length (r @ rest)" "33 + length fi2 \<le> length (r @ rest)" using lr nz(1) by (cases fi2; simp)+
  have len: "unat ((r @ rest) ! 0) = length r" using small unat_small [of "length r"] \<open>(r @ rest) ! 0 = of_nat (length r)\<close> by simp
  have m: "(length fi2 + 1) mod 2 = (if odd (length fi2) then 0 else 1)" by presburger
  have base: "drop (33 + length fi2 + (length fi2 + 1) mod 2) (r @ rest) = su @ rest"
  proof -
    have "drop (33 + length fi2 + (length fi2 + 1) mod 2) (r @ rest) = drop (length fi2 + (length fi2 + 1) mod 2) (drop 33 (r @ rest))"
      unfolding drop_drop by (rule arg_cong [of _ _ "\<lambda>k. drop k (r @ rest)"]) simp
    also have "\<dots> = su @ rest" unfolding d33 using m by (cases "odd (length fi2)") simp_all
    finally show ?thesis .
  qed
  have "int (length r) - int (length fi2) - 33 - int ((length fi2 + 1) mod 2) = int (length su)"
    unfolding lr m by simp
  then show "susp_iter_new (r @ rest) blocks 0 = record_iter su rest blocks"
    unfolding susp_iter_new_def Let_def len l32 base by (simp add: record_iter_def area_iter_def)
qed

text \<open>What the reader makes of the node \<open>c\<close>: the sections are relative to the partition, zero times are replaced by the time
  of the directory record. A child without a section has no record.\<close>

definition extents :: "rr_image \<Rightarrow> dir_tree \<Rightarrow> (u32 \<times> u32) list" where
  "extents t c = map (\<lambda>s. case the (record_place t c s) of (block, len, multi) \<Rightarrow> (block - img_eff_partition_offset t, len)) [0..<nsections c]"

definition source_of :: "rr_image \<Rightarrow> dir_tree \<Rightarrow> ifs" where
  "source_of t c =
     (let n = dt_node c; a = node_stat t n no_stat; recorded = record_time t c
      in \<lparr>if_info = a\<lparr>at_rdev := (if has_dev n then rn_dev n else 0), at_atime := or_time recorded (at_atime a),
             at_ctime := or_time recorded (at_ctime a), at_mtime := or_time recorded (at_mtime a)\<rparr>,
          if_size = sum_list (map (uint \<circ> snd) (extents t c)), if_name = img_conv t (rn_name n), if_sections = extents t c,
          if_dest = (if rn_type n = ECMA119_SYMLINK then map_option link_read (img_conv t (rn_dest n)) else None),
          if_aa = loaded_aa t n,
          if_zf = (case (if rn_type n = ECMA119_FILE then rn_zf n else None) of
                     Some zf \<Rightarrow> if zf_header_size_div4 zf > 0 then zf else no_zf | None \<Rightarrow> no_zf)\<rparr>)"

text \<open>The nodes for which this holds. A directory that is marked by RE is not listed at its place.\<close>

definition child_ok :: "rr_image \<Rightarrow> image_fs \<Rightarrow> dir_tree \<Rightarrow> bool" where
  "child_ok t fs c \<longleftrightarrow>
     (let n = dt_node c; mode = px_get_mode t n
      in node_ok t c \<and> read_ok t n \<and> rn_type n \<noteq> ECMA119_PLACEHOLDER \<and> mode \<noteq> 0 \<and>
         (mode AND S_IFMT = S_IFLNK \<longleftrightarrow> rn_type n = ECMA119_SYMLINK) \<and> file_id_of c \<noteq> [] \<and>
         (case img_conv t (rn_name n) of Some s \<Rightarrow> length s \<le> fs_truncate_length fs | None \<Rightarrow> False) \<and>
         time_ok (img_localtime t) (always_gmt (img_opts t)) (record_time t c))"

definition rr_reading :: "image_fs \<Rightarrow> bool" where
  "rr_reading fs \<longleftrightarrow> fs_rr fs \<and> fs_same_charset fs \<and> fs_len_skp fs = 0"

text \<open>A multi-extent file of which \<open>k\<close> records are read.\<close>

definition partial_source :: "rr_image \<Rightarrow> dir_tree \<Rightarrow> nat \<Rightarrow> ifs option" where
  "partial_source t c k =
     (if k = 0 then None
      else Some ((new_ifs (Some (c_text (file_id_of c @ (if need_version_number (img_opts t) (rn_type (dt_node c)) then bytes_of '';1'' else [])))))
        \<lparr>if_size := sum_list (map (uint \<circ> snd) (take k (extents t c))), if_sections := take k (extents t c)\<rparr>))"

lemma attributes_read:
  assumes ok: "child_ok t fs c" and rr: "rr_reading fs" and flds: "entry_fields t (dt_node c) False fl"
    and su: "susp_read_all (fs_read_block fs) (susp_iter_new rec (fs_nblocks fs) 0) = Some (fl, No_more)"
  shows "if marked_RE t (dt_node c)
    then \<exists>st'. rr_attributes fs False False rec (fresh_reader rec ino) = Some (Inl Ifs_ignored, st')
    else \<exists>st'. rr_attributes fs False False rec (fresh_reader rec ino) = Some (Inr (), st') \<and>
      rd_holds t (dt_node c) (fresh_reader rec ino) st'"
proof -
  let ?n = "dt_node c" and ?st = "fresh_reader rec ino"
  have o: "read_ok t ?n" "rn_type ?n \<noteq> ECMA119_PLACEHOLDER" "px_get_mode t ?n \<noteq> 0" using ok by (simp_all add: child_ok_def Let_def)
  have fr: "rd_fresh ?st" by (simp add: fresh_reader_def rd_fresh_def)
  have skp: "fs_len_skp fs = 0" "fs_same_charset fs" using rr by (simp_all add: rr_reading_def)
  note loop = rr_loop_fields [OF su, of "fs_aborts fs" "fs_timegm fs" False ?st]
  note e = entry_fields_read [OF flds o(1) fr, of "fs_aborts fs" "fs_timegm fs"]
  show ?thesis
  proof (cases "marked_RE t ?n")
    case True
    then obtain st' where "rr_fields (fs_aborts fs) (fs_timegm fs) False fl ?st = Some (Relocated st')" using e by auto
    then show ?thesis using True by (simp add: rr_attributes_def skp loop rr_outcome_def)
  next
    case False
    then obtain st' where f: "rr_fields (fs_aborts fs) (fs_timegm fs) False fl ?st = Some (Next st')" and h: "rd_holds t ?n ?st st'"
      using e by auto
    have z: "at_mode (rd_atts st') \<noteq> 0" "\<not> rd_namecont st'" "rd_linkcont st' = 0"
      using h o(3) by (simp_all add: rd_holds_def node_stat_def)
    have same: "st'\<lparr>rd_name := rd_name st', rd_linkdest := rd_linkdest st'\<rparr> = st'" by simp
    have "rr_attributes fs False False rec ?st = Some (Inr (), st')"
      by (simp add: rr_attributes_def skp loop f rr_outcome_def rr_checks_def z convert_text_def)
    then show ?thesis using False h by simp
  qed
qed

lemma place_section:
  assumes "s < nsections c"
  obtains block len where "the (record_place t c s) = (block, len, Suc s < nsections c)"
    and "extents t c ! s = (block - img_eff_partition_offset t, len)"
    and "take (Suc s) (extents t c) = take s (extents t c) @ [(block - img_eff_partition_offset t, len)]"
    and "is_dir c \<longrightarrow> \<not> Suc s < nsections c"
proof -
  have "\<exists>block len. the (record_place t c s) = (block, len, Suc s < nsections c)"
    using assms by (auto simp: record_place_def nsections_def)
  then obtain block len where p: "the (record_place t c s) = (block, len, Suc s < nsections c)" by blast
  then have e: "extents t c ! s = (block - img_eff_partition_offset t, len)" using assms by (simp add: extents_def)
  have "take (Suc s) (extents t c) = take s (extents t c) @ [extents t c ! s]"
    using assms by (intro take_Suc_conv_app_nth) (simp add: extents_def)
  moreover have "is_dir c \<longrightarrow> \<not> Suc s < nsections c" by (simp add: nsections_def)
  ultimately show thesis using that p e by simp
qed

lemma flag_bits:
  "bit ((if d then 2 else 0) OR (if m then 0x80 else 0) :: byte) 7 = m"
  "bit ((if d then 2 else 0) OR (if m then 0x80 else 0) :: byte) 1 = d"
  by (simp_all add: bit_or_iff bit_numeral_rec)

lemma entry_read:
  assumes ok: "child_ok t fs c" and rr: "rr_reading fs" and s: "s < nsections c" and flds: "entry_fields t (dt_node c) False fl"
    and su: "\<forall>behind. susp_read_all (fs_read_block fs) (record_iter su behind (fs_nblocks fs)) = Some (fl, No_more)"
    and small: "length (entry_bytes t (c, s) su) \<le> 254"
  shows "\<exists>ino'. iso_file_source_new_ifs fs False False (entry_bytes t (c, s) su @ rest) (partial_source t c s) ino =
    Some (if Suc s < nsections c then (Ifs_more, partial_source t c (Suc s), ino')
          else if marked_RE t (dt_node c) then (Ifs_ignored, None, ino') else (Ifs_done, Some (source_of t c), ino'))"
proof -
  let ?n = "dt_node c" and ?v = "need_version_number (img_opts t) (rn_type (dt_node c))"
  define fi2 where "fi2 = file_id_of c @ (if ?v then bytes_of '';1'' else [])"
  define rec where "rec = entry_bytes t (c, s) su @ rest"
  obtain block len where p: "the (record_place t c s) = (block, len, Suc s < nsections c)"
    "take (Suc s) (extents t c) = take s (extents t c) @ [(block - img_eff_partition_offset t, len)]"
    "is_dir c \<longrightarrow> \<not> Suc s < nsections c"
    by (rule place_section [OF s])
  have r: "entry_bytes t (c, s) su = record_bytes t ?v c (block, len, Suc s < nsections c) (file_id_of c) su"
    by (simp add: entry_bytes_def p(1))
  have ne: "file_id_of c \<noteq> []" using ok by (simp add: child_ok_def Let_def)
  note f = record_parts [OF small [unfolded r] ne, where rest = rest, folded r, folded rec_def fi2_def]
  have long: "\<not> length rec < 34" "\<not> length rec < 33 + unat (rec ! 32)" using f(9,12,13) by simp_all
  have sec: "record_section rec = (block - img_eff_partition_offset t, len)" using f(2,6,7) by (simp add: record_section_def)
  have id: "get_name fs (record_file_id rec) = Some (c_text fi2)" using rr f(10) by (simp add: get_name_def rr_reading_def)
  have src: "partial_source t c s = (if s = 0 then None else
      Some ((new_ifs (Some (c_text fi2)))\<lparr>if_size := sum_list (map (uint \<circ> snd) (take s (extents t c))), if_sections := take s (extents t c)\<rparr>))"
    by (simp add: partial_source_def fi2_def)
  have no_err: "extent_error fs rec (partial_source t c s) = None" by (simp add: extent_error_def id src new_ifs_def)
  note new = iso_file_source_new_ifs.simps [of fs False False rec "partial_source t c s" ino]
  show ?thesis
  proof (cases "Suc s < nsections c")
    case True
    then have fl: "bit (rec ! 25) 7" "\<not> bit (rec ! 25) 1" using f(5) p(3) by (simp_all add: flag_bits)
    have "add_extent fs False rec (partial_source t c s) = (Ifs_more, partial_source t c (Suc s))"
      using p(2) fl(2) by (cases "s = 0") (simp_all add: add_extent_def id src partial_source_def add_section_def sec new_ifs_def fi2_def [symmetric])
    then show ?thesis using True f(3,4) by (simp add: rec_def [symmetric] new long no_err fl)
  next
    case False
    then have fl: "\<not> bit (rec ! 25) 7" "bit (rec ! 25) 1 = is_dir c" using f(5) p(3) by (simp_all add: flag_bits)
    have rr1: "fs_rr fs" using rr by (simp add: rr_reading_def)
    have "susp_read_all (fs_read_block fs) (susp_iter_new rec (fs_nblocks fs) 0) = Some (fl, No_more)" using su f(11) by simp
    note a = attributes_read [OF ok rr flds this, of ino]
    show ?thesis
    proof (cases "marked_RE t ?n")
      case True
      then have "s = 0" using s by (simp add: marked_RE_def nsections_def)
      then have pn: "partial_source t c s = None" by (simp add: partial_source_def)
      obtain st where "rr_attributes fs False False rec (fresh_reader rec ino) = Some (Inl Ifs_ignored, st)" using True a by auto
      then have "iso_file_source_new_ifs fs False False rec (partial_source t c s) ino = Some (Ifs_ignored, None, ino_of st)"
        using long f(3,4) fl no_err rr1 by (subst new) (simp add: pn)
      then show ?thesis using False True by (simp add: rec_def)
    next
      case notRE: False
      then obtain st where st: "rr_attributes fs False False rec (fresh_reader rec ino) = Some (Inr (), st)"
        "rd_holds t ?n (fresh_reader rec ino) st" using a by auto
      have o: "rn_type ?n \<noteq> ECMA119_PLACEHOLDER" "px_get_mode t ?n AND S_IFMT = S_IFLNK \<longleftrightarrow> rn_type ?n = ECMA119_SYMLINK"
        "time_ok (img_localtime t) (always_gmt (img_opts t)) (record_time t c)" "read_ok t ?n"
        using ok by (simp_all add: child_ok_def Let_def)
      obtain nm where nm: "img_conv t (rn_name ?n) = Some nm" "length nm \<le> fs_truncate_length fs"
        using ok by (auto simp: child_ok_def Let_def split: option.splits)
      have h: "rd_has_px st" "rd_name st = Some nm" "rd_relocated_dir st = 0"
        "rd_atts st = (node_stat t ?n no_stat)\<lparr>at_rdev := (if has_dev ?n then rn_dev ?n else 0)\<rparr>"
        "rd_linkdest st = (if rn_type ?n = ECMA119_SYMLINK then map_option link_read (img_conv t (rn_dest ?n)) else None)"
        "rd_zf st = (case (if rn_type ?n = ECMA119_FILE then rn_zf ?n else None) of Some zf \<Rightarrow> zf | None \<Rightarrow> no_zf)"
        "aa_string (rd_aa st) = loaded_aa t ?n"
      proof -
        have "rd_zf (fresh_reader rec ino) = no_zf" "at_rdev (rd_atts (fresh_reader rec ino)) = 0"
          "node_stat t ?n (rd_atts (fresh_reader rec ino)) = node_stat t ?n no_stat"
          by (simp_all add: fresh_reader_def no_stat_def node_stat_def)
        then show "rd_has_px st" "rd_name st = Some nm" "rd_relocated_dir st = 0"
          "rd_atts st = (node_stat t ?n no_stat)\<lparr>at_rdev := (if has_dev ?n then rn_dev ?n else 0)\<rparr>"
          "rd_linkdest st = (if rn_type ?n = ECMA119_SYMLINK then map_option link_read (img_conv t (rn_dest ?n)) else None)"
          "rd_zf st = (case (if rn_type ?n = ECMA119_FILE then rn_zf ?n else None) of Some zf \<Rightarrow> zf | None \<Rightarrow> no_zf)"
          "aa_string (rd_aa st) = loaded_aa t ?n"
          using st(2) o(1) nm(1) by (simp_all add: rd_holds_def cong: option.case_cong)
      qed
      have dest: "rn_type ?n = ECMA119_SYMLINK \<Longrightarrow> rd_linkdest st \<noteq> None"
        using o(4) h(5) by (auto simp: read_ok_def text_good_def split: option.splits)
      have tm: "iso_datetime_read_7 (fs_timegm fs) (take 7 (drop 18 rec)) = Some (record_time t c)"
        using time_ok_read [OF o(3)] f(8) by simp
      have mode: "at_mode (rd_atts st) = px_get_mode t ?n" by (simp add: h(4) node_stat_def)
      have all: "take s (extents t c) @ [(block - img_eff_partition_offset t, len)] = extents t c"
      proof -
        have "take (Suc s) (extents t c) = extents t c" using False by (intro take_all) (simp add: extents_def)
        then show ?thesis using p(2) by simp
      qed
      have sum: "sum_list (map (uint \<circ> snd) (take s (extents t c))) + uint len = sum_list (map (uint \<circ> snd) (extents t c))"
        by (subst all [symmetric]) simp
      have z: "(if zf_header_size_div4 (rd_zf st) > 0 then rd_zf st else no_zf\<lparr>zf_header_size_div4 := 0\<rparr>) =
        (case (if rn_type ?n = ECMA119_FILE then rn_zf ?n else None) of Some zf \<Rightarrow> if zf_header_size_div4 zf > 0 then zf else no_zf | None \<Rightarrow> no_zf)"
        unfolding h(6) by (cases "if rn_type ?n = ECMA119_FILE then rn_zf ?n else None") (simp_all add: no_zf_def)
      have "make_source fs rec st (Some nm) (partial_source t c s) = Some (Ifs_done, Some (source_of t c), ino_of st)"
      proof -
        define d0 where "d0 = (case partial_source t c s of Some d \<Rightarrow> d | None \<Rightarrow> new_ifs None)"
        have d0: "if_size d0 = sum_list (map (uint \<circ> snd) (take s (extents t c)))" "if_sections d0 = take s (extents t c)"
          "if_dest d0 = None" "if_zf d0 = no_zf" by (simp_all add: d0_def src new_ifs_def)
        have len: "fst (iso_read_bb rec 10 4) = len" using f(7) by simp
        have lnk: "(at_mode (rd_atts st) AND S_IFMT = S_IFLNK) = (rn_type ?n = ECMA119_SYMLINK)" using o(2) mode by simp
        have "\<not> (rn_type ?n = ECMA119_SYMLINK \<and> rd_linkdest st = None)" using dest by blast
        moreover have "(if rn_type ?n = ECMA119_SYMLINK then rd_linkdest st else if_dest d0) = rd_linkdest st" using h(5) d0(3) by simp
        ultimately show ?thesis
          unfolding make_source_def tm option.case Let_def d0_def [symmetric] len lnk d0(4) z add_section_def sec
          by (simp only: if_False, intro arg_cong [of _ _ "\<lambda>x. Some (Ifs_done, Some x, ino_of st)"] ifs.equality)
            (simp_all add: d0(1,2) sum all source_of_def Let_def h(4,5,7) nm(1) split del: if_split)
      qed
      then have "iso_file_source_new_ifs fs False False rec (partial_source t c s) ino = Some (Ifs_done, Some (source_of t c), ino_of st)"
        using long f(3,4) fl no_err rr1 st(1) h(1-3) nm(2) by (subst new) (simp add: record_name_def cut_name_def)
      then show ?thesis using False notRE by (simp add: rec_def)
    qed
  qed
qed

section \<open>Reading the records of a directory\<close>

text \<open>The children in the order of their last records; the source that waits when the next record is read.\<close>

definition listed_sources :: "rr_image \<Rightarrow> (dir_tree \<times> nat) list \<Rightarrow> ifs list" where
  "listed_sources t es =
     map (\<lambda>e. source_of t (fst e)) (filter (\<lambda>(c, s). \<not> Suc s < nsections c \<and> \<not> marked_RE t (dt_node c)) es)"

definition waiting :: "rr_image \<Rightarrow> (dir_tree \<times> nat) list \<Rightarrow> ifs option" where
  "waiting t es = (case es of [] \<Rightarrow> None | (c, s) # es1 \<Rightarrow> partial_source t c s)"

fun in_sequence :: "rr_image \<Rightarrow> (dir_tree \<times> nat) list \<Rightarrow> bool" where
  "in_sequence t [] \<longleftrightarrow> True"
| "in_sequence t ((c, s) # es) \<longleftrightarrow>
     waiting t es = (if Suc s < nsections c then partial_source t c (Suc s) else None) \<and> in_sequence t es"

lemma entries_in_sequence: "in_sequence t (dir_entries kids) \<and> waiting t (dir_entries kids) = None"
proof (induction kids)
  case Nil
  show ?case by (simp add: dir_entries_def waiting_def)
next
  case (Cons k ks)
  have "in_sequence t (map (Pair k) [j..<nsections k] @ dir_entries ks) \<and>
      waiting t (map (Pair k) [j..<nsections k] @ dir_entries ks) = (if j < nsections k then partial_source t k j else None)"
    if "j \<le> nsections k" for j
    using that
  proof (induction rule: inc_induct)
    case base
    then show ?case using Cons.IH by simp
  next
    case (step j)
    then show ?case by (simp add: upt_conv_Cons waiting_def split del: if_split)
  qed
  from this [of 0] show ?case by (simp add: dir_entries_def partial_source_def)
qed

lemma listed_entries: "listed_sources t (dir_entries kids) =
    map (source_of t) (filter (\<lambda>c. 0 < nsections c \<and> \<not> marked_RE t (dt_node c)) kids)"
proof (induction kids)
  case (Cons k ks)
  have one: "filter (\<lambda>(c, s). \<not> Suc s < nsections c \<and> \<not> marked_RE t (dt_node c)) (map (Pair k) [0..<nsections k]) =
      (if 0 < nsections k \<and> \<not> marked_RE t (dt_node k) then [(k, nsections k - 1)] else [])"
  proof (cases "nsections k")
    case (Suc m)
    have "filter (\<lambda>(c, s). \<not> Suc s < nsections c \<and> \<not> marked_RE t (dt_node c)) (map (Pair k) [0..<m]) = []"
      using Suc by (auto simp: filter_empty_conv)
    then show ?thesis using Suc by simp
  qed simp
  have "listed_sources t (dir_entries (k # ks)) =
      map (\<lambda>e. source_of t (fst e)) (filter (\<lambda>(c, s). \<not> Suc s < nsections c \<and> \<not> marked_RE t (dt_node c)) (map (Pair k) [0..<nsections k])) @
      listed_sources t (dir_entries ks)"
    by (simp add: listed_sources_def dir_entries_def)
  then show ?case unfolding one using Cons.IH by simp
qed (simp add: listed_sources_def dir_entries_def)

lemma hd_pack:
  assumes "list_all (\<lambda>r. length r \<le> BLOCK_SIZE) rs" "length pre \<le> BLOCK_SIZE"
  obtains z zs where "hd (pack pre rs) = pre @ z" "pack pre rs = hd (pack pre rs) # zs" "length (hd (pack pre rs)) = BLOCK_SIZE"
proof -
  have "\<exists>z. hd (pack pre rs) = pre @ z"
    using assms(1) by (induction pre rs rule: pack.induct) (auto simp: append_assoc)
  moreover have "pack pre rs \<noteq> []" "list_all (\<lambda>b. length b = BLOCK_SIZE) (pack pre rs)" using pack_blocks [OF assms] by blast+
  ultimately show thesis using that by (cases "pack pre rs") auto
qed

text \<open>The records of the blocks \<open>pack pre rs\<close> from the position behind \<open>pre\<close> on. \<open>rs\<close> are the records of \<open>es\<close>.\<close>

definition entry_readable :: "rr_image \<Rightarrow> image_fs \<Rightarrow> dir_tree \<times> nat \<Rightarrow> byte list \<Rightarrow> bool" where
  "entry_readable t fs e su \<longleftrightarrow>
     child_ok t fs (fst e) \<and> snd e < nsections (fst e) \<and> length (entry_bytes t e su) \<le> 254 \<and>
     (\<exists>fl. entry_fields t (dt_node (fst e)) False fl \<and>
        (\<forall>behind. susp_read_all (fs_read_block fs) (record_iter su behind (fs_nblocks fs)) = Some (fl, No_more)))"

lemma of_nat_less_u32: "a < b \<Longrightarrow> b < 2 ^ 32 \<Longrightarrow> (of_nat a :: u32) < of_nat b"
  by (simp add: word_less_nat_alt unat_of_nat take_bit_nat_eq_self)

lemma next_block_read:
  assumes "of_nat (2048 * k + p) < dir_size" "p = 2048 \<or> buffer ! p = 0" "p \<le> 2048" "length buffer = 2048"
    and "fs_read_block fs (block + 1) = Inr buffer1"
  shows "read_records fs dir_size block buffer p (of_nat (2048 * k + p)) src children ino =
    read_records fs dir_size (block + 1) buffer1 0 (of_nat (2048 * (k + 1))) src children ino"
proof -
  have "of_nat (2048 * k + p) + (2048 - of_nat p) = (of_nat (2048 * (k + 1)) :: u32)" using assms(3) by simp
  moreover have "\<not> (p \<noteq> 2048 \<and> length buffer \<le> p)" using assms(3,4) by auto
  ultimately show ?thesis using assms(1,2,5) by (subst read_records.simps) (auto simp del: of_nat_add of_nat_mult)
qed

lemma read_records_end: "\<not> tlen < dir_size \<Longrightarrow> read_records fs dir_size block buffer p tlen src children ino = Some (Inr children, ino)"
  by (subst read_records.simps) simp

lemma one_record_read:
  assumes rr: "rr_reading fs" and e: "entry_readable t fs e su" and p: "p < 2048" "length buffer = 2048"
    and buf: "drop p buffer = entry_bytes t e su @ rest" and lt: "of_nat (2048 * k + p) < dir_size"
    and sq: "waiting t es = (if Suc (snd e) < nsections (fst e) then partial_source t (fst e) (Suc (snd e)) else None)"
  shows "\<exists>ino'. read_records fs dir_size block buffer p (of_nat (2048 * k + p)) (waiting t (e # es)) children ino =
    read_records fs dir_size block buffer (p + length (entry_bytes t e su)) (of_nat (2048 * k + (p + length (entry_bytes t e su))))
      (waiting t es) (rev (listed_sources t [e]) @ children) ino'"
proof -
  obtain c s where ce: "e = (c, s)" by (metis prod.collapse)
  let ?r = "entry_bytes t (c, s) su"
  have rd: "child_ok t fs c" "s < nsections c" "length ?r \<le> 254" using e by (simp_all add: entry_readable_def ce)
  obtain fl where fl: "entry_fields t (dt_node c) False fl"
    "\<forall>behind. susp_read_all (fs_read_block fs) (record_iter su behind (fs_nblocks fs)) = Some (fl, No_more)"
    using e by (auto simp: entry_readable_def ce)
  have lr: "0 < length ?r" by (simp add: entry_bytes_def length_record_bytes)
  have b0: "buffer ! p = of_nat (length ?r)"
  proof -
    have "buffer ! p = drop p buffer ! 0" using p by simp
    also have "\<dots> = ?r ! 0" using lr by (simp add: buf ce nth_append)
    also have "\<dots> = of_nat (length ?r)"
    proof -
      obtain block len where "the (record_place t c s) = (block, len, Suc s < nsections c)" by (rule place_section [OF rd(2)])
      then show ?thesis by (simp add: entry_bytes_def record_bytes_def Let_def length_bytes_of)
    qed
    finally show ?thesis .
  qed
  have u: "unat (buffer ! p) = length ?r" using unat_small [of "length ?r"] rd(3) b0 by simp
  have nz: "buffer ! p \<noteq> 0" using u lr by auto
  have w: "waiting t ((c, s) # es) = partial_source t c s" by (simp add: waiting_def)
  have tl: "of_nat (2048 * k + p) + ucast (buffer ! p) = (of_nat (2048 * k + (p + length ?r)) :: u32)"
  proof -
    have "ucast (buffer ! p) = (of_nat (length ?r) :: u32)" by (metis u of_nat_unat)
    then show ?thesis by simp
  qed
  obtain ino' where i: "iso_file_source_new_ifs fs False False (drop p buffer) (partial_source t c s) ino =
    Some (if Suc s < nsections c then (Ifs_more, partial_source t c (Suc s), ino')
          else if marked_RE t (dt_node c) then (Ifs_ignored, None, ino') else (Ifs_done, Some (source_of t c), ino'))"
    unfolding buf ce using entry_read [OF rd(1) rr rd(2) fl rd(3)] by blast
  have "\<not> (p \<noteq> 2048 \<and> length buffer \<le> p)" "p \<noteq> 2048" using p by auto
  then have "read_records fs dir_size block buffer p (of_nat (2048 * k + p)) (waiting t (e # es)) children ino =
    read_records fs dir_size block buffer (p + length ?r) (of_nat (2048 * k + (p + length ?r)))
      (waiting t es) (rev (listed_sources t [e]) @ children) ino'"
    using lt nz i tl
    by (subst read_records.simps) (auto simp: w u sq ce listed_sources_def simp del: of_nat_add of_nat_mult)
  then show ?thesis unfolding ce by blast
qed

lemma records_read:
  assumes rr: "rr_reading fs" and rd: "list_all2 (entry_readable t fs) es sus" and pre: "length pre \<le> 2048"
    and bs: "bs = pack pre (map2 (entry_bytes t) es sus)" and size: "2048 * (k + length bs) < 2 ^ 32"
    and img: "\<forall>j < length bs. fs_read_block fs (block + of_nat j) = Inr (bs ! j)"
      "fs_read_block fs (block + of_nat (length bs)) = Inr behind"
    and sq: "in_sequence t es"
  shows "\<exists>ino'. read_records fs (of_nat (2048 * (k + length bs))) block (hd bs) (length pre) (of_nat (2048 * k + length pre))
      (waiting t es) children ino = Some (Inr (rev (listed_sources t es) @ children), ino')"
  using rd pre bs size img sq
proof (induction es sus arbitrary: pre bs k block children ino rule: list_all2_induct)
  case Nil
  let ?buf = "pre @ replicate (2048 - length pre) 0 :: byte list" and ?w = "waiting t [] :: ifs option"
  have b: "bs = [?buf]" using Nil.prems(2) by (simp add: BLOCK_SIZE_def)
  have lb: "length ?buf = 2048" using Nil.prems(1) by simp
  have l: "listed_sources t [] = []" by (simp add: listed_sources_def)
  show ?case
  proof (cases "length pre = 2048")
    case True
    then have "2048 * k + length pre = 2048 * (k + length bs)" by (simp add: b)
    then show ?thesis unfolding l by (subst read_records_end) simp_all
  next
    case False
    then have lt: "(of_nat (2048 * k + length pre) :: u32) < of_nat (2048 * (k + length bs))"
      using Nil.prems(1,3) by (intro of_nat_less_u32) (simp_all add: b)
    have z: "?buf ! length pre = 0" using Nil.prems(1) False by (simp add: nth_append)
    have rb: "fs_read_block fs (block + 1) = Inr behind" using Nil.prems(5) by (simp add: b)
    note n = next_block_read [OF lt disjI2 [OF z] Nil.prems(1) lb rb, of ?w children ino]
    have "k + length bs = k + 1" "hd bs = ?buf" "waiting t [] = None" by (simp_all add: b waiting_def)
    then show ?thesis using n read_records_end [of "of_nat (2048 * (k + 1))" "of_nat (2048 * (k + 1))"]
      by (simp add: l del: of_nat_add of_nat_mult)
  qed
next
  case (Cons e es su sus)
  let ?r = "entry_bytes t e su" and ?rs = "map2 (entry_bytes t) es sus"
  have lr: "0 < length ?r" "length ?r \<le> 254" using Cons.hyps(1) by (simp_all add: entry_readable_def entry_bytes_def length_record_bytes)
  have small: "list_all (\<lambda>r. length r \<le> BLOCK_SIZE) ?rs"
    using Cons.hyps(2) by (induction es sus rule: list_all2_induct) (simp_all add: entry_readable_def BLOCK_SIZE_def)
  have sq: "waiting t es = (if Suc (snd e) < nsections (fst e) then partial_source t (fst e) (Suc (snd e)) else None)" "in_sequence t es"
    using Cons.prems(6) by (cases e; simp)+
  have ls: "rev (listed_sources t (e # es)) @ cs = rev (listed_sources t es) @ rev (listed_sources t [e]) @ cs" for cs
    by (simp add: listed_sources_def)
  have one: "\<exists>ino'. read_records fs (of_nat (2048 * (k + length bs))) block (hd bs) (length pre) (of_nat (2048 * k + length pre))
      (waiting t (e # es)) children ino = Some (Inr (rev (listed_sources t (e # es)) @ children), ino')"
    if fit: "length pre + length ?r \<le> 2048" and bs: "bs = pack (pre @ ?r) ?rs" and size: "2048 * (k + length bs) < 2 ^ 32"
      and img: "\<forall>j < length bs. fs_read_block fs (block + of_nat j) = Inr (bs ! j)"
        "fs_read_block fs (block + of_nat (length bs)) = Inr behind"
    for pre bs k block children ino
  proof -
    have le: "length (pre @ ?r) \<le> BLOCK_SIZE" using fit by (simp add: BLOCK_SIZE_def)
    obtain z zs where h: "hd bs = (pre @ ?r) @ z" "bs = hd bs # zs" "length (hd bs) = BLOCK_SIZE"
      unfolding bs by (rule hd_pack [OF small le])
    have p: "length pre < 2048" "length (hd bs) = 2048" using fit lr(1) h(3) unfolding BLOCK_SIZE_def by linarith+
    have d: "drop (length pre) (hd bs) = ?r @ z" by (simp add: h(1))
    have "1 \<le> length bs" by (subst h(2)) simp
    then have a: "2048 * k + length pre < 2048 * (k + length bs)" using p(1) unfolding distrib_left by linarith
    have lt: "(of_nat (2048 * k + length pre) :: u32) < of_nat (2048 * (k + length bs))"
      using a size by (rule of_nat_less_u32)
    obtain ino1 where s: "read_records fs (of_nat (2048 * (k + length bs))) block (hd bs) (length pre) (of_nat (2048 * k + length pre))
        (waiting t (e # es)) children ino =
      read_records fs (of_nat (2048 * (k + length bs))) block (hd bs) (length (pre @ ?r)) (of_nat (2048 * k + length (pre @ ?r)))
        (waiting t es) (rev (listed_sources t [e]) @ children) ino1"
      using one_record_read [OF rr Cons.hyps(1) p d lt sq(1), of block children ino] by (auto simp only: length_append)
    show ?thesis
      unfolding s ls by (rule Cons.IH [OF _ bs size img sq(2)]) (use fit in simp)
  qed
  show ?case
  proof (cases "length pre + length ?r \<le> 2048")
    case True
    then show ?thesis using Cons.prems by (intro one) (simp_all add: BLOCK_SIZE_def)
  next
    case False
    let ?buf = "pre @ replicate (2048 - length pre) 0 :: byte list" and ?bs1 = "pack ?r ?rs"
    have b: "bs = ?buf # ?bs1" using False Cons.prems(2) by (simp add: BLOCK_SIZE_def)
    obtain z zs where h: "?bs1 = hd ?bs1 # zs" by (rule hd_pack [OF small, of ?r]) (use lr in \<open>simp add: BLOCK_SIZE_def\<close>)
    then have ne: "0 < length ?bs1" by (cases ?bs1) simp_all
    have lt: "(of_nat (2048 * k + length pre) :: u32) < of_nat (2048 * (k + length bs))"
    proof (rule of_nat_less_u32 [OF _ Cons.prems(3)])
      have "1 \<le> length ?bs1" using ne by linarith
      then show "2048 * k + length pre < 2048 * (k + length bs)" using Cons.prems(1) unfolding b list.size distrib_left by linarith
    qed
    have z: "length pre = 2048 \<or> ?buf ! length pre = 0" using Cons.prems(1) by (cases "length pre = 2048") (simp_all add: nth_append)
    have img1: "fs_read_block fs ((block + 1) + of_nat j) = Inr (?bs1 ! j)" if "j < length ?bs1" for j
      using Cons.prems(4) [rule_format, of "Suc j"] that by (simp add: b add.assoc)
    have rb: "fs_read_block fs (block + 1) = Inr (hd ?bs1)" using img1 [OF ne] ne by (simp add: hd_conv_nth)
    have lb: "length ?buf = 2048" using Cons.prems(1) by simp
    note n = next_block_read [OF lt z Cons.prems(1) lb rb, of "waiting t (e # es)" children ino]
    have eq: "k + length bs = k + 1 + length ?bs1" by (simp add: b)
    have "\<exists>ino'. read_records fs (of_nat (2048 * (k + 1 + length ?bs1))) (block + 1) (hd ?bs1) (length ([] :: byte list))
        (of_nat (2048 * (k + 1) + length ([] :: byte list))) (waiting t (e # es)) children ino =
      Some (Inr (rev (listed_sources t (e # es)) @ children), ino')"
      by (rule one) (use lr(2) Cons.prems(3,5) img1 in \<open>simp_all add: b add.assoc\<close>)
    then show ?thesis using n unfolding eq by (simp only: b list.sel list.size add_0_right)
  qed
qed

section \<open>A directory is read back\<close>

text \<open>Without a crossing of block ends no Continuation Area of a node ends badly.\<close>

lemma end_of_ge: "w \<le> end_of w fs"
proof (induction fs arbitrary: w)
  case (Cons f fs)
  have "w \<le> (if crosses w (length f) then next_block w else w) + length f" unfolding next_block_eq by (cases "crosses w (length f)") (simp_all only: if_True if_False add.assoc le_add1)
  also have "\<dots> \<le> end_of w (f # fs)" using Cons.IH by simp
  finally show ?case .
qed simp

lemma no_exact_end: "end_of w fs \<le> 2020 \<Longrightarrow> \<not> exact_end w fs"
proof (induction fs arbitrary: w)
  case (Cons f fs)
  show ?case
  proof (cases "crosses w (length f)")
    case True
    have "2048 \<le> next_block w" by (simp add: next_block_def)
    then have "2048 \<le> end_of w (f # fs)" using True end_of_ge [of "next_block w + length f" fs] by simp
    then show ?thesis using Cons.prems by simp
  qed (use Cons in simp)
qed simp

lemma nodes_end:
  assumes "list_all node_plain nds" "info_ok info" "write_nodes eff info nds = (sus, fin)" "ce_len fin \<le> 2020"
  shows "ends_ok (ce_len info) nds \<and> ce_len info \<le> ce_len fin"
  using assms
proof (induction nds arbitrary: info sus)
  case (Cons nd nds)
  obtain sua1 n sua2 ca where nd: "nd = (sua1, n, sua2, ca)" by (metis prod.collapse)
  have pl: "node_plain nd" using Cons.prems(1) by simp
  let ?i1 = "collect_node eff info nd"
  obtain S i2 where w: "\<And>b p. p + length S \<le> length b \<Longrightarrow> rrip_write_susp_fields (padded ?i1) b p = (buf_put b p S, i2)"
    "suf_len (padded ?i1) = length S + length S mod 2" "info_ok i2" "ce_len i2 = ce_len (padded ?i1)"
    by (rule write_fields [OF Cons.prems(2) pl]) blast
  have l: "length S \<le> suf_len ?i1 + suf_len ?i1 mod 2" using w(2) by (simp add: padded_def)
  then have "rrip_write_susp_fields ?i1 (replicate (suf_len ?i1 + suf_len ?i1 mod 2) 0) 0 =
      (buf_put (replicate (suf_len ?i1 + suf_len ?i1 mod 2) 0) 0 S, i2)"
    using w(1) write_padded [OF Cons.prems(2) pl] by simp
  then obtain bufs where "write_nodes eff i2 nds = (bufs, fin)"
    using Cons.prems(3) by (auto simp: Let_def split: prod.splits)
  from Cons.IH [OF _ w(3) this Cons.prems(4)] Cons.prems(1) have ih: "ends_ok (ce_len i2) nds" "ce_len i2 \<le> ce_len fin" by simp_all
  have e: "ce_len i2 = end_of (ce_len info) ca" using w(4) collect_facts(4) [OF Cons.prems(2) pl [unfolded nd], of eff] by (simp add: padded_def nd)
  then have "\<not> exact_end (ce_len info) ca" using ih(2) Cons.prems(4) by (intro no_exact_end) simp
  then show ?case using ih end_of_ge [of "ce_len info" ca] by (simp add: nd e)
qed simp

lemma image_suffix:
  assumes "ca_image rb blk (xs @ ys) blocks" "length xs = 2048 * n"
  shows "ca_image rb (blk + of_nat n) ys blocks"
  unfolding ca_image_def
proof (intro allI impI)
  fix k assume "2048 * k < length ys"
  then have "2048 * (n + k) < length (xs @ ys)" using assms(2) by simp
  then have "rb (blk + of_nat (n + k)) = Inr (take 2048 (drop (2048 * (n + k)) (xs @ ys))) \<and> unat (blk + of_nat (n + k)) + 1 \<le> unat blocks"
    using assms(1) unfolding ca_image_def by blast
  then show "rb (blk + of_nat n + of_nat k) = Inr (take 2048 (drop (2048 * k) ys)) \<and> unat (blk + of_nat n + of_nat k) + 1 \<le> unat blocks"
    using assms(2) by (simp add: add.assoc distrib_left)
qed

lemma image_block:
  assumes "ca_image rb blk (concat bs @ ys) blocks" "list_all (\<lambda>b. length b = 2048) bs" "j < length bs"
  shows "rb (blk + of_nat j) = Inr (bs ! j)"
proof -
  have len: "length (concat cs) = 2048 * length cs" if "list_all (\<lambda>b. length b = 2048) cs" for cs :: "byte list list"
    using that by (induction cs) simp_all
  have bs: "bs = take j bs @ bs ! j # drop (Suc j) bs" using assms(3) by (rule id_take_nth_drop)
  have l: "length (concat (take j bs)) = 2048 * j" "length (bs ! j) = 2048"
    using assms(2,3) len [of "take j bs"] by (auto simp: list_all_iff dest: in_set_takeD)
  have "concat bs @ ys = concat (take j bs) @ bs ! j @ concat (drop (Suc j) bs) @ ys" by (subst bs) simp
  then have "ca_image rb (blk + of_nat j) (bs ! j @ concat (drop (Suc j) bs) @ ys) blocks"
    using image_suffix [OF _ l(1)] assms(1) by simp
  then show ?thesis using l(2) by (fastforce simp: ca_image_def dest: spec [of _ 0])
qed

text \<open>The children of a directory can be read from their System Use areas.\<close>

lemma areas_readable:
  assumes rr: "rr_reading fs" "rockridge (img_opts t)" and kids: "list_all (child_ok t fs) kids"
    and w: "areas_of t (dir_nodes ups dir) (first_info t dir) (su1 # su2 # sus) info" "info_ok info" "ce_len info \<le> 2020"
    and small: "list_all (\<lambda>r. length r \<le> 254) (map2 (entry_bytes t) (dir_entries kids) sus)" and k: "kids = dt_kids dir"
    and len: "length sus = length (dir_entries kids)"
    and img: "ca_image (fs_read_block fs) (ce_block (first_info t dir) - img_eff_partition_offset t) (concat (rrip_write_ce_fields info)) (fs_nblocks fs)"
  shows "list_all2 (entry_readable t fs) (dir_entries kids) sus"
proof -
  let ?es = "dir_entries kids" and ?eff = "img_eff_partition_offset t" and ?i0 = "first_info t dir"
  let ?P = "\<lambda>(n, parent, ty) nd. node_written t n parent ty nd"
  obtain nds where nds: "list_all2 ?P (dir_nodes ups dir) nds" "write_nodes ?eff ?i0 nds = (su1 # su2 # sus, info)"
    using w(1) rr(2) by (auto simp: areas_of_def)
  have plain: "list_all node_plain nds"
    using nds(1) by (induction rule: list_all2_induct) (auto simp: node_written_def)
  have i0: "info_ok ?i0" "ce_len ?i0 = 0" by (simp_all add: first_info_def new_susp_info_def info_ok_def)
  have ends: "ends_ok (ce_len ?i0) nds" using nodes_end [OF plain i0(1) nds(2) w(3)] by blast
  note i = info_okD [OF i0(1)]
  obtain bufs fin D where s: "write_nodes ?eff ?i0 nds = (bufs, fin)"
    "\<And>W tail rb blocks. W = concat (ce_chunks (ce_susp_fields fin) 0) @ tail \<Longrightarrow> ca_image rb (ce_block ?i0 - ?eff) W blocks \<Longrightarrow>
       list_all2 (\<lambda>buf nd. \<forall>behind. susp_read_all rb (record_iter buf behind blocks) = Some (node_fields nd, No_more)) bufs nds"
    using write_nodes_spec [OF plain i ends, of ?eff] by blast
  have "bufs = su1 # su2 # sus" "fin = info" using s(1) nds(2) by simp_all
  moreover have "\<exists>tail. concat (rrip_write_ce_fields info) = concat (ce_chunks (ce_susp_fields info) 0) @ tail"
    by (auto simp: rrip_write_ce_fields_def Let_def)
  ultimately have rd: "list_all2 (\<lambda>buf nd. \<forall>behind. susp_read_all (fs_read_block fs) (record_iter buf behind (fs_nblocks fs)) =
      Some (node_fields nd, No_more)) (su1 # su2 # sus) nds"
    using s(2) img by blast
  then obtain nd1 nd2 nds1 where n: "nds = nd1 # nd2 # nds1"
    "list_all2 (\<lambda>buf nd. \<forall>behind. susp_read_all (fs_read_block fs) (record_iter buf behind (fs_nblocks fs)) =
      Some (node_fields nd, No_more)) sus nds1" by (auto simp: list_all2_Cons1)
  have wr: "list_all2 ?P (map (\<lambda>e. (dt_node (fst e), Some (dt_node dir), 0)) ?es) nds1"
    using nds(1) by (simp add: n(1) dir_nodes_def k)
  have l: "length nds1 = length ?es" using list_all2_lengthD [OF wr] by simp
  show ?thesis
  proof (rule list_all2_all_nthI)
    show "length ?es = length sus" using len by simp
  next
    fix j assume j: "j < length ?es"
    obtain c s where e: "?es ! j = (c, s)" by (metis prod.collapse)
    have "(c, s) \<in> set ?es" using j e by (metis nth_mem)
    then have c: "c \<in> set kids" "s < nsections c" by (auto simp: dir_entries_def)
    have "node_written t (dt_node c) (Some (dt_node dir)) 0 (nds1 ! j)" using list_all2_nthD [OF wr, of j] j e by simp
    then have f: "entry_fields t (dt_node c) False (node_fields (nds1 ! j))" by (simp add: node_written_def)
    have "\<forall>behind. susp_read_all (fs_read_block fs) (record_iter (sus ! j) behind (fs_nblocks fs)) = Some (node_fields (nds1 ! j), No_more)"
      using list_all2_nthD [OF n(2), of j] j len by simp
    moreover have "length (entry_bytes t (c, s) (sus ! j)) \<le> 254" using small j len e by (auto simp: list_all_length)
    moreover have "child_ok t fs c" using kids c(1) by (simp add: list_all_iff)
    ultimately show "entry_readable t fs (?es ! j) (sus ! j)" using c(2) f by (auto simp: entry_readable_def e)
  qed
qed

text \<open>A directory of an image with Rock Ridge is read back as it was written. The order is reversed; directories that are
  marked as relocated and files without sections are not listed. The Continuation Area fits into one block, and the block behind the
  directory is readable, because \<open>read_dir\<close> reads it too.\<close>

lemma directory_reads_back:
  assumes dir: "is_dir d" "rr_ok t (dt_node d)" and kids: "list_all (child_ok t fs) (dt_kids d)"
    and ups: "case ups of [] \<Rightarrow> root_aa_ok t (dt_node d) | u # us \<Rightarrow> is_dir u" and rr: "rockridge (img_opts t)" "rr_reading fs"
    and size: "calc_dir_size t (ups = []) d 0 = Some (dt_len d, ce)" "ce \<le> 2020" "dt_len d < 2 ^ 32"
    and out: "write_one_dir t ups d = Some (Inr out)"
    and img: "ca_image (fs_read_block fs) (dt_block d - img_eff_partition_offset t) out (fs_nblocks fs)"
      "fs_read_block fs (dt_block d - img_eff_partition_offset t + of_nat (dt_len d div 2048)) = Inr behind"
    and data: "if_sections data = extents t d"
  shows "\<exists>ino'. read_dir fs data ino =
    Some (Inr (rev (map (source_of t) (filter (\<lambda>c. 0 < nsections c \<and> \<not> marked_RE t (dt_node c)) (dt_kids d)))), ino')"
proof -
  let ?es = "dir_entries (dt_kids d)" and ?eff = "img_eff_partition_offset t"
  have ok: "list_all (entry_ok t) ?es"
    by (rule entries_ok, rule list.pred_mono_strong [OF kids]) (simp add: child_ok_def Let_def)
  obtain su1 su2 sus info where w:
    "write_one_dir t ups d = Some (Inr (concat (pack [] (dot_records t ups d su1 su2 @ map2 (entry_bytes t) ?es sus)) @ concat (rrip_write_ce_fields info)))"
    "calc_dir_size t (ups = []) d 0 = Some (BLOCK_SIZE * length (pack [] (dot_records t ups d su1 su2 @ map2 (entry_bytes t) ?es sus)), ce_len info)"
    "info_ok info" "ce_block info = ce_block (first_info t d)" "length sus = length ?es"
    "list_all (\<lambda>r. length r \<le> 254) (dot_records t ups d su1 su2 @ map2 (entry_bytes t) ?es sus)"
    "areas_of t (dir_nodes ups d) (first_info t d) (su1 # su2 # sus) info"
    by (rule dir_written [OF dir ok ups])
  define rs where "rs = map2 (entry_bytes t) ?es sus"
  obtain ra rb n2 p2 where dots: "dot_records t ups d su1 su2 = [ra, rb]"
    and ra: "ra = record_bytes t False d (dt_block d, of_nat (dt_len d), False) [0] su1"
    and rb: "rb = record_bytes t False n2 p2 [1] su2"
    by (simp add: dot_records_def Let_def)
  have small: "length ra \<le> 254" "length rb \<le> 254" "list_all (\<lambda>r. length r \<le> 254) rs" using w(6) by (simp_all add: dots rs_def)
  have pos: "34 \<le> length ra" "34 \<le> length rb" by (simp_all add: ra rb length_record_bytes)
  define bs where "bs = pack (ra @ rb) rs"
  have pk: "pack [] ([ra, rb] @ rs) = bs" using small(1,2) by (simp add: bs_def BLOCK_SIZE_def)
  note w12 = w(1,2) [unfolded dots, folded rs_def, unfolded pk]
  have s: "dt_len d = 2048 * length bs" "ce_len info \<le> 2020" using w12(2) size(1,2) by (simp_all add: BLOCK_SIZE_def)
  have o: "out = concat bs @ concat (rrip_write_ce_fields info)" using w12(1) out by simp
  have sm: "list_all (\<lambda>r. length r \<le> BLOCK_SIZE) rs" by (rule list.pred_mono_strong [OF small(3)]) (simp add: BLOCK_SIZE_def)
  have le: "length (ra @ rb) \<le> BLOCK_SIZE" using small(1,2) by (simp add: BLOCK_SIZE_def)
  have full: "list_all (\<lambda>b. length b = 2048) bs" using pack_blocks(2) [OF sm le] by (simp add: bs_def BLOCK_SIZE_def)
  obtain z zs where h: "hd bs = (ra @ rb) @ z" "bs = hd bs # zs" "length (hd bs) = BLOCK_SIZE"
    unfolding bs_def by (rule hd_pack [OF sm le])
  have lbs: "length (concat cs) = 2048 * length cs" if "list_all (\<lambda>b. length b = 2048) cs" for cs :: "byte list list"
    using that by (induction cs) simp_all
  have area: "ca_image (fs_read_block fs) (ce_block (first_info t d) - ?eff) (concat (rrip_write_ce_fields info)) (fs_nblocks fs)"
  proof -
    have "ce_block (first_info t d) = dt_block d + of_nat (length bs)"
      using rr(1) div_up_mult [of 2048 "length bs"] by (simp add: first_info_def new_susp_info_def s(1) BLOCK_SIZE_def mult.commute)
    then have e: "ce_block (first_info t d) - ?eff = dt_block d - ?eff + of_nat (length bs)" by simp
    show ?thesis unfolding e by (rule image_suffix [OF img(1) [unfolded o] lbs [OF full]])
  qed
  have rd: "list_all2 (entry_readable t fs) ?es sus"
    by (rule areas_readable [OF rr(2,1) kids w(7,3) s(2) _ refl w(5) area]) (use small(3) in \<open>simp add: rs_def\<close>)
  have blocks: "\<forall>j < length bs. fs_read_block fs (dt_block d - ?eff + of_nat j) = Inr (bs ! j)"
    using image_block [OF img(1) [unfolded o] full] by blast
  have ne: "bs \<noteq> []" by (subst h(2)) simp
  have b0: "fs_read_block fs (dt_block d - ?eff) = Inr (hd bs)" using blocks [rule_format, of 0] ne by (simp add: hd_conv_nth)
  note fa = record_parts [OF small(1) [unfolded ra], where rest = "rb @ z", folded ra]
  obtain bl2 ln2 m2 where p2: "p2 = (bl2, ln2, m2)" by (metis prod.collapse)
  note fb = record_parts [OF small(2) [unfolded rb p2], where rest = z, folded rb [unfolded p2]]
  have hb: "hd bs = ra @ rb @ z" using h(1) by simp
  have l1: "unat (hd bs ! 0) = length ra" using fa(1) small(1) unat_small [of "length ra"] by (simp add: hb)
  have l2: "unat (hd bs ! length ra) = length rb" using fb(1) small(2) unat_small [of "length rb"] by (simp add: hb nth_append)
  have dsz: "fst (iso_read_bb (hd bs) 10 4) = of_nat (2048 * (0 + length bs))" using fa(7) by (simp add: hb s(1))
  have ext: "extents t d = [(dt_block d - ?eff, of_nat (dt_len d))]" using dir(1) by (simp add: extents_def record_place_def nsections_def)
  obtain ino' where r: "read_records fs (of_nat (2048 * (0 + length bs))) (dt_block d - ?eff) (hd bs) (length (ra @ rb))
      (of_nat (2048 * 0 + length (ra @ rb))) (waiting t ?es) [] ino = Some (Inr (rev (listed_sources t ?es) @ []), ino')"
    using records_read [OF rr(2) rd, of "ra @ rb" bs 0 "dt_block d - ?eff" behind "[]" ino] le blocks img(2) size(3) s(1) entries_in_sequence
    unfolding bs_def [unfolded rs_def] by (auto simp: BLOCK_SIZE_def)
  have "\<not> length (hd bs) < 18" "\<not> length (hd bs) \<le> length ra" using h(3) small(1) by (simp_all add: BLOCK_SIZE_def)
  then have "read_dir fs data ino = Some (Inr (rev (listed_sources t ?es)), ino')"
    using r entries_in_sequence [of t "dt_kids d"]
    unfolding read_dir_def data ext list.case prod.case b0 sum.case Let_def l1 l2 dsz by simp
  then show ?thesis by (auto simp: listed_entries)
qed

section \<open>Samples\<close>

text \<open>A root directory with a file of two extents, a symbolic link and a subdirectory, at the block 20.\<close>

definition sample_child :: "node_type \<Rightarrow> u32 \<Rightarrow> string \<Rightarrow> string \<Rightarrow> (u32 \<times> u32) list \<Rightarrow> dir_tree" where
  "sample_child ty mode nm dest secs =
     Dir_tree (Some nm) ((sample_node ty nm dest None)\<lparr>rn_mode := mode\<rparr>) secs 22 2048 []"

definition sample_dir :: dir_tree where
  "sample_dir =
     Dir_tree None ((sample_node ECMA119_DIR '''' '''' None)\<lparr>rn_mode := 0x41ED\<rparr>) [] 20 2048
       [sample_child ECMA119_FILE 0x81A4 ''BIG'' '''' [(300, 0xFFFFF800), (0x200000, 5)],
        sample_child ECMA119_SYMLINK 0xA1FF ''LINK'' ''../x'' [], sample_child ECMA119_DIR 0x41ED ''SUB'' '''' []]"

definition sample_fs :: "byte list \<Rightarrow> image_fs" where
  "sample_fs out =
     \<lparr>fs_rr = True, fs_same_charset = True, fs_strnconv = \<lambda>s. None, fs_strconv = Some, fs_joliet = False, fs_ecma119_map = 1,
      fs_joliet_map = 1, fs_truncate_mode = 1, fs_truncate_length = 255, fs_uid = 0, fs_gid = 0, fs_dir_mode = 0, fs_file_mode = 0,
      fs_len_skp = 0, fs_nblocks = 100, fs_read_block = \<lambda>b. Inr (take 2048 (drop (2048 * unat (b - 20)) out)),
      fs_aborts = \<lambda>e. True, fs_timegm = \<lambda>tm. 0\<rparr>"

lemma sample_time: "x \<in> {0, 10, 20, 30} \<Longrightarrow> time_ok gmtime gmt x"
proof -
  assume x: "x \<in> {0, 10, 20, 30}"
  have "local_at gmtime 0 0" "local_at gmtime 10 0" "local_at gmtime 20 0" "local_at gmtime 30 0" by code_simp+
  moreover have "tm_year (gmtime 0) \<le> 255" "tm_year (gmtime 10) \<le> 255" "tm_year (gmtime 20) \<le> 255" "tm_year (gmtime 30) \<le> 255" by code_simp+
  ultimately show "time_ok gmtime gmt x" using x by (auto simp: time_ok_def intro!: exI [of _ 0])
qed

lemma sample_dir_size: "calc_dir_size sample_rr True sample_dir 0 = Some (2048, 342)"
  by code_simp

lemma sample_dir_ok: "is_dir sample_dir" "rr_ok sample_rr (dt_node sample_dir)" "root_aa_ok sample_rr (dt_node sample_dir)"
  "rockridge (img_opts sample_rr)" "rr_reading (sample_fs out)"
  by (code_simp, code_simp, code_simp, code_simp) (simp add: rr_reading_def sample_fs_def)

lemma sample_kids_ok: "list_all (child_ok sample_rr (sample_fs out)) (dt_kids sample_dir)"
proof -
  have ok: "child_ok sample_rr (sample_fs out) (sample_child ty mode nm dest secs)"
    if "node_ok sample_rr (sample_child ty mode nm dest secs)" "rr_ok sample_rr ((sample_node ty nm dest None)\<lparr>rn_mode := mode\<rparr>)"
      "ty \<noteq> ECMA119_PLACEHOLDER" "mode \<noteq> 0" "mode AND S_IFMT = S_IFLNK \<longleftrightarrow> ty = ECMA119_SYMLINK"
      "nm \<noteq> ''''" "CHR 0x00 \<notin> set nm" "CHR 0x00 \<notin> set dest" "ty = ECMA119_SYMLINK \<longrightarrow> dest \<noteq> ''''" "length nm \<le> 255"
    for ty mode nm dest secs
  proof -
    have t: "img_localtime sample_rr = gmtime" "img_conv sample_rr = Some" "\<not> img_replace_timestamps sample_rr" "img_now sample_rr = 0"
      "\<not> odd (dir_rec_mtime (img_opts sample_rr))" "\<not> img_replace_file_mode sample_rr" "\<not> img_replace_dir_mode sample_rr"
      by (simp_all add: sample_rr_def profile_opts_def)
    have m: "px_get_mode sample_rr ((sample_node ty nm dest None)\<lparr>rn_mode := mode\<rparr>) = mode"
      by (simp add: px_get_mode_def t sample_node_def)
    have f: "file_id_of (sample_child ty mode nm dest secs) \<noteq> []" using that(6) by (simp add: sample_child_def file_id_of_def bytes_of_def)
    have "read_ok sample_rr ((sample_node ty nm dest None)\<lparr>rn_mode := mode\<rparr>)"
      using that(2,3,6-9) sample_time by (simp add: read_ok_def t text_good_def times_ok_def tf_time_def sample_node_def)
    then show ?thesis
      using that(1,3,4,5,10) m f sample_time
      by (simp add: child_ok_def Let_def t record_time_def) (simp add: sample_child_def sample_node_def sample_fs_def t)
  qed
  have "child_ok sample_rr (sample_fs out) (sample_child ECMA119_FILE 0x81A4 ''BIG'' '''' [(300, 0xFFFFF800), (0x200000, 5)])"
    "child_ok sample_rr (sample_fs out) (sample_child ECMA119_SYMLINK 0xA1FF ''LINK'' ''../x'' [])"
    "child_ok sample_rr (sample_fs out) (sample_child ECMA119_DIR 0x41ED ''SUB'' '''' [])"
    by (rule ok; (code_simp | simp))+
  then show ?thesis by (simp add: sample_dir_def)
qed

text \<open>What is written: two blocks for the root with its Continuation Area, one for the subdirectory.\<close>

lemma sample_one_written:
  obtains out1 out2 where "write_one_dir sample_rr [] sample_dir = Some (Inr out1)" "length out1 = 4096"
    and "write_one_dir sample_rr [sample_dir] (sample_child ECMA119_DIR 0x41ED ''SUB'' '''' []) = Some (Inr out2)" "length out2 = 2048"
proof -
  let ?sub = "sample_child ECMA119_DIR 0x41ED ''SUB'' '''' []"
  have root: "case [] of [] \<Rightarrow> root_aa_ok sample_rr (dt_node sample_dir) | u # us \<Rightarrow> is_dir u" using sample_dir_ok(3) by simp
  have kids: "list_all (node_ok sample_rr) (dt_kids sample_dir)" by code_simp
  obtain len ce out where o: "calc_dir_size sample_rr ([] = ([] :: dir_tree list)) sample_dir 0 = Some (len, ce)"
    "write_one_dir sample_rr [] sample_dir = Some (Inr out)" "length out = BLOCK_SIZE * (DIV_UP len BLOCK_SIZE + DIV_UP ce BLOCK_SIZE)"
    by (rule dir_laid [OF sample_dir_ok(1,2) kids root])
  have sub: "is_dir ?sub" "rr_ok sample_rr (dt_node ?sub)" "list_all (node_ok sample_rr) (dt_kids ?sub)"
    "calc_dir_size sample_rr False ?sub 0 = Some (2048, 0)" by code_simp+
  have up: "case [sample_dir] of [] \<Rightarrow> root_aa_ok sample_rr (dt_node ?sub) | u # us \<Rightarrow> is_dir u" using sample_dir_ok(1) by simp
  obtain len2 ce2 out2 where o2: "calc_dir_size sample_rr ([sample_dir] = ([] :: dir_tree list)) ?sub 0 = Some (len2, ce2)"
    "write_one_dir sample_rr [sample_dir] ?sub = Some (Inr out2)" "length out2 = BLOCK_SIZE * (DIV_UP len2 BLOCK_SIZE + DIV_UP ce2 BLOCK_SIZE)"
    by (rule dir_laid [OF sub(1-3) up])
  have "length out = 4096" "length out2 = 2048"
    using o(1,3) o2(1,3) sample_dir_size sub(4) by (simp_all add: DIV_UP_def BLOCK_SIZE_def)
  then show thesis using that o(2) o2(2) by blast
qed

lemma sample_image:
  assumes "length out \<le> 8192"
  shows "ca_image (fs_read_block (sample_fs out)) 20 out (fs_nblocks (sample_fs out))"
proof -
  have "unat (of_nat k :: u32) = k \<and> unat (20 + of_nat k :: u32) + 1 \<le> 100" if "2048 * k < length out" for k
  proof -
    have "k < 4" using that assms by simp
    then have "k = 0 \<or> k = 1 \<or> k = 2 \<or> k = 3" by linarith
    then show ?thesis by auto
  qed
  then show ?thesis by (simp add: ca_image_def sample_fs_def)
qed

section \<open>A directory tree is read back\<close>

text \<open>All nodes of a tree are readable. The addresses do not matter.\<close>

fun nodes_readable :: "rr_image \<Rightarrow> image_fs \<Rightarrow> dir_tree \<Rightarrow> bool" where
  "nodes_readable t fs (Dir_tree name node secs block len kids) \<longleftrightarrow>
     list_all (child_ok t fs) kids \<and> list_all (nodes_readable t fs) kids"

lemma child_ok_erase: "child_ok t fs (erase c) = child_ok t fs c"
  by (cases c) (simp add: child_ok_def node_ok_def calc_dirent_len_def file_id_of_def record_time_def)

lemma nodes_readable_erase: "nodes_readable t fs (erase d) = nodes_readable t fs d"
  by (induction d) (auto simp: child_ok_erase list_all_iff)

lemma tree_ok_erase: "tree_ok t (erase d) = tree_ok t d"
  by (induction d) (auto simp: node_ok_def calc_dirent_len_def list_all_iff)

lemma dirs_of_ok:
  assumes "tree_ok t root" "nodes_readable t fs root" "is_dir root"
  shows "(case ups of [] \<Rightarrow> root_aa_ok t (dt_node root) | u # us \<Rightarrow> is_dir u) \<Longrightarrow> (ups1, d) \<in> set (dirs_of ups root) \<Longrightarrow>
    is_dir d \<and> rr_ok t (dt_node d) \<and> list_all (child_ok t fs) (dt_kids d) \<and>
    (case ups1 of [] \<Rightarrow> root_aa_ok t (dt_node d) | u # us \<Rightarrow> is_dir u)"
  using assms
proof (induction root arbitrary: ups)
  case (Dir_tree name node secs block len kids)
  let ?d = "Dir_tree name node secs block len kids"
  have k: "(ups1, d) \<in> set (kids_dirs us ks) \<Longrightarrow> \<exists>k \<in> set ks. is_dir k \<and> (ups1, d) \<in> set (dirs_of us k)" for us ks
    by (induction ks) (auto split: if_splits)
  show ?case
  proof (cases "(ups1, d) = (ups, ?d)")
    case True
    then show ?thesis using Dir_tree.prems by (auto simp: node_ok_def)
  next
    case False
    then obtain k where "k \<in> set kids" "is_dir k" "(ups1, d) \<in> set (dirs_of (?d # ups) k)" using Dir_tree.prems(2) k by auto
    then show ?thesis using Dir_tree.IH [of k "?d # ups"] Dir_tree.prems(3-5) by (simp add: list_all_iff)
  qed
qed

lemma laid_in_image:
  fixes cur :: u32
  assumes "laid t cur ds outs" "ca_image rb (cur - eff) (concat outs @ tail) blocks" "2048 \<le> length tail" "(ups, d) \<in> set ds"
  shows "\<exists>out ce behind. write_one_dir t ups d = Some (Inr out) \<and> calc_dir_size t (ups = []) d 0 = Some (dt_len d, ce) \<and>
    ca_image rb (dt_block d - eff) out blocks \<and> rb (dt_block d - eff + of_nat (dt_len d div 2048)) = Inr behind"
  using assms
proof (induction t cur ds outs rule: laid.induct)
  case (1 t cur ups1 d1 ds out outs)
  note l = 1(2) [unfolded laid.simps BLOCK_SIZE_def] and img = 1(3) [simplified]
  obtain n where n: "length out = 2048 * n" using l by (auto elim: dvdE)
  have nx: "ca_image rb (cur + of_nat (length out div BLOCK_SIZE) - eff) (concat outs @ tail) blocks"
  proof -
    have e: "cur + of_nat (length out div BLOCK_SIZE) - eff = cur - eff + of_nat n" by (simp add: n BLOCK_SIZE_def)
    show ?thesis unfolding e by (rule image_suffix [OF img n])
  qed
  show ?case
  proof (cases "(ups, d) = (ups1, d1)")
    case True
    let ?rest = "concat outs @ tail"
    obtain m where m: "dt_len d = 2048 * m" using l True by (auto elim: dvdE)
    have "2048 * (dt_len d div 2048) < length (out @ ?rest)" using l True m 1(4) by simp
    then have "\<exists>behind. rb (cur - eff + of_nat (dt_len d div 2048)) = Inr behind" using img unfolding ca_image_def by blast
    moreover have "ca_image rb (cur - eff) out blocks"
      unfolding ca_image_def
    proof (intro allI impI)
      fix k assume k: "2048 * k < length out"
      then have "k < n" by (simp add: n)
      then have "take 2048 (drop (2048 * k) (out @ ?rest)) = take 2048 (drop (2048 * k) out)" by (simp add: n)
      moreover have "2048 * k < length (out @ ?rest)" using k by simp
      ultimately show "rb (cur - eff + of_nat k) = Inr (take 2048 (drop (2048 * k) out)) \<and> unat (cur - eff + of_nat k) + 1 \<le> unat blocks"
        using img unfolding ca_image_def by metis
    qed
    ultimately show ?thesis using l True by auto
  next
    case False
    then show ?thesis using 1(1) [OF _ nx 1(4)] 1(5) l by (auto simp: BLOCK_SIZE_def)
  qed
qed simp_all



end
