(* ===== verification/FileRead.thy ===== *)
theory FileRead
  imports DirRead
begin

text \<open>
  The file sources of an imported image as files (\<open>libisofs/fs_image.c\<close>): \<open>ifs_open\<close>, \<open>ifs_close\<close>, \<open>ifs_read\<close>, \<open>ifs_lseek\<close>,
  \<open>ifs_readdir\<close>, \<open>ifs_readlink\<close> and cloning. An \<open>ifs_handle\<close> is an \<open>ImageFileSourceData\<close> with the members for content reading: the
  buffer of 2048 bytes of an opened regular file, the children of an opened directory, the offset. The data source of the file
  system is opened at the first use and closed at the last one (\<open>open_count\<close>). Memory allocation succeeds. \<open>None\<close> stands for an
  access to memory that is not there (or not any more) and for a read that does not end.

  A file whose sections hold some bytes behaves like these bytes with a position (\<open>ifs_file_refines_bytes\<close>).
\<close>

section \<open>The file system object\<close>

definition ifs_fs_open :: "iso_error + unit \<Rightarrow> nat \<Rightarrow> (iso_error + unit) \<times> nat" where
  "ifs_fs_open src_open open_count =
     (if open_count = 0
      then case src_open of Inl e \<Rightarrow> (Inl e, open_count) | Inr u \<Rightarrow> (Inr (), open_count + 1)
      else (Inr (), open_count + 1))"

text \<open>The second result tells whether the data source gets closed.\<close>

definition ifs_fs_close :: "nat \<Rightarrow> nat \<times> bool" where
  "ifs_fs_close open_count = (open_count - 1, open_count - 1 = 0)"

section \<open>Places in the sections\<close>

text \<open>The loop of \<open>block_from_offset\<close>, \<open>size_available\<close> and \<open>block_offset\<close>: the section in which an offset is, with the offset
  in it.\<close>

fun section_at :: "(u32 \<times> u32) list \<Rightarrow> int \<Rightarrow> int \<Rightarrow> ((u32 \<times> u32) \<times> int) option" where
  "section_at [] offset bytes = None"
| "section_at (s # secs) offset bytes =
     (if offset - bytes < uint (snd s) then Some (s, offset - bytes) else section_at secs offset (bytes + uint (snd s)))"

definition block_from_offset :: "(u32 \<times> u32) list \<Rightarrow> int \<Rightarrow> u32" where
  "block_from_offset secs offset =
     (case section_at secs offset 0 of Some ((block, len), d) \<Rightarrow> block + of_int (d div 2048) | None \<Rightarrow> 0)"

definition size_available :: "(u32 \<times> u32) list \<Rightarrow> int \<Rightarrow> nat" where
  "size_available secs offset =
     (case section_at secs offset 0 of
        Some ((block, len), d) \<Rightarrow> min (unat (len - of_int d)) (unat (2048 - of_int d mod 2048 :: u32))
      | None \<Rightarrow> 0)"

definition block_offset :: "(u32 \<times> u32) list \<Rightarrow> int \<Rightarrow> nat" where
  "block_offset secs offset =
     (case section_at secs offset 0 of Some (s, d) \<Rightarrow> unat (of_int d mod 2048 :: u32) | None \<Rightarrow> 0)"

section \<open>Operations\<close>

record ifs_handle =
  fh_source :: ifs
  fh_opened :: nat
  fh_content :: "byte list"
  fh_children :: "ifs list option"
  fh_offset :: int

definition new_handle :: "ifs \<Rightarrow> ifs_handle" where
  "new_handle src = \<lparr>fh_source = src, fh_opened = 0, fh_content = [], fh_children = Some [], fh_offset = 0\<rparr>"

definition ifs_lstat :: "ifs_handle \<Rightarrow> rr_stat" where
  "ifs_lstat h = if_info (fh_source h)"

definition ifs_stat :: "ifs_handle \<Rightarrow> iso_error + rr_stat" where
  "ifs_stat h = (if at_mode (if_info (fh_source h)) AND S_IFMT = S_IFLNK then Inl ISO_FILE_BAD_PATH else Inr (if_info (fh_source h)))"

definition ifs_get_name :: "ifs_handle \<Rightarrow> string option" where
  "ifs_get_name h = if_name (fh_source h)"

text \<open>After a failure of \<open>read_dir\<close> the list of children is released, but \<open>data.content\<close> still points to it (\<open>fh_children = None\<close>).
  A new call of \<open>ifs_open\<close> would put new children in front of released memory.\<close>

definition ifs_open ::
  "image_fs \<Rightarrow> iso_error + unit \<Rightarrow> ifs_handle \<Rightarrow> nat \<Rightarrow> ino_state \<Rightarrow> ((iso_error + unit) \<times> ifs_handle \<times> nat \<times> ino_state) option" where
  "ifs_open fs src_open h open_count ino =
     (let mode = at_mode (if_info (fh_source h)) in
      if fh_opened h \<noteq> 0 then Some (Inl ISO_FILE_ALREADY_OPENED, h, open_count, ino)
      else if mode AND S_IFMT = S_IFDIR
      then case ifs_fs_open src_open open_count of
             (Inl e, n) \<Rightarrow> Some (Inl e, h, n, ino)
           | (Inr u, n) \<Rightarrow>
               if fh_children h = None then None
               else (case read_dir fs (fh_source h) ino of
                       None \<Rightarrow> None
                     | Some (Inl e, ino1) \<Rightarrow> Some (Inl e, h\<lparr>fh_children := None\<rparr>, fst (ifs_fs_close n), ino1)
                     | Some (Inr children, ino1) \<Rightarrow>
                         Some (Inr (), h\<lparr>fh_children := Some children, fh_opened := 2\<rparr>, fst (ifs_fs_close n), ino1))
      else if mode AND S_IFMT = S_IFREG
      then case ifs_fs_open src_open open_count of
             (Inl e, n) \<Rightarrow> Some (Inl e, h, n, ino)
           | (Inr u, n) \<Rightarrow> Some (Inr (), h\<lparr>fh_content := replicate 2048 0, fh_offset := 0, fh_opened := 1\<rparr>, n, ino)
      else Some (Inl ISO_FILE_ERROR, h, open_count, ino))"

definition ifs_close :: "ifs_handle \<Rightarrow> nat \<Rightarrow> (iso_error + unit) \<times> ifs_handle \<times> nat" where
  "ifs_close h open_count =
     (if fh_opened h = 0 then (Inl ISO_FILE_NOT_OPENED, h, open_count)
      else if fh_opened h = 2 then (Inr (), h\<lparr>fh_children := Some [], fh_opened := 0\<rparr>, open_count)
      else if fh_opened h = 1 then (Inr (), h\<lparr>fh_content := [], fh_opened := 0\<rparr>, fst (ifs_fs_close open_count))
      else (Inl ISO_ERROR, h, open_count))"

text \<open>The loop of \<open>ifs_read\<close>. \<open>got\<close> are the bytes that are in the buffer of the caller so far.\<close>

partial_function (option) read_loop ::
  "image_fs \<Rightarrow> ifs \<Rightarrow> nat \<Rightarrow> byte list \<Rightarrow> byte list \<Rightarrow> int \<Rightarrow> ((iso_error + byte list) \<times> byte list \<times> int) option" where
  "read_loop fs src cnt got content offset =
     (let secs = if_sections src in
      if \<not> (length got < cnt \<and> offset < if_size src) then Some (Inr got, content, offset)
      else if secs = [] then None
      else case (if block_offset secs offset = 0 then fs_read_block fs (block_from_offset secs offset) else Inr content) of
             Inl e \<Rightarrow> Some (Inl e, content, offset)
           | Inr content1 \<Rightarrow>
               let avail = min (size_available secs offset) (cnt - length got);
                   bytes = (if offset + int avail > if_size src then nat (if_size src - offset) else avail);
                   p = block_offset secs offset
               in if length content1 < p + bytes then None
                  else read_loop fs src cnt (got @ take bytes (drop p content1)) content1 (offset + int bytes))"

definition ifs_read :: "image_fs \<Rightarrow> ifs_handle \<Rightarrow> nat \<Rightarrow> ((iso_error + byte list) \<times> ifs_handle) option" where
  "ifs_read fs h cnt =
     (if cnt = 0 then Some (Inl ISO_WRONG_ARG_VALUE, h)
      else if fh_opened h = 0 then Some (Inl ISO_FILE_NOT_OPENED, h)
      else if fh_opened h \<noteq> 1 then Some (Inl ISO_FILE_IS_DIR, h)
      else map_option (\<lambda>(ret, content, offset). (ret, h\<lparr>fh_content := content, fh_offset := offset\<rparr>))
             (read_loop fs (fh_source h) cnt [] (fh_content h) (fh_offset h)))"

text \<open>If the block cannot be read, the offset is changed nevertheless.\<close>

definition ifs_lseek :: "image_fs \<Rightarrow> ifs_handle \<Rightarrow> int \<Rightarrow> int \<Rightarrow> ((iso_error + int) \<times> ifs_handle) option" where
  "ifs_lseek fs h offset flag =
     (let secs = if_sections (fh_source h); sz = if_size (fh_source h) in
      if offset < 0 then Some (Inl ISO_WRONG_ARG_VALUE, h)
      else if fh_opened h = 0 then Some (Inl ISO_FILE_NOT_OPENED, h)
      else if fh_opened h \<noteq> 1 then Some (Inl ISO_FILE_IS_DIR, h)
      else if flag \<notin> {0, 1, 2} then Some (Inl ISO_WRONG_ARG_VALUE, h)
      else let pos1 = (if flag = 0 then offset else if flag = 1 then fh_offset h + offset else sz + offset);
               h1 = h\<lparr>fh_offset := pos1\<rparr>
           in if secs = [] then None
              else if block_offset secs pos1 \<noteq> 0 \<and> pos1 < sz
              then case fs_read_block fs (block_from_offset secs pos1) of
                     Inl e \<Rightarrow> Some (Inl e, h1)
                   | Inr content \<Rightarrow> Some (Inr pos1, h1\<lparr>fh_content := content\<rparr>)
              else Some (Inr pos1, h1))"

definition ifs_readdir :: "ifs_handle \<Rightarrow> ((iso_error + ifs option) \<times> ifs_handle) option" where
  "ifs_readdir h =
     (if fh_opened h = 0 then Some (Inl ISO_FILE_NOT_OPENED, h)
      else if fh_opened h \<noteq> 2 then Some (Inl ISO_FILE_IS_NOT_DIR, h)
      else case fh_children h of
             None \<Rightarrow> None
           | Some [] \<Rightarrow> Some (Inr None, h)
           | Some (c # cs) \<Rightarrow> Some (Inr (Some c), h\<lparr>fh_children := Some cs\<rparr>))"

text \<open>The text in the buffer of the caller, and whether it is all of the target.\<close>

definition ifs_readlink :: "ifs_handle \<Rightarrow> nat \<Rightarrow> ((iso_error option) \<times> string) option" where
  "ifs_readlink h bufsiz =
     (if bufsiz = 0 then Some (Some ISO_WRONG_ARG_VALUE, '''')
      else if at_mode (if_info (fh_source h)) AND S_IFMT \<noteq> S_IFLNK then Some (Some ISO_FILE_IS_NOT_SYMLINK, '''')
      else case if_dest (fh_source h) of
             None \<Rightarrow> None
           | Some dest \<Rightarrow>
               if length dest \<ge> bufsiz then Some (Some ISO_RR_PATH_TOO_LONG, take (bufsiz - 1) dest) else Some (None, dest))"

text \<open>The clone shares nothing with the old source; the open state is copied, but not the content, the offset, the target of a
  link and the algorithm of zisofs.\<close>

definition ifs_clone_src :: "ifs_handle \<Rightarrow> ifs_handle option" where
  "ifs_clone_src h =
     (if if_name (fh_source h) = None then None
      else Some \<lparr>fh_source = (fh_source h)\<lparr>if_dest := None, if_zf := (if_zf (fh_source h))\<lparr>zf_algo := (0, 0)\<rparr>\<rparr>,
                 fh_opened = fh_opened h, fh_content = [], fh_children = Some [], fh_offset = 0\<rparr>)"

definition iso_ifs_source_get_zf :: "ifs_handle \<Rightarrow> zf_info" where
  "iso_ifs_source_get_zf h = if_zf (fh_source h)"

section \<open>What a file holds\<close>

definition section_holds :: "(u32 \<Rightarrow> iso_error + byte list) \<Rightarrow> u32 \<times> u32 \<Rightarrow> byte list \<Rightarrow> bool" where
  "section_holds rb s c \<longleftrightarrow>
     length c = unat (snd s) \<and>
     (\<forall>k. 2048 * k < length c \<longrightarrow>
        (\<exists>B. rb (fst s + of_nat k) = Inr B \<and> length B = 2048 \<and> take (length c - 2048 * k) B = take 2048 (drop (2048 * k) c)))"

text \<open>The buffer holds the block at the offset, if the next read does not load it anyway.\<close>

definition buffered :: "image_fs \<Rightarrow> (u32 \<times> u32) list \<Rightarrow> int \<Rightarrow> byte list \<Rightarrow> bool" where
  "buffered fs secs offset content \<longleftrightarrow>
     (block_offset secs offset \<noteq> 0 \<longrightarrow> fs_read_block fs (block_from_offset secs offset) = Inr content)"

lemma section_at_start: "section_at secs b b = Some (s, d) \<Longrightarrow> d = 0"
proof (induction secs arbitrary: b)
  case (Cons s1 secs)
  have "0 \<le> uint (snd s1)" by simp
  then have "0 < uint (snd s1) \<or> uint (snd s1) = 0" by linarith
  then show ?case using Cons by auto
qed simp

lemma section_at_holds:
  assumes "list_all2 (section_holds rb) secs cs" and "bytes \<le> offset"
  shows "(offset - bytes < int (length (concat cs)) \<longrightarrow>
      (\<exists>s c d pre post. section_at secs offset bytes = Some (s, int d) \<and> section_holds rb s c \<and> d < length c \<and>
         concat cs = pre @ c @ post \<and> offset - bytes = int (length pre + d) \<and>
         (\<forall>j. d + j < length c \<longrightarrow> section_at secs (offset + int j) bytes = Some (s, int (d + j))) \<and>
         (\<forall>s' d'. section_at secs (offset + int (length c - d)) bytes = Some (s', d') \<longrightarrow> d' = 0))) \<and>
    (\<not> offset - bytes < int (length (concat cs)) \<longrightarrow> section_at secs offset bytes = None)"
  using assms
proof (induction secs cs arbitrary: bytes rule: list_all2_induct)
  case (Cons s secs c cs)
  have len: "int (length c) = uint (snd s)" using Cons.hyps(1) by (simp add: section_holds_def)
  show ?case
  proof (cases "offset - bytes < int (length c)")
    case True
    define d where "d = nat (offset - bytes)"
    have d: "offset - bytes = int d" "d < length c" using True Cons.prems by (simp_all add: d_def)
    have "\<forall>j. d + j < length c \<longrightarrow> section_at (s # secs) (offset + int j) bytes = Some (s, int (d + j))"
      using d len by (auto simp: algebra_simps)
    moreover have "\<forall>s' d'. section_at (s # secs) (offset + int (length c - d)) bytes = Some (s', d') \<longrightarrow> d' = 0"
    proof -
      have e: "offset + int (length c - d) = bytes + uint (snd s)" using d len by simp
      then show ?thesis unfolding e by (auto dest: section_at_start)
    qed
    moreover have "section_at (s # secs) offset bytes = Some (s, int d)" using d len by simp
    ultimately show ?thesis using d Cons.hyps(1) by (intro conjI impI exI [of _ s] exI [of _ c] exI [of _ d] exI [of _ "[]"] exI [of _ "concat cs"]) simp_all
  next
    case False
    then have le: "bytes + uint (snd s) \<le> offset" using len by simp
    have eq: "section_at (s # secs) (offset + int j) bytes = section_at secs (offset + int j) (bytes + uint (snd s))" for j
      using False len by simp
    note ih = Cons.IH [OF le]
    show ?thesis
    proof (cases "offset - bytes < int (length (concat (c # cs)))")
      case True
      then have lt: "offset - (bytes + uint (snd s)) < int (length (concat cs))" using len by simp
      obtain s1 c1 d pre post where x: "section_at secs offset (bytes + uint (snd s)) = Some (s1, int d)" "section_holds rb s1 c1" "d < length c1"
        "concat cs = pre @ c1 @ post" "offset - (bytes + uint (snd s)) = int (length pre + d)"
        "\<forall>j. d + j < length c1 \<longrightarrow> section_at secs (offset + int j) (bytes + uint (snd s)) = Some (s1, int (d + j))"
        "\<forall>s' d'. section_at secs (offset + int (length c1 - d)) (bytes + uint (snd s)) = Some (s', d') \<longrightarrow> d' = 0"
        using ih lt by blast
      have "section_at (s # secs) offset bytes = Some (s1, int d)" using eq [of 0] x(1) by simp
      moreover have "offset - bytes = int (length (c @ pre) + d)" using x(5) len by simp
      moreover have "concat (c # cs) = (c @ pre) @ c1 @ post" using x(4) by simp
      ultimately show ?thesis using x(2,3,6,7) True unfolding eq
        by (intro conjI impI exI [of _ s1] exI [of _ c1] exI [of _ d] exI [of _ "c @ pre"] exI [of _ post]) (simp_all only: True not_True_eq_False)
    next
      case no: False
      then have "section_at secs offset (bytes + uint (snd s)) = None" using ih len by simp
      then show ?thesis using no eq [of 0] by simp
    qed
  qed
qed simp

text \<open>A place inside of the file: the block at it, what is available there, and what follows.\<close>

lemma file_place:
  assumes "list_all2 (section_holds (fs_read_block fs)) secs cs" and "n < length (concat cs)"
  obtains B avail where "fs_read_block fs (block_from_offset secs (int n)) = Inr B" "length B = 2048"
    and "size_available secs (int n) = avail" "0 < avail" "block_offset secs (int n) + avail \<le> 2048"
    and "n + avail \<le> length (concat cs)"
    and "\<And>k. k \<le> avail \<Longrightarrow> take k (drop (block_offset secs (int n)) B) = take k (drop n (concat cs))"
    and "\<And>k. k \<le> avail \<Longrightarrow> buffered fs secs (int (n + k)) B"
proof -
  obtain s c d pre post where p: "section_at secs (int n) 0 = Some (s, int d)" "section_holds (fs_read_block fs) s c" "d < length c"
    "concat cs = pre @ c @ post" "n = length pre + d"
    "\<forall>j. d + j < length c \<longrightarrow> section_at secs (int n + int j) 0 = Some (s, int (d + j))"
    "\<forall>s' d'. section_at secs (int n + int (length c - d)) 0 = Some (s', d') \<longrightarrow> d' = 0"
  proof -
    have h: "(0 :: int) \<le> int n" "int n - 0 < int (length (concat cs))" using assms(2) by simp_all
    note x = section_at_holds [OF assms(1) h(1), THEN conjunct1, THEN mp, OF h(2), unfolded diff_zero of_nat_eq_iff]
    then show thesis using that by blast
  qed
  obtain blk len where s: "s = (blk, len)" by (metis prod.collapse)
  have c: "length c = unat len" "length c < 2 ^ 32" using p(2) unsigned_less [of len, where ?'a = nat] by (simp_all add: section_holds_def s)
  have w: "unat (of_int (int m) :: u32) = m" if "m < 2 ^ 32" for m
    using that by (simp add: unat_of_nat take_bit_nat_eq_self)
  have wm: "unat (of_int (int m) mod 2048 :: u32) = m mod 2048" if "m < length c" for m
    using w [of m] that c(2) by (simp add: unat_mod)
  have avail: "size_available secs (int n) = min (length c - d) (2048 - d mod 2048)"
  proof -
    have "unat (len - of_int (int d)) = length c - d"
      using w [of d] p(3) c by (subst unat_sub) (simp_all add: word_le_nat_alt)
    moreover have "unat (2048 - of_int (int d) mod 2048 :: u32) = 2048 - d mod 2048"
      using wm [OF p(3)] by (subst unat_sub) (simp_all add: word_le_nat_alt)
    ultimately show ?thesis by (simp add: size_available_def p(1) s)
  qed
  have off: "block_offset secs (int n) = d mod 2048" using wm [OF p(3)] by (simp add: block_offset_def p(1))
  define k0 where "k0 = d div 2048"
  have k0: "2048 * k0 + d mod 2048 = d" by (simp add: k0_def)
  then have "2048 * k0 < length c" using p(3) by linarith
  then obtain B where B: "fs_read_block fs (blk + of_nat k0) = Inr B" "length B = 2048"
    "take (length c - 2048 * k0) B = take 2048 (drop (2048 * k0) c)"
    using p(2) by (auto simp: section_holds_def s)
  have from_off: "block_from_offset secs (int n) = blk + of_nat k0"
    unfolding block_from_offset_def p(1) option.case prod.case s k0_def by (metis of_int_of_nat_eq of_nat_numeral zdiv_int)
  have piece: "take k (drop (d mod 2048) B) = take k (drop n (concat cs))" if "k \<le> min (length c - d) (2048 - d mod 2048)" for k
  proof -
    have le: "d mod 2048 + k \<le> length c - 2048 * k0" "d mod 2048 + k \<le> 2048" using that k0 p(3) by linarith+
    have "take (d mod 2048 + k) B = take (d mod 2048 + k) (take (length c - 2048 * k0) B)" using le by (simp add: min_def)
    also have "\<dots> = take (d mod 2048 + k) (drop (2048 * k0) c)" using le unfolding B(3) by (simp add: min_def)
    finally have "drop (d mod 2048) (take (d mod 2048 + k) B) = drop (d mod 2048) (take (d mod 2048 + k) (drop (2048 * k0) c))" by simp
    then have "take k (drop (d mod 2048) B) = take k (drop d c)" using k0 by (simp add: drop_take add.commute)
    also have "\<dots> = take k (drop n (concat cs))" using that by (simp add: p(4,5))
    finally show ?thesis .
  qed
  have buf: "buffered fs secs (int (n + k)) B" if k: "k \<le> min (length c - d) (2048 - d mod 2048)" for k
  proof (cases "d + k < length c")
    case True
    then have at: "section_at secs (int (n + k)) 0 = Some (s, int (d + k))" using p(6) by simp
    have o: "block_offset secs (int (n + k)) = (d + k) mod 2048" unfolding block_offset_def at option.case prod.case by (rule wm [OF True])
    have "(d + k) div 2048 = k0" if "(d + k) mod 2048 \<noteq> 0"
    proof -
      have "d mod 2048 + k \<noteq> 2048"
      proof
        assume "d mod 2048 + k = 2048"
        then have "d + k = 2048 * (k0 + 1)" using k0 unfolding distrib_left by linarith
        then show False using that by simp
      qed
      then have "d mod 2048 + k < 2048" "d + k = 2048 * k0 + (d mod 2048 + k)" using k k0 by linarith+
      then show ?thesis by simp
    qed
    then have "(d + k) mod 2048 \<noteq> 0 \<Longrightarrow> block_from_offset secs (int (n + k)) = blk + of_nat k0"
      unfolding block_from_offset_def at option.case prod.case s by (metis of_int_of_nat_eq of_nat_numeral zdiv_int)
    then show ?thesis using B(1) unfolding buffered_def o by simp
  next
    case False
    then have "k = length c - d" using k by linarith
    then have "section_at secs (int (n + k)) 0 = Some (s', d') \<Longrightarrow> d' = 0" for s' d' using p(7) by simp
    then have "block_offset secs (int (n + k)) = 0"
      by (cases "section_at secs (int (n + k)) 0") (auto simp: block_offset_def)
    then show ?thesis by (simp add: buffered_def)
  qed
  have "d mod 2048 < 2048" by simp
  then have "0 < min (length c - d) (2048 - d mod 2048)" "d mod 2048 + min (length c - d) (2048 - d mod 2048) \<le> 2048"
    "n + min (length c - d) (2048 - d mod 2048) \<le> length (concat cs)" using p(3,4,5) by (auto simp: min_def)
  then show thesis using that [of B] from_off B(1,2) avail off piece buf by simp
qed

section \<open>A file as a sequence of bytes\<close>

lemma no_section_behind:
  assumes "list_all2 (section_holds rb) secs cs" "length (concat cs) \<le> n"
  shows "section_at secs (int n) 0 = None"
proof -
  have "(0 :: int) \<le> int n" "\<not> int n - 0 < int (length (concat cs))" using assms(2) by simp_all
  then show ?thesis using section_at_holds [OF assms(1), of 0 "int n"] by blast
qed

lemma read_loop_bytes:
  assumes holds: "list_all2 (section_holds (fs_read_block fs)) (if_sections src) cs" and size: "if_size src = int (length (concat cs))"
    and "buffered fs (if_sections src) (int n) content"
  shows "\<exists>content'. read_loop fs src cnt got content (int n) =
      Some (Inr (got @ take (cnt - length got) (drop n (concat cs))), content',
        int (n + length (take (cnt - length got) (drop n (concat cs))))) \<and>
    buffered fs (if_sections src) (int (n + length (take (cnt - length got) (drop n (concat cs))))) content'"
  using assms(3)
proof (induction "cnt - length got" arbitrary: got content n rule: less_induct)
  case less
  let ?secs = "if_sections src" and ?data = "concat cs"
  show ?case
  proof (cases "length got < cnt \<and> n < length ?data")
    case False
    then have "take (cnt - length got) (drop n ?data) = []" by auto
    then show ?thesis using less.prems False size by (subst read_loop.simps) auto
  next
    case True
    obtain B avail where p: "fs_read_block fs (block_from_offset ?secs (int n)) = Inr B" "length B = 2048"
      "size_available ?secs (int n) = avail" "0 < avail" "block_offset ?secs (int n) + avail \<le> 2048"
      "n + avail \<le> length ?data"
      "\<And>k. k \<le> avail \<Longrightarrow> take k (drop (block_offset ?secs (int n)) B) = take k (drop n ?data)"
      "\<And>k. k \<le> avail \<Longrightarrow> buffered fs ?secs (int (n + k)) B"
      using file_place [OF holds, of n] True by metis
    have ne: "?secs \<noteq> []" using p(3,4) by (auto simp: size_available_def)
    have blk: "(if block_offset ?secs (int n) = 0 then fs_read_block fs (block_from_offset ?secs (int n)) else Inr content) = Inr B"
      using less.prems p(1) by (simp add: buffered_def)
    define m where "m = min avail (cnt - length got)"
    have m: "0 < m" "m \<le> avail" "m \<le> cnt - length got" using True p(4) by (simp_all add: m_def)
    have bytes: "(if int n + int (min avail (cnt - length got)) > if_size src then nat (if_size src - int n) else min avail (cnt - length got)) = m"
      using p(6) size m by (simp add: m_def)
    let ?got = "got @ take m (drop n ?data)"
    have lm: "length (take m (drop n ?data)) = m" using m(2) p(6) by simp
    have step: "read_loop fs src cnt got content (int n) = read_loop fs src cnt ?got B (int (n + m))"
      using True size ne blk bytes p(2,3,5,7) m(2)
      by (subst read_loop.simps) (simp add: Let_def)
    have ih: "cnt - length ?got < cnt - length got" using lm m True by simp
    have d: "drop n ?data = take m (drop n ?data) @ drop (n + m) ?data" by (metis append_take_drop_id drop_drop add.commute)
    have split: "take (cnt - length got) (drop n ?data) = take m (drop n ?data) @ take (cnt - length ?got) (drop (n + m) ?data)"
      by (subst d) (use lm m(3) in simp)
    have len: "n + length (take (cnt - length got) (drop n ?data)) = n + m + length (take (cnt - length ?got) (drop (n + m) ?data))"
      unfolding split length_append lm by simp
    show ?thesis using less.hyps [OF ih p(8) [OF m(2)]] unfolding step len unfolding split by (simp only: append_assoc)
  qed
qed

text \<open>Operations on an opened file, and what they do on a sequence of bytes with a position.\<close>

datatype file_op = Read_op nat | Seek_op int int

datatype file_result = Got "byte list" | Moved int | Failed iso_error

definition run_op :: "image_fs \<Rightarrow> file_op \<Rightarrow> ifs_handle \<Rightarrow> (file_result \<times> ifs_handle) option" where
  "run_op fs act h =
     (case act of
        Read_op cnt \<Rightarrow> map_option (\<lambda>(r, h1). (case r of Inl e \<Rightarrow> Failed e | Inr bs \<Rightarrow> Got bs, h1)) (ifs_read fs h cnt)
      | Seek_op off flag \<Rightarrow> map_option (\<lambda>(r, h1). (case r of Inl e \<Rightarrow> Failed e | Inr p \<Rightarrow> Moved p, h1)) (ifs_lseek fs h off flag))"

fun run_ops :: "image_fs \<Rightarrow> file_op list \<Rightarrow> ifs_handle \<Rightarrow> (file_result list \<times> ifs_handle) option" where
  "run_ops fs [] h = Some ([], h)"
| "run_ops fs (act # acts) h =
     (case run_op fs act h of
        None \<Rightarrow> None
      | Some (r, h1) \<Rightarrow> map_option (\<lambda>(rs, h2). (r # rs, h2)) (run_ops fs acts h1))"

definition bytes_op :: "byte list \<Rightarrow> file_op \<Rightarrow> nat \<Rightarrow> file_result \<times> nat" where
  "bytes_op data act p =
     (case act of
        Read_op cnt \<Rightarrow>
          if cnt = 0 then (Failed ISO_WRONG_ARG_VALUE, p) else (Got (take cnt (drop p data)), p + length (take cnt (drop p data)))
      | Seek_op off flag \<Rightarrow>
          if off < 0 \<or> flag \<notin> {0, 1, 2} then (Failed ISO_WRONG_ARG_VALUE, p)
          else let q = nat off + (if flag = 0 then 0 else if flag = 1 then p else length data) in (Moved (int q), q))"

fun bytes_ops :: "byte list \<Rightarrow> file_op list \<Rightarrow> nat \<Rightarrow> file_result list" where
  "bytes_ops data [] p = []"
| "bytes_ops data (act # acts) p = (case bytes_op data act p of (r, q) \<Rightarrow> r # bytes_ops data acts q)"

text \<open>The abstraction: an opened file at the position \<open>p\<close>.\<close>

definition at_position :: "image_fs \<Rightarrow> ifs \<Rightarrow> ifs_handle \<Rightarrow> nat \<Rightarrow> bool" where
  "at_position fs src h p \<longleftrightarrow> fh_source h = src \<and> fh_opened h = 1 \<and> fh_offset h = int p \<and> buffered fs (if_sections src) (int p) (fh_content h)"

lemma op_simulates:
  assumes holds: "list_all2 (section_holds (fs_read_block fs)) (if_sections src) cs" "if_size src = int (length (concat cs))" "if_sections src \<noteq> []"
    and h: "at_position fs src h p"
  shows "\<exists>h1. run_op fs act h = Some (fst (bytes_op (concat cs) act p), h1) \<and> at_position fs src h1 (snd (bytes_op (concat cs) act p))"
proof (cases act)
  case (Read_op cnt)
  obtain content' where "read_loop fs src cnt [] (fh_content h) (int p) =
      Some (Inr (take cnt (drop p (concat cs))), content', int (p + length (take cnt (drop p (concat cs)))))"
    "buffered fs (if_sections src) (int (p + length (take cnt (drop p (concat cs))))) content'"
    using read_loop_bytes [OF holds(1,2), of p "fh_content h" cnt "[]"] h by (auto simp: at_position_def)
  then show ?thesis
    using h by (simp add: Read_op run_op_def bytes_op_def ifs_read_def at_position_def)
next
  case (Seek_op off flag)
  show ?thesis
  proof (cases "off < 0 \<or> flag \<notin> {0, 1, 2}")
    case True
    then have "ifs_lseek fs h off flag = Some (Inl ISO_WRONG_ARG_VALUE, h)"
      using h by (cases "off < 0") (simp_all add: ifs_lseek_def at_position_def)
    then show ?thesis using h True by (simp add: Seek_op run_op_def bytes_op_def)
  next
    case False
    define q where "q = nat off + (if flag = 0 then 0 else if flag = 1 then p else length (concat cs))"
    have abs: "bytes_op (concat cs) act p = (Moved (int q), q)" using False by (simp add: Seek_op bytes_op_def q_def Let_def)
    have pos1: "(if flag = 0 then off else if flag = 1 then fh_offset h + off else if_size src + off) = int q"
      using False h holds(2) by (auto simp: q_def at_position_def)
    have hs: "fh_source h = src" "fh_opened h = 1" using h by (simp_all add: at_position_def)
    show ?thesis
    proof (cases "block_offset (if_sections src) (int q) \<noteq> 0 \<and> int q < if_size src")
      case True
      then obtain B where B: "fs_read_block fs (block_from_offset (if_sections src) (int q)) = Inr B"
        using file_place [OF holds(1), of q] holds(2) by (metis of_nat_less_iff)
      have "ifs_lseek fs h off flag = Some (Inr (int q), h\<lparr>fh_offset := int q, fh_content := B\<rparr>)"
        using False holds(3) True B unfolding ifs_lseek_def Let_def hs pos1 by simp
      then show ?thesis using h B unfolding abs by (simp add: Seek_op run_op_def at_position_def buffered_def)
    next
      case no: False
      have "ifs_lseek fs h off flag = Some (Inr (int q), h\<lparr>fh_offset := int q\<rparr>)"
        using False holds(3) no unfolding ifs_lseek_def Let_def hs pos1 by auto
      moreover have "block_offset (if_sections src) (int q) = 0"
      proof (cases "int q < if_size src")
        case False
        then show ?thesis using no_section_behind [OF holds(1), of q] holds(2) by (simp add: block_offset_def)
      qed (use no in simp)
      ultimately show ?thesis using h unfolding abs by (simp add: Seek_op run_op_def at_position_def buffered_def)
    qed
  qed
qed


section \<open>Samples\<close>

text \<open>A file of two sections in an image whose blocks are filled with their numbers.\<close>

definition striped_fs :: image_fs where
  "striped_fs =
     \<lparr>fs_rr = True, fs_same_charset = True, fs_strnconv = \<lambda>s. None, fs_strconv = Some, fs_joliet = False, fs_ecma119_map = 1,
      fs_joliet_map = 1, fs_truncate_mode = 1, fs_truncate_length = 255, fs_uid = 0, fs_gid = 0, fs_dir_mode = 0, fs_file_mode = 0,
      fs_len_skp = 0, fs_nblocks = 100, fs_read_block = \<lambda>b. Inr (replicate 2048 (ucast b)), fs_aborts = \<lambda>e. True, fs_timegm = \<lambda>tm. 0\<rparr>"

definition two_sections :: ifs where
  "two_sections = (new_ifs (Some ''f''))\<lparr>if_info := no_stat\<lparr>at_mode := 0x81A4\<rparr>, if_size := 3100, if_sections := [(10, 3000), (20, 100)]\<rparr>"

definition two_chunks :: "byte list list" where
  "two_chunks = [replicate 2048 10 @ replicate 952 11, replicate 100 20]"


text \<open>A failed seek leaves the new offset with the old buffer: the next read returns wrong bytes.\<close>

definition broken_fs :: image_fs where
  "broken_fs = striped_fs\<lparr>fs_read_block := \<lambda>b. if b = 11 then Inl ISO_FILE_ERROR else Inr (replicate 2048 (ucast b))\<rparr>"

lemma failed_seek_reads_old_block:
  "\<exists>h h1 h2. ifs_read broken_fs ((new_handle two_sections)\<lparr>fh_opened := 1\<rparr>) 1 = Some (Inr [10], h) \<and>
    ifs_lseek broken_fs h 2050 0 = Some (Inl ISO_FILE_ERROR, h1) \<and> ifs_read broken_fs h1 1 = Some (Inr [10], h2)"
proof -
  have at: "section_at (if_sections two_sections) 0 0 = Some ((10, 3000), 0)" "section_at (if_sections two_sections) 2050 0 = Some ((10, 3000), 2050)"
    by (simp_all add: two_sections_def)
  have b: "block_offset (if_sections two_sections) 0 = 0" "block_from_offset (if_sections two_sections) 0 = 10"
    "size_available (if_sections two_sections) 0 = 2048" "block_offset (if_sections two_sections) 2050 = 2"
    "block_from_offset (if_sections two_sections) 2050 = 11" "size_available (if_sections two_sections) 2050 = 950"
    unfolding block_offset_def block_from_offset_def size_available_def at by simp_all
  have s: "if_size two_sections = 3100" "if_sections two_sections \<noteq> []" by (simp_all add: two_sections_def)
  have e: "read_loop broken_fs two_sections (Suc 0) [x] c p = Some (Inr [x], c, p)" for x c p
    by (subst read_loop.simps) simp
  have rb: "fs_read_block broken_fs 10 = Inr (replicate 2048 10)" "fs_read_block broken_fs 11 = Inl ISO_FILE_ERROR"
    by (simp_all add: broken_fs_def striped_fs_def)
  have r1: "read_loop broken_fs two_sections 1 [] [] 0 = Some (Inr [10], replicate 2048 10, 1)"
    by (subst read_loop.simps) (simp add: b s e rb)
  have r2: "read_loop broken_fs two_sections 1 [] (replicate 2048 10) 2050 = Some (Inr [10], replicate 2048 10, 2051)"
    by (subst read_loop.simps) (simp add: b s e)
  show ?thesis using r1 r2 by (auto simp: ifs_read_def ifs_lseek_def new_handle_def b s rb)
qed

end
